(* ===== verification/Prelude.thy ===== *)
theory Prelude
  imports Main "HOL-Library.Char_ord" "HOL-Library.List_Lexorder" "HOL-Library.Product_Lexorder"
begin

text \<open>
  What every component of the model shares: results that may be an error, the parts of
  Python's strings the code uses, decimal digits, dictionaries that keep their order, the
  contract of a component with state, and general lemmas. Tuples and strings are ordered
  lexicographically, as Python orders them.

  A function of the code that may raise returns a value of a sum type, \<open>Inl\<close> the
  exception and \<open>Inr\<close> the value. A Python \<open>str\<close> is a list of characters; a character of
  HOL is one of 256 code points, which the model reads as Latin-1, so every string the
  model speaks about is one whose code points are below 256.
\<close>

named_theorems res_simps \<open>equations that compute with results\<close>
named_theorems str_simps \<open>equations that compute with strings and digits\<close>

section \<open>Results\<close>

definition bind_res :: "'e + 'a \<Rightarrow> ('a \<Rightarrow> 'e + 'b) \<Rightarrow> 'e + 'b" where
  "bind_res m f = (case m of Inl e \<Rightarrow> Inl e | Inr x \<Rightarrow> f x)"

definition map_res :: "('a \<Rightarrow> 'b) \<Rightarrow> 'e + 'a \<Rightarrow> 'e + 'b" where
  "map_res f m = (case m of Inl e \<Rightarrow> Inl e | Inr x \<Rightarrow> Inr (f x))"

text \<open>A list comprehension whose element may raise: the first exception, in order, is the result.\<close>

fun mapM_res :: "('a \<Rightarrow> 'e + 'b) \<Rightarrow> 'a list \<Rightarrow> 'e + 'b list" where
  "mapM_res f [] = Inr []"
| "mapM_res f (x # xs) = bind_res (f x) (\<lambda>y. map_res ((#) y) (mapM_res f xs))"

lemma bind_res_simps [simp, res_simps]:
  "bind_res (Inl e) f = Inl e"
  "bind_res (Inr x) f = f x"
  by (simp_all add: bind_res_def)

lemma map_res_simps [simp, res_simps]:
  "map_res f (Inl e) = Inl e"
  "map_res f (Inr x) = Inr (f x)"
  by (simp_all add: map_res_def)

lemma bind_res_Inr_iff: "bind_res m f = Inr y \<longleftrightarrow> (\<exists>x. m = Inr x \<and> f x = Inr y)"
  by (cases m) auto

lemma map_res_Inr_iff: "map_res f m = Inr y \<longleftrightarrow> (\<exists>x. m = Inr x \<and> y = f x)"
  by (cases m) auto

lemma mapM_res_Inr_map: "(\<And>x. x \<in> set xs \<Longrightarrow> f x = Inr (g x)) \<Longrightarrow> mapM_res f xs = Inr (map g xs)"
  by (induction xs) auto

lemma mapM_res_InrD: "mapM_res f xs = Inr ys \<Longrightarrow> list_all2 (\<lambda>x y. f x = Inr y) xs ys"
  by (induction xs arbitrary: ys) (auto simp: bind_res_Inr_iff map_res_Inr_iff)

section \<open>Characters and strings\<close>

abbreviation code :: "char \<Rightarrow> nat" where
  "code \<equiv> of_char"

text \<open>A decimal digit, which is what \<open>\d\<close> matches and \<open>int()\<close> reads.\<close>

definition digit_val :: "char \<Rightarrow> nat option" where
  "digit_val c = (let k = code c in if 48 \<le> k \<and> k \<le> 57 then Some (k - 48) else None)"

abbreviation is_decimal :: "char \<Rightarrow> bool" where
  "is_decimal c \<equiv> digit_val c \<noteq> None"

definition digit_char :: "nat \<Rightarrow> char" where
  "digit_char n = char_of (48 + n)"

lemma digit_val_char [simp, str_simps]: "n < 10 \<Longrightarrow> digit_val (digit_char n) = Some n"
  by (simp add: digit_val_def digit_char_def)

lemma digit_val_lt: "digit_val c = Some n \<Longrightarrow> n < 10"
  by (auto simp: digit_val_def Let_def split: if_splits)

lemma digit_char_val: "digit_val c = Some n \<Longrightarrow> digit_char n = c"
  by (auto simp: digit_val_def digit_char_def Let_def split: if_splits)

lemma digit_char_neq [simp, str_simps]:
  "n < 10 \<Longrightarrow> digit_char n \<noteq> CHR ''-''"
  "n < 10 \<Longrightarrow> digit_char n \<noteq> CHR ''Q''"
  "n < 10 \<Longrightarrow> digit_char n \<noteq> CHR ''q''"
  "n < 10 \<Longrightarrow> digit_char n \<noteq> CHR '':''"
proof -
  have "digit_val c = None \<Longrightarrow> n < 10 \<Longrightarrow> digit_char n \<noteq> c" for c
    using digit_val_char[of n] by auto
  from this[of "CHR ''-''"] this[of "CHR ''Q''"] this[of "CHR ''q''"] this[of "CHR '':''"]
  show "n < 10 \<Longrightarrow> digit_char n \<noteq> CHR ''-''" "n < 10 \<Longrightarrow> digit_char n \<noteq> CHR ''Q''"
    "n < 10 \<Longrightarrow> digit_char n \<noteq> CHR ''q''" "n < 10 \<Longrightarrow> digit_char n \<noteq> CHR '':''"
    by (simp_all add: digit_val_def)
qed

text \<open>\<open>int(text)\<close> of a string of decimal digits: \<open>None\<close> where a character is not one.\<close>

fun read_digits :: "nat \<Rightarrow> string \<Rightarrow> nat option" where
  "read_digits acc [] = Some acc"
| "read_digits acc (c # cs) =
     (case digit_val c of None \<Rightarrow> None | Some d \<Rightarrow> read_digits (10 * acc + d) cs)"

text \<open>A number zero-padded to a width, the format \<open>{n:04d}\<close>: its last \<open>w\<close> decimal digits.\<close>

fun pad_digits :: "nat \<Rightarrow> nat \<Rightarrow> string" where
  "pad_digits 0 n = []"
| "pad_digits (Suc w) n = pad_digits w (n div 10) @ [digit_char (n mod 10)]"

lemma length_pad_digits [simp]: "length (pad_digits w n) = w"
  by (induction w arbitrary: n) auto

lemma read_digits_append:
  "read_digits acc (xs @ ys) =
     (case read_digits acc xs of None \<Rightarrow> None | Some a \<Rightarrow> read_digits a ys)"
  by (induction xs arbitrary: acc) (auto split: option.splits)

lemma read_pad_digits_acc:
  "n < 10 ^ w \<Longrightarrow> read_digits acc (pad_digits w n) = Some (acc * 10 ^ w + n)"
proof (induction w arbitrary: n)
  case 0
  then show ?case by simp
next
  case (Suc w)
  have "n div 10 < 10 ^ w"
    using Suc.prems by (simp add: less_mult_imp_div_less mult.commute)
  moreover have "10 * (acc * 10 ^ w + n div 10) + n mod 10 = acc * (10 * 10 ^ w) + n"
    by (simp add: algebra_simps)
  ultimately show ?case
    by (simp add: Suc.IH read_digits_append)
qed

lemma read_pad_digits [str_simps]: "n < 10 ^ w \<Longrightarrow> read_digits 0 (pad_digits w n) = Some n"
  by (simp add: read_pad_digits_acc)

lemma pad_digits_decimal: "c \<in> set (pad_digits w n) \<Longrightarrow> \<exists>d < 10. c = digit_char d"
  by (induction w arbitrary: n) (auto intro: exI[of _ "_ mod 10"])

lemma read_digits_pad_acc:
  assumes "read_digits acc cs = Some m"
  shows "m = acc * 10 ^ length cs + m mod 10 ^ length cs \<and> pad_digits (length cs) m = cs"
  using assms
proof (induction cs arbitrary: m rule: rev_induct)
  case Nil
  then show ?case by simp
next
  case (snoc c cs)
  from snoc.prems obtain a d where a: "read_digits acc cs = Some a" and d: "digit_val c = Some d"
    and m: "m = 10 * a + d"
    by (auto simp: read_digits_append split: option.splits)
  from digit_val_lt[OF d] have "d < 10" .
  with m have md: "m div 10 = a" "m mod 10 = d" by auto
  let ?p = "10 ^ length cs :: nat"
  from snoc.IH[OF a] have ih: "a = acc * ?p + a mod ?p" "pad_digits (length cs) a = cs"
    by auto
  have "a div ?p = (acc * ?p + a mod ?p) div ?p"
    using ih(1) by simp
  then have "a div ?p = acc"
    by simp
  then have "m div (10 * ?p) = acc"
    using md(1) by (simp add: div_mult2_eq)
  then have "m = acc * (10 * ?p) + m mod (10 * ?p)"
    using div_mult_mod_eq[of m "10 * ?p"] by simp
  then show ?case
    using ih(2) md digit_char_val[OF d] by simp
qed

lemma read_digits_pad: "read_digits 0 cs = Some m \<Longrightarrow> pad_digits (length cs) m = cs \<and> m < 10 ^ length cs"
  using read_digits_pad_acc[of 0 cs m] by (metis add_0 mod_less_divisor mult_0 zero_less_numeral zero_less_power)

text \<open>\<open>str(n)\<close> of a natural number: no leading zero.\<close>

fun show_nat :: "nat \<Rightarrow> string" where
  "show_nat n = (if n < 10 then [digit_char n] else show_nat (n div 10) @ [digit_char (n mod 10)])"

declare show_nat.simps [simp del]

lemma show_nat_pad: "10 ^ w \<le> n \<Longrightarrow> n < 10 ^ Suc w \<Longrightarrow> show_nat n = pad_digits (Suc w) n"
proof (induction w arbitrary: n)
  case 0
  then show ?case by (simp add: show_nat.simps[of n])
next
  case (Suc w)
  have "10 ^ w \<le> n div 10" "n div 10 < 10 ^ Suc w"
    using Suc.prems by (simp_all add: less_eq_div_iff_mult_less_eq mult.commute less_mult_imp_div_less)
  moreover have "\<not> n < 10"
    using Suc.prems(1) order_trans[of 10 "10 ^ Suc w" n] by simp
  ultimately show ?case
    by (simp add: show_nat.simps[of n] Suc.IH del: power_Suc)
qed

section \<open>Python's string methods\<close>

text \<open>Whitespace, which \<open>str.strip()\<close> removes, among the first 256 code points.\<close>

definition is_space :: "char \<Rightarrow> bool" where
  "is_space c = (let k = code c in (9 \<le> k \<and> k \<le> 13) \<or> (28 \<le> k \<and> k \<le> 32) \<or> k = 133 \<or> k = 160)"

definition py_strip :: "string \<Rightarrow> string" where
  "py_strip s = rev (dropWhile is_space (rev (dropWhile is_space s)))"

text \<open>
  \<open>str.isdigit()\<close> is true of more than the decimal digits: the superscripts two, three
  and one (code points 178, 179, 185) are digits too. The empty string is not.
\<close>

definition is_digit_char :: "char \<Rightarrow> bool" where
  "is_digit_char c = (is_decimal c \<or> code c \<in> {178, 179, 185})"

definition py_isdigit :: "string \<Rightarrow> bool" where
  "py_isdigit s = (s \<noteq> [] \<and> list_all is_digit_char s)"

text \<open>\<open>str.replace(a, b)\<close> for one character by one, and by nothing.\<close>

definition replace_char :: "char \<Rightarrow> char \<Rightarrow> string \<Rightarrow> string" where
  "replace_char a b s = map (\<lambda>c. if c = a then b else c) s"

definition remove_char :: "char \<Rightarrow> string \<Rightarrow> string" where
  "remove_char a s = filter (\<lambda>c. c \<noteq> a) s"

lemma py_strip_no_space [str_simps]:
  assumes "s = [] \<or> (\<not> is_space (hd s) \<and> \<not> is_space (last s))"
  shows "py_strip s = s"
proof (cases "s = []")
  case False
  then have "dropWhile is_space s = s" "dropWhile is_space (rev s) = rev s"
    using assms by (simp_all add: hd_rev dropWhile_eq_self_iff)
  then show ?thesis by (simp add: py_strip_def)
qed (simp add: py_strip_def)

lemma digit_not_space: "is_digit_char c \<Longrightarrow> \<not> is_space c"
  by (auto simp: is_digit_char_def is_space_def digit_val_def Let_def split: if_splits)

lemma digit_not_dash: "is_digit_char c \<Longrightarrow> c \<noteq> CHR ''-''"
  by (auto simp: is_digit_char_def digit_val_def Let_def split: if_splits)

section \<open>Lists\<close>

text \<open>Python's \<open>min(xs, key=f)\<close>: the first of the least, \<open>None\<close> of an empty sequence.\<close>

fun min_by :: "('a \<Rightarrow> 'b::linorder) \<Rightarrow> 'a list \<Rightarrow> 'a option" where
  "min_by f [] = None"
| "min_by f (x # xs) =
     (case min_by f xs of None \<Rightarrow> Some x | Some y \<Rightarrow> Some (if f x \<le> f y then x else y))"

lemma min_by_None [simp]: "min_by f xs = None \<longleftrightarrow> xs = []"
  by (cases xs) (auto split: option.splits)

lemma min_by_mem: "min_by f xs = Some y \<Longrightarrow> y \<in> set xs"
  by (induction xs arbitrary: y) (auto split: option.splits if_splits)

lemma min_by_least: "min_by f xs = Some y \<Longrightarrow> x \<in> set xs \<Longrightarrow> f y \<le> f x"
  by (induction xs arbitrary: y) (auto split: option.splits if_splits simp: order.trans)

lemma min_by_nonempty: "xs \<noteq> [] \<Longrightarrow> \<exists>y \<in> set xs. min_by f xs = Some y"
  using min_by_mem[of f xs] by (cases "min_by f xs") auto

section \<open>Dictionaries\<close>

text \<open>
  A \<open>dict\<close> whose order matters is an association list with distinct keys: storing keeps a
  key's place, and a new key goes last.
\<close>

fun dict_put :: "'k \<Rightarrow> 'v \<Rightarrow> ('k \<times> 'v) list \<Rightarrow> ('k \<times> 'v) list" where
  "dict_put k v [] = [(k, v)]"
| "dict_put k v ((a, b) # xs) = (if a = k then (a, v) # xs else (a, b) # dict_put k v xs)"

text \<open>\<open>{key(x): x for x in xs}\<close>: of two with one key, the later value stands.\<close>

definition dict_of :: "('a \<Rightarrow> 'k) \<Rightarrow> 'a list \<Rightarrow> ('k \<times> 'a) list" where
  "dict_of key xs = foldl (\<lambda>d x. dict_put (key x) x d) [] xs"

lemma map_of_dict_put [simp]: "map_of (dict_put k v xs) = (map_of xs)(k \<mapsto> v)"
  by (induction k v xs rule: dict_put.induct) auto

lemma keys_dict_put: "fst ` set (dict_put k v xs) = insert k (fst ` set xs)"
  by (induction k v xs rule: dict_put.induct) auto

lemma distinct_dict_put [simp]: "distinct (map fst xs) \<Longrightarrow> distinct (map fst (dict_put k v xs))"
proof (induction k v xs rule: dict_put.induct)
  case (2 k v a b xs)
  then show ?case using keys_dict_put[of k v xs] by (auto simp: image_iff)
qed simp

lemma map_of_dict_of_snoc: "map_of (dict_of key (xs @ [x])) = (map_of (dict_of key xs))(key x \<mapsto> x)"
  by (simp add: dict_of_def)

lemma distinct_dict_of [simp]: "distinct (map fst (dict_of key xs))"
  by (induction xs rule: rev_induct) (simp_all add: dict_of_def)

lemma map_of_dict_of_SomeD: "map_of (dict_of key xs) k = Some x \<Longrightarrow> x \<in> set xs \<and> key x = k"
  by (induction xs rule: rev_induct)
    (auto simp: map_of_dict_of_snoc dict_of_def split: if_splits)

lemma map_of_dict_of_dom: "map_of (dict_of key xs) k = None \<longleftrightarrow> k \<notin> key ` set xs"
  by (induction xs rule: rev_induct)
    (auto simp: map_of_dict_of_snoc dict_of_def split: if_splits)

lemma dict_of_mem: "(k, x) \<in> set (dict_of key xs) \<Longrightarrow> x \<in> set xs \<and> key x = k"
  using map_of_dict_of_SomeD[of key xs k x] by (simp add: map_of_is_SomeI)

section \<open>Components as machines\<close>

text \<open>
  The contract every component with state is held to: its operations, as one step function
  over the events it handles, keep its invariant. What a client may then rely on, whatever
  the order of the operations, is proved here once.
\<close>

locale machine =
  fixes step :: "'s \<Rightarrow> 'e \<Rightarrow> 's"
    and inv :: "'s \<Rightarrow> bool"
    and ok :: "'s \<Rightarrow> 'e \<Rightarrow> bool"
  assumes step_inv: "inv s \<Longrightarrow> ok s e \<Longrightarrow> inv (step s e)"
begin

fun run :: "'s \<Rightarrow> 'e list \<Rightarrow> 's" where
  "run s [] = s"
| "run s (e # es) = run (step s e) es"

fun run_ok :: "'s \<Rightarrow> 'e list \<Rightarrow> bool" where
  "run_ok s [] = True"
| "run_ok s (e # es) = (ok s e \<and> run_ok (step s e) es)"

lemma run_inv: "inv s \<Longrightarrow> run_ok s es \<Longrightarrow> inv (run s es)"
  by (induction es arbitrary: s) (auto intro: step_inv)

lemma run_foldl: "run s es = foldl step s es"
  by (induction es arbitrary: s) auto

end

text \<open>A machine whose events are always allowed.\<close>

locale total_machine =
  fixes step :: "'s \<Rightarrow> 'e \<Rightarrow> 's"
    and inv :: "'s \<Rightarrow> bool"
  assumes total_step_inv: "inv s \<Longrightarrow> inv (step s e)"
begin

lemma foldl_inv: "inv s \<Longrightarrow> inv (foldl step s es)"
  by (induction es arbitrary: s) (auto intro: total_step_inv)

end

sublocale total_machine \<subseteq> machine step inv "\<lambda>_ _. True"
  by unfold_locales (rule total_step_inv)

end
