(* ===== verification/Calendar.thy ===== *)
theory Calendar
  imports Prelude
begin

text \<open>
  Python's \<open>datetime.date\<close> and the clock, as the code uses them: a calendar day with its
  validity, its order, \<open>calendar.monthrange\<close>, the day after, \<open>date + timedelta(days=n)\<close>,
  \<open>toordinal\<close>, \<open>weekday\<close>, \<open>isoformat\<close> and \<open>fromisoformat\<close> of the \<open>YYYY-MM-DD\<close> shape; and
  \<open>datetime.time\<close> and naive \<open>datetime\<close> as a day and the microseconds since its midnight.
\<close>

section \<open>Days\<close>

datatype date = Date (year: int) (month: int) (day: int)

instantiation date :: linorder
begin

definition less_eq_date :: "date \<Rightarrow> date \<Rightarrow> bool" where
  "less_eq_date a b \<longleftrightarrow> year a < year b \<or> (year a = year b \<and>
     (month a < month b \<or> (month a = month b \<and> day a \<le> day b)))"

definition less_date :: "date \<Rightarrow> date \<Rightarrow> bool" where
  "less_date a b \<longleftrightarrow> year a < year b \<or> (year a = year b \<and>
     (month a < month b \<or> (month a = month b \<and> day a < day b)))"

instance
  by standard (auto simp: less_eq_date_def less_date_def date.expand)

end

lemmas date_order = less_eq_date_def less_date_def

definition is_leap :: "int \<Rightarrow> bool" where
  "is_leap y = (y mod 4 = 0 \<and> (y mod 100 \<noteq> 0 \<or> y mod 400 = 0))"

definition month_days :: "int \<Rightarrow> int \<Rightarrow> int" where
  "month_days y m =
     (if m = 2 then (if is_leap y then 29 else 28)
      else if m \<in> {4, 6, 9, 11} then 30 else 31)"

definition valid_date :: "date \<Rightarrow> bool" where
  "valid_date d \<longleftrightarrow> 1 \<le> year d \<and> year d \<le> 9999 \<and> 1 \<le> month d \<and> month d \<le> 12 \<and>
     1 \<le> day d \<and> day d \<le> month_days (year d) (month d)"

lemma month_days_bounds: "28 \<le> month_days y m" "month_days y m \<le> 31"
  by (simp_all add: month_days_def)

section \<open>Counting days\<close>

definition days_before_year :: "int \<Rightarrow> int" where
  "days_before_year y = (y - 1) * 365 + (y - 1) div 4 - (y - 1) div 100 + (y - 1) div 400"

definition days_before_month :: "int \<Rightarrow> int \<Rightarrow> int" where
  "days_before_month y m = sum_list (map (month_days y) [1..m - 1])"

definition toordinal :: "date \<Rightarrow> int" where
  "toordinal d = days_before_year (year d) + days_before_month (year d) (month d) + day d"

text \<open>The day after and the day before, by the calendar.\<close>

definition next_day :: "date \<Rightarrow> date" where
  "next_day d =
     (if day d < month_days (year d) (month d) then Date (year d) (month d) (day d + 1)
      else if month d < 12 then Date (year d) (month d + 1) 1
      else Date (year d + 1) 1 1)"

definition prev_day :: "date \<Rightarrow> date" where
  "prev_day d =
     (if 1 < day d then Date (year d) (month d) (day d - 1)
      else if 1 < month d then Date (year d) (month d - 1) (month_days (year d) (month d - 1))
      else Date (year d - 1) 12 31)"

text \<open>\<open>date + timedelta(days=n)\<close>; \<open>None\<close> is Python's \<open>OverflowError\<close> past its first or last day.\<close>

definition add_days :: "date \<Rightarrow> int \<Rightarrow> date option" where
  "add_days d n =
     (let e = (if 0 \<le> n then (next_day ^^ nat n) d else (prev_day ^^ nat (- n)) d)
      in if 1 \<le> year e \<and> year e \<le> 9999 then Some e else None)"

definition weekday :: "date \<Rightarrow> int" where
  "weekday d = (toordinal d + 6) mod 7"

lemma days_before_month_step:
  "1 \<le> m \<Longrightarrow> days_before_month y (m + 1) = days_before_month y m + month_days y m"
  using upto_rec2[of 1 m] by (simp add: days_before_month_def)

lemma div_pred_step:
  assumes "0 < (k::int)"
  shows "y div k = (y - 1) div k + of_bool (y mod k = 0)"
proof (cases "y mod k = 0")
  case True
  then obtain q where "y = k * q" by (auto elim: dvdE simp: mod_eq_0_iff_dvd)
  moreover have "(k * q - 1) div k = q - 1"
    using assms div_mult_self2[of k "- 1" q] by (simp add: div_eq_minus1 add.commute)
  ultimately show ?thesis using assms by simp
next
  case False
  have "(y - 1) div k = (k * (y div k) + (y mod k - 1)) div k" by (simp add: algebra_simps)
  also have "\<dots> = y div k + (y mod k - 1) div k" using assms by simp
  also have "(y mod k - 1) div k = 0"
    using False pos_mod_sign[OF assms, of y] pos_mod_bound[OF assms, of y]
    by (intro div_pos_pos_trivial) linarith+
  finally show ?thesis using False by simp
qed

lemma days_before_year_step:
  "days_before_year (y + 1) = days_before_year y + (if is_leap y then 366 else 365)"
proof -
  note s = div_pred_step[of 4 y, simplified] div_pred_step[of 100 y, simplified]
    div_pred_step[of 400 y, simplified]
  obtain a b c where abc: "(y - 1) div 4 = a" "(y - 1) div 100 = b" "(y - 1) div 400 = c" by blast
  have "days_before_year (y + 1) = days_before_year y + 365
      + of_bool (y mod 4 = 0) - of_bool (y mod 100 = 0) + of_bool (y mod 400 = 0)"
    unfolding days_before_year_def add_diff_cancel_right' s abc
    by (simp only: of_bool_def distrib_right left_diff_distrib)
  moreover have "(400::int) dvd y \<Longrightarrow> 100 dvd y" "(100::int) dvd y \<Longrightarrow> 4 dvd y"
    by (auto intro: dvd_trans[of 100 400] dvd_trans[of 4 100])
  ultimately show ?thesis
    unfolding is_leap_def mod_eq_0_iff_dvd
    by (cases "4 dvd y"; cases "100 dvd y"; cases "400 dvd y"; simp only: of_bool_eq; simp)
qed

lemma days_before_month_1 [simp]: "days_before_month y 1 = 0"
  by (simp add: days_before_month_def)

lemma days_before_month_12:
  "days_before_month y 12 = (if is_leap y then 335 else 334)"
  by (simp add: days_before_month_def upto.simps month_days_def)

lemma valid_next_day: "valid_date d \<Longrightarrow> year (next_day d) \<le> 9999 \<Longrightarrow> valid_date (next_day d)"
  using month_days_bounds(1)[of "year d" "month d + 1"] month_days_bounds(1)[of "year d + 1" 1]
  by (auto simp: valid_date_def next_day_def split: if_splits)

lemma toordinal_next_day:
  assumes "valid_date d"
  shows "toordinal (next_day d) = toordinal d + 1"
proof -
  note v = assms[unfolded valid_date_def]
  consider "day d < month_days (year d) (month d)"
    | "day d = month_days (year d) (month d)" "month d < 12"
    | "day d = 31" "month d = 12"
    using v by (fastforce simp: month_days_def)
  then show ?thesis
  proof cases
    case 2
    then show ?thesis
      using days_before_month_step[of "month d" "year d"] v by (simp add: toordinal_def next_day_def)
  next
    case 3
    then show ?thesis
      by (simp add: toordinal_def next_day_def days_before_year_step days_before_month_12 month_days_def)
  qed (simp add: toordinal_def next_day_def)
qed

text \<open>\<open>toordinal\<close> counts days: it grows with the date.\<close>

lemma days_before_month_less:
  assumes "1 \<le> m" "m < m'"
  shows "days_before_month y m + month_days y m \<le> days_before_month y m'"
proof -
  have "m + 1 \<le> m' \<Longrightarrow> days_before_month y (m + 1) \<le> days_before_month y m'" for m'
  proof (induction m' rule: int_ge_induct)
    case (step k)
    then show ?case
      using days_before_month_step[of k y] month_days_bounds(1)[of y k] assms(1) by simp
  qed simp
  then show ?thesis using days_before_month_step[OF assms(1), of y] assms(2) by simp
qed

lemma days_before_year_less:
  assumes "y < y'"
  shows "days_before_year y + (if is_leap y then 366 else 365) \<le> days_before_year y'"
proof -
  have "y + 1 \<le> y' \<Longrightarrow> days_before_year (y + 1) \<le> days_before_year y'" for y'
  proof (induction y' rule: int_ge_induct)
    case (step k)
    then show ?case using days_before_year_step[of k] by (simp split: if_splits)
  qed simp
  then show ?thesis using days_before_year_step[of y] assms by simp
qed

lemma days_before_month_bound:
  assumes "1 \<le> m" "m \<le> 12"
  shows "0 \<le> days_before_month y m"
    "days_before_month y m + month_days y m \<le> (if is_leap y then 366 else 365)"
proof -
  show "0 \<le> days_before_month y m"
    using days_before_month_less[of 1 m y] month_days_bounds(1)[of y 1] assms
    by (cases "m = 1") auto
  show "days_before_month y m + month_days y m \<le> (if is_leap y then 366 else 365)"
    using days_before_month_less[of m 12 y] month_days_bounds[of y m] assms
    by (cases "m = 12") (auto simp: days_before_month_12 month_days_def split: if_splits)
qed

lemma toordinal_less:
  assumes "valid_date a" "valid_date b" "a < b"
  shows "toordinal a < toordinal b"
proof -
  note v = assms(1,2)[unfolded valid_date_def]
  consider "year a < year b" | "year a = year b" "month a < month b"
    | "year a = year b" "month a = month b" "day a < day b"
    using assms(3) by (auto simp: less_date_def)
  then show ?thesis
  proof cases
    case 1
    then show ?thesis
      using days_before_year_less[of "year a" "year b"] days_before_month_bound[of "month a" "year a"]
        days_before_month_bound[of "month b" "year b"] v
      by (simp add: toordinal_def split: if_splits)
  next
    case 2
    then show ?thesis
      using days_before_month_less[of "month a" "month b" "year a"] v by (simp add: toordinal_def)
  qed (simp add: toordinal_def)
qed

lemma toordinal_le:
  "valid_date a \<Longrightarrow> valid_date b \<Longrightarrow> toordinal a \<le> toordinal b \<longleftrightarrow> a \<le> b"
  using toordinal_less[of a b] toordinal_less[of b a] by (cases a b rule: linorder_cases) auto

lemma next_day_greater: "valid_date d \<Longrightarrow> d < next_day d"
  by (auto simp: date_order next_day_def valid_date_def)

lemma next_day_prev_day: "valid_date d \<Longrightarrow> next_day (prev_day d) = d"
  by (cases d) (auto simp: next_day_def prev_day_def valid_date_def month_days_def split: if_splits)

lemma prev_day_next_day: "valid_date d \<Longrightarrow> prev_day (next_day d) = d"
  by (cases d) (auto simp: next_day_def prev_day_def valid_date_def month_days_def split: if_splits)

section \<open>ISO format\<close>

definition isoformat :: "date \<Rightarrow> string" where
  "isoformat d = pad_digits 4 (nat (year d)) @ ''-'' @ pad_digits 2 (nat (month d)) @ ''-''
     @ pad_digits 2 (nat (day d))"

text \<open>
  The shape \<open>\d{4}-\d{2}-\d{2}\<close>, matched in full, and its three numbers: what
  \<open>date.fromisoformat\<close> reads of a string of that shape before it checks the day exists.
\<close>

definition iso_fields :: "string \<Rightarrow> (nat \<times> nat \<times> nat) option" where
  "iso_fields s =
     (if length s = 10 \<and> s ! 4 = CHR ''-'' \<and> s ! 7 = CHR ''-'' then
        (case (read_digits 0 (take 4 s), read_digits 0 (take 2 (drop 5 s)), read_digits 0 (drop 8 s)) of
           (Some y, Some m, Some d) \<Rightarrow> Some (y, m, d)
         | _ \<Rightarrow> None)
      else None)"

definition date_fromisoformat :: "string \<Rightarrow> date option" where
  "date_fromisoformat s =
     (case iso_fields s of None \<Rightarrow> None
      | Some (y, m, d) \<Rightarrow>
          (let day = Date (int y) (int m) (int d) in if valid_date day then Some day else None))"

lemma iso_fields_isoformat:
  assumes "valid_date d"
  shows "iso_fields (isoformat d) = Some (nat (year d), nat (month d), nat (day d))"
proof -
  have *: "nat (year d) < 10 ^ 4" "nat (month d) < 10 ^ 2" "nat (day d) < 10 ^ 2"
    using assms month_days_bounds(2)[of "year d" "month d"] by (auto simp: valid_date_def)
  have "length (isoformat d) = 10" "isoformat d ! 4 = CHR ''-''" "isoformat d ! 7 = CHR ''-''"
    "take 4 (isoformat d) = pad_digits 4 (nat (year d))"
    "take 2 (drop 5 (isoformat d)) = pad_digits 2 (nat (month d))"
    "drop 8 (isoformat d) = pad_digits 2 (nat (day d))"
    by (simp_all add: isoformat_def nth_append del: pad_digits.simps)
  then show ?thesis
    using * by (simp add: iso_fields_def read_pad_digits)
qed

lemma iso_roundtrip: "valid_date d \<Longrightarrow> date_fromisoformat (isoformat d) = Some d"
  by (cases d) (simp add: date_fromisoformat_def iso_fields_isoformat, simp add: valid_date_def)

lemma iso_fields_inv:
  assumes "iso_fields s = Some (y, m, d)"
  shows "s = pad_digits 4 y @ ''-'' @ pad_digits 2 m @ ''-'' @ pad_digits 2 d"
proof -
  from assms have len: "length s = 10" and c: "s ! 4 = CHR ''-''" "s ! 7 = CHR ''-''"
    and r: "read_digits 0 (take 4 s) = Some y" "read_digits 0 (take 2 (drop 5 s)) = Some m"
    "read_digits 0 (drop 8 s) = Some d"
    by (auto simp: iso_fields_def split: if_splits option.splits)
  from read_digits_pad[OF r(1)] read_digits_pad[OF r(2)] read_digits_pad[OF r(3)]
  have p: "pad_digits 4 y = take 4 s" "pad_digits 2 m = take 2 (drop 5 s)" "pad_digits 2 d = drop 8 s"
    using len by (simp_all del: pad_digits.simps)
  have "s = take 4 s @ s ! 4 # drop 5 s"
    using len id_take_nth_drop[of 4 s] by simp
  moreover have "drop 5 s = take 2 (drop 5 s) @ s ! 7 # drop 8 s"
    using len id_take_nth_drop[of 2 "drop 5 s"] by simp
  ultimately show ?thesis
    using p c by simp
qed

lemma date_fromisoformat_inv:
  assumes "date_fromisoformat s = Some d"
  shows "valid_date d \<and> s = isoformat d"
  using assms iso_fields_inv
  by (fastforce simp: date_fromisoformat_def isoformat_def Let_def split: option.splits if_splits)

section \<open>Times of day and naive datetimes\<close>

text \<open>
  A \<open>time\<close> is microseconds since midnight, below \<open>day_us\<close>; a naive \<open>datetime\<close> is a day and a
  time, ordered as pairs are, day first. An aware \<open>datetime\<close>, which names a moment, is
  microseconds since 1 January of year 1, midnight UTC.
\<close>

abbreviation second_us :: int where "second_us \<equiv> 1000000"
abbreviation minute_us :: int where "minute_us \<equiv> 60000000"
abbreviation hour_us :: int where "hour_us \<equiv> 3600000000"
abbreviation day_us :: int where "day_us \<equiv> 86400000000"

type_synonym time = int
type_synonym moment = int

datatype datetime = DateTime (dt_date: date) (dt_time: time)

instantiation datetime :: linorder
begin

definition less_eq_datetime :: "datetime \<Rightarrow> datetime \<Rightarrow> bool" where
  "less_eq_datetime a b \<longleftrightarrow> dt_date a < dt_date b \<or> (dt_date a = dt_date b \<and> dt_time a \<le> dt_time b)"

definition less_datetime :: "datetime \<Rightarrow> datetime \<Rightarrow> bool" where
  "less_datetime a b \<longleftrightarrow> dt_date a < dt_date b \<or> (dt_date a = dt_date b \<and> dt_time a < dt_time b)"

instance
  by standard (auto simp: less_eq_datetime_def less_datetime_def datetime.expand)

end

lemmas datetime_order = less_eq_datetime_def less_datetime_def

text \<open>The moment a UTC day begins.\<close>

definition midnight_utc :: "date \<Rightarrow> moment" where
  "midnight_utc d = (toordinal d - 1) * day_us"

end
