(* ===== verification/Periods.thy ===== *)
theory Periods
  imports Calendar
begin

text \<open>
  \<open>app/core/periods.py\<close>: quarters, how a period is spelled, parsed and counted. Every
  function of the module is here. Each of its exceptions is a \<open>ValueError\<close>; the model keeps
  which of them it was.
\<close>

section \<open>The operations\<close>

datatype period_error =
    Quarter_out_of_range int
  | Year_out_of_range int
  | Not_a_day string
  | Not_a_quarter_end date
  | Not_a_period string

fun quarter_end_day :: "int \<Rightarrow> int option" where
  "quarter_end_day m =
     (if m = 3 then Some 31 else if m = 6 then Some 30
      else if m = 9 then Some 30 else if m = 12 then Some 31 else None)"

definition filing_deadline_days :: int where "filing_deadline_days = 45"
definition filing_window_months :: "int set" where "filing_window_months = {2, 5, 8, 11}"
definition filing_window_last_day :: int where "filing_window_last_day = 20"

definition is_quarter_end :: "date \<Rightarrow> bool" where
  "is_quarter_end d \<longleftrightarrow> quarter_end_day (month d) = Some (day d)"

definition quarter_end :: "int \<Rightarrow> int \<Rightarrow> period_error + date" where
  "quarter_end y q =
     (if \<not> (1 \<le> q \<and> q \<le> 4) then Inl (Quarter_out_of_range q)
      else (case quarter_end_day (q * 3) of
          None \<Rightarrow> Inl (Quarter_out_of_range q)
        | Some d \<Rightarrow> if 1 \<le> y \<and> y \<le> 9999 then Inr (Date y (q * 3) d) else Inl (Year_out_of_range y)))"

definition quarter_label :: "date \<Rightarrow> period_error + string" where
  "quarter_label p =
     (if is_quarter_end p
      then Inr (show_nat (nat (year p)) @ ''Q'' @ show_nat (nat (month p div 3)))
      else Inl (Not_a_quarter_end p))"

text \<open>\<open>(\d{4})[Qq](\d)\<close>, matched in full: the year and the quarter digit.\<close>

definition match_label :: "string \<Rightarrow> (nat \<times> nat) option" where
  "match_label s =
     (if length s = 6 \<and> (s ! 4 = CHR ''Q'' \<or> s ! 4 = CHR ''q'') then
        (case (read_digits 0 (take 4 s), read_digits 0 (drop 5 s)) of
           (Some y, Some q) \<Rightarrow> Some (y, q)
         | _ \<Rightarrow> None)
      else None)"

definition parse_period :: "string \<Rightarrow> period_error + date" where
  "parse_period s =
     (case match_label s of
        Some (y, q) \<Rightarrow>
          if 1 \<le> q \<and> q \<le> 4 then quarter_end (int y) (int q) else Inl (Quarter_out_of_range (int q))
      | None \<Rightarrow>
          (case iso_fields s of
             Some _ \<Rightarrow>
               (case date_fromisoformat s of
                  None \<Rightarrow> Inl (Not_a_day s)
                | Some d \<Rightarrow> if is_quarter_end d then Inr d else Inl (Not_a_quarter_end d))
           | None \<Rightarrow> Inl (Not_a_period s)))"

text \<open>\<open>None\<close> inside the result is \<open>OverflowError\<close>, for a period 45 days from the last day of all.\<close>

definition filing_deadline :: "date \<Rightarrow> period_error + date option" where
  "filing_deadline p =
     (if is_quarter_end p then Inr (add_days p filing_deadline_days) else Inl (Not_a_quarter_end p))"

definition in_filing_window :: "date \<Rightarrow> bool" where
  "in_filing_window d \<longleftrightarrow> month d \<in> filing_window_months \<and> day d \<le> filing_window_last_day"

definition period_index :: "date \<Rightarrow> period_error + int" where
  "period_index p =
     (if is_quarter_end p then Inr (year p * 4 + month p div 3 - 1) else Inl (Not_a_quarter_end p))"

definition from_index :: "int \<Rightarrow> period_error + date" where
  "from_index i = quarter_end (i div 4) (i mod 4 + 1)"

definition quarters_ending :: "date \<Rightarrow> int \<Rightarrow> period_error + date list" where
  "quarters_ending p count =
     bind_res (period_index p) (\<lambda>j. mapM_res from_index [j - count + 1..j])"

definition quarters_between :: "date \<Rightarrow> date \<Rightarrow> period_error + date list" where
  "quarters_between p q =
     bind_res (period_index p) (\<lambda>i. bind_res (period_index q) (\<lambda>j. mapM_res from_index [i..j]))"

text \<open>\<open>quarters_ending(this_quarter, 2)[0]\<close>: the list has two elements when it is returned at all.\<close>

definition current_quarter :: "date \<Rightarrow> period_error + date" where
  "current_quarter today =
     bind_res (quarter_end (year today) ((month today - 1) div 3 + 1))
       (\<lambda>this. map_res (\<lambda>qs. qs ! 0) (quarters_ending this 2))"

definition next_quarter_end :: "date \<Rightarrow> period_error + date" where
  "next_quarter_end p = bind_res (period_index p) (\<lambda>i. from_index (i + 1))"

section \<open>Quarters and their indices\<close>

text \<open>The quarter of an index, without the check of the year: what \<open>from_index\<close> returns in range.\<close>

definition quarter_of_index :: "int \<Rightarrow> date" where
  "quarter_of_index i =
     Date (i div 4) ((i mod 4 + 1) * 3) (if i mod 4 = 0 \<or> i mod 4 = 3 then 31 else 30)"

definition index_ok :: "int \<Rightarrow> bool" where
  "index_ok i \<longleftrightarrow> 4 \<le> i \<and> i \<le> 39999"

lemma quarter_end_eq:
  "quarter_end y q = Inr d \<longleftrightarrow> 1 \<le> q \<and> q \<le> 4 \<and> 1 \<le> y \<and> y \<le> 9999 \<and>
     d = Date y (q * 3) (if q = 1 \<or> q = 4 then 31 else 30)"
proof -
  have "1 \<le> q \<and> q \<le> 4 \<longleftrightarrow> q = 1 \<or> q = 2 \<or> q = 3 \<or> q = 4" by auto
  then show ?thesis by (auto simp: quarter_end_def)
qed

lemma mod4_cases: "(i::int) mod 4 = 0 \<or> i mod 4 = 1 \<or> i mod 4 = 2 \<or> i mod 4 = 3"
  using pos_mod_bound[of 4 i] pos_mod_sign[of 4 i] by linarith

lemma index_ok_year: "index_ok i \<longleftrightarrow> 1 \<le> i div 4 \<and> i div 4 \<le> 9999"
  unfolding index_ok_def by linarith

lemma from_index_ok: "index_ok i \<Longrightarrow> from_index i = Inr (quarter_of_index i)"
  using mod4_cases[of i]
  by (auto simp: from_index_def quarter_end_eq index_ok_year quarter_of_index_def)

lemma from_index_bad: "\<not> index_ok i \<Longrightarrow> from_index i = Inl (Year_out_of_range (i div 4))"
  using mod4_cases[of i]
  by (auto simp: from_index_def quarter_end_def index_ok_year)

lemma from_index_Inr_iff: "from_index i = Inr d \<longleftrightarrow> index_ok i \<and> d = quarter_of_index i"
  using from_index_ok[of i] from_index_bad[of i] by (cases "index_ok i") auto

lemma quarter_of_index_end: "is_quarter_end (quarter_of_index i)"
  using mod4_cases[of i] by (auto simp: is_quarter_end_def quarter_of_index_def)

lemma quarter_end_months: "is_quarter_end d \<Longrightarrow> month d = 3 \<or> month d = 6 \<or> month d = 9 \<or> month d = 12"
  by (auto simp: is_quarter_end_def split: if_splits)

lemma period_index_quarter: "period_index (quarter_of_index i) = Inr i"
proof -
  have "i div 4 * 4 + (i mod 4 + 1) * 3 div 3 - 1 = i"
    using div_mult_mod_eq[of i 4] by simp
  then show ?thesis
    by (simp add: period_index_def quarter_of_index_end) (simp add: quarter_of_index_def)
qed

lemma quarter_of_period_index:
  assumes "period_index d = Inr i"
  shows "quarter_of_index i = d"
proof -
  from assms have e: "is_quarter_end d" and i: "i = 4 * year d + (month d div 3 - 1)"
    by (auto simp: period_index_def split: if_splits)
  show ?thesis
    using quarter_end_months[OF e] e i
    by (cases d) (auto simp: is_quarter_end_def quarter_of_index_def)
qed

lemma period_index_valid:
  assumes "valid_date d" and "period_index d = Inr i"
  shows "index_ok i"
proof -
  have "quarter_of_index i = d" using assms(2) by (rule quarter_of_period_index)
  then have "i div 4 = year d" by (auto simp: quarter_of_index_def)
  then show ?thesis using assms(1) by (simp add: index_ok_year valid_date_def)
qed

lemma valid_quarter_of_index: "index_ok i \<Longrightarrow> valid_date (quarter_of_index i)"
  using mod4_cases[of i]
  by (auto simp: index_ok_year valid_date_def quarter_of_index_def month_days_def)

lemma quarter_of_index_mono: "quarter_of_index i < quarter_of_index j \<longleftrightarrow> i < j"
proof -
  have "i < j \<Longrightarrow> quarter_of_index i < quarter_of_index j" for i j
  proof -
    assume "i < j"
    then consider "i div 4 < j div 4" | "i div 4 = j div 4" "i mod 4 < j mod 4"
      by (metis add_less_cancel_left div_mult_mod_eq linorder_neqE_linordered_idom
          zdiv_mono1 less_le_not_le zero_less_numeral)
    then show ?thesis
      by cases (auto simp: date_order quarter_of_index_def)
  qed
  from this[of i j] this[of j i] show ?thesis
    using linorder_less_linear[of i j] by (auto dest: less_imp_not_less)
qed

lemmas index_facts = from_index_ok from_index_bad period_index_quarter quarter_of_period_index

section \<open>Adding days\<close>

lemma year_next_day_mono: "year d \<le> year (next_day d)"
  by (simp add: next_day_def)

lemma funpow_next_day_year_mono: "year d \<le> year ((next_day ^^ n) d)"
  by (induction n) (auto intro: order_trans year_next_day_mono)

lemma funpow_next_day:
  "valid_date d \<Longrightarrow> year ((next_day ^^ n) d) \<le> 9999 \<Longrightarrow>
     valid_date ((next_day ^^ n) d) \<and> toordinal ((next_day ^^ n) d) = toordinal d + int n"
proof (induction n)
  case (Suc n)
  have "year ((next_day ^^ n) d) \<le> 9999"
    using Suc.prems(2) year_next_day_mono[of "(next_day ^^ n) d"] by simp
  with Suc show ?case
    by (simp add: valid_next_day toordinal_next_day)
qed simp

lemma add_days_nonneg:
  assumes "add_days d n = Some e" and "valid_date d" and "0 \<le> n"
  shows "valid_date e \<and> toordinal e = toordinal d + n"
  using assms funpow_next_day[of d "nat n"] by (auto simp: add_days_def Let_def split: if_splits)

section \<open>Parsing and printing\<close>

lemma quarter_digit_cases: "1 \<le> q \<and> q \<le> (4::nat) \<longleftrightarrow> q = 1 \<or> q = 2 \<or> q = 3 \<or> q = 4"
  by auto

lemma read_digits_single: "read_digits 0 s = Some q \<Longrightarrow> length s = 1 \<Longrightarrow> s = [digit_char q] \<and> q < 10"
  using digit_char_val digit_val_lt
  by (cases s) (auto split: option.splits)

lemma match_label_inv:
  assumes "match_label s = Some (y, q)"
  shows "\<exists>c \<in> {CHR ''Q'', CHR ''q''}. s = pad_digits 4 y @ [c, digit_char q]"
proof -
  from assms have len: "length s = 6" and c: "s ! 4 \<in> {CHR ''Q'', CHR ''q''}"
    and r: "read_digits 0 (take 4 s) = Some y" "read_digits 0 (drop 5 s) = Some q"
    by (auto simp: match_label_def split: if_splits option.splits)
  have "pad_digits 4 y = take 4 s" using read_digits_pad[OF r(1)] len by (simp del: pad_digits.simps)
  moreover have "drop 5 s = [digit_char q]" using read_digits_single[OF r(2)] len by simp
  moreover have "s = take 4 s @ s ! 4 # drop 5 s" using len id_take_nth_drop[of 4 s] by simp
  ultimately show ?thesis using c by metis
qed

lemma match_label_pad:
  assumes "y < 10 ^ 4" and "q < 10" and "c \<in> {CHR ''Q'', CHR ''q''}"
  shows "match_label (pad_digits 4 y @ [c, digit_char q]) = Some (y, q)"
  using assms by (auto simp: match_label_def nth_append read_pad_digits simp del: pad_digits.simps)

lemma match_label_isoformat: "match_label (isoformat d) = None"
  by (simp add: match_label_def isoformat_def del: pad_digits.simps)

lemma quarter_label_pad:
  assumes "is_quarter_end d" and "1000 \<le> year d" and "valid_date d"
  shows "quarter_label d = Inr (pad_digits 4 (nat (year d)) @ [CHR ''Q'', digit_char (nat (month d div 3))])"
proof -
  have "show_nat (nat (year d)) = pad_digits 4 (nat (year d))"
    using assms show_nat_pad[of 3 "nat (year d)"] by (auto simp: valid_date_def simp del: pad_digits.simps)
  moreover have "show_nat (nat (month d div 3)) = [digit_char (nat (month d div 3))]"
    using quarter_end_months[OF assms(1)] by (auto simp: show_nat.simps)
  ultimately show ?thesis
    using assms(1) by (simp add: quarter_label_def del: pad_digits.simps)
qed

lemma quarter_end_of_label:
  "is_quarter_end d \<Longrightarrow> valid_date d \<Longrightarrow> quarter_end (year d) (month d div 3) = Inr d"
  using quarter_end_months[of d]
  by (cases d) (auto simp: quarter_end_eq is_quarter_end_def valid_date_def)

text \<open>A quarter reads back from both of its spellings: the label \<open>2026Q1\<close> that
  \<open>quarter_label\<close> prints (in either case of the letter) and the ISO day.\<close>

theorem parse_period_roundtrip:
  assumes "valid_date d" and "is_quarter_end d" and "1000 \<le> year d"
  shows "bind_res (quarter_label d) parse_period = Inr d
    \<and> bind_res (map_res (replace_char (CHR ''Q'') (CHR ''q'')) (quarter_label d)) parse_period = Inr d
    \<and> parse_period (isoformat d) = Inr d"
proof -
  let ?y = "nat (year d)" and ?q = "nat (month d div 3)"
  have y: "?y < 10 ^ 4" and q: "1 \<le> ?q" "?q \<le> 4" "?q < 10"
    and i: "int ?y = year d" "int ?q = month d div 3"
    using assms quarter_end_months[OF assms(2)] by (auto simp: valid_date_def)
  have parse: "parse_period (pad_digits 4 ?y @ [c, digit_char ?q]) = Inr d"
    if "c \<in> {CHR ''Q'', CHR ''q''}" for c
    using match_label_pad[OF y q(3) that] q(1,2) quarter_end_of_label[OF assms(2,1)]
    by (simp add: parse_period_def i del: pad_digits.simps int_nat_eq)
  have dig: "replace_char (CHR ''Q'') c (pad_digits w n) = pad_digits w n" for c w n
    by (force simp: replace_char_def intro!: map_idI dest: pad_digits_decimal)
  have low: "replace_char (CHR ''Q'') (CHR ''q'') (pad_digits 4 ?y @ [CHR ''Q'', digit_char ?q])
      = pad_digits 4 ?y @ [CHR ''q'', digit_char ?q]"
    using dig[of "CHR ''q''" 4 ?y] q(3) by (simp add: replace_char_def del: pad_digits.simps)
  have "parse_period (isoformat d) = Inr d"
    using assms by (simp add: parse_period_def match_label_isoformat iso_fields_isoformat iso_roundtrip)
  then show ?thesis
    using quarter_label_pad[OF assms(2,3,1)] parse low by simp
qed

theorem parse_period_roundtrip_witness:
  "parse_period ''2026Q1'' = Inr (Date 2026 3 31) \<and> parse_period (isoformat (Date 2026 3 31)) = Inr (Date 2026 3 31)"
proof -
  have "parse_period (isoformat (Date 2026 3 31)) = Inr (Date 2026 3 31)"
    using parse_period_roundtrip[of "Date 2026 3 31"]
    by (simp add: valid_date_def is_quarter_end_def month_days_def)
  moreover have "parse_period ''2026Q1'' = Inr (Date 2026 3 31)" by code_simp
  ultimately show ?thesis by simp
qed

text \<open>What \<open>parse_period\<close> accepts is a quarter end of the calendar, spelled in one of the
  two ways and no other: nothing is rounded to a quarter and nothing around it is ignored.\<close>

theorem parse_period_sound:
  assumes "parse_period s = Inr d"
  shows "valid_date d \<and> is_quarter_end d \<and>
    (s = isoformat d \<or>
     s = pad_digits 4 (nat (year d)) @ [CHR ''Q'', digit_char (nat (month d div 3))] \<or>
     s = pad_digits 4 (nat (year d)) @ [CHR ''q'', digit_char (nat (month d div 3))])"
proof (cases "match_label s")
  case None
  with assms show ?thesis
    using date_fromisoformat_inv[of s d]
    by (auto simp: parse_period_def split: option.splits if_splits)
next
  case (Some yq)
  obtain y q where yq: "yq = (y, q)" by (cases yq)
  with Some assms have "quarter_end (int y) (int q) = Inr d"
    by (auto simp: parse_period_def split: if_splits)
  then have "1 \<le> q" "q \<le> 4" "1 \<le> int y" "int y \<le> 9999"
    and d: "d = Date (int y) (int q * 3) (if int q = 1 \<or> int q = 4 then 31 else 30)"
    by (auto simp: quarter_end_eq)
  then have "valid_date d \<and> is_quarter_end d \<and> nat (year d) = y \<and> nat (month d div 3) = q"
    using quarter_digit_cases[of q] by (auto simp: valid_date_def is_quarter_end_def month_days_def)
  then show ?thesis
    using match_label_inv[of s y q] Some yq by auto
qed

theorem parse_period_sound_witness: "is_quarter_end (Date 2026 6 30)"
proof -
  have "parse_period ''2026q2'' = Inr (Date 2026 6 30)" by code_simp
  from parse_period_sound[OF this] show ?thesis by simp
qed

section \<open>Deadlines\<close>

lemma funpow_split: "n = a + b \<Longrightarrow> (f ^^ n) x = (f ^^ a) ((f ^^ b) x)"
  by (simp add: funpow_add)

text \<open>Stepping inside a month.\<close>

lemma funpow_next_day_in_month:
  "day d + int n \<le> month_days (year d) (month d) \<Longrightarrow>
     (next_day ^^ n) d = Date (year d) (month d) (day d + int n)"
  by (induction n) (auto simp: next_day_def)

lemma funpow_next_day_month_end:
  assumes "day d = month_days (year d) (month d)" and "month d < 12" and "0 < n"
    and "int n \<le> month_days (year d) (month d + 1)"
  shows "(next_day ^^ n) d = Date (year d) (month d + 1) (int n)"
proof -
  obtain k where n: "n = Suc k" using assms(3) by (cases n) auto
  have "next_day d = Date (year d) (month d + 1) 1" using assms(1,2) by (simp add: next_day_def)
  then show ?thesis
    using funpow_next_day_in_month[of "Date (year d) (month d + 1) 1" k] assms(4) n
    by (simp add: funpow_swap1)
qed

lemma funpow_next_day_year_end:
  assumes "day d = 31" and "month d = 12" and "0 < n" and "n \<le> 31"
  shows "(next_day ^^ n) d = Date (year d + 1) 1 (int n)"
proof -
  obtain k where n: "n = Suc k" using assms(3) by (cases n) auto
  have "next_day d = Date (year d + 1) 1 1" using assms(1,2) by (simp add: next_day_def month_days_def)
  then show ?thesis
    using funpow_next_day_in_month[of "Date (year d + 1) 1 1" k] assms(4) n
    by (simp add: funpow_swap1 month_days_def)
qed

text \<open>The deadline, written out: 45 days on is the 14th or the 15th of the second month after.\<close>

definition deadline_of :: "date \<Rightarrow> date" where
  "deadline_of p =
     (if month p = 12 then Date (year p + 1) 2 14
      else Date (year p) (month p + 2) (if month p = 3 then 15 else 14))"

lemma funpow_45_quarter_end:
  assumes "is_quarter_end p"
  shows "(next_day ^^ 45) p = deadline_of p"
proof -
  obtain y m d where p: "p = Date y m d" by (cases p)
  consider "m = 3" "d = 31" | "m = 6" "d = 30" | "m = 9" "d = 30" | "m = 12" "d = 31"
    using assms by (auto simp: p is_quarter_end_def split: if_splits)
  then show ?thesis
  proof cases
    case 1
    have "(next_day ^^ 45) p = (next_day ^^ 15) ((next_day ^^ 30) p)" by (rule funpow_split) simp
    also have "(next_day ^^ 30) p = Date y 4 30"
      using 1 by (subst funpow_next_day_month_end) (simp_all add: p month_days_def)
    also have "(next_day ^^ 15) (Date y 4 30) = Date y 5 15"
      by (subst funpow_next_day_month_end) (simp_all add: month_days_def)
    finally show ?thesis using 1 by (simp add: p deadline_of_def)
  next
    case 2
    have "(next_day ^^ 45) p = (next_day ^^ 14) ((next_day ^^ 31) p)" by (rule funpow_split) simp
    also have "(next_day ^^ 31) p = Date y 7 31"
      using 2 by (subst funpow_next_day_month_end) (simp_all add: p month_days_def)
    also have "(next_day ^^ 14) (Date y 7 31) = Date y 8 14"
      by (subst funpow_next_day_month_end) (simp_all add: month_days_def)
    finally show ?thesis using 2 by (simp add: p deadline_of_def)
  next
    case 3
    have "(next_day ^^ 45) p = (next_day ^^ 14) ((next_day ^^ 31) p)" by (rule funpow_split) simp
    also have "(next_day ^^ 31) p = Date y 10 31"
      using 3 by (subst funpow_next_day_month_end) (simp_all add: p month_days_def)
    also have "(next_day ^^ 14) (Date y 10 31) = Date y 11 14"
      by (subst funpow_next_day_month_end) (simp_all add: month_days_def)
    finally show ?thesis using 3 by (simp add: p deadline_of_def)
  next
    case 4
    have "(next_day ^^ 45) p = (next_day ^^ 14) ((next_day ^^ 31) p)" by (rule funpow_split) simp
    also have "(next_day ^^ 31) p = Date (y + 1) 1 31"
      using 4 by (subst funpow_next_day_year_end) (simp_all add: p)
    also have "(next_day ^^ 14) (Date (y + 1) 1 31) = Date (y + 1) 2 14"
      by (subst funpow_next_day_month_end) (simp_all add: month_days_def)
    finally show ?thesis using 4 by (simp add: p deadline_of_def)
  qed
qed

text \<open>A 13F is due exactly 45 calendar days after its quarter, and, as the comment on the
  filing window says, every deadline falls on the 14th or the 15th, inside the window the
  crawler polls in.\<close>

theorem filing_deadline_in_window:
  assumes "valid_date p" and "filing_deadline p = Inr (Some e)"
  shows "valid_date e \<and> toordinal e = toordinal p + 45 \<and> in_filing_window e \<and> (day e = 14 \<or> day e = 15)"
proof -
  from assms(2) have q: "is_quarter_end p" and a: "add_days p 45 = Some e"
    by (auto simp: filing_deadline_def filing_deadline_days_def split: if_splits)
  from a have "e = deadline_of p"
    by (auto simp: add_days_def Let_def funpow_45_quarter_end[OF q] split: if_splits)
  then show ?thesis
    using add_days_nonneg[OF a assms(1)] quarter_end_months[OF q]
    by (auto simp: deadline_of_def in_filing_window_def filing_window_months_def
        filing_window_last_day_def)
qed

theorem filing_deadline_in_window_witness: "in_filing_window (Date 2026 2 14)"
proof -
  have q: "is_quarter_end (Date 2025 12 31)" by (simp add: is_quarter_end_def)
  have "filing_deadline (Date 2025 12 31) = Inr (Some (Date 2026 2 14))"
    using funpow_45_quarter_end[OF q] q
    by (simp add: filing_deadline_def filing_deadline_days_def add_days_def deadline_of_def)
  from filing_deadline_in_window[OF _ this] show ?thesis
    by (simp add: valid_date_def month_days_def)
qed

section \<open>Ranges of quarters\<close>

lemma mapM_from_index:
  "(\<And>i. i \<in> set xs \<Longrightarrow> index_ok i) \<Longrightarrow> mapM_res from_index xs = Inr (map quarter_of_index xs)"
  by (intro mapM_res_Inr_map) (simp add: from_index_ok)

lemma quarter_end_has_index:
  assumes "valid_date d" and "is_quarter_end d"
  obtains i where "period_index d = Inr i" "index_ok i" "quarter_of_index i = d"
proof -
  from assms(2) obtain i where i: "period_index d = Inr i" by (auto simp: period_index_def)
  with assms(1) show thesis
    using period_index_valid quarter_of_period_index that by blast
qed

lemma quarter_of_index_le: "quarter_of_index i \<le> quarter_of_index j \<longleftrightarrow> i \<le> j"
  using quarter_of_index_mono[of j i] by (metis linorder_not_less)

text \<open>\<open>quarters_between\<close> lists exactly the quarter ends between its two bounds, oldest
  first, each once, and nothing when the first is after the last.\<close>

theorem quarters_between_spec:
  assumes "valid_date p" "is_quarter_end p" and "valid_date q" "is_quarter_end q"
  shows "\<exists>qs. quarters_between p q = Inr qs \<and> sorted_wrt (<) qs \<and>
    set qs = {d. valid_date d \<and> is_quarter_end d \<and> p \<le> d \<and> d \<le> q}"
proof -
  obtain i where i: "period_index p = Inr i" "index_ok i" "quarter_of_index i = p"
    using assms(1,2) by (rule quarter_end_has_index)
  obtain j where j: "period_index q = Inr j" "index_ok j" "quarter_of_index j = q"
    using assms(3,4) by (rule quarter_end_has_index)
  have ok: "index_ok k" if "k \<in> set [i..j]" for k
    using that i(2) j(2) by (auto simp: index_ok_def)
  let ?qs = "map quarter_of_index [i..j]"
  have "quarters_between p q = Inr ?qs"
    using i j ok by (simp add: quarters_between_def mapM_from_index del: set_upto)
  moreover have "sorted_wrt (<) ?qs"
    by (simp add: sorted_wrt_map quarter_of_index_mono)
  moreover have "set ?qs = {d. valid_date d \<and> is_quarter_end d \<and> p \<le> d \<and> d \<le> q}" (is "_ = ?S")
  proof
    show "set ?qs \<subseteq> ?S"
    proof
      fix d assume "d \<in> set ?qs"
      then obtain k where k: "d = quarter_of_index k" "i \<le> k" "k \<le> j" by auto
      then show "d \<in> ?S"
        using ok[of k] quarter_of_index_le[of i k] quarter_of_index_le[of k j] i(3) j(3)
        by (simp add: valid_quarter_of_index quarter_of_index_end)
    qed
    show "?S \<subseteq> set ?qs"
    proof
      fix d assume d: "d \<in> ?S"
      then obtain k where k: "quarter_of_index k = d" by (auto elim: quarter_end_has_index)
      then have "i \<le> k" "k \<le> j"
        using d i(3) j(3) quarter_of_index_le[of i k] quarter_of_index_le[of k j] by auto
      with k show "d \<in> set ?qs" by auto
    qed
  qed
  ultimately show ?thesis by blast
qed

theorem quarters_between_spec_witness:
  "\<exists>qs. quarters_between (Date 2025 9 30) (Date 2026 3 31) = Inr qs \<and> sorted_wrt (<) qs"
  using quarters_between_spec[of "Date 2025 9 30" "Date 2026 3 31"]
  by (auto simp: valid_date_def is_quarter_end_def month_days_def)

lemma quarter_of_day:
  assumes "valid_date t"
  defines "k \<equiv> year t * 4 + (month t - 1) div 3"
  shows "quarter_end (year t) ((month t - 1) div 3 + 1) = Inr (quarter_of_index k)"
    "quarter_of_index (k - 1) < t" "t \<le> quarter_of_index k" "4 \<le> k" "k \<le> 39999"
proof -
  obtain y m d where t: "t = Date y m d" by (cases t)
  have v: "1 \<le> y" "y \<le> 9999" "1 \<le> d" "d \<le> month_days y m" and m0: "1 \<le> m" "m \<le> 12"
    using assms(1) by (auto simp: valid_date_def t)
  then have m: "m = 1 \<or> m = 2 \<or> m = 3 \<or> m = 4 \<or> m = 5 \<or> m = 6 \<or> m = 7 \<or> m = 8 \<or> m = 9 \<or>
      m = 10 \<or> m = 11 \<or> m = 12"
    by arith
  define r where "r = (m - 1) div 3"
  have r: "0 \<le> r" "r \<le> 3" "3 * r + 1 \<le> m" "m \<le> 3 * r + 3"
    using m by (auto simp: r_def)
  have k: "k = 4 * y + r" by (simp add: k_def t r_def)
  have kd: "k div 4 = y" "k mod 4 = r" using r by (auto simp: k)
  show "4 \<le> k" "k \<le> 39999" using r v by (auto simp: k)
  show "quarter_end (year t) ((month t - 1) div 3 + 1) = Inr (quarter_of_index k)"
    using r v by (auto simp: quarter_end_eq quarter_of_index_def kd t simp flip: r_def)
  show "t \<le> quarter_of_index k"
    using m r v by (auto simp: quarter_of_index_def kd t date_order month_days_def r_def)
  have "(k - 1) div 4 = (if r = 0 then y - 1 else y)" "(k - 1) mod 4 = (if r = 0 then 3 else r - 1)"
    unfolding k using r by presburger+
  then show "quarter_of_index (k - 1) < t"
    using r v by (auto simp: quarter_of_index_def t date_order)
qed

text \<open>\<open>current_quarter\<close> is the latest quarter that has ended before the day: on a quarter's
  last day, the one before. It raises only in the calendar's first quarter, which has none.\<close>

theorem current_quarter_latest:
  assumes "valid_date t"
  shows "(case current_quarter t of
      Inl _ \<Rightarrow> t \<le> Date 1 3 31
    | Inr p \<Rightarrow> valid_date p \<and> is_quarter_end p \<and> p < t \<and>
        (\<forall>q. valid_date q \<and> is_quarter_end q \<and> q < t \<longrightarrow> q \<le> p))"
proof -
  define k where "k = year t * 4 + (month t - 1) div 3"
  note qd = quarter_of_day[OF assms, folded k_def]
  have cq: "current_quarter t = map_res (\<lambda>qs. qs ! 0) (mapM_res from_index [k - 1..k])"
    using qd(1) by (simp add: current_quarter_def quarters_ending_def period_index_quarter)
  have up: "[k - 1..k] = [k - 1, k]" by (simp add: upto_rec1)
  have okk: "index_ok k" using qd(4,5) by (simp add: index_ok_def)
  show ?thesis
  proof (cases "index_ok (k - 1)")
    case True
    then have "current_quarter t = Inr (quarter_of_index (k - 1))"
      using okk by (simp add: cq up from_index_ok)
    moreover have "q \<le> quarter_of_index (k - 1)" if q: "valid_date q" "is_quarter_end q" "q < t" for q
    proof -
      obtain j where j: "quarter_of_index j = q" using q by (auto elim: quarter_end_has_index)
      with q(3) qd(3) have "quarter_of_index j < quarter_of_index k" by simp
      then have "j \<le> k - 1" by (simp add: quarter_of_index_mono)
      with j show ?thesis using quarter_of_index_le by blast
    qed
    ultimately show ?thesis
      using True qd(2) by (auto simp: valid_quarter_of_index quarter_of_index_end)
  next
    case False
    then have "k = 4" using qd(4,5) by (simp add: index_ok_def)
    moreover have "current_quarter t = Inl (Year_out_of_range ((k - 1) div 4))"
      using False by (simp add: cq up from_index_bad)
    ultimately show ?thesis
      using qd(3) by (simp add: quarter_of_index_def)
  qed
qed

theorem current_quarter_latest_witness:
  "current_quarter (Date 2026 3 31) = Inr (Date 2025 12 31) \<and> Date 2025 9 30 \<le> Date 2025 12 31"
proof -
  have c: "current_quarter (Date 2026 3 31) = Inr (Date 2025 12 31)" by code_simp
  have q: "valid_date (Date 2025 9 30) \<and> is_quarter_end (Date 2025 9 30) \<and> Date 2025 9 30 < Date 2026 3 31"
    by (simp add: valid_date_def is_quarter_end_def month_days_def less_date_def)
  from current_quarter_latest[of "Date 2026 3 31"] c have
    "\<forall>q. valid_date q \<and> is_quarter_end q \<and> q < Date 2026 3 31 \<longrightarrow> q \<le> Date 2025 12 31"
    by (simp add: valid_date_def month_days_def)
  with q c show ?thesis by blast
qed

end
