(* ===== verification/RateLimit.thy ===== *)
theory RateLimit
  imports Prelude Complex_Main
begin

text \<open>
  \<open>app/core/rate_limit.py\<close>: the token bucket every EDGAR and OpenFIGI request waits on, and
  the process-wide registry of buckets. The clock (\<open>time.monotonic\<close>) and the sleeper are the
  environment: \<open>acquire\<close> is given the readings it takes, one for each pass of its loop.
  Python's floats are read as exact rationals.
\<close>

section \<open>The bucket\<close>

record bucket =
  b_rate :: rat
  b_capacity :: rat
  b_tokens :: rat
  b_updated_at :: "rat option"

datatype limiter_error = Rate_not_positive | Capacity_below_one

definition new_bucket :: "rat \<Rightarrow> rat \<Rightarrow> limiter_error + bucket" where
  "new_bucket r cap =
     (if r \<le> 0 then Inl Rate_not_positive
      else if cap < 1 then Inl Capacity_below_one
      else Inr \<lparr>b_rate = r, b_capacity = cap, b_tokens = 0, b_updated_at = None\<rparr>)"

definition set_rate :: "bucket \<Rightarrow> rat \<Rightarrow> limiter_error + bucket" where
  "set_rate b r = (if r \<le> 0 then Inl Rate_not_positive else Inr (b\<lparr>b_rate := r\<rparr>))"

text \<open>The refill at the top of a pass.\<close>

definition refill :: "bucket \<Rightarrow> rat \<Rightarrow> bucket" where
  "refill b now =
     (let elapsed = now - (case b_updated_at b of None \<Rightarrow> now | Some t \<Rightarrow> t)
      in b\<lparr>b_tokens := min (b_capacity b) (b_tokens b + elapsed * b_rate b), b_updated_at := Some now\<rparr>)"

text \<open>One pass of the loop: a token taken, or how long to sleep before the next pass.\<close>

definition pass :: "bucket \<Rightarrow> rat \<Rightarrow> bucket \<times> rat option" where
  "pass b now =
     (let b' = refill b now in
      if b_tokens b' \<ge> 1 then (b'\<lparr>b_tokens := b_tokens b' - 1\<rparr>, None)
      else (b', Some ((1 - b_tokens b') / b_rate b')))"

text \<open>
  The loop over the clock's readings: when the token was taken, and the bucket after it.
  \<open>None\<close> when it is still waiting after the last reading.
\<close>

fun acquire :: "bucket \<Rightarrow> rat list \<Rightarrow> (bucket \<times> rat) option" where
  "acquire b [] = None"
| "acquire b (now # later) =
     (case pass b now of (b', None) \<Rightarrow> Some (b', now) | (b', Some _) \<Rightarrow> acquire b' later)"

section \<open>The registry\<close>

type_synonym limiters = "string \<rightharpoonup> bucket"

text \<open>
  \<open>_shared_limiter\<close>: the budget's bucket, built on first call, and slowed, never replaced and
  never quickened, by a later one. The default capacity is one token.
\<close>

definition shared_limiter :: "limiters \<Rightarrow> string \<Rightarrow> rat \<Rightarrow> limiter_error + limiters" where
  "shared_limiter ls budget r =
     (case ls budget of
        None \<Rightarrow> map_res (\<lambda>b. ls(budget \<mapsto> b)) (new_bucket r 1)
      | Some b \<Rightarrow>
          if r < b_rate b then map_res (\<lambda>b'. ls(budget \<mapsto> b')) (set_rate b r)
          else Inr ls)"

definition get_edgar_limiter :: "limiters \<Rightarrow> rat \<Rightarrow> limiter_error + limiters" where
  "get_edgar_limiter ls r = shared_limiter ls ''edgar'' r"

definition get_openfigi_limiter :: "limiters \<Rightarrow> rat \<Rightarrow> limiter_error + limiters" where
  "get_openfigi_limiter ls r = shared_limiter ls ''openfigi'' r"

definition reset_limiters :: "limiters \<Rightarrow> limiters" where
  "reset_limiters ls = Map.empty"

section \<open>The bucket's invariant\<close>

definition bucket_inv :: "bucket \<Rightarrow> bool" where
  "bucket_inv b \<longleftrightarrow> 0 < b_rate b \<and> 1 \<le> b_capacity b \<and> 0 \<le> b_tokens b \<and> b_tokens b \<le> b_capacity b
     \<and> (b_updated_at b = None \<longrightarrow> b_tokens b = 0)"

text \<open>What happens to a shared bucket: a pass of some waiter's loop, or a change of rate.\<close>

datatype bucket_event = Pass rat | Set_rate rat

definition bucket_step :: "bucket \<Rightarrow> bucket_event \<Rightarrow> bucket" where
  "bucket_step b e =
     (case e of Pass now \<Rightarrow> fst (pass b now)
      | Set_rate r \<Rightarrow> (case set_rate b r of Inl _ \<Rightarrow> b | Inr b' \<Rightarrow> b'))"

text \<open>The clock never runs backwards: a pass reads no earlier than the one before.\<close>

definition clock_ok :: "bucket \<Rightarrow> bucket_event \<Rightarrow> bool" where
  "clock_ok b e \<longleftrightarrow>
     (case e of Pass now \<Rightarrow> (case b_updated_at b of None \<Rightarrow> True | Some t \<Rightarrow> t \<le> now) | Set_rate _ \<Rightarrow> True)"

lemma new_bucket_inv: "new_bucket r cap = Inr b \<Longrightarrow> bucket_inv b"
  by (auto simp: new_bucket_def bucket_inv_def split: if_splits)

lemma refill_inv:
  "bucket_inv b \<Longrightarrow> clock_ok b (Pass now) \<Longrightarrow> bucket_inv (refill b now)"
  by (auto simp: bucket_inv_def clock_ok_def refill_def Let_def split: option.splits)

lemma pass_inv: "bucket_inv b \<Longrightarrow> clock_ok b (Pass now) \<Longrightarrow> bucket_inv (fst (pass b now))"
  using refill_inv[of b now]
  by (auto simp: pass_def Let_def bucket_inv_def refill_def)

lemma bucket_step_inv: "bucket_inv b \<Longrightarrow> clock_ok b e \<Longrightarrow> bucket_inv (bucket_step b e)"
  using pass_inv by (cases e) (auto simp: bucket_step_def set_rate_def bucket_inv_def)

interpretation bm: machine bucket_step bucket_inv clock_ok
  by unfold_locales (rule bucket_step_inv)

section \<open>How many tokens a bucket hands out\<close>

definition grants :: "bucket \<Rightarrow> bucket_event \<Rightarrow> nat" where
  "grants b e = (case e of Pass now \<Rightarrow> (case snd (pass b now) of None \<Rightarrow> 1 | Some _ \<Rightarrow> 0) | Set_rate _ \<Rightarrow> 0)"

fun granted :: "bucket \<Rightarrow> bucket_event list \<Rightarrow> nat" where
  "granted b [] = 0"
| "granted b (e # es) = grants b e + granted (bucket_step b e) es"

text \<open>Every rate the bucket is run at is at most \<open>m\<close>.\<close>

definition rate_at_most :: "rat \<Rightarrow> bucket \<Rightarrow> bucket_event list \<Rightarrow> bool" where
  "rate_at_most m b es \<longleftrightarrow> b_rate b \<le> m \<and> (\<forall>r. Set_rate r \<in> set es \<longrightarrow> r \<le> m)"

text \<open>Tokens in hand and time elapsed pay for every token granted: the potential argument.\<close>

lemma pass_potential:
  assumes "bucket_inv b" and "b_updated_at b = Some t" and "t \<le> now" and "b_rate b \<le> m"
  shows "of_nat (grants b (Pass now)) + b_tokens (fst (pass b now)) \<le> b_tokens b + m * (now - t)"
proof -
  have "(now - t) * b_rate b \<le> m * (now - t)"
    using assms(3,4) by (simp add: mult.commute mult_right_mono)
  then show ?thesis
    using assms(2) by (auto simp: pass_def refill_def Let_def grants_def min_def)
qed

lemma updated_after_pass: "b_updated_at (fst (pass b now)) = Some now"
  by (simp add: pass_def refill_def Let_def)

lemma rate_after_pass: "b_rate (fst (pass b now)) = b_rate b"
  by (simp add: pass_def refill_def Let_def)

fun last_pass :: "rat \<Rightarrow> bucket_event list \<Rightarrow> rat" where
  "last_pass t [] = t"
| "last_pass t (Pass now # es) = last_pass now es"
| "last_pass t (Set_rate r # es) = last_pass t es"

lemma granted_bound:
  assumes "bucket_inv b" and "b_updated_at b = Some t" and "bm.run_ok b es" and "rate_at_most m b es"
  shows "of_nat (granted b es) + b_tokens (bm.run b es) \<le> b_tokens b + m * (last_pass t es - t)"
  using assms
proof (induction es arbitrary: b t)
  case (Cons e es)
  have inv: "bucket_inv (bucket_step b e)" using Cons.prems by (auto intro: bucket_step_inv)
  show ?case
  proof (cases e)
    case (Pass now)
    have up: "b_updated_at (bucket_step b e) = Some now"
      by (simp add: Pass bucket_step_def updated_after_pass)
    have "rate_at_most m (bucket_step b e) es"
      using Cons.prems(4) by (auto simp: rate_at_most_def Pass bucket_step_def rate_after_pass)
    from Cons.IH[OF inv up _ this] have
      "of_nat (granted (bucket_step b e) es) + b_tokens (bm.run (bucket_step b e) es)
        \<le> b_tokens (bucket_step b e) + m * (last_pass now es - now)"
      using Cons.prems(3) by simp
    moreover have "of_nat (grants b e) + b_tokens (bucket_step b e) \<le> b_tokens b + m * (now - t)"
    proof -
      have "clock_ok b (Pass now)" using Cons.prems(3) by (simp add: Pass)
      then have "t \<le> now" "b_rate b \<le> m"
        using Cons.prems(2,4) by (simp_all add: clock_ok_def rate_at_most_def)
      from pass_potential[OF Cons.prems(1,2) this] show ?thesis
        by (simp add: Pass bucket_step_def)
    qed
    ultimately show ?thesis by (simp add: Pass algebra_simps)
  next
    case (Set_rate r)
    have "b_updated_at (bucket_step b e) = Some t" "b_tokens (bucket_step b e) = b_tokens b"
      using Cons.prems(2) by (simp_all add: Set_rate bucket_step_def set_rate_def)
    moreover have "rate_at_most m (bucket_step b e) es"
      using Cons.prems(4) by (auto simp: rate_at_most_def Set_rate bucket_step_def set_rate_def)
    ultimately show ?thesis
      using Cons.IH[OF inv] Cons.prems(3) by (simp add: Set_rate grants_def)
  qed
qed simp

lemma first_pass_grants_none:
  assumes "bucket_inv b" and "b_updated_at b = None"
  shows "grants b (Pass now) = 0" "b_tokens (fst (pass b now)) = 0"
  using assms by (auto simp: bucket_inv_def grants_def pass_def refill_def Let_def)

text \<open>C34. However many tasks share a bucket, and however its rate is lowered meanwhile, the
  tokens it hands out in any stretch of time never exceed what it held at the start plus the
  highest rate times the stretch: no burst beyond its capacity, whatever the interleaving of
  passes and rate changes.\<close>

theorem bucket_never_exceeds_rate:
  assumes "bucket_inv b" and "b_updated_at b = Some t" and "bm.run_ok b es" and "rate_at_most m b es"
  shows "of_nat (granted b es) \<le> b_capacity b + m * (last_pass t es - t)"
proof -
  have "bucket_inv (bm.run b es)" using assms(1,3) by (rule bm.run_inv)
  then have "0 \<le> b_tokens (bm.run b es)" by (simp add: bucket_inv_def)
  moreover have "b_tokens b \<le> b_capacity b" using assms(1) by (simp add: bucket_inv_def)
  ultimately show ?thesis using granted_bound[OF assms] by linarith
qed

theorem bucket_never_exceeds_rate_witness:
  "granted \<lparr>b_rate = 8, b_capacity = 1, b_tokens = 0, b_updated_at = Some 0\<rparr> [Pass (1/8), Pass (2/8)] \<le> 3"
proof -
  let ?b = "\<lparr>b_rate = 8, b_capacity = 1, b_tokens = 0, b_updated_at = Some 0\<rparr>"
  have "of_nat (granted ?b [Pass (1/8), Pass (2/8)]) \<le> b_capacity ?b + 8 * (last_pass 0 [Pass (1/8), Pass (2/8)] - 0)"
    by (rule bucket_never_exceeds_rate)
      (simp_all add: bucket_inv_def rate_at_most_def clock_ok_def bucket_step_def updated_after_pass)
  then have "(of_nat (granted ?b [Pass (1/8), Pass (2/8)]) :: rat) \<le> of_nat 3" by simp
  then show ?thesis by (simp only: of_nat_le_iff)
qed

section \<open>Pacing and progress\<close>

text \<open>With the default capacity of one token the bucket is a pacer: between a token and the
  next at least \<open>1/rate\<close> passes, however many passes fell between. A burst of one.\<close>

theorem bucket_paces:
  assumes "bucket_inv b" and "b_capacity b = 1"
    and "snd (pass b t) = None" and "clock_ok b (Pass t)"
    and "bm.run_ok (fst (pass b t)) es" and "rate_at_most m (fst (pass b t)) es"
    and "granted (fst (pass b t)) es = 1"
  shows "1 \<le> m * (last_pass t es - t)"
proof -
  let ?b = "fst (pass b t)"
  have inv: "bucket_inv ?b" using assms(1,4) by (rule pass_inv)
  have "b_tokens (refill b t) \<le> 1" using assms(2) by (simp add: refill_def Let_def)
  then have "b_tokens ?b = 0"
    using assms(3) inv by (auto simp: pass_def Let_def bucket_inv_def split: if_splits)
  moreover have "bucket_inv (bm.run ?b es)" using inv assms(5) by (rule bm.run_inv)
  then have "0 \<le> b_tokens (bm.run ?b es)" by (simp add: bucket_inv_def)
  ultimately show ?thesis
    using granted_bound[OF inv updated_after_pass assms(5,6)] assms(7) by simp
qed

theorem bucket_paces_witness: "(1::rat) \<le> 8 * (2/8 - 1/8)"
proof -
  let ?b = "\<lparr>b_rate = 8, b_capacity = 1, b_tokens = 0, b_updated_at = Some 0\<rparr>"
  have p: "pass ?b (1/8) = (\<lparr>b_rate = 8, b_capacity = 1, b_tokens = 0, b_updated_at = Some (1/8)\<rparr>, None)"
    by (simp add: pass_def refill_def Let_def)
  have "(1::rat) \<le> 8 * (last_pass (1/8) [Pass (2/8)] - 1/8)"
    by (rule bucket_paces[of ?b])
      (simp_all add: p bucket_inv_def clock_ok_def rate_at_most_def grants_def,
        simp add: pass_def refill_def Let_def)
  then show ?thesis by simp
qed

lemma refill_twice_enough:
  assumes "bucket_inv b" and "pass b t = (b', Some s)" and "t + s \<le> t'"
  shows "snd (pass b' t') = None"
proof -
  have b': "b' = refill b t" and s: "s = (1 - b_tokens b') / b_rate b'"
    using assms(2) by (auto simp: pass_def Let_def split: if_splits)
  have r: "0 < b_rate b'" "1 \<le> b_capacity b'" "b_updated_at b' = Some t"
    using assms(1) by (simp_all add: b' refill_def Let_def bucket_inv_def)
  have "1 - b_tokens b' \<le> (t' - t) * b_rate b'"
    using assms(3) r(1) by (simp add: s field_simps)
  then have "1 \<le> b_tokens (refill b' t')"
    using r by (simp add: refill_def Let_def)
  then show ?thesis by (simp add: pass_def Let_def)
qed

text \<open>A waiter is never stuck: \<open>asyncio.sleep\<close> sleeps at least as long as it is asked, and
  then, the rate not having been lowered meanwhile, the second pass of the loop takes a token.\<close>

theorem acquire_within_two_passes:
  assumes "bucket_inv b" and "case pass b t of (b', None) \<Rightarrow> True | (b', Some s) \<Rightarrow> t + s \<le> t'"
  shows "\<exists>b'' got. acquire b (t # t' # later) = Some (b'', got) \<and> (got = t \<or> got = t')"
proof -
  obtain b' w where p: "pass b t = (b', w)" by (cases "pass b t")
  show ?thesis
  proof (cases w)
    case (Some s)
    with p assms have "snd (pass b' t') = None" by (auto intro: refill_twice_enough)
    then show ?thesis by (cases "pass b' t'") (simp add: p Some)
  qed (simp add: p)
qed

theorem acquire_within_two_passes_witness:
  "\<exists>b'' got. acquire \<lparr>b_rate = 8, b_capacity = 1, b_tokens = 0, b_updated_at = None\<rparr> [5, 5 + 1/8] = Some (b'', got)"
  using acquire_within_two_passes[of "\<lparr>b_rate = 8, b_capacity = 1, b_tokens = 0, b_updated_at = None\<rparr>" 5 "5 + 1/8" "[]"]
  by (auto simp: bucket_inv_def pass_def refill_def Let_def)

section \<open>The shared budget\<close>

definition limiters_inv :: "limiters \<Rightarrow> bool" where
  "limiters_inv ls \<longleftrightarrow> (\<forall>k b. ls k = Some b \<longrightarrow> bucket_inv b \<and> b_capacity b = 1)"

definition limiters_step :: "limiters \<Rightarrow> string \<times> rat \<Rightarrow> limiters" where
  "limiters_step ls req = (case shared_limiter ls (fst req) (snd req) of Inl _ \<Rightarrow> ls | Inr ls' \<Rightarrow> ls')"

lemma shared_limiter_inv:
  assumes "limiters_inv ls" and "shared_limiter ls k r = Inr ls'"
  shows "limiters_inv ls'"
proof (cases "ls k")
  case None
  then obtain b where b: "new_bucket r 1 = Inr b" "ls' = ls(k \<mapsto> b)"
    using assms(2) by (auto simp: shared_limiter_def map_res_Inr_iff)
  then have "bucket_inv b" "b_capacity b = 1"
    using new_bucket_inv by (auto simp: new_bucket_def split: if_splits)
  then show ?thesis using assms(1) b by (simp add: limiters_inv_def)
next
  case (Some b)
  then have "bucket_inv b" "b_capacity b = 1" using assms(1) by (auto simp: limiters_inv_def)
  then have "bucket_inv b'" "b_capacity b' = 1" if "set_rate b r = Inr b'" for b'
    using that by (auto simp: set_rate_def bucket_inv_def split: if_splits)
  then show ?thesis
    using assms Some by (auto simp: shared_limiter_def limiters_inv_def map_res_Inr_iff split: if_splits)
qed

interpretation lm: total_machine limiters_step limiters_inv
  by unfold_locales (auto simp: limiters_step_def split: sum.splits intro: shared_limiter_inv)

lemma shared_limiter_positive:
  "0 < r \<Longrightarrow> limiters_inv ls \<Longrightarrow> \<exists>ls'. shared_limiter ls k r = Inr ls'"
  by (auto simp: shared_limiter_def new_bucket_def set_rate_def split: option.splits)

lemma limiters_step_rate:
  assumes "0 < r"
  shows "map_option b_rate (limiters_step ls (k, r) k) =
    Some (case ls k of None \<Rightarrow> r | Some b \<Rightarrow> min (b_rate b) r)"
  using assms
  by (auto simp: limiters_step_def shared_limiter_def new_bucket_def set_rate_def min_def
      split: option.splits)

lemma limiters_step_other: "k \<noteq> j \<Longrightarrow> limiters_step ls (k, r) j = ls j"
  by (auto simp: limiters_step_def shared_limiter_def new_bucket_def set_rate_def map_res_def
      split: option.splits sum.splits)

text \<open>The rates asked of one budget, in order.\<close>

definition asked :: "string \<Rightarrow> (string \<times> rat) list \<Rightarrow> rat list" where
  "asked k reqs = map snd (filter (\<lambda>p. fst p = k) reqs)"

lemma asked_simps [simp]:
  "asked k [] = []"
  "asked k ((j, r) # reqs) = (if j = k then r # asked k reqs else asked k reqs)"
  by (simp_all add: asked_def)

lemma set_asked: "x \<in> set (asked k reqs) \<longleftrightarrow> (k, x) \<in> set reqs"
  by (force simp: asked_def)

lemma limiters_run_rate:
  assumes "\<And>k r. (k, r) \<in> set reqs \<Longrightarrow> 0 < r"
  shows "map_option b_rate (foldl limiters_step ls reqs k) =
    (case asked k reqs of
       [] \<Rightarrow> map_option b_rate (ls k)
     | r # rs \<Rightarrow> Some (fold min rs (case ls k of None \<Rightarrow> r | Some b \<Rightarrow> min (b_rate b) r)))"
  using assms
proof (induction reqs arbitrary: ls)
  case (Cons req reqs)
  obtain j r where req: "req = (j, r)" by (cases req)
  have pos: "0 < r" using Cons.prems[of j r] by (simp add: req)
  have IH: "map_option b_rate (foldl limiters_step (limiters_step ls (j, r)) reqs k) =
    (case asked k reqs of
       [] \<Rightarrow> map_option b_rate (limiters_step ls (j, r) k)
     | r' # rs \<Rightarrow> Some (fold min rs (case limiters_step ls (j, r) k of None \<Rightarrow> r' | Some b \<Rightarrow> min (b_rate b) r')))"
    using Cons.prems by (intro Cons.IH) auto
  show ?case
  proof (cases "j = k")
    case False
    then have "limiters_step ls (j, r) k = ls k" by (simp add: limiters_step_other)
    then show ?thesis using IH False by (simp only: req) simp
  next
    case True
    obtain b where b: "limiters_step ls (k, r) k = Some b"
      "b_rate b = (case ls k of None \<Rightarrow> r | Some b \<Rightarrow> min (b_rate b) r)"
      using limiters_step_rate[OF pos, of ls k] by (cases "limiters_step ls (k, r) k") auto
    show ?thesis
      using IH b True by (cases "asked k reqs") (auto simp: req min.commute)
  qed
qed (simp split: list.splits)

text \<open>The tightest ceiling anyone asked for is the one honoured: after any calls for any
  budgets, in any order, a budget's bucket runs at the least rate asked of it, the first call
  having built it and no call having replaced it.\<close>

theorem shared_limiter_tightest:
  assumes "\<And>k r. (k, r) \<in> set reqs \<Longrightarrow> 0 < r" and "(k, r) \<in> set reqs"
  shows "\<exists>b. foldl limiters_step Map.empty reqs k = Some b \<and> bucket_inv b \<and> b_rate b \<le> r \<and>
    (k, b_rate b) \<in> set reqs"
proof -
  obtain x xs where xs: "asked k reqs = x # xs"
    using assms(2) set_asked[of r k reqs] by (cases "asked k reqs") auto
  have "map_option b_rate (foldl limiters_step Map.empty reqs k) = Some (fold min xs x)"
    using limiters_run_rate[OF assms(1), where ls=Map.empty and k=k] xs by simp
  then obtain b where b: "foldl limiters_step Map.empty reqs k = Some b" "b_rate b = fold min xs x"
    by auto
  have "limiters_inv (foldl limiters_step Map.empty reqs)"
    by (rule lm.foldl_inv) (simp add: limiters_inv_def)
  then have "bucket_inv b" using b(1) by (auto simp: limiters_inv_def)
  moreover have m: "b_rate b = Min (set (asked k reqs))"
    by (simp only: xs Min.set_eq_fold b(2))
  then have "b_rate b \<le> r" "(k, b_rate b) \<in> set reqs"
    using assms(2) Min_in[of "set (asked k reqs)"] xs
    by (simp_all add: set_asked flip: set_asked[of _ k reqs])
  ultimately show ?thesis using b(1) by blast
qed

theorem shared_limiter_tightest_witness:
  "\<exists>b. foldl limiters_step Map.empty [(''edgar'', 8), (''openfigi'', 1), (''edgar'', 5)] ''edgar'' = Some b
    \<and> b_rate b \<le> 5"
proof -
  let ?reqs = "[(''edgar'', 8), (''openfigi'', 1), (''edgar'', 5)]"
  have "\<exists>b. foldl limiters_step Map.empty ?reqs ''edgar'' = Some b \<and> bucket_inv b \<and> b_rate b \<le> 5 \<and>
    (''edgar'', b_rate b) \<in> set ?reqs"
    by (rule shared_limiter_tightest) auto
  then show ?thesis by blast
qed

end
