(* ===== verification/Entitlements.thy ===== *)
theory Entitlements
  imports Prelude Calendar
begin

text \<open>
  \<open>app/accounts/entitlements.py\<close> and the keys of \<open>app/db/models/plan.py\<close>: what an account may
  do. The catalog of plans and its acceptance, one user's grant and when it is live, the
  resolution of a key, what a refusal offers, and the catalog's reload loop. A dict is an
  association list with distinct keys; the clock is an argument, one for each reading of it.
\<close>

section \<open>Keys and values\<close>

definition limit_keys :: "string list" where
  "limit_keys = [''history_quarters'', ''insider_months'', ''watchlist_items'',
     ''screener_saved_filters'', ''alert_rules'', ''api_calls_month'', ''mcp_calls_month'',
     ''export_rows'', ''exports_month'']"

definition flag_keys :: "string list" where
  "flag_keys = [''export_enabled'', ''alerts_instant'', ''mcp_enabled'']"

definition entitlement_keys :: "string list" where
  "entitlement_keys = limit_keys @ flag_keys"

text \<open>A value as a JSON column gives it: null, a boolean, a whole number, or anything else.\<close>

datatype ent_value = Null | Flag bool | Num int | Other_value string

datatype value_problem = Must_be_bool | Must_be_whole_or_null | Not_an_entitlement

definition value_problem :: "string \<Rightarrow> ent_value \<Rightarrow> value_problem option" where
  "value_problem key v =
     (if key \<in> set flag_keys then (case v of Flag _ \<Rightarrow> None | _ \<Rightarrow> Some Must_be_bool)
      else if key \<in> set limit_keys then
        (case v of Null \<Rightarrow> None
         | Num n \<Rightarrow> if n \<ge> 0 then None else Some Must_be_whole_or_null
         | _ \<Rightarrow> Some Must_be_whole_or_null)
      else Some Not_an_entitlement)"

lemma limit_keys_not_flags: "key \<in> set limit_keys \<Longrightarrow> key \<notin> set flag_keys"
  by (auto simp: limit_keys_def flag_keys_def)

section \<open>The catalog\<close>

type_synonym value_dict = "(string \<times> ent_value) list"

record plan_terms =
  pt_slug :: string
  pt_name :: string
  pt_price_cents :: int
  pt_currency :: string
  pt_interval :: "string option"
  pt_is_public :: bool
  pt_values :: value_dict

type_synonym catalog = "(string \<times> plan_terms) list"

definition FREE :: string where "FREE = ''free''"

datatype catalog_problem =
    No_free_plan
  | Missing_keys string "string list"
  | Bad_value string string value_problem ent_value

datatype ent_error =
    Catalog_refused "catalog_problem list"
  | Unavailable
  | Not_a_limit string
  | Not_a_flag string
  | Missing_key string
  | Assertion_failed
  | Type_error
  | Several_rows

definition plan_problems :: "plan_terms \<Rightarrow> catalog_problem list" where
  "plan_problems p =
     (let missing = filter (\<lambda>k. k \<notin> fst ` set (pt_values p)) entitlement_keys
      in (if missing \<noteq> [] then [Missing_keys (pt_slug p) missing] else []) @
         List.map_filter (\<lambda>(k, v). map_option (\<lambda>pr. Bad_value (pt_slug p) k pr v) (value_problem k v))
           (pt_values p))"

definition catalog_build :: "plan_terms list \<Rightarrow> ent_error + catalog" where
  "catalog_build plans =
     (let by_slug = dict_of pt_slug plans;
          problems = (if FREE \<notin> fst ` set by_slug then [No_free_plan] else [])
            @ concat (map plan_problems plans)
      in if problems \<noteq> [] then Inl (Catalog_refused problems) else Inr by_slug)"

definition catalog_free :: "catalog \<Rightarrow> ent_error + plan_terms" where
  "catalog_free c = (case map_of c FREE of None \<Rightarrow> Inl (Missing_key FREE) | Some p \<Rightarrow> Inr p)"

text \<open>The rows \<open>load_catalog\<close> reads: a plan's own columns, and one row for each capability.\<close>

record plan_row =
  pr_id :: int
  pr_terms :: plan_terms

definition store_value :: "(int \<times> value_dict) list \<Rightarrow> int \<times> string \<times> ent_value \<Rightarrow> ent_error + (int \<times> value_dict) list" where
  "store_value vs row =
     (case row of (pid, key, v) \<Rightarrow>
        (case map_of vs pid of
           None \<Rightarrow> Inl (Missing_key key)
         | Some kv \<Rightarrow> Inr (dict_put pid (dict_put key v kv) vs)))"

fun store_values :: "(int \<times> value_dict) list \<Rightarrow> (int \<times> string \<times> ent_value) list \<Rightarrow> ent_error + (int \<times> value_dict) list" where
  "store_values vs [] = Inr vs"
| "store_values vs (r # rs) = bind_res (store_value vs r) (\<lambda>vs'. store_values vs' rs)"

definition load_catalog :: "plan_row list \<Rightarrow> (int \<times> string \<times> ent_value) list \<Rightarrow> ent_error + catalog" where
  "load_catalog plans rows =
     (let ordered = sort_key pr_id plans in
      bind_res (store_values (map (\<lambda>p. (pr_id p, [])) ordered) rows)
        (\<lambda>vs. catalog_build (map (\<lambda>p. (pr_terms p)\<lparr>pt_values := the (map_of vs (pr_id p))\<rparr>) ordered)))"

section \<open>The catalog in force\<close>

text \<open>The module's one variable: the catalog every request resolves against.\<close>

type_synonym in_force = "catalog option"

definition install :: "catalog option \<Rightarrow> in_force \<Rightarrow> in_force" where
  "install c _ = c"

definition current :: "in_force \<Rightarrow> ent_error + catalog" where
  "current g = (case g of None \<Rightarrow> Inl Unavailable | Some c \<Rightarrow> Inr c)"

text \<open>One turn of \<open>keep_fresh\<close>: what the tables gave, or that they could not be read.\<close>

datatype load_attempt = Loaded "plan_row list" "(int \<times> string \<times> ent_value) list" | Unreachable

definition keep_fresh_step :: "in_force \<Rightarrow> load_attempt \<Rightarrow> in_force" where
  "keep_fresh_step g a =
     (case a of
        Unreachable \<Rightarrow> g
      | Loaded plans rows \<Rightarrow> (case load_catalog plans rows of Inl _ \<Rightarrow> g | Inr c \<Rightarrow> install (Some c) g))"

definition first_load_retry_seconds :: int where "first_load_retry_seconds = 5"

definition keep_fresh_sleep :: "in_force \<Rightarrow> int \<Rightarrow> int" where
  "keep_fresh_sleep g every = (if g \<noteq> None then every else min every first_load_retry_seconds)"

section \<open>One user's grant\<close>

record grant =
  gr_plan :: "string option"
  gr_grandfathered :: "string option"
  gr_overrides :: value_dict
  gr_ends_at :: "moment option"
  gr_started_at :: "moment option"
  gr_override :: "string option"
  gr_override_ends_at :: "moment option"

definition before_end :: "moment \<Rightarrow> moment option \<Rightarrow> bool" where
  "before_end at e \<longleftrightarrow> (case e of None \<Rightarrow> True | Some t \<Rightarrow> at < t)"

definition subscribed :: "grant \<Rightarrow> moment \<Rightarrow> bool" where
  "subscribed g at \<longleftrightarrow> gr_plan g \<noteq> None \<and> before_end at (gr_ends_at g)"

definition overridden :: "grant \<Rightarrow> moment \<Rightarrow> bool" where
  "overridden g at \<longleftrightarrow> gr_override g \<noteq> None \<and> before_end at (gr_override_ends_at g)"

definition grant_live :: "grant \<Rightarrow> moment \<Rightarrow> bool" where
  "grant_live g at \<longleftrightarrow> subscribed g at \<or> overridden g at"

text \<open>The rows \<open>grant_for\<close> joins. A subscription's own entitlements are \<open>{}\<close> for none.\<close>

datatype subscription_status =
  Trialing | Active | Past_due | Paused | Unpaid | Canceled | Incomplete | Incomplete_expired

definition live_statuses :: "subscription_status list" where
  "live_statuses = [Trialing, Active, Past_due]"

record subscription_row =
  sb_user :: int
  sb_plan_id :: int
  sb_status :: subscription_status
  sb_cancel_at :: "moment option"
  sb_grace_ends_at :: "moment option"
  sb_grandfathered :: "int option"
  sb_created_at :: moment
  sb_values :: value_dict

record override_row =
  ov_id :: int
  ov_user :: int
  ov_plan_id :: int
  ov_starts_at :: moment
  ov_expires_at :: moment
  ov_ended_at :: "moment option"

definition subscription_is_live :: "moment \<Rightarrow> subscription_row \<Rightarrow> bool" where
  "subscription_is_live now s \<longleftrightarrow>
     sb_status s \<in> set live_statuses \<and>
     (case sb_cancel_at s of None \<Rightarrow> True | Some t \<Rightarrow> t > now) \<and>
     (case sb_grace_ends_at s of None \<Rightarrow> True | Some t \<Rightarrow> t > now)"

definition override_is_live :: "moment \<Rightarrow> override_row \<Rightarrow> bool" where
  "override_is_live now v \<longleftrightarrow> ov_ended_at v = None \<and> ov_starts_at v \<le> now \<and> ov_expires_at v > now"

text \<open>SQL's \<open>LEAST\<close>, which ignores nulls.\<close>

definition sql_least :: "moment option \<Rightarrow> moment option \<Rightarrow> moment option" where
  "sql_least a b = (case (a, b) of (None, _) \<Rightarrow> b | (_, None) \<Rightarrow> a | (Some x, Some y) \<Rightarrow> Some (min x y))"

text \<open>
  \<open>grant_for\<close>: the user's row (its \<open>created_at\<close>), outer-joined to the live subscription and to
  the newest live override. \<open>slug_of\<close> is the plan table, from id to slug.
\<close>

definition grant_for ::
  "(int \<rightharpoonup> string) \<Rightarrow> (int \<rightharpoonup> moment) \<Rightarrow> subscription_row list \<Rightarrow> override_row list \<Rightarrow> int \<Rightarrow> moment
    \<Rightarrow> ent_error + grant option" where
  "grant_for slug_of users subs ovs u now =
     (case users u of None \<Rightarrow> Inr None
      | Some user_created \<Rightarrow>
          (let live = filter (\<lambda>s. sb_user s = u \<and> subscription_is_live now s) subs;
               ov = min_by (\<lambda>v. - ov_id v) (filter (\<lambda>v. ov_user v = u \<and> override_is_live now v) ovs);
               override_slug = Option.bind ov (\<lambda>v. slug_of (ov_plan_id v));
               override_end = map_option ov_expires_at ov;
               make = (\<lambda>sub.
                 let plan_slug = Option.bind sub (\<lambda>s. slug_of (sb_plan_id s)) in
                 if plan_slug = None \<and> override_slug = None then None
                 else Some \<lparr>gr_plan = plan_slug,
                   gr_grandfathered = Option.bind sub (\<lambda>s. Option.bind (sb_grandfathered s) slug_of),
                   gr_overrides = (case sub of None \<Rightarrow> [] | Some s \<Rightarrow> sb_values s),
                   gr_ends_at = Option.bind sub (\<lambda>s. sql_least (sb_cancel_at s) (sb_grace_ends_at s)),
                   gr_started_at = Some (case sub of None \<Rightarrow> user_created | Some s \<Rightarrow> sb_created_at s),
                   gr_override = override_slug,
                   gr_override_ends_at = override_end\<rparr>)
           in (case live of
                 [] \<Rightarrow> Inr (make None)
               | [s] \<Rightarrow> Inr (make (Some s))
               | _ \<Rightarrow> Inl Several_rows)))"

section \<open>Resolving\<close>

text \<open>Someone, or nobody, signed in: the grant of a viewer that has one.\<close>

type_synonym who = "grant option option"

definition live_grant :: "who \<Rightarrow> moment \<Rightarrow> grant option" where
  "live_grant w at =
     (case w of Some (Some g) \<Rightarrow> if grant_live g at then Some g else None | _ \<Rightarrow> None)"

definition terms_value :: "catalog \<Rightarrow> string option \<Rightarrow> string \<Rightarrow> ent_value option" where
  "terms_value c slug key =
     Option.bind slug (\<lambda>s. Option.bind (map_of c s) (\<lambda>p. map_of (pt_values p) key))"

definition free_value :: "catalog \<Rightarrow> string \<Rightarrow> ent_error + ent_value" where
  "free_value c key =
     bind_res (catalog_free c) (\<lambda>p. case map_of (pt_values p) key of None \<Rightarrow> Inl (Missing_key key) | Some v \<Rightarrow> Inr v)"

definition resolve :: "catalog \<Rightarrow> grant option \<Rightarrow> string \<Rightarrow> moment \<Rightarrow> ent_error + ent_value" where
  "resolve c gr key at =
     (case gr of None \<Rightarrow> free_value c key
      | Some g \<Rightarrow>
          (case (if overridden g at then terms_value c (gr_override g) key else None) of
             Some v \<Rightarrow> Inr v
           | None \<Rightarrow>
               if \<not> subscribed g at then free_value c key
               else (case map_of (gr_overrides g) key of
                       Some v \<Rightarrow> Inr v
                     | None \<Rightarrow>
                         (case terms_value c (gr_grandfathered g) key of
                            Some v \<Rightarrow> Inr v
                          | None \<Rightarrow>
                              (case terms_value c (gr_plan g) key of
                                 Some v \<Rightarrow> Inr v
                               | None \<Rightarrow> free_value c key)))))"

definition limit :: "in_force \<Rightarrow> who \<Rightarrow> string \<Rightarrow> moment \<Rightarrow> moment \<Rightarrow> ent_error + int option" where
  "limit cat w key at1 at2 =
     (if key \<notin> set limit_keys then Inl (Not_a_limit key)
      else bind_res (current cat) (\<lambda>c. bind_res (resolve c (live_grant w at1) key at2)
        (\<lambda>v. case v of Null \<Rightarrow> Inr None | Num n \<Rightarrow> Inr (Some n) | _ \<Rightarrow> Inl Assertion_failed)))"

definition can :: "in_force \<Rightarrow> who \<Rightarrow> string \<Rightarrow> moment \<Rightarrow> moment \<Rightarrow> ent_error + bool" where
  "can cat w key at1 at2 =
     (if key \<notin> set flag_keys then Inl (Not_a_flag key)
      else bind_res (current cat) (\<lambda>c. bind_res (resolve c (live_grant w at1) key at2)
        (\<lambda>v. case v of Flag b \<Rightarrow> Inr b | _ \<Rightarrow> Inl Assertion_failed)))"

definition entitlements :: "in_force \<Rightarrow> who \<Rightarrow> moment \<Rightarrow> (string \<Rightarrow> moment) \<Rightarrow> ent_error + (string \<times> ent_value) list" where
  "entitlements cat w at1 at2 =
     bind_res (current cat) (\<lambda>c.
       mapM_res (\<lambda>key. map_res (Pair key) (resolve c (live_grant w at1) key (at2 key))) entitlement_keys)"

section \<open>What a refusal offers\<close>

text \<open>\<open>value >= needed\<close>, or no limit. In Python a boolean is a number too.\<close>

definition reaches :: "int \<Rightarrow> ent_value \<Rightarrow> ent_error + bool" where
  "reaches needed v =
     (case v of Null \<Rightarrow> Inr True | Num n \<Rightarrow> Inr (n \<ge> needed) | Flag b \<Rightarrow> Inr (of_bool b \<ge> needed)
      | Other_value _ \<Rightarrow> Inl Type_error)"

text \<open>\<open>min(offers, key=lambda plan: (plan.price_cents, plan.slug), default=None)\<close>.\<close>

definition cheapest :: "plan_terms list \<Rightarrow> plan_terms option" where
  "cheapest offers = min_by (\<lambda>p. (pt_price_cents p, pt_slug p)) offers"

fun plans_offered :: "string \<Rightarrow> (ent_value \<Rightarrow> ent_error + bool) \<Rightarrow> plan_terms list \<Rightarrow> ent_error + plan_terms list" where
  "plans_offered key wanted [] = Inr []"
| "plans_offered key wanted (p # ps) =
     bind_res
       (case map_of (pt_values p) key of
          None \<Rightarrow> Inl (Missing_key key)
        | Some v \<Rightarrow> if pt_slug p \<noteq> FREE \<and> pt_is_public p then wanted v else Inr False)
       (\<lambda>take. map_res (\<lambda>qs. if take then p # qs else qs) (plans_offered key wanted ps))"

definition lifting_plan :: "in_force \<Rightarrow> string \<Rightarrow> int \<Rightarrow> ent_error + plan_terms option" where
  "lifting_plan cat key needed =
     (if key \<notin> set limit_keys then Inl (Not_a_limit key)
      else bind_res (current cat) (\<lambda>c. map_res cheapest (plans_offered key (reaches needed) (map snd c))))"

definition enabling_plan :: "in_force \<Rightarrow> string \<Rightarrow> ent_error + plan_terms option" where
  "enabling_plan cat key =
     (if key \<notin> set flag_keys then Inl (Not_a_flag key)
      else bind_res (current cat) (\<lambda>c.
        map_res cheapest (plans_offered key (\<lambda>v. Inr (v = Flag True)) (map snd c))))"

definition plan_of :: "in_force \<Rightarrow> who \<Rightarrow> moment \<Rightarrow> moment \<Rightarrow> ent_error + plan_terms" where
  "plan_of cat w at1 at2 =
     bind_res (current cat) (\<lambda>c.
       (case live_grant w at1 of None \<Rightarrow> catalog_free c
        | Some g \<Rightarrow>
            (case (if overridden g at2 then gr_override g
                   else if subscribed g at2 then gr_plan g else None) of
               None \<Rightarrow> catalog_free c
             | Some slug \<Rightarrow> (case map_of c slug of Some p \<Rightarrow> Inr p | None \<Rightarrow> catalog_free c))))"

section \<open>A catalog that resolves every key\<close>

definition plan_ok :: "plan_terms \<Rightarrow> bool" where
  "plan_ok p \<longleftrightarrow>
     (\<forall>k \<in> set entitlement_keys. k \<in> fst ` set (pt_values p)) \<and>
     (\<forall>(k, v) \<in> set (pt_values p). value_problem k v = None)"

definition catalog_ok :: "catalog \<Rightarrow> bool" where
  "catalog_ok c \<longleftrightarrow> distinct (map fst c) \<and> FREE \<in> fst ` set c \<and>
     (\<forall>(slug, p) \<in> set c. pt_slug p = slug \<and> plan_ok p)"

lemma map_filter_Nil_iff: "List.map_filter f xs = [] \<longleftrightarrow> (\<forall>x \<in> set xs. f x = None)"
  by (induction xs) (auto simp: List.map_filter_simps split: option.splits)

lemma plan_problems_Nil: "plan_problems p = [] \<longleftrightarrow> plan_ok p"
  by (auto simp: plan_problems_def plan_ok_def Let_def map_filter_Nil_iff filter_empty_conv)

lemma fst_dict_of: "fst ` set (dict_of key xs) = key ` set xs"
  using map_of_dict_of_dom[of key xs] by (auto simp: map_of_eq_None_iff)

text \<open>A catalog is accepted exactly when Free exists and every plan has every key, each with
  a value of its kind; otherwise it is refused, and nothing is installed from it.\<close>

theorem catalog_build_accepts:
  "catalog_build plans = Inr c \<longleftrightarrow>
     (\<exists>p \<in> set plans. pt_slug p = FREE) \<and> (\<forall>p \<in> set plans. plan_ok p) \<and> c = dict_of pt_slug plans"
proof -
  have "FREE \<in> fst ` set (dict_of pt_slug plans) \<longleftrightarrow> (\<exists>p \<in> set plans. pt_slug p = FREE)"
    unfolding fst_dict_of by (metis (no_types, lifting) image_iff)
  then show ?thesis
    by (cases "\<exists>p \<in> set plans. pt_slug p = FREE"; cases "\<forall>p \<in> set plans. plan_ok p")
      (auto simp: catalog_build_def Let_def plan_problems_Nil)
qed

lemma catalog_build_ok: "catalog_build plans = Inr c \<Longrightarrow> catalog_ok c"
  by (auto simp: catalog_build_def Let_def catalog_ok_def plan_problems_Nil
      split: if_splits dest!: dict_of_mem)

lemma load_catalog_ok: "load_catalog plans rows = Inr c \<Longrightarrow> catalog_ok c"
  by (auto simp: load_catalog_def Let_def bind_res_Inr_iff intro: catalog_build_ok)

definition in_force_ok :: "in_force \<Rightarrow> bool" where
  "in_force_ok g \<longleftrightarrow> (case g of None \<Rightarrow> True | Some c \<Rightarrow> catalog_ok c)"

lemma keep_fresh_step_ok: "in_force_ok g \<Longrightarrow> in_force_ok (keep_fresh_step g a)"
  by (auto simp: keep_fresh_step_def in_force_ok_def install_def split: load_attempt.splits sum.splits
      dest: load_catalog_ok)

interpretation fresh: total_machine keep_fresh_step in_force_ok
  by unfold_locales (rule keep_fresh_step_ok)

lemma keep_fresh_step_Some: "g \<noteq> None \<Longrightarrow> keep_fresh_step g a \<noteq> None"
  by (auto simp: keep_fresh_step_def install_def split: load_attempt.splits sum.splits)

lemma keep_fresh_run_Some: "g \<noteq> None \<Longrightarrow> foldl keep_fresh_step g as \<noteq> None"
proof (induction as arbitrary: g)
  case (Cons a as)
  then show ?case using keep_fresh_step_Some[of g a] by simp
qed simp

text \<open>Whatever the reloads meet, outages and refused rows included, the catalog in force is
  always one that resolves every key, and once there is one there is one for good.\<close>

theorem keep_fresh_safe:
  assumes "foldl keep_fresh_step None as = Some c"
  shows "catalog_ok c \<and> (\<exists>c'. foldl keep_fresh_step None (as @ bs) = Some c' \<and> catalog_ok c')"
proof -
  have "in_force_ok (foldl keep_fresh_step None as)" "in_force_ok (foldl keep_fresh_step None (as @ bs))"
    by (rule fresh.foldl_inv, simp add: in_force_ok_def)+
  moreover have "foldl keep_fresh_step None (as @ bs) \<noteq> None"
    using assms by (simp add: keep_fresh_run_Some)
  ultimately show ?thesis using assms by (auto simp: in_force_ok_def)
qed

definition sample_values :: value_dict where
  "sample_values = map (\<lambda>k. (k, Num 3)) limit_keys @ map (\<lambda>k. (k, Flag False)) flag_keys"

definition sample_plan :: "string \<Rightarrow> int \<Rightarrow> plan_terms" where
  "sample_plan slug price = \<lparr>pt_slug = slug, pt_name = slug, pt_price_cents = price, pt_currency = ''USD'',
     pt_interval = None, pt_is_public = True, pt_values = sample_values\<rparr>"

lemma sample_load:
  "load_catalog [\<lparr>pr_id = 1, pr_terms = sample_plan ''free'' 0\<rparr>] (map (Pair 1) sample_values)
     = Inr [(''free'', sample_plan ''free'' 0)]"
  by code_simp

theorem keep_fresh_safe_witness: "catalog_ok [(''free'', sample_plan ''free'' 0)]"
proof -
  let ?as = "[Unreachable,
    Loaded [\<lparr>pr_id = 1, pr_terms = sample_plan ''free'' 0\<rparr>] (map (Pair 1) sample_values),
    Loaded [] []]"
  have "load_catalog [] [] = Inl (Catalog_refused [No_free_plan])" by code_simp
  then have "foldl keep_fresh_step None ?as = Some [(''free'', sample_plan ''free'' 0)]"
    by (simp add: keep_fresh_step_def sample_load install_def)
  from keep_fresh_safe[OF this] show ?thesis by blast
qed

section \<open>Every key resolves\<close>

definition values_ok :: "value_dict \<Rightarrow> bool" where
  "values_ok vs \<longleftrightarrow> (\<forall>(k, v) \<in> set vs. value_problem k v = None)"

definition who_ok :: "who \<Rightarrow> bool" where
  "who_ok w \<longleftrightarrow> (case w of Some (Some g) \<Rightarrow> values_ok (gr_overrides g) | _ \<Rightarrow> True)"

lemma catalog_lookup: "catalog_ok c \<Longrightarrow> map_of c slug = Some p \<Longrightarrow> plan_ok p \<and> pt_slug p = slug"
  by (auto simp: catalog_ok_def dest!: map_of_SomeD)

lemma catalog_free_ok:
  assumes "catalog_ok c"
  shows "\<exists>p. catalog_free c = Inr p \<and> map_of c FREE = Some p \<and> plan_ok p"
proof -
  have "FREE \<in> fst ` set c" using assms by (simp only: catalog_ok_def)
  then obtain p where p: "map_of c FREE = Some p" by (cases "map_of c FREE") (simp_all add: map_of_eq_None_iff)
  then show ?thesis using catalog_lookup[OF assms p] by (simp add: catalog_free_def)
qed

lemma plan_value_ok:
  assumes "plan_ok p" and "key \<in> set entitlement_keys"
  shows "\<exists>v. map_of (pt_values p) key = Some v \<and> value_problem key v = None"
proof -
  obtain v where "map_of (pt_values p) key = Some v"
    using assms by (cases "map_of (pt_values p) key") (auto simp: plan_ok_def map_of_eq_None_iff)
  then show ?thesis using assms(1) map_of_SomeD[of "pt_values p" key v] by (auto simp: plan_ok_def)
qed

lemma free_value_ok:
  "catalog_ok c \<Longrightarrow> key \<in> set entitlement_keys \<Longrightarrow> \<exists>v. free_value c key = Inr v \<and> value_problem key v = None"
  using catalog_free_ok[of c] plan_value_ok[of _ key] by (fastforce simp: free_value_def)

lemma terms_value_ok:
  "catalog_ok c \<Longrightarrow> terms_value c slug key = Some v \<Longrightarrow> value_problem key v = None"
proof -
  assume c: "catalog_ok c" and "terms_value c slug key = Some v"
  then obtain a p where p: "map_of c a = Some p" "map_of (pt_values p) key = Some v"
    by (auto simp: terms_value_def bind_eq_Some_conv)
  then have "(key, v) \<in> set (pt_values p)" by (rule_tac map_of_SomeD)
  then show ?thesis using catalog_lookup[OF c p(1)] by (auto simp: plan_ok_def)
qed

lemma resolve_ok:
  assumes "catalog_ok c" and "key \<in> set entitlement_keys"
    and "case gr of None \<Rightarrow> True | Some g \<Rightarrow> values_ok (gr_overrides g)"
  shows "\<exists>v. resolve c gr key at = Inr v \<and> value_problem key v = None"
proof (cases gr)
  case None
  then show ?thesis using free_value_ok[OF assms(1,2)] by (simp add: resolve_def)
next
  case (Some g)
  have "value_problem key v = None" if "map_of (gr_overrides g) key = Some v" for v
    using assms(3) Some map_of_SomeD[OF that] by (auto simp: values_ok_def)
  then show ?thesis
    using Some free_value_ok[OF assms(1,2)] terms_value_ok[OF assms(1)]
    by (auto simp: resolve_def split: option.splits)
qed

lemma live_grant_ok:
  "who_ok w \<Longrightarrow> case live_grant w at of None \<Rightarrow> True | Some g \<Rightarrow> values_ok (gr_overrides g)"
  by (auto simp: who_ok_def live_grant_def split: option.splits)

lemma every_key_resolves_limit:
  assumes "catalog_ok c" and "who_ok w" and k: "key \<in> set limit_keys"
  shows "\<exists>n. limit (Some c) w key at1 at2 = Inr n \<and> (case n of None \<Rightarrow> True | Some k \<Rightarrow> k \<ge> 0)"
proof -
  have "key \<in> set entitlement_keys" using k by (simp add: entitlement_keys_def)
  from resolve_ok[OF assms(1) this live_grant_ok[OF assms(2)]]
  obtain v where "resolve c (live_grant w at1) key at2 = Inr v" "value_problem key v = None" by blast
  then show ?thesis
    using k limit_keys_not_flags[OF k]
    by (auto simp: limit_def current_def value_problem_def split: ent_value.splits if_splits)
qed

lemma every_key_resolves_flag:
  assumes "catalog_ok c" and "who_ok w" and k: "key \<in> set flag_keys"
  shows "\<exists>b. can (Some c) w key at1 at2 = Inr b"
proof -
  have "key \<in> set entitlement_keys" using k by (simp add: entitlement_keys_def)
  from resolve_ok[OF assms(1) this live_grant_ok[OF assms(2)]]
  obtain v where "resolve c (live_grant w at1) key at2 = Inr v" "value_problem key v = None" by blast
  then show ?thesis
    using k by (auto simp: can_def current_def value_problem_def split: ent_value.splits)
qed

text \<open>C33. Nobody is ever left without an answer: with an accepted catalog, every limit resolves to
  no limit or a number of at least zero, and every flag to on or off, for anyone, signed in or
  not, whatever their grant, and at whatever moments the clock is read.\<close>

theorem every_key_resolves:
  assumes "catalog_ok c" and "who_ok w"
  shows "(key \<in> set limit_keys \<longrightarrow>
      (\<exists>n. limit (Some c) w key at1 at2 = Inr n \<and> (case n of None \<Rightarrow> True | Some k \<Rightarrow> k \<ge> 0)))
    \<and> (key \<in> set flag_keys \<longrightarrow> (\<exists>b. can (Some c) w key at1 at2 = Inr b))"
  using every_key_resolves_limit[OF assms] every_key_resolves_flag[OF assms] by blast

lemma sample_plan_ok: "plan_ok (sample_plan slug n)"
  by (auto simp: plan_ok_def sample_plan_def sample_values_def entitlement_keys_def value_problem_def
      image_Un image_image dest: limit_keys_not_flags)

lemma sample_catalog_ok: "catalog_ok [(''free'', sample_plan ''free'' 0), (''pro'', sample_plan ''pro'' 900)]"
  by (auto simp: catalog_ok_def sample_plan_ok FREE_def) (simp_all add: sample_plan_def)

theorem catalog_build_accepts_witness:
  "\<exists>c. catalog_build [sample_plan ''free'' 0, sample_plan ''pro'' 900] = Inr c"
proof -
  let ?ps = "[sample_plan ''free'' 0, sample_plan ''pro'' 900]"
  have "\<exists>p \<in> set ?ps. pt_slug p = FREE" by (simp add: sample_plan_def FREE_def)
  moreover have "\<forall>p \<in> set ?ps. plan_ok p" by (simp add: sample_plan_ok)
  ultimately show ?thesis using catalog_build_accepts[of ?ps "dict_of pt_slug ?ps"] by blast
qed

theorem every_key_resolves_witness:
  "\<exists>n. limit (Some [(''free'', sample_plan ''free'' 0), (''pro'', sample_plan ''pro'' 900)]) None ''alert_rules'' 0 0 = Inr n"
  using every_key_resolves[OF sample_catalog_ok, of None "''alert_rules''" 0 0]
  by (auto simp: who_ok_def limit_keys_def)

section \<open>Which terms win\<close>

text \<open>The order a key is looked up in, as the module's documentation lists it.\<close>

definition lookup_chain :: "catalog \<Rightarrow> grant \<Rightarrow> string \<Rightarrow> moment \<Rightarrow> ent_value option list" where
  "lookup_chain c g key at =
     (if overridden g at then [terms_value c (gr_override g) key] else []) @
     (if subscribed g at then
        [map_of (gr_overrides g) key, terms_value c (gr_grandfathered g) key, terms_value c (gr_plan g) key]
      else []) @
     [terms_value c (Some FREE) key]"

fun first_some :: "'a option list \<Rightarrow> 'a option" where
  "first_some [] = None"
| "first_some (None # xs) = first_some xs"
| "first_some (Some x # xs) = Some x"

lemma free_value_terms: "free_value c key = Inr v \<longleftrightarrow> terms_value c (Some FREE) key = Some v"
  by (auto simp: free_value_def catalog_free_def terms_value_def split: option.splits)

text \<open>C31. A key is what the first of these has: the live override's plan, and while the
  subscription is live its own value, the grandfathered plan's, the plan's; then Free. An override
  whose plan is in the catalog wins whole, and a grant with nothing live resolves every key as
  for someone signed out.\<close>

theorem resolve_precedence:
  assumes "catalog_ok c" and "key \<in> set entitlement_keys"
  shows "(\<exists>v. resolve c (Some g) key at = Inr v \<and> first_some (lookup_chain c g key at) = Some v)
    \<and> (\<forall>slug p. overridden g at \<and> gr_override g = Some slug \<and> map_of c slug = Some p \<longrightarrow>
         (\<exists>v. resolve c (Some g) key at = Inr v \<and> map_of (pt_values p) key = Some v))
    \<and> (\<not> grant_live g at \<longrightarrow> resolve c (Some g) key at = resolve c None key at)"
proof (intro conjI allI impI)
  obtain f where f: "free_value c key = Inr f" using free_value_ok[OF assms] by blast
  then have "terms_value c (Some FREE) key = Some f" by (simp add: free_value_terms)
  then show "\<exists>v. resolve c (Some g) key at = Inr v \<and> first_some (lookup_chain c g key at) = Some v"
    using f by (auto simp: resolve_def lookup_chain_def split: option.splits)
  fix slug p
  assume *: "overridden g at \<and> gr_override g = Some slug \<and> map_of c slug = Some p"
  then obtain v where "map_of (pt_values p) key = Some v"
    using catalog_lookup[OF assms(1)] plan_value_ok[OF _ assms(2)] by blast
  with * show "\<exists>v. resolve c (Some g) key at = Inr v \<and> map_of (pt_values p) key = Some v"
    by (simp add: resolve_def terms_value_def)
next
  assume "\<not> grant_live g at"
  then show "resolve c (Some g) key at = resolve c None key at"
    by (simp add: resolve_def grant_live_def)
qed

definition sample_grant :: grant where
  "sample_grant = \<lparr>gr_plan = Some ''pro'', gr_grandfathered = None, gr_overrides = [(''alert_rules'', Num 50)],
     gr_ends_at = Some 10, gr_started_at = Some 0, gr_override = None, gr_override_ends_at = None\<rparr>"

theorem resolve_precedence_witness:
  "resolve [(''free'', sample_plan ''free'' 0), (''pro'', sample_plan ''pro'' 900)]
     (Some sample_grant) ''alert_rules'' 9 = Inr (Num 50)"
proof -
  have "''alert_rules'' \<in> set entitlement_keys" by (simp add: entitlement_keys_def limit_keys_def)
  from resolve_precedence[OF sample_catalog_ok this, of sample_grant 9]
  obtain v where "resolve [(''free'', sample_plan ''free'' 0), (''pro'', sample_plan ''pro'' 900)]
      (Some sample_grant) ''alert_rules'' 9 = Inr v"
    "first_some (lookup_chain [(''free'', sample_plan ''free'' 0), (''pro'', sample_plan ''pro'' 900)]
      sample_grant ''alert_rules'' 9) = Some v"
    by blast
  then show ?thesis
    by (simp add: lookup_chain_def sample_grant_def subscribed_def overridden_def before_end_def)
qed

section \<open>The grant and the rows it was read from\<close>

lemma sql_least_before: "before_end at (sql_least a b) \<longleftrightarrow> before_end at a \<and> before_end at b"
  by (auto simp: before_end_def sql_least_def split: option.splits)

text \<open>What the rows of a subscription and an override give for a key at a moment, each while the row itself is live.\<close>

definition row_chain ::
  "catalog \<Rightarrow> (int \<rightharpoonup> string) \<Rightarrow> subscription_row option \<Rightarrow> override_row option \<Rightarrow> string \<Rightarrow> moment \<Rightarrow> ent_value option list" where
  "row_chain c slug_of sub ov key at =
     (case ov of None \<Rightarrow> []
      | Some v \<Rightarrow> if override_is_live at v then [terms_value c (slug_of (ov_plan_id v)) key] else []) @
     (case sub of None \<Rightarrow> []
      | Some s \<Rightarrow> if subscription_is_live at s
          then [map_of (sb_values s) key, terms_value c (Option.bind (sb_grandfathered s) slug_of) key,
                terms_value c (slug_of (sb_plan_id s)) key]
          else []) @
     [terms_value c (Some FREE) key]"

lemma resolve_first_some:
  assumes "catalog_ok c" "key \<in> set entitlement_keys"
  shows "\<exists>v. resolve c (Some g) key at = Inr v \<and> first_some (lookup_chain c g key at) = Some v"
    "\<exists>v. resolve c None key at = Inr v \<and> terms_value c (Some FREE) key = Some v"
proof -
  obtain f where f: "free_value c key = Inr f" using free_value_ok[OF assms] by blast
  then have t: "terms_value c (Some FREE) key = Some f" by (simp add: free_value_terms)
  then show "\<exists>v. resolve c (Some g) key at = Inr v \<and> first_some (lookup_chain c g key at) = Some v"
    using f by (auto simp: resolve_def lookup_chain_def split: option.splits)
  show "\<exists>v. resolve c None key at = Inr v \<and> terms_value c (Some FREE) key = Some v" using f t by (simp add: resolve_def)
qed

lemma subscription_live_before: "subscription_is_live at s \<Longrightarrow> now \<le> at \<Longrightarrow> subscription_is_live now s"
  by (auto simp: subscription_is_live_def split: option.splits)

text \<open>The terms of a grant are those of the rows it was read from, as long as it is kept.\<close>

lemma grant_chain:
  assumes c: "catalog_ok c" "key \<in> set entitlement_keys" and at: "now \<le> at" and u: "users u = Some created"
    and sub: "filter (\<lambda>s. sb_user s = u \<and> subscription_is_live now s) subs = (case sub of None \<Rightarrow> [] | Some s \<Rightarrow> [s])"
    and ov: "min_by (\<lambda>v. - ov_id v) (filter (\<lambda>v. ov_user v = u \<and> override_is_live now v) ovs) = ov"
    and known: "\<forall>s. sub = Some s \<longrightarrow> slug_of (sb_plan_id s) \<noteq> None" "\<forall>v. ov = Some v \<longrightarrow> slug_of (ov_plan_id v) \<noteq> None"
  shows "\<exists>g. grant_for slug_of users subs ovs u now = Inr g
    \<and> (\<exists>val. resolve c g key at = Inr val \<and> first_some (row_chain c slug_of sub ov key at) = Some val)
    \<and> (g = None \<longleftrightarrow> sub = None \<and> ov = None)
    \<and> (\<forall>x. g = Some x \<longrightarrow> gr_started_at x = Some (case sub of None \<Rightarrow> created | Some s \<Rightarrow> sb_created_at s))"
proof (cases "sub = None \<and> ov = None")
  case True
  then have "grant_for slug_of users subs ovs u now = Inr None" using u sub ov by (simp add: grant_for_def)
  moreover obtain val where "resolve c None key at = Inr val" "terms_value c (Some FREE) key = Some val"
    using resolve_first_some(2)[OF c] by blast
  ultimately show ?thesis using True by (auto simp: row_chain_def)
next
  case False
  let ?g = "\<lparr>gr_plan = Option.bind sub (\<lambda>s. slug_of (sb_plan_id s)),
    gr_grandfathered = Option.bind sub (\<lambda>s. Option.bind (sb_grandfathered s) slug_of),
    gr_overrides = (case sub of None \<Rightarrow> [] | Some s \<Rightarrow> sb_values s),
    gr_ends_at = Option.bind sub (\<lambda>s. sql_least (sb_cancel_at s) (sb_grace_ends_at s)),
    gr_started_at = Some (case sub of None \<Rightarrow> created | Some s \<Rightarrow> sb_created_at s),
    gr_override = Option.bind ov (\<lambda>v. slug_of (ov_plan_id v)), gr_override_ends_at = map_option ov_expires_at ov\<rparr>"
  have some: "Option.bind sub (\<lambda>s. slug_of (sb_plan_id s)) \<noteq> None \<or> Option.bind ov (\<lambda>v. slug_of (ov_plan_id v)) \<noteq> None"
    using False known by (cases sub; cases ov) auto
  have g: "grant_for slug_of users subs ovs u now = Inr (Some ?g)"
    using u sub ov some by (cases sub) (auto simp: grant_for_def Let_def)
  have s: "subscribed ?g at \<longleftrightarrow> (\<exists>s. sub = Some s \<and> subscription_is_live at s)"
  proof (cases sub)
    case (Some s)
    then have "s \<in> set (filter (\<lambda>s. sb_user s = u \<and> subscription_is_live now s) subs)" using sub by simp
    then have "sb_status s \<in> set live_statuses" by (simp add: subscription_is_live_def)
    then show ?thesis using Some known(1)
      by (simp add: subscribed_def sql_least_before subscription_is_live_def) (auto simp: before_end_def split: option.splits)
  qed (simp add: subscribed_def)
  have v: "overridden ?g at \<longleftrightarrow> (\<exists>v. ov = Some v \<and> override_is_live at v)"
  proof (cases ov)
    case (Some v)
    then have "override_is_live now v" using min_by_mem[OF ov[unfolded Some]] by simp
    then show ?thesis using Some known(2) at by (auto simp: overridden_def before_end_def override_is_live_def)
  qed (simp add: overridden_def)
  have "lookup_chain c ?g key at = row_chain c slug_of sub ov key at"
    unfolding lookup_chain_def s v by (cases sub; cases ov) (simp_all add: row_chain_def)
  then show ?thesis using g resolve_first_some(1)[OF c, of ?g at] False by (intro exI[of _ "Some ?g"]) auto
qed

text \<open>C32. A session keeps its grant for minutes without asking Postgres, and judges it as Postgres would. The grant read
  from a user's live subscription, if there is one, and newest live override, if there is one, resolves
  each key at any later moment to what those rows give then: the override's plan until the override
  expires, the subscription's own values, the grandfathered plan and the plan until \<open>cancel_at\<close> or the grace
  end it, then Free. So it does as a grant read again at that moment would, unless another override has come
  to be live; and its periods begin where the subscription does, or the account.\<close>

theorem grant_tracks_rows:
  assumes "catalog_ok c" "key \<in> set entitlement_keys" "now \<le> at" "users u = Some created"
    and "filter (\<lambda>s. sb_user s = u \<and> subscription_is_live now s) subs = (case sub of None \<Rightarrow> [] | Some s \<Rightarrow> [s])"
    and "min_by (\<lambda>v. - ov_id v) (filter (\<lambda>v. ov_user v = u \<and> override_is_live now v) ovs) = ov"
    and "\<forall>s. sub = Some s \<longrightarrow> slug_of (sb_plan_id s) \<noteq> None" "\<forall>v. ov = Some v \<longrightarrow> slug_of (ov_plan_id v) \<noteq> None"
  shows "\<exists>g. grant_for slug_of users subs ovs u now = Inr g
    \<and> (\<exists>val. resolve c g key at = Inr val \<and> first_some (row_chain c slug_of sub ov key at) = Some val)
    \<and> (g = None \<longleftrightarrow> sub = None \<and> ov = None)
    \<and> (\<forall>x. g = Some x \<longrightarrow> gr_started_at x = Some (case sub of None \<Rightarrow> created | Some s \<Rightarrow> sb_created_at s))
    \<and> ((\<forall>v\<in>set ovs. ov_user v = u \<and> override_is_live at v \<longrightarrow> ov = Some v) \<longrightarrow>
        (\<exists>h. grant_for slug_of users subs ovs u at = Inr h \<and> resolve c h key at = resolve c g key at))"
proof -
  obtain g val where g: "grant_for slug_of users subs ovs u now = Inr g" "resolve c g key at = Inr val"
    "first_some (row_chain c slug_of sub ov key at) = Some val" "g = None \<longleftrightarrow> sub = None \<and> ov = None"
    "\<forall>x. g = Some x \<longrightarrow> gr_started_at x = Some (case sub of None \<Rightarrow> created | Some s \<Rightarrow> sb_created_at s)"
    using grant_chain[of c key now at users u created subs sub ovs ov slug_of, OF assms] by blast
  have "\<exists>h. grant_for slug_of users subs ovs u at = Inr h \<and> resolve c h key at = resolve c g key at"
    if only: "\<forall>v\<in>set ovs. ov_user v = u \<and> override_is_live at v \<longrightarrow> ov = Some v"
  proof -
    define sub' where "sub' = (case sub of None \<Rightarrow> None | Some s \<Rightarrow> if subscription_is_live at s then Some s else None)"
    define ov' where "ov' = min_by (\<lambda>v. - ov_id v) (filter (\<lambda>v. ov_user v = u \<and> override_is_live at v) ovs)"
    have "filter (\<lambda>s. sb_user s = u \<and> subscription_is_live at s) subs
        = filter (subscription_is_live at) (filter (\<lambda>s. sb_user s = u \<and> subscription_is_live now s) subs)"
      using subscription_live_before[OF _ assms(3)] by (auto intro: filter_cong)
    then have f: "filter (\<lambda>s. sb_user s = u \<and> subscription_is_live at s) subs = (case sub' of None \<Rightarrow> [] | Some s \<Rightarrow> [s])"
      unfolding assms(5) by (simp add: sub'_def split: option.split)
    have o: "v \<in> set ovs \<and> override_is_live at v \<and> ov = Some v" if "ov' = Some v" for v
      using min_by_mem[OF that[unfolded ov'_def]] only by simp
    have n: "\<not> override_is_live at v" if "ov' = None" "ov = Some v" for v
      using that(1) min_by_mem[OF assms(6)[unfolded that(2)]] by (auto simp: ov'_def min_by_None filter_empty_conv)
    have chain: "row_chain c slug_of sub' ov' key at = row_chain c slug_of sub ov key at"
      using o n by (cases ov'; cases ov) (auto simp: row_chain_def sub'_def split: option.split)
    have "\<forall>s. sub' = Some s \<longrightarrow> slug_of (sb_plan_id s) \<noteq> None" "\<forall>v. ov' = Some v \<longrightarrow> slug_of (ov_plan_id v) \<noteq> None"
      using assms(7,8) o by (auto simp: sub'_def split: option.splits if_splits)
    from grant_chain[of c key at at users u created subs sub' ovs ov' slug_of, OF assms(1,2) order_refl assms(4) f ov'_def[symmetric] this]
    show ?thesis using g(2,3) chain by auto
  qed
  then show ?thesis using g by blast
qed

definition sample_sub :: subscription_row where
  "sample_sub = \<lparr>sb_user = 7, sb_plan_id = 1, sb_status = Active, sb_cancel_at = Some 50,
     sb_grace_ends_at = None, sb_grandfathered = None, sb_created_at = 1, sb_values = [(''alert_rules'', Num 50)]\<rparr>"

definition sample_override :: override_row where
  "sample_override = \<lparr>ov_id = 3, ov_user = 7, ov_plan_id = 2, ov_starts_at = 5, ov_expires_at = 30,
     ov_ended_at = None\<rparr>"

abbreviation sample_plans :: catalog where
  "sample_plans \<equiv> [(''free'', sample_plan ''free'' 0), (''pro'', sample_plan ''pro'' 900)]"

text \<open>Once the override has expired, the subscription's own value is back; once that has ended, what Free has.\<close>

theorem grant_tracks_rows_witness:
  "\<exists>g h. grant_for [1 \<mapsto> ''pro'', 2 \<mapsto> ''team''] [7 \<mapsto> 0] [sample_sub] [sample_override] 7 10 = Inr g
     \<and> resolve sample_plans g ''alert_rules'' 40 = Inr (Num 50)
     \<and> grant_for [1 \<mapsto> ''pro'', 2 \<mapsto> ''team''] [7 \<mapsto> 0] [sample_sub] [sample_override] 7 40 = Inr h
     \<and> resolve sample_plans h ''alert_rules'' 40 = Inr (Num 50)"
proof -
  have k: "''alert_rules'' \<in> set entitlement_keys" by (simp add: entitlement_keys_def limit_keys_def)
  have live: "subscription_is_live 10 sample_sub" "override_is_live 10 sample_override"
    "subscription_is_live 40 sample_sub" "\<not> override_is_live 40 sample_override"
    by (simp_all add: sample_sub_def sample_override_def subscription_is_live_def live_statuses_def override_is_live_def)
  have "filter (\<lambda>s. sb_user s = 7 \<and> subscription_is_live 10 s) [sample_sub] = (case Some sample_sub of None \<Rightarrow> [] | Some s \<Rightarrow> [s])"
    using live by (simp add: sample_sub_def)
  moreover have "min_by (\<lambda>v. - ov_id v) (filter (\<lambda>v. ov_user v = 7 \<and> override_is_live 10 v) [sample_override]) = Some sample_override"
    using live by (simp add: sample_override_def)
  moreover have "first_some (row_chain sample_plans [1 \<mapsto> ''pro'', 2 \<mapsto> ''team''] (Some sample_sub) (Some sample_override) ''alert_rules'' 40)
      = Some (Num 50)"
    using live by (simp add: row_chain_def) (simp add: sample_sub_def)
  ultimately show ?thesis
    using grant_tracks_rows[OF sample_catalog_ok k, of 10 40 "[7 \<mapsto> 0]" 7 0 "[sample_sub]" "Some sample_sub" "[sample_override]"
        "Some sample_override" "[1 \<mapsto> ''pro'', 2 \<mapsto> ''team'']"] live
    by (auto simp: sample_sub_def sample_override_def)
qed

section \<open>The cheapest offer\<close>

lemma plans_offered_spec:
  assumes "\<And>p. p \<in> set ps \<Longrightarrow> plan_ok p" and "key \<in> set entitlement_keys"
    and "\<And>v. value_problem key v = None \<Longrightarrow> wanted v = Inr (want v)"
  shows "plans_offered key wanted ps =
    Inr (filter (\<lambda>p. pt_slug p \<noteq> FREE \<and> pt_is_public p \<and> want (the (map_of (pt_values p) key))) ps)"
  using assms(1)
proof (induction ps)
  case (Cons p ps)
  obtain v where "map_of (pt_values p) key = Some v" "value_problem key v = None"
    using plan_value_ok[OF _ assms(2), of p] Cons.prems by auto
  then show ?case using Cons assms(3)[of v] by simp
qed simp

definition goes_far_enough :: "string \<Rightarrow> int \<Rightarrow> plan_terms \<Rightarrow> bool" where
  "goes_far_enough key needed p \<longleftrightarrow> pt_slug p \<noteq> FREE \<and> pt_is_public p \<and>
     (map_of (pt_values p) key = Some Null \<or> (\<exists>n \<ge> needed. map_of (pt_values p) key = Some (Num n)))"

lemma lifting_plan_filter:
  assumes "catalog_ok c" and "key \<in> set limit_keys"
  shows "lifting_plan (Some c) key needed = Inr (cheapest (filter (goes_far_enough key needed) (map snd c)))"
proof -
  let ?want = "\<lambda>v. case v of Null \<Rightarrow> True | Num n \<Rightarrow> n \<ge> needed | _ \<Rightarrow> False"
  have k: "key \<in> set entitlement_keys" "key \<notin> set flag_keys"
    using assms(2) limit_keys_not_flags by (auto simp: entitlement_keys_def)
  have pl: "plan_ok p" if "p \<in> set (map snd c)" for p using that assms(1) by (auto simp: catalog_ok_def)
  have "plans_offered key (reaches needed) (map snd c) = Inr (filter
      (\<lambda>p. pt_slug p \<noteq> FREE \<and> pt_is_public p \<and> ?want (the (map_of (pt_values p) key))) (map snd c))"
    by (rule plans_offered_spec[OF pl k(1)])
      (auto simp: reaches_def value_problem_def k assms(2) split: ent_value.splits if_splits)
  also have "filter (\<lambda>p. pt_slug p \<noteq> FREE \<and> pt_is_public p \<and> ?want (the (map_of (pt_values p) key))) (map snd c)
      = filter (goes_far_enough key needed) (map snd c)"
  proof (rule filter_cong[OF refl])
    fix p assume "p \<in> set (map snd c)"
    then obtain v where "map_of (pt_values p) key = Some v" "value_problem key v = None"
      using plan_value_ok[OF _ k(1), of p] pl by auto
    then show "(pt_slug p \<noteq> FREE \<and> pt_is_public p \<and> ?want (the (map_of (pt_values p) key)))
        = goes_far_enough key needed p"
      by (cases v) (auto simp: goes_far_enough_def value_problem_def k assms(2))
  qed
  finally show ?thesis
    using assms(2) by (simp add: lifting_plan_def current_def)
qed

lemma lifting_plan_total:
  "catalog_ok c \<Longrightarrow> key \<in> set limit_keys \<Longrightarrow> \<exists>plan. lifting_plan (Some c) key needed = Inr plan"
  by (simp add: lifting_plan_filter)

text \<open>What a refusal offers is a public paid plan that lifts it, the cheapest of them, and the
  first by name of the equally cheap; no offer means that no such plan goes that far.\<close>

theorem lifting_plan_cheapest:
  assumes "catalog_ok c" and "key \<in> set limit_keys"
  shows "\<exists>offer. lifting_plan (Some c) key needed = Inr offer \<and>
    (case offer of
       None \<Rightarrow> \<forall>p \<in> snd ` set c. \<not> goes_far_enough key needed p
     | Some p \<Rightarrow> p \<in> snd ` set c \<and> goes_far_enough key needed p \<and>
         (\<forall>q \<in> snd ` set c. goes_far_enough key needed q \<longrightarrow>
            (pt_price_cents p, pt_slug p) \<le> (pt_price_cents q, pt_slug q)))"
proof -
  let ?ps = "filter (goes_far_enough key needed) (map snd c)"
  show ?thesis
  proof (cases "cheapest ?ps")
    case None
    then have "?ps = []" by (simp only: cheapest_def min_by_None)
    then show ?thesis using None by (auto simp: lifting_plan_filter[OF assms] filter_empty_conv)
  next
    case (Some p)
    note c = Some[unfolded cheapest_def]
    have "(pt_price_cents p, pt_slug p) \<le> (pt_price_cents q, pt_slug q)"
      if "q \<in> snd ` set c" "goes_far_enough key needed q" for q
      using min_by_least[OF c, of q] that by simp
    then show ?thesis using Some min_by_mem[OF c] by (auto simp: lifting_plan_filter[OF assms])
  qed
qed

theorem lifting_plan_cheapest_witness:
  "\<exists>offer. lifting_plan (Some [(''free'', sample_plan ''free'' 0), (''pro'', sample_plan ''pro'' 900)]) ''alert_rules'' 3 = Inr offer"
  using lifting_plan_cheapest[OF sample_catalog_ok, of "''alert_rules''" 3] by (auto simp: limit_keys_def)

end
