(* ===== verification/Sessions.thy ===== *)
theory Sessions
  imports Entitlements
begin

text \<open>
  \<open>app/accounts/sessions.py\<close> and \<open>app/accounts/activity.py\<close>: the session store in Redis, call by call, and the
  one-time tokens in Postgres. A request is a list of calls to Redis with other requests' calls between any two of
  them, so what a request has read and not yet written is a task of its own; a request may die at any of them.
  \<open>digest\<close> is SHA-256, of which nothing is used. The value of a key is its record: the JSON it is written as is not modelled.
\<close>

section \<open>Records\<close>

definition remembered :: moment where "remembered = 30 * day_us"
definition unremembered :: moment where "unremembered = 12 * hour_us"
definition email_change_ttl :: moment where "email_change_ttl = 24 * hour_us"
definition email_verify_ttl :: moment where "email_verify_ttl = 24 * hour_us"
definition password_reset_ttl :: moment where "password_reset_ttl = hour_us"
definition last_seen_every :: moment where "last_seen_every = 5 * minute_us"
definition grant_every :: moment where "grant_every = 5 * minute_us"

record started_session =
  sd_token :: string
  sd_expires :: moment
  sd_remember :: bool

record session_record =
  sr_id :: string
  sr_user :: int
  sr_remember :: bool
  sr_expires :: moment
  sr_grant :: "grant option"
  sr_granted_at :: "moment option"

definition grant_is_stale :: "session_record \<Rightarrow> moment \<Rightarrow> bool" where
  "grant_is_stale r now =
     (case sr_granted_at r of
        None \<Rightarrow> True
      | Some t \<Rightarrow> now - t \<ge> grant_every \<or> (case sr_grant r of None \<Rightarrow> False | Some g \<Rightarrow> gr_started_at g = None))"

section \<open>Redis\<close>

text \<open>
  The keys \<open>ww:session:<id>\<close> with the second each expires at, and the sets \<open>ww:user-sessions:<user>\<close> with theirs; a key
  is there while the clock is before its expiry.
\<close>

record session_store =
  ss_now :: moment
  ss_values :: "string \<rightharpoonup> session_record \<times> moment"
  ss_index :: "int \<rightharpoonup> string set \<times> moment"

definition redis_get :: "session_store \<Rightarrow> string \<Rightarrow> session_record option" where
  "redis_get s k = (case ss_values s k of None \<Rightarrow> None | Some (v, e) \<Rightarrow> if ss_now s < e then Some v else None)"

definition redis_members :: "session_store \<Rightarrow> int \<Rightarrow> string set" where
  "redis_members s u = (case ss_index s u of None \<Rightarrow> {} | Some (ms, e) \<Rightarrow> if ss_now s < e then ms else {})"

text \<open>\<open>SET key value XX KEEPTTL\<close>.\<close>

definition redis_replace :: "string \<Rightarrow> session_record \<Rightarrow> session_store \<Rightarrow> session_store" where
  "redis_replace k v s =
     (case ss_values s k of
        None \<Rightarrow> s
      | Some (_, e) \<Rightarrow> if ss_now s < e then s\<lparr>ss_values := (ss_values s)(k \<mapsto> (v, e))\<rparr> else s)"

text \<open>\<open>DELETE\<close> of the keys and \<open>SREM\<close> of them from the user's set, in one transaction.\<close>

definition redis_remove :: "int \<Rightarrow> string set \<Rightarrow> session_store \<Rightarrow> session_store" where
  "redis_remove u ks s =
     s\<lparr>ss_values := (\<lambda>k. if k \<in> ks then None else ss_values s k),
       ss_index := (case ss_index s u of None \<Rightarrow> ss_index s | Some (ms, e) \<Rightarrow> (ss_index s)(u \<mapsto> (ms - ks, e)))\<rparr>"

section \<open>The store's operations\<close>

definition record_from_json :: "string \<Rightarrow> session_record \<Rightarrow> session_record" where
  "record_from_json k v = v\<lparr>sr_id := k\<rparr>"

definition start_session :: "(string \<Rightarrow> string) \<Rightarrow> moment \<Rightarrow> int \<Rightarrow> bool \<Rightarrow> string \<Rightarrow> session_store \<Rightarrow> session_store \<times> started_session" where
  "start_session digest lifetime u remember token s =
     (let sid = digest token;
          expires = ss_now s + (if remember then remembered else lifetime);
          value = \<lparr>sr_id = sid, sr_user = u, sr_remember = remember, sr_expires = expires, sr_grant = None, sr_granted_at = None\<rparr>
      in (s\<lparr>ss_values := (ss_values s)(sid \<mapsto> (value, expires div second_us * second_us)),
            ss_index := (ss_index s)(u \<mapsto> (insert sid (redis_members s u), ss_now s + remembered))\<rparr>,
          \<lparr>sd_token = token, sd_expires = expires, sd_remember = remember\<rparr>))"

definition find_at :: "string \<Rightarrow> session_store \<Rightarrow> session_record option" where
  "find_at k s =
     (case redis_get s k of
        None \<Rightarrow> None
      | Some v \<Rightarrow> let r = record_from_json k v in if sr_expires r \<le> ss_now s then None else Some r)"

definition find_record :: "(string \<Rightarrow> string) \<Rightarrow> string \<Rightarrow> session_store \<Rightarrow> session_record option" where
  "find_record digest token s = find_at (digest token) s"

definition keep_grant :: "session_record \<Rightarrow> grant option \<Rightarrow> session_store \<Rightarrow> session_store \<times> session_record" where
  "keep_grant r g s =
     (let kept = r\<lparr>sr_grant := g, sr_granted_at := Some (ss_now s)\<rparr> in (redis_replace (sr_id r) kept s, kept))"

text \<open>\<open>forget_grants\<close> in its three calls: the members, their values, and the write.\<close>

definition mget :: "string set \<Rightarrow> session_store \<Rightarrow> string \<rightharpoonup> session_record" where
  "mget ids s = (\<lambda>k. if k \<in> ids then redis_get s k else None)"

definition forgotten :: "string \<Rightarrow> session_record \<Rightarrow> session_record" where
  "forgotten k v = (record_from_json k v)\<lparr>sr_grant := None, sr_granted_at := None\<rparr>"

definition write_forgotten :: "(string \<rightharpoonup> session_record) \<Rightarrow> session_store \<Rightarrow> session_store" where
  "write_forgotten vs s =
     s\<lparr>ss_values := (\<lambda>k. case (ss_values s k, vs k) of
         (Some (v, e), Some w) \<Rightarrow> if ss_now s < e then Some (forgotten k w, e) else Some (v, e)
       | (x, _) \<Rightarrow> x)\<rparr>"

definition forget_grants :: "int \<Rightarrow> session_store \<Rightarrow> session_store" where
  "forget_grants u s = write_forgotten (mget (redis_members s u) s) s"

definition end_record :: "session_record \<Rightarrow> session_store \<Rightarrow> session_store" where
  "end_record r = redis_remove (sr_user r) {sr_id r}"

definition end_session :: "(string \<Rightarrow> string) \<Rightarrow> string \<Rightarrow> session_store \<Rightarrow> session_store" where
  "end_session digest token s = (case find_record digest token s of None \<Rightarrow> s | Some r \<Rightarrow> end_record r s)"

definition end_members :: "int \<Rightarrow> string set \<Rightarrow> string option \<Rightarrow> session_store \<Rightarrow> session_store" where
  "end_members u ids keep s = (let ending = {k \<in> ids. Some k \<noteq> keep} in if ending = {} then s else redis_remove u ending s)"

definition end_all :: "int \<Rightarrow> string option \<Rightarrow> session_store \<Rightarrow> session_store" where
  "end_all u keep s = end_members u (redis_members s u) keep s"

text \<open>\<open>list_for\<close>: what a user has running, soonest to end first, and by id among those that end together.\<close>

definition list_for :: "int \<Rightarrow> session_store \<Rightarrow> session_record list" where
  "list_for u s =
     sort_key sr_expires (List.map_filter (\<lambda>k. map_option (record_from_json k) (redis_get s k)) (sorted_list_of_set (redis_members s u)))"

section \<open>Who a request is from\<close>

record viewer =
  vw_user :: int
  vw_session :: string
  vw_expires :: moment
  vw_grant :: "grant option"

definition viewer_of :: "session_record \<Rightarrow> viewer" where
  "viewer_of r = \<lparr>vw_user = sr_user r, vw_session = sr_id r, vw_expires = sr_expires r, vw_grant = sr_grant r\<rparr>"

text \<open>\<open>find_session\<close>: \<open>live\<close> says whose accounts are there and not deleted, and \<open>grant_of\<close> what \<open>grant_for\<close> reads of one.\<close>

definition find_session :: "(string \<Rightarrow> string) \<Rightarrow> (int \<Rightarrow> bool) \<Rightarrow> (int \<Rightarrow> grant option) \<Rightarrow> string \<Rightarrow> session_store
    \<Rightarrow> session_store \<times> viewer option" where
  "find_session digest live grant_of token s =
     (case find_record digest token s of
        None \<Rightarrow> (s, None)
      | Some r \<Rightarrow>
          if \<not> live (sr_user r) then (end_session digest token s, None)
          else if grant_is_stale r (ss_now s)
            then (case keep_grant r (grant_of (sr_user r)) s of (t, kept) \<Rightarrow> (t, Some (viewer_of kept)))
          else (s, Some (viewer_of r)))"

section \<open>Requests interleaved\<close>

text \<open>What a request that has begun has still to do, with what it has read.\<close>

datatype session_task =
  Granting session_record
| Keeping session_record "grant option" moment
| Forgetting int
| Forget_ids int "string set"
| Forget_values int "string \<rightharpoonup> session_record"
| Finding string
| Ending session_record
| Signing_out int "string option"
| End_ids int "string set" "string option"

text \<open>\<open>grant_at\<close> is what \<open>grant_for\<close> reads of a user at a moment.\<close>

definition run_task :: "(int \<Rightarrow> moment \<Rightarrow> grant option) \<Rightarrow> session_task \<Rightarrow> session_store \<Rightarrow> session_store \<times> session_task option" where
  "run_task grant_at t s =
     (case t of
        Granting r \<Rightarrow> (s, Some (Keeping r (grant_at (sr_user r) (ss_now s)) (ss_now s)))
      | Keeping r g read \<Rightarrow> (fst (keep_grant r g s), None)
      | Forgetting u \<Rightarrow> (s, Some (Forget_ids u (redis_members s u)))
      | Forget_ids u ids \<Rightarrow> (s, Some (Forget_values u (mget ids s)))
      | Forget_values u vs \<Rightarrow> (write_forgotten vs s, None)
      | Finding k \<Rightarrow> (s, map_option Ending (find_at k s))
      | Ending r \<Rightarrow> (end_record r s, None)
      | Signing_out u keep \<Rightarrow> (s, Some (End_ids u (redis_members s u) keep))
      | End_ids u ids keep \<Rightarrow> (end_members u ids keep s, None))"

text \<open>The store, the requests under way, and every session ever started: whose, remembered or not, and until when.\<close>

record session_world =
  sw_store :: session_store
  sw_tasks :: "session_task list"
  sw_started :: "string \<rightharpoonup> int \<times> bool \<times> moment"

datatype session_event =
  Wait nat
| Start moment int bool string
| Look string bool
| Log_out string
| Forget int
| Sign_out int "string option"
| Run nat
| Die nat

definition without :: "nat \<Rightarrow> 'a list \<Rightarrow> 'a list" where "without i xs = take i xs @ drop (Suc i) xs"

definition begin_task :: "session_task \<Rightarrow> session_world \<Rightarrow> session_world" where
  "begin_task t w = w\<lparr>sw_tasks := sw_tasks w @ [t]\<rparr>"

text \<open>\<open>Look\<close> is \<open>find_session\<close> of a request with a cookie, told whether the account is deleted; \<open>Die\<close> a request that ends
  halfway, by a Redis it cannot reach among others.\<close>

definition session_step :: "(string \<Rightarrow> string) \<Rightarrow> (int \<Rightarrow> moment \<Rightarrow> grant option) \<Rightarrow> session_world \<Rightarrow> session_event \<Rightarrow> session_world" where
  "session_step digest grant_at w e =
     (case e of
        Wait d \<Rightarrow> w\<lparr>sw_store := (sw_store w)\<lparr>ss_now := ss_now (sw_store w) + int d\<rparr>\<rparr>
      | Start lifetime u remember token \<Rightarrow>
          (case start_session digest lifetime u remember token (sw_store w) of (s, started) \<Rightarrow>
            w\<lparr>sw_store := s, sw_started := (sw_started w)(digest token \<mapsto> (u, remember, sd_expires started))\<rparr>)
      | Look token gone \<Rightarrow>
          (case find_record digest token (sw_store w) of
             None \<Rightarrow> w
           | Some r \<Rightarrow>
               if gone then begin_task (Finding (digest token)) w
               else if grant_is_stale r (ss_now (sw_store w)) then begin_task (Granting r) w else w)
      | Log_out token \<Rightarrow> begin_task (Finding (digest token)) w
      | Forget u \<Rightarrow> begin_task (Forgetting u) w
      | Sign_out u keep \<Rightarrow> begin_task (Signing_out u keep) w
      | Run i \<Rightarrow>
          if i < length (sw_tasks w) then
            (case run_task grant_at (sw_tasks w ! i) (sw_store w) of
               (s, None) \<Rightarrow> w\<lparr>sw_store := s, sw_tasks := without i (sw_tasks w)\<rparr>
             | (s, Some t) \<Rightarrow> w\<lparr>sw_store := s, sw_tasks := (sw_tasks w)[i := t]\<rparr>)
          else w
      | Die i \<Rightarrow> w\<lparr>sw_tasks := without i (sw_tasks w)\<rparr>)"

text \<open>
  A new secret's hash is of no session before it, no session outlasts a remembered one, and a request keeps a grant within
  \<open>d\<close> of having read it.
\<close>

definition session_allowed :: "(string \<Rightarrow> string) \<Rightarrow> moment \<Rightarrow> session_world \<Rightarrow> session_event \<Rightarrow> bool" where
  "session_allowed digest d w e =
     (case e of
        Start lifetime u remember token \<Rightarrow> sw_started w (digest token) = None \<and> lifetime \<le> remembered
      | Run i \<Rightarrow>
          if i < length (sw_tasks w)
          then (case sw_tasks w ! i of Keeping r g read \<Rightarrow> ss_now (sw_store w) - read \<le> d | _ \<Rightarrow> True) else True
      | _ \<Rightarrow> True)"

section \<open>What holds of every store\<close>

abbreviation fixed :: "session_record \<Rightarrow> int \<times> bool \<times> moment" where
  "fixed r \<equiv> (sr_user r, sr_remember r, sr_expires r)"

definition store_inv :: "(string \<rightharpoonup> int \<times> bool \<times> moment) \<Rightarrow> session_store \<Rightarrow> bool" where
  "store_inv started s \<longleftrightarrow>
     (\<forall>k v e. ss_values s k = Some (v, e) \<longrightarrow>
        sr_id v = k \<and> started k = Some (fixed v) \<and> e = sr_expires v div second_us * second_us
        \<and> (ss_now s < e \<longrightarrow> (\<exists>ms x. ss_index s (sr_user v) = Some (ms, x) \<and> k \<in> ms \<and> e \<le> x)))
     \<and> (\<forall>u ms x. ss_index s u = Some (ms, x) \<longrightarrow> x \<le> ss_now s + remembered)"

text \<open>A kept grant is one read at most \<open>d\<close> before it was kept.\<close>

definition grants_inv :: "(int \<Rightarrow> moment \<Rightarrow> grant option) \<Rightarrow> moment \<Rightarrow> session_store \<Rightarrow> bool" where
  "grants_inv grant_at d s \<longleftrightarrow>
     (\<forall>k v e a. ss_values s k = Some (v, e) \<longrightarrow> sr_granted_at v = Some a \<longrightarrow>
        a \<le> ss_now s \<and> (\<exists>t. a - d \<le> t \<and> t \<le> a \<and> sr_grant v = grant_at (sr_user v) t))"

fun task_ok :: "(int \<Rightarrow> moment \<Rightarrow> grant option) \<Rightarrow> (string \<rightharpoonup> int \<times> bool \<times> moment) \<Rightarrow> moment \<Rightarrow> session_task \<Rightarrow> bool" where
  "task_ok grant_at started now (Granting r) = (started (sr_id r) = Some (fixed r))"
| "task_ok grant_at started now (Keeping r g t) = (started (sr_id r) = Some (fixed r) \<and> t \<le> now \<and> g = grant_at (sr_user r) t)"
| "task_ok grant_at started now (Ending r) = (started (sr_id r) = Some (fixed r))"
| "task_ok grant_at started now (Forget_values u vs) = (\<forall>k v. vs k = Some v \<longrightarrow> started k = Some (fixed v))"
| "task_ok grant_at started now _ = True"

definition world_ok :: "(int \<Rightarrow> moment \<Rightarrow> grant option) \<Rightarrow> moment \<Rightarrow> session_world \<Rightarrow> bool" where
  "world_ok grant_at d w \<longleftrightarrow>
     store_inv (sw_started w) (sw_store w) \<and> grants_inv grant_at d (sw_store w)
     \<and> (\<forall>t\<in>set (sw_tasks w). task_ok grant_at (sw_started w) (ss_now (sw_store w)) t)"

lemma redis_get_Some: "redis_get s k = Some v \<longleftrightarrow> (\<exists>e. ss_values s k = Some (v, e) \<and> ss_now s < e)"
  by (auto simp: redis_get_def split: option.splits)

lemma find_at_Some:
  "find_at k s = Some r \<longleftrightarrow> (\<exists>v. redis_get s k = Some v \<and> r = record_from_json k v \<and> ss_now s < sr_expires v)"
  by (auto simp: find_at_def record_from_json_def not_le split: option.splits)

lemma store_inv_value:
  assumes "store_inv started s" "ss_values s k = Some (v, e)"
  shows "sr_id v = k" "started k = Some (fixed v)" "e = sr_expires v div second_us * second_us"
    "ss_now s < e \<Longrightarrow> \<exists>ms x. ss_index s (sr_user v) = Some (ms, x) \<and> k \<in> ms \<and> e \<le> x"
  using assms unfolding store_inv_def by blast+

lemma store_inv_index: "store_inv started s \<Longrightarrow> ss_index s u = Some (ms, x) \<Longrightarrow> x \<le> ss_now s + remembered"
  unfolding store_inv_def by blast

text \<open>A session that is live is in its user's set, and the set is.\<close>

lemma live_listed: "store_inv started s \<Longrightarrow> redis_get s k = Some v \<Longrightarrow> k \<in> redis_members s (sr_user v)"
  unfolding redis_get_Some redis_members_def by (force dest: store_inv_value(4))

text \<open>A write at one key that keeps what is fixed.\<close>

lemma store_inv_values:
  assumes inv: "store_inv started s"
    and new: "\<And>k v e. f k = Some (v, e) \<Longrightarrow> \<exists>w. ss_values s k = Some (w, e) \<and> sr_id v = k \<and> fixed v = fixed w"
  shows "store_inv started (s\<lparr>ss_values := f\<rparr>)"
  unfolding store_inv_def
proof (intro conjI allI impI, simp_all)
  fix k v e assume "f k = Some (v, e)"
  then obtain w where w: "ss_values s k = Some (w, e)" "sr_id v = k" "fixed v = fixed w" using new by blast
  note V = store_inv_value[OF inv w(1)]
  show "sr_id v = k" "started k = Some (fixed v)" "e = sr_expires v div second_us * second_us" using V w by simp_all
  show "\<exists>ms x. ss_index s (sr_user v) = Some (ms, x) \<and> k \<in> ms \<and> e \<le> x" if "ss_now s < e" using V(4)[OF that] w(3) by simp
next
  fix u ms x assume "ss_index s u = Some (ms, x)"
  then show "x \<le> ss_now s + remembered" by (rule store_inv_index[OF inv])
qed

lemma replace_inv:
  assumes inv: "store_inv started s" and r: "started (sr_id r) = Some (fixed r)"
  shows "store_inv started (redis_replace (sr_id r) r s)"
proof (cases "ss_values s (sr_id r)")
  case (Some y)
  obtain w e where y: "ss_values s (sr_id r) = Some (w, e)" using Some by (cases y) simp
  have f: "fixed r = fixed w" using store_inv_value(2)[OF inv y] r by simp
  have "store_inv started (s\<lparr>ss_values := (ss_values s)(sr_id r \<mapsto> (r, e))\<rparr>)"
    by (rule store_inv_values[OF inv]) (use y f store_inv_value(1)[OF inv] in \<open>auto split: if_splits\<close>)
  then show ?thesis using inv by (simp add: redis_replace_def y)
qed (use inv in \<open>simp add: redis_replace_def\<close>)

lemma forgotten_fields [simp]:
  "sr_id (forgotten k v) = k" "sr_remember (forgotten k v) = sr_remember v" "sr_expires (forgotten k v) = sr_expires v" "sr_granted_at (forgotten k v) = None" "sr_user (forgotten k v) = sr_user v"
  by (simp_all add: forgotten_def record_from_json_def)

lemma write_forgotten_value:
  "ss_values (write_forgotten vs s) k = Some (v, e) \<longleftrightarrow>
     (\<exists>w. ss_values s k = Some (w, e) \<and>
        v = (case vs k of Some z \<Rightarrow> if ss_now s < e then forgotten k z else w | None \<Rightarrow> w))"
  by (auto simp: write_forgotten_def split: option.splits)

lemma write_forgotten_inv:
  assumes inv: "store_inv started s" and vs: "\<forall>k v. vs k = Some v \<longrightarrow> started k = Some (fixed v)"
  shows "store_inv started (write_forgotten vs s)"
proof -
  have "store_inv started (s\<lparr>ss_values := ss_values (write_forgotten vs s)\<rparr>)"
  proof (rule store_inv_values[OF inv])
    fix k v e assume "ss_values (write_forgotten vs s) k = Some (v, e)"
    then obtain w where w: "ss_values s k = Some (w, e)" "v = (case vs k of Some z \<Rightarrow> if ss_now s < e then forgotten k z else w | None \<Rightarrow> w)"
      unfolding write_forgotten_value by blast
    note V = store_inv_value(1,2)[OF inv w(1)]
    have "sr_id v = k \<and> fixed v = fixed w"
    proof (cases "vs k")
      case (Some z)
      then have "fixed z = fixed w" using vs V(2) by (metis option.inject)
      then show ?thesis using V w(2) Some by (simp split: if_splits)
    qed (use w V in simp)
    then show "\<exists>w. ss_values s k = Some (w, e) \<and> sr_id v = k \<and> fixed v = fixed w" using w(1) by blast
  qed
  then show ?thesis by (simp add: write_forgotten_def)
qed

lemma remove_inv:
  assumes inv: "store_inv started s"
  shows "store_inv started (redis_remove u ks s)"
  unfolding store_inv_def
proof (intro conjI allI impI)
  fix k v e assume "ss_values (redis_remove u ks s) k = Some (v, e)"
  then have k: "k \<notin> ks" "ss_values s k = Some (v, e)" by (simp_all add: redis_remove_def split: if_splits)
  note V = store_inv_value[OF inv k(2)]
  show "sr_id v = k" "started k = Some (fixed v)" "e = sr_expires v div second_us * second_us" by (fact V)+
  assume "ss_now (redis_remove u ks s) < e"
  then obtain ms x where "ss_index s (sr_user v) = Some (ms, x)" "k \<in> ms" "e \<le> x" using V(4) by (auto simp: redis_remove_def)
  then show "\<exists>ms x. ss_index (redis_remove u ks s) (sr_user v) = Some (ms, x) \<and> k \<in> ms \<and> e \<le> x"
    using k(1) by (auto simp: redis_remove_def split: option.splits)
next
  fix u' ms x assume "ss_index (redis_remove u ks s) u' = Some (ms, x)"
  then obtain ms' where "ss_index s u' = Some (ms', x)" by (auto simp: redis_remove_def split: option.splits if_splits)
  then show "x \<le> ss_now (redis_remove u ks s) + remembered" using store_inv_index[OF inv] by (simp add: redis_remove_def)
qed

lemma wait_inv: "store_inv started s \<Longrightarrow> store_inv started (s\<lparr>ss_now := ss_now s + int d\<rparr>)"
  unfolding store_inv_def by (auto dest: spec) force+

lemma start_inv:
  assumes inv: "store_inv started s" and fresh: "started (digest token) = None" and life: "lifetime \<le> remembered"
    and start: "start_session digest lifetime u remember token s = (t, sd)"
  shows "store_inv (started(digest token \<mapsto> (u, remember, sd_expires sd))) t"
  unfolding store_inv_def
proof (intro conjI allI impI)
  have now: "ss_now t = ss_now s" using start by (auto simp: start_session_def Let_def)
  have ex: "sd_expires sd = ss_now s + (if remember then remembered else lifetime)" using start by (auto simp: start_session_def Let_def)
  have le: "n div second_us * second_us \<le> n" for n :: int using div_mult_mod_eq[of n second_us] by simp
  have idx: "ss_index t = (ss_index s)(u \<mapsto> (insert (digest token) (redis_members s u), ss_now s + remembered))"
    using start by (auto simp: start_session_def Let_def)
  fix k v e assume v: "ss_values t k = Some (v, e)"
  consider (new) "k = digest token" | (old) "k \<noteq> digest token" "ss_values s k = Some (v, e)"
    using v start by (auto simp: start_session_def Let_def split: if_splits)
  then have "sr_id v = k \<and> (started(digest token \<mapsto> (u, remember, sd_expires sd))) k = Some (fixed v) \<and> e = sr_expires v div second_us * second_us
    \<and> (ss_now t < e \<longrightarrow> (\<exists>ms x. ss_index t (sr_user v) = Some (ms, x) \<and> k \<in> ms \<and> e \<le> x))"
  proof cases
    case new
    then have "v = \<lparr>sr_id = digest token, sr_user = u, sr_remember = remember, sr_expires = sd_expires sd, sr_grant = None, sr_granted_at = None\<rparr>"
      "e = sd_expires sd div second_us * second_us" using v start by (auto simp: start_session_def Let_def)
    moreover have "sd_expires sd div second_us * second_us \<le> ss_now s + remembered" using le[of "sd_expires sd"] ex life by (simp split: if_splits)
    ultimately show ?thesis using new by (simp add: idx)
  next
    case old
    note V = store_inv_value[OF inv old(2)]
    have "\<exists>ms x. ss_index t (sr_user v) = Some (ms, x) \<and> k \<in> ms \<and> e \<le> x" if live: "ss_now t < e"
    proof (cases "sr_user v = u")
      case True
      obtain ms x where m: "ss_index s u = Some (ms, x)" "k \<in> ms" "e \<le> x" using V(4) live now True by auto
      then have "k \<in> redis_members s u" "e \<le> ss_now s + remembered" using live now store_inv_index[OF inv m(1)] by (simp_all add: redis_members_def)
      then show ?thesis using True by (simp add: idx)
    qed (use V(4) live now in \<open>simp add: idx\<close>)
    then show ?thesis using V(1-3) old(1) by simp
  qed
  then show "sr_id v = k" "(started(digest token \<mapsto> (u, remember, sd_expires sd))) k = Some (fixed v)" "e = sr_expires v div second_us * second_us"
    "ss_now t < e \<Longrightarrow> \<exists>ms x. ss_index t (sr_user v) = Some (ms, x) \<and> k \<in> ms \<and> e \<le> x" by blast+
next
  fix u' ms x assume "ss_index t u' = Some (ms, x)"
  then show "x \<le> ss_now t + remembered" using start store_inv_index[OF inv, of u'] by (auto simp: start_session_def Let_def split: if_splits)
qed

text \<open>What each call leaves: the clock, and sessions that were there, with their user.\<close>

lemma redis_now [simp]:
  "ss_now (redis_replace k r s) = ss_now s" "ss_now (redis_remove u ks s) = ss_now s" "ss_now (write_forgotten vs s) = ss_now s"
  "ss_now (end_record r s) = ss_now s" "ss_now (end_members u ids keep s) = ss_now s" "ss_now (fst (keep_grant r g s)) = ss_now s"
  by (simp_all add: redis_replace_def redis_remove_def write_forgotten_def end_record_def end_members_def keep_grant_def Let_def
      split: option.splits)

lemma redis_get_replace:
  "redis_get (redis_replace k r s) j = (if j = k then map_option (\<lambda>_. r) (redis_get s k) else redis_get s j)"
  by (auto simp: redis_get_def redis_replace_def split: option.splits)

lemma redis_get_remove: "redis_get (redis_remove u ks s) k = (if k \<in> ks then None else redis_get s k)"
  by (auto simp: redis_get_def redis_remove_def split: option.split)

lemma redis_get_forgotten:
  "redis_get (write_forgotten vs s) k = (case redis_get s k of None \<Rightarrow> None | Some w \<Rightarrow> Some (case vs k of None \<Rightarrow> w | Some z \<Rightarrow> forgotten k z))"
  by (auto simp: redis_get_def write_forgotten_def split: option.splits)

lemma redis_get_end: "redis_get (end_members u ids keep s) k = (if k \<in> ids \<and> Some k \<noteq> keep then None else redis_get s k)"
  by (auto simp: end_members_def redis_get_remove Let_def)

lemma task_gets: "redis_get (fst (run_task grant_at t s)) k \<noteq> None \<Longrightarrow> redis_get s k \<noteq> None"
  by (cases t) (auto simp: run_task_def keep_grant_def end_record_def redis_get_replace redis_get_remove redis_get_forgotten
      redis_get_end Let_def split: if_splits option.splits)

lemma run_task_now [simp]: "ss_now (fst (run_task grant_at t s)) = ss_now s"
  by (cases t) (simp_all add: run_task_def)

lemma run_task_store:
  assumes inv: "store_inv started s" and t: "task_ok grant_at started now t"
  shows "store_inv started (fst (run_task grant_at t s))"
proof (cases t)
  case (Keeping r g read)
  have "started (sr_id r) = Some (fixed (r\<lparr>sr_grant := g, sr_granted_at := Some (ss_now s)\<rparr>))" using t Keeping by simp
  then show ?thesis using replace_inv[OF inv, of "r\<lparr>sr_grant := g, sr_granted_at := Some (ss_now s)\<rparr>"]
    by (simp add: Keeping run_task_def keep_grant_def Let_def)
next
  case (Forget_values u vs)
  then show ?thesis using write_forgotten_inv[OF inv, of vs] t by (simp add: run_task_def)
qed (use inv in \<open>simp_all add: run_task_def end_record_def end_members_def Let_def remove_inv\<close>)

text \<open>What a task writes of grants was read within \<open>d\<close>.\<close>

lemma grants_invI:
  assumes "\<And>k v e a. ss_values s k = Some (v, e) \<Longrightarrow> sr_granted_at v = Some a \<Longrightarrow>
    a \<le> ss_now s \<and> (\<exists>t. a - d \<le> t \<and> t \<le> a \<and> sr_grant v = grant_at (sr_user v) t)"
  shows "grants_inv grant_at d s"
  using assms unfolding grants_inv_def by blast

lemma run_task_grants:
  assumes g: "grants_inv grant_at d s" and t: "task_ok grant_at started (ss_now s) t"
    and prompt: "\<And>r g read. t = Keeping r g read \<Longrightarrow> ss_now s - read \<le> d"
  shows "grants_inv grant_at d (fst (run_task grant_at t s))"
proof (rule grants_invI)
  fix k v e a assume v: "ss_values (fst (run_task grant_at t s)) k = Some (v, e)" "sr_granted_at v = Some a"
  consider (old) "ss_values s k = Some (v, e)"
    | (kept) r g read where "t = Keeping r g read" "v = r\<lparr>sr_grant := g, sr_granted_at := Some (ss_now s)\<rparr>"
    using v by (cases t) (auto simp: run_task_def keep_grant_def redis_replace_def end_record_def end_members_def redis_remove_def
        write_forgotten_value Let_def split: if_splits option.splits)
  then show "a \<le> ss_now (fst (run_task grant_at t s)) \<and> (\<exists>x. a - d \<le> x \<and> x \<le> a \<and> sr_grant v = grant_at (sr_user v) x)"
  proof cases
    case old
    then show ?thesis using g v(2) unfolding grants_inv_def run_task_now by blast
  next
    case kept
    then have "a = ss_now s" "g = grant_at (sr_user r) read" "read \<le> ss_now s" using v(2) t by simp_all
    moreover have "ss_now s - d \<le> read" using prompt[OF kept(1)] by simp
    ultimately show ?thesis using kept(2) by auto
  qed
qed

text \<open>And what it hands on is well read.\<close>

lemma redis_get_fixed: "store_inv started s \<Longrightarrow> redis_get s k = Some v \<Longrightarrow> started k = Some (fixed v)"
  unfolding redis_get_Some using store_inv_value(2) by blast

lemma found_fixed: "store_inv started s \<Longrightarrow> find_at k s = Some r \<Longrightarrow> sr_id r = k \<and> started k = Some (fixed r)"
  unfolding find_at_Some using redis_get_fixed by (fastforce simp: record_from_json_def)

lemma run_task_next:
  assumes inv: "store_inv started s" and t: "task_ok grant_at started (ss_now s) t" and n: "snd (run_task grant_at t s) = Some u"
  shows "task_ok grant_at started (ss_now s) u"
proof (cases t)
  case (Forget_ids v ids)
  then have "u = Forget_values v (mget ids s)" using n by (simp add: run_task_def)
  then show ?thesis using redis_get_fixed[OF inv] by (auto simp: mget_def)
next
  case (Finding k)
  then obtain r where "u = Ending r" "find_at k s = Some r" using n by (auto simp: run_task_def)
  then show ?thesis using found_fixed[OF inv] by auto
qed (use t n in \<open>auto simp: run_task_def\<close>)

lemma task_ok_later:
  assumes "task_ok grant_at started now t" "\<And>k x. started k = Some x \<Longrightarrow> started' k = Some x" "now \<le> now'"
  shows "task_ok grant_at started' now' t"
  using assms by (cases t) auto

lemma set_without: "t \<in> set (without i xs) \<Longrightarrow> t \<in> set xs"
  by (auto simp: without_def dest: in_set_takeD in_set_dropD)

lemma world_ok_begin: "world_ok grant_at d w \<Longrightarrow> task_ok grant_at (sw_started w) (ss_now (sw_store w)) t \<Longrightarrow> world_ok grant_at d (begin_task t w)"
  by (auto simp: world_ok_def begin_task_def)

lemma session_step_ok:
  assumes ok: "world_ok grant_at d w" and al: "session_allowed digest d w e"
  shows "world_ok grant_at d (session_step digest grant_at w e)"
proof (cases e)
  case (Wait n)
  have "grants_inv grant_at d ((sw_store w)\<lparr>ss_now := ss_now (sw_store w) + int n\<rparr>)"
    using ok by (fastforce simp: world_ok_def grants_inv_def)
  then show ?thesis using ok wait_inv by (auto simp: session_step_def Wait world_ok_def intro: task_ok_later)
next
  case (Start lifetime u remember token)
  obtain s sd where s: "start_session digest lifetime u remember token (sw_store w) = (s, sd)" by (rule prod.exhaust)
  have f: "sw_started w (digest token) = None" "lifetime \<le> remembered" using al by (simp_all add: session_allowed_def Start)
  have "store_inv ((sw_started w)(digest token \<mapsto> (u, remember, sd_expires sd))) s"
    by (rule start_inv[where lifetime = lifetime and remember = remember]) (use f s ok in \<open>simp_all add: world_ok_def\<close>)
  moreover have "grants_inv grant_at d s"
    using ok s by (fastforce simp: world_ok_def grants_inv_def start_session_def Let_def split: if_splits)
  moreover have "task_ok grant_at ((sw_started w)(digest token \<mapsto> (u, remember, sd_expires sd))) (ss_now s) t" if "t \<in> set (sw_tasks w)" for t
  proof (rule task_ok_later)
    show "task_ok grant_at (sw_started w) (ss_now (sw_store w)) t" using ok that by (simp add: world_ok_def)
    show "ss_now (sw_store w) \<le> ss_now s" using s by (auto simp: start_session_def Let_def)
  qed (use f in auto)
  ultimately show ?thesis by (simp add: session_step_def Start s world_ok_def)
next
  case (Look token gone)
  have "sr_id r = digest token \<and> sw_started w (digest token) = Some (fixed r)" if "find_record digest token (sw_store w) = Some r" for r
    using found_fixed[of "sw_started w" "sw_store w"] that ok by (simp add: find_record_def world_ok_def)
  then show ?thesis using ok by (auto simp: session_step_def Look intro!: world_ok_begin split: option.split)
next
  case (Run i)
  show ?thesis
  proof (cases "i < length (sw_tasks w)")
    case True
    let ?t = "sw_tasks w ! i"
    obtain s n where r: "run_task grant_at ?t (sw_store w) = (s, n)" by (rule prod.exhaust)
    have t: "task_ok grant_at (sw_started w) (ss_now (sw_store w)) ?t" using ok True by (simp add: world_ok_def)
    have inv: "store_inv (sw_started w) (sw_store w)" "grants_inv grant_at d (sw_store w)" using ok by (simp_all add: world_ok_def)
    have prompt: "ss_now (sw_store w) - read \<le> d" if "?t = Keeping r g read" for r g read
      using al True that by (simp add: session_allowed_def Run)
    have "store_inv (sw_started w) s" "grants_inv grant_at d s" "ss_now s = ss_now (sw_store w)"
      using run_task_store[OF inv(1) t] run_task_grants[OF inv(2) t prompt] run_task_now[of grant_at ?t "sw_store w"] r by simp_all
    moreover have "task_ok grant_at (sw_started w) (ss_now (sw_store w)) u" if "n = Some u" for u
      using run_task_next[OF inv(1) t, of u] r that by simp
    moreover have "\<forall>t\<in>set (sw_tasks w). task_ok grant_at (sw_started w) (ss_now (sw_store w)) t" using ok by (simp add: world_ok_def)
    ultimately show ?thesis
      by (cases n) (auto simp: session_step_def Run True r world_ok_def dest: set_without dest!: subsetD[OF set_update_subset_insert])
  qed (use ok in \<open>simp add: session_step_def Run\<close>)
qed (use ok in \<open>auto simp: session_step_def begin_task_def world_ok_def dest: set_without\<close>)

interpretation sessions: machine "session_step digest grant_at" "world_ok grant_at d" "session_allowed digest d" for digest grant_at d
  by unfold_locales (rule session_step_ok)

section \<open>Sessions end and stay ended\<close>

text \<open>Redis drops a key no later than its session ends.\<close>

lemma find_at_live:
  assumes "store_inv started s"
  shows "find_at k s = map_option (record_from_json k) (redis_get s k)"
proof (cases "redis_get s k")
  case (Some v)
  then obtain e where e: "ss_values s k = Some (v, e)" "ss_now s < e" unfolding redis_get_Some by blast
  have "e = sr_expires v div second_us * second_us" by (rule store_inv_value(3)[OF assms e(1)])
  then have "e \<le> sr_expires v" using div_mult_mod_eq[of "sr_expires v" second_us] by simp
  then show ?thesis using e Some by (simp add: find_at_def record_from_json_def)
qed (simp add: find_at_def)

lemma step_started:
  assumes "session_allowed digest d w e" "sw_started w k = Some x"
  shows "sw_started (session_step digest grant_at w e) k = Some x"
  using assms
  by (cases e) (auto simp: session_step_def session_allowed_def begin_task_def start_session_def Let_def
      split: option.splits prod.splits if_splits)

lemma step_ended:
  assumes al: "session_allowed digest d w e" and k: "sw_started w k \<noteq> None" "redis_get (sw_store w) k = None"
  shows "redis_get (sw_store (session_step digest grant_at w e)) k = None"
proof (cases e)
  case (Wait n)
  then show ?thesis using k(2) by (auto simp: session_step_def redis_get_def split: option.splits if_splits)
next
  case (Start lifetime u remember token)
  then have "k \<noteq> digest token" using al k(1) by (auto simp: session_allowed_def)
  then show ?thesis using k(2)
    by (auto simp: session_step_def Start start_session_def Let_def redis_get_def split: option.splits if_splits)
next
  case (Run i)
  have "redis_get (fst (run_task grant_at (sw_tasks w ! i) (sw_store w))) k = None" using task_gets k(2) by blast
  then show ?thesis using k(2) by (auto simp: session_step_def Run split: prod.split option.split)
qed (use k in \<open>auto simp: session_step_def begin_task_def split: option.split\<close>)

text \<open>The clock does not go back.\<close>

lemma step_clock: "ss_now (sw_store w) \<le> ss_now (sw_store (session_step digest grant_at w e))"
proof (cases e)
  case (Start lifetime u remember token)
  then show ?thesis by (simp add: session_step_def start_session_def Let_def)
next
  case (Run i)
  obtain s n where r: "run_task grant_at (sw_tasks w ! i) (sw_store w) = (s, n)" by (rule prod.exhaust)
  then have "ss_now s = ss_now (sw_store w)" using run_task_now[of grant_at "sw_tasks w ! i" "sw_store w"] by simp
  then show ?thesis by (auto simp: session_step_def Run r split: option.split)
qed (auto simp: session_step_def begin_task_def split: option.split)

lemma run_facts:
  assumes "sessions.run_ok digest grant_at d w es"
  shows "sw_started w k = Some x \<Longrightarrow> sw_started (sessions.run digest grant_at w es) k = Some x"
    "sw_started w k = Some x \<Longrightarrow> redis_get (sw_store w) k = None \<Longrightarrow> redis_get (sw_store (sessions.run digest grant_at w es)) k = None"
    "ss_now (sw_store w) \<le> ss_now (sw_store (sessions.run digest grant_at w es))"
  using assms
proof (induction es arbitrary: w)
  case (Cons e es)
  {
    case 1
    then show ?case using Cons.IH(1) step_started[of digest d w e k x grant_at] by simp
  next
    case 2
    then show ?case using Cons.IH(2) step_started[of digest d w e k x grant_at] step_ended[of digest d w e k grant_at] by simp
  next
    case 3
    then show ?case using Cons.IH(3)[of "session_step digest grant_at w e"] step_clock[of w digest grant_at e] by simp
  }
qed simp_all

lemma found_listed: "store_inv started s \<Longrightarrow> find_at k s = Some r \<Longrightarrow> k \<in> redis_members s (sr_user r)"
  unfolding find_at_Some using live_listed by (fastforce simp: record_from_json_def)

text \<open>C27. However requests of any users interleave, call by call, dying anywhere, while time passes: a live session is in its
  user's set and keeps the user, the length and the end it started with; and one that has ended, been signed out or
  run out is never live again.\<close>

theorem sessions_stay_put:
  assumes "world_ok grant_at d w" "sessions.run_ok digest grant_at d w es"
  shows "(\<forall>k r. find_at k (sw_store (foldl (session_step digest grant_at) w es)) = Some r \<longrightarrow>
        k \<in> redis_members (sw_store (foldl (session_step digest grant_at) w es)) (sr_user r)
        \<and> sw_started (foldl (session_step digest grant_at) w es) k = Some (sr_user r, sr_remember r, sr_expires r))
    \<and> (\<forall>k x. sw_started w k = Some x \<longrightarrow>
        sw_started (foldl (session_step digest grant_at) w es) k = Some x
        \<and> (find_at k (sw_store w) = None \<longrightarrow> find_at k (sw_store (foldl (session_step digest grant_at) w es)) = None))"
proof -
  let ?w = "sessions.run digest grant_at w es"
  have inv: "store_inv (sw_started w) (sw_store w)" "store_inv (sw_started ?w) (sw_store ?w)"
    using assms(1) sessions.run_inv[OF assms] by (simp_all add: world_ok_def)
  have "k \<in> redis_members (sw_store ?w) (sr_user r) \<and> sw_started ?w k = Some (fixed r)" if "find_at k (sw_store ?w) = Some r" for k r
    using found_listed[OF inv(2) that] found_fixed[OF inv(2) that] by simp
  moreover have "sw_started ?w k = Some x \<and> (find_at k (sw_store w) = None \<longrightarrow> find_at k (sw_store ?w) = None)"
    if "sw_started w k = Some x" for k x
    using run_facts(1,2)[OF assms(2) that] unfolding find_at_live[OF inv(1)] find_at_live[OF inv(2)] by simp
  ultimately show ?thesis unfolding sessions.run_foldl by blast
qed

text \<open>C28. Signing out everywhere ends every session that had started when the user's set was read, but the one it keeps,
  whatever other requests do between the read and the delete, and none of them is live at any time after.\<close>

theorem signed_out_everywhere:
  assumes w: "world_ok grant_at d w" and es: "sessions.run_ok digest grant_at d w es"
    and v: "v = foldl (session_step digest grant_at) w es"
    and i: "i < length (sw_tasks v)" "sw_tasks v ! i = End_ids u (redis_members (sw_store w) u) keep"
    and later: "sessions.run_ok digest grant_at d v (Run i # es')"
    and k: "sw_started w k \<noteq> None" "find_at k (sw_store (foldl (session_step digest grant_at) v (Run i # es'))) = Some r" "sr_user r = u"
  shows "keep = Some k"
proof (rule ccontr)
  assume keep: "keep \<noteq> Some k"
  let ?v' = "session_step digest grant_at v (Run i)" and ?z = "sessions.run digest grant_at v (Run i # es')"
  have v': "v = sessions.run digest grant_at w es" unfolding v sessions.run_foldl ..
  have ok: "world_ok grant_at d v" unfolding v' by (rule sessions.run_inv[OF w es])
  have okz: "world_ok grant_at d ?z" by (rule sessions.run_inv[OF ok later])
  obtain x where x: "sw_started w k = Some x" using k(1) by blast
  have xv: "sw_started v k = Some x" unfolding v' by (rule run_facts(1)[OF es x])
  have xz: "sw_started ?z k = Some x" by (rule run_facts(1)[OF later xv])
  have z: "find_at k (sw_store ?z) = Some r" using k(2) unfolding sessions.run_foldl .
  have iz: "store_inv (sw_started ?z) (sw_store ?z)" using okz by (simp only: world_ok_def)
  have user: "fst x = u" using found_fixed[OF iz z] xz k(3) by (cases x) auto
  have live: "redis_get (sw_store ?z) k \<noteq> None" using z by (auto simp: find_at_Some)
  then have "redis_get (sw_store v) k \<noteq> None" by (rule contrapos_nn[OF _ run_facts(2)[OF later xv]])
  then have "redis_get (sw_store w) k \<noteq> None" unfolding v' by (rule contrapos_nn[OF _ run_facts(2)[OF es x]])
  then obtain y where y: "redis_get (sw_store w) k = Some y" by blast
  have iw: "store_inv (sw_started w) (sw_store w)" using w by (simp only: world_ok_def)
  have "sr_user y = u" using redis_get_fixed[OF iw y] x user by (cases x) auto
  then have mem: "k \<in> redis_members (sw_store w) u" using live_listed[OF iw y] by simp
  have "redis_get (sw_store ?v') k = None"
    using mem keep by (simp add: session_step_def i run_task_def redis_get_end)
  moreover have "session_allowed digest d v (Run i)" "sessions.run_ok digest grant_at d ?v' es'" using later by simp_all
  moreover from this(1) xv have "sw_started ?v' k = Some x" by (rule step_started)
  ultimately show False using run_facts(2)[of digest grant_at d ?v' es'] live by auto
qed

section \<open>How old a grant may be\<close>

text \<open>The grant a request goes by is what the rows said at a moment within five minutes before it, and the time a request may
  take between reading a grant and keeping it: one kept longer is read again.\<close>

theorem grant_in_use_is_recent:
  assumes "world_ok grant_at d w" "sessions.run_ok digest grant_at d w es"
    and "s = sw_store (foldl (session_step digest grant_at) w es)" "find_at k s = Some r" "\<not> grant_is_stale r (ss_now s)"
  shows "\<exists>t. ss_now s - grant_every - d < t \<and> t \<le> ss_now s \<and> sr_grant r = grant_at (sr_user r) t"
proof -
  have "grants_inv grant_at d s" using sessions.run_inv[OF assms(1,2)] unfolding assms(3) sessions.run_foldl by (simp add: world_ok_def)
  moreover obtain v e where v: "ss_values s k = Some (v, e)" "r = record_from_json k v" using assms(4) by (auto simp: find_at_Some redis_get_Some)
  moreover obtain a where a: "sr_granted_at v = Some a" "ss_now s - a < grant_every"
    using assms(5) v(2) by (auto simp: grant_is_stale_def record_from_json_def split: option.splits)
  ultimately obtain t where "a \<le> ss_now s" "a - d \<le> t" "t \<le> a" "sr_grant v = grant_at (sr_user v) t" unfolding grants_inv_def by blast
  then show ?thesis using a v(2) by (intro exI[of _ t]) (simp add: record_from_json_def)
qed

text \<open>What \<open>forget_grants\<close> is for: once a subscription has changed, no request goes by what was read before.\<close>

definition current_grants :: "(grant option \<Rightarrow> bool) \<Rightarrow> int \<Rightarrow> (string \<Rightarrow> bool) \<Rightarrow> session_world \<Rightarrow> bool" where
  "current_grants P u old w \<longleftrightarrow>
     (\<forall>r g t. Keeping r g t \<in> set (sw_tasks w) \<longrightarrow> sr_user r = u \<longrightarrow> P g)
     \<and> (\<forall>k v. redis_get (sw_store w) k = Some v \<longrightarrow> \<not> old k \<longrightarrow> sr_user v = u \<longrightarrow> sr_granted_at v \<noteq> None \<longrightarrow> P (sr_grant v))"

lemma current_grantsD:
  assumes "current_grants P u old w"
  shows "Keeping r g t \<in> set (sw_tasks w) \<Longrightarrow> sr_user r = u \<Longrightarrow> P g"
    "redis_get (sw_store w) k = Some v \<Longrightarrow> \<not> old k \<Longrightarrow> sr_user v = u \<Longrightarrow> sr_granted_at v \<noteq> None \<Longrightarrow> P (sr_grant v)"
  using assms unfolding current_grants_def by blast+

lemma task_current:
  assumes c: "current_grants P u old w" and i: "sw_tasks w ! i \<in> set (sw_tasks w)"
    and v: "redis_get (fst (run_task grant_at (sw_tasks w ! i) (sw_store w))) k = Some v" "\<not> old k" "sr_user v = u" "sr_granted_at v \<noteq> None"
  shows "P (sr_grant v)"
proof -
  consider (old) "redis_get (sw_store w) k = Some v"
    | (kept) r g t where "sw_tasks w ! i = Keeping r g t" "v = r\<lparr>sr_grant := g, sr_granted_at := Some (ss_now (sw_store w))\<rparr>"
    using v by (cases "sw_tasks w ! i") (auto simp: run_task_def keep_grant_def end_record_def redis_get_replace redis_get_remove
        redis_get_forgotten redis_get_end Let_def split: if_splits option.splits)
  then show ?thesis
  proof cases
    case old
    then show ?thesis using current_grantsD(2)[OF c] v by blast
  next
    case kept
    then show ?thesis using current_grantsD(1)[OF c, of r g t] i v(3) by simp
  qed
qed

lemma current_less:
  assumes c: "current_grants P u old w" and t: "\<And>t. t \<in> set (sw_tasks w') \<Longrightarrow> t \<in> set (sw_tasks w)"
    and s: "\<And>k v. redis_get (sw_store w') k = Some v \<Longrightarrow> redis_get (sw_store w) k = Some v \<or> sr_granted_at v = None"
  shows "current_grants P u old w'"
  unfolding current_grants_def
proof (intro conjI allI impI)
  show "P g" if "Keeping r g x \<in> set (sw_tasks w')" "sr_user r = u" for r g x using current_grantsD(1)[OF c t[OF that(1)] that(2)] .
  show "P (sr_grant v)" if "redis_get (sw_store w') k = Some v" "\<not> old k" "sr_user v = u" "sr_granted_at v \<noteq> None" for k v
    using s[OF that(1)] that(2-) current_grantsD(2)[OF c] by blast
qed

lemma step_current:
  assumes c: "current_grants P u old w" and now: "\<And>t. t \<ge> ss_now (sw_store w) \<Longrightarrow> P (grant_at u t)"
  shows "current_grants P u old (session_step digest grant_at w e)"
proof (cases e)
  case (Wait n)
  have "redis_get (sw_store w) k = Some v" if "redis_get ((sw_store w)\<lparr>ss_now := ss_now (sw_store w) + int n\<rparr>) k = Some v" for k v
    using that by (auto simp: redis_get_Some)
  then show ?thesis by (intro current_less[OF c]) (simp_all add: session_step_def Wait)
next
  case (Start lifetime u' remember token)
  have "redis_get (sw_store w) k = Some v \<or> sr_granted_at v = None"
    if "redis_get (fst (start_session digest lifetime u' remember token (sw_store w))) k = Some v" for k v
    using that by (auto simp: redis_get_Some start_session_def Let_def split: if_splits)
  then show ?thesis by (intro current_less[OF c]) (simp_all add: session_step_def Start split: prod.splits)
next
  case (Run i)
  show ?thesis
  proof (cases "i < length (sw_tasks w)")
    case True
    let ?t = "sw_tasks w ! i"
    obtain s n where r: "run_task grant_at ?t (sw_store w) = (s, n)" by (rule prod.exhaust)
    have "P (sr_grant v)" if "redis_get s k = Some v" "\<not> old k" "sr_user v = u" "sr_granted_at v \<noteq> None" for k v
      using task_current[OF c nth_mem[OF True], of grant_at k v] that r by simp
    moreover have "P g" if "n = Some (Keeping x g t)" "sr_user x = u" for x g t
      using that r now by (cases ?t) (auto simp: run_task_def)
    moreover note current_grantsD(1)[OF c]
    ultimately show ?thesis unfolding current_grants_def
      by (cases n) (auto simp: session_step_def Run True r dest: set_without dest!: subsetD[OF set_update_subset_insert])
  qed (use c in \<open>simp add: session_step_def Run\<close>)
next
  case (Die i)
  then show ?thesis by (intro current_less[OF c]) (auto simp: session_step_def dest: set_without)
qed (use c in \<open>auto simp: session_step_def current_grants_def begin_task_def split: option.splits\<close>)

lemma run_current:
  assumes "current_grants P u old w" "\<And>t. t \<ge> ss_now (sw_store w) \<Longrightarrow> P (grant_at u t)"
  shows "current_grants P u old (foldl (session_step digest grant_at) w es)"
  using assms
proof (induction es arbitrary: w)
  case (Cons e es)
  have "current_grants P u old (session_step digest grant_at w e)"
    by (rule step_current[where P = P and grant_at = grant_at, OF Cons.prems(1)]) (rule Cons.prems(2))
  moreover have "P (grant_at u t)" if "t \<ge> ss_now (sw_store (session_step digest grant_at w e))" for t
    using Cons.prems(2) that step_clock[of w digest grant_at e] by force
  ultimately show ?case using Cons.IH by simp
qed simp

text \<open>A session \<open>forget_grants\<close> read is written without its grant, if it is still there; one that had started then was read.\<close>

lemma read_is_forgotten:
  assumes w: "world_ok grant_at d w" and x: "world_ok grant_at d x" and y: "world_ok grant_at d y"
    and es: "sessions.run_ok digest grant_at d w es" "x = sessions.run digest grant_at w es"
    and fs: "sessions.run_ok digest grant_at d x fs" "y = sessions.run digest grant_at x fs"
    and j: "sw_started w j = Some q" "redis_get (write_forgotten (mget (redis_members (sw_store w) u) (sw_store x)) (sw_store y)) j = Some v" "sr_user v = u"
  shows "sr_granted_at v = None"
proof -
  have inv: "store_inv (sw_started w) (sw_store w)" "store_inv (sw_started x) (sw_store x)" "store_inv (sw_started y) (sw_store y)"
    using w x y by (simp_all only: world_ok_def)
  have qx: "sw_started x j = Some q" unfolding es(2) by (rule run_facts(1)[OF es(1) j(1)])
  have qy: "sw_started y j = Some q" unfolding fs(2) by (rule run_facts(1)[OF fs(1) qx])
  obtain vy where vy: "redis_get (sw_store y) j = Some vy" "v = (case mget (redis_members (sw_store w) u) (sw_store x) j of None \<Rightarrow> vy | Some a \<Rightarrow> forgotten j a)"
    using j(2) unfolding redis_get_forgotten by (auto split: option.splits)
  obtain vx where vx: "redis_get (sw_store x) j = Some vx" using run_facts(2)[OF fs(1) qx] vy(1) unfolding fs(2)[symmetric] by fastforce
  obtain vw where vw: "redis_get (sw_store w) j = Some vw" using run_facts(2)[OF es(1) j(1)] vx unfolding es(2)[symmetric] by fastforce
  have "fixed vw = fixed vy" using redis_get_fixed[OF inv(1) vw] redis_get_fixed[OF inv(3) vy(1)] j(1) qy by simp
  moreover have "fixed vx = fixed vw" using redis_get_fixed[OF inv(2) vx] redis_get_fixed[OF inv(1) vw] j(1) qx by simp
  moreover have "sr_user v = sr_user vy \<or> sr_user v = sr_user vx" using vy(2) vx by (auto simp: mget_def split: if_splits option.splits)
  ultimately have "j \<in> redis_members (sw_store w) u" using live_listed[OF inv(1) vw] j(3) by auto
  then show ?thesis using vy(2) vx by (simp add: mget_def)
qed

text \<open>C29. Once a subscription has changed and \<open>forget_grants\<close> has run for its user, its three calls with any others between them,
  every session's grant is one read after the change, now and from then on; unless a request was under way that had
  read its grant before the change and had not kept it yet.\<close>

theorem forgotten_grants_are_read_again:
  assumes w: "world_ok grant_at d w" and changed: "\<And>t. t \<ge> ss_now (sw_store w) \<Longrightarrow> P (grant_at u t)"
    and none: "\<forall>r g t. Keeping r g t \<in> set (sw_tasks w) \<and> sr_user r = u \<longrightarrow> P g"
    and es: "sessions.run_ok digest grant_at d w es" and x: "x = foldl (session_step digest grant_at) w es"
    and fs: "sessions.run_ok digest grant_at d x fs" and y: "y = foldl (session_step digest grant_at) x fs"
    and i: "i < length (sw_tasks y)" "sw_tasks y ! i = Forget_values u (mget (redis_members (sw_store w) u) (sw_store x))"
    and last: "z = foldl (session_step digest grant_at) y (Run i # gs)"
    and found: "find_at k (sw_store z) = Some r" "sr_user r = u" "sr_granted_at r \<noteq> None"
  shows "P (sr_grant r)"
proof -
  let ?old = "\<lambda>k. sw_started w k \<noteq> None" and ?y' = "session_step digest grant_at y (Run i)"
  have okx: "world_ok grant_at d x" unfolding x using sessions.run_inv[OF w es] sessions.run_foldl by metis
  have oky: "world_ok grant_at d y" unfolding y using sessions.run_inv[OF okx fs] sessions.run_foldl by metis
  have iw: "store_inv (sw_started w) (sw_store w)" using w by (simp only: world_ok_def)
  have xy: "x = sessions.run digest grant_at w es" "y = sessions.run digest grant_at x fs" unfolding x y sessions.run_foldl by (rule refl)+
  have clock: "ss_now (sw_store w) \<le> ss_now (sw_store x)" "ss_now (sw_store x) \<le> ss_now (sw_store y)"
    using run_facts(3)[OF es] run_facts(3)[OF fs] unfolding xy[symmetric] by simp_all
  have "current_grants P u ?old w" unfolding current_grants_def
  proof (intro conjI allI impI)
    show "P g" if "Keeping r g t \<in> set (sw_tasks w)" "sr_user r = u" for r g t using none that by blast
    show "P (sr_grant v)" if "redis_get (sw_store w) k = Some v" "\<not> sw_started w k \<noteq> None" for k v
      using redis_get_fixed[OF iw that(1)] that(2) by simp
  qed
  then have cx: "current_grants P u ?old x" unfolding x by (rule run_current[where P = P and grant_at = grant_at]) (rule changed)
  have cy: "current_grants P u ?old y" unfolding y
    by (rule run_current[where P = P and grant_at = grant_at, OF cx]) (rule changed, use clock in simp)
  have cy': "current_grants P u ?old ?y'"
    by (rule step_current[where P = P and grant_at = grant_at, OF cy]) (rule changed, use clock in simp)
  have "current_grants P u (\<lambda>_. False) ?y'" unfolding current_grants_def
  proof (intro conjI allI impI)
    show "P g" if "Keeping r g t \<in> set (sw_tasks ?y')" "sr_user r = u" for r g t by (rule current_grantsD(1)[OF cy' that])
    fix j v assume v: "redis_get (sw_store ?y') j = Some v" "sr_user v = u" "sr_granted_at v \<noteq> None"
    have "sw_store ?y' = write_forgotten (mget (redis_members (sw_store w) u) (sw_store x)) (sw_store y)"
      using i by (simp add: session_step_def run_task_def)
    then have "\<not> ?old j" using read_is_forgotten[OF w okx oky es xy(1) fs xy(2)] v by force
    then show "P (sr_grant v)" using current_grantsD(2)[OF cy'] v by blast
  qed
  then have cz: "current_grants P u (\<lambda>_. False) z" unfolding last foldl.simps
    by (rule run_current[where P = P and grant_at = grant_at]) (rule changed, use clock step_clock[of y digest grant_at "Run i"] in simp)
  obtain v where "redis_get (sw_store z) k = Some v" "r = record_from_json k v" using found(1) by (auto simp: find_at_Some)
  then show ?thesis using current_grantsD(2)[OF cz, of k v] found(2,3) by (simp add: record_from_json_def)
qed

section \<open>One-time links\<close>

datatype token_purpose = Email_verify | Email_change | Password_reset

record account_token =
  tk_user :: int
  tk_purpose :: token_purpose
  tk_hash :: string
  tk_new_email :: "string option"
  tk_expires :: moment

datatype token_error = Token_rejected

definition revoke_tokens :: "int \<Rightarrow> token_purpose \<Rightarrow> account_token list \<Rightarrow> account_token list" where
  "revoke_tokens u p ts = filter (\<lambda>t. \<not> (tk_user t = u \<and> tk_purpose t = p)) ts"

definition token_row :: "(string \<Rightarrow> string) \<Rightarrow> int \<Rightarrow> token_purpose \<Rightarrow> moment \<Rightarrow> string option \<Rightarrow> string \<Rightarrow> moment \<Rightarrow> account_token" where
  "token_row digest u p ttl new_email token now =
     \<lparr>tk_user = u, tk_purpose = p, tk_hash = digest token, tk_new_email = new_email, tk_expires = now + ttl\<rparr>"

text \<open>The table's unique hash, and its check that an email change, and only it, names the email.\<close>

definition insert_token :: "account_token \<Rightarrow> account_token list \<Rightarrow> token_error + account_token list" where
  "insert_token t ts =
     (if tk_hash t \<in> tk_hash ` set ts \<or> (tk_purpose t = Email_change) \<noteq> (tk_new_email t \<noteq> None) then Inl Token_rejected
      else Inr (ts @ [t]))"

definition issue_token :: "(string \<Rightarrow> string) \<Rightarrow> int \<Rightarrow> token_purpose \<Rightarrow> moment \<Rightarrow> string option \<Rightarrow> string \<Rightarrow> moment \<Rightarrow> account_token list
    \<Rightarrow> token_error + account_token list" where
  "issue_token digest u p ttl new_email token now ts =
     insert_token (token_row digest u p ttl new_email token now) (revoke_tokens u p ts)"

definition redeemable :: "(string \<Rightarrow> string) \<Rightarrow> string \<Rightarrow> token_purpose \<Rightarrow> moment \<Rightarrow> account_token \<Rightarrow> bool" where
  "redeemable digest token p now t \<longleftrightarrow> tk_hash t = digest token \<and> tk_purpose t = p \<and> tk_expires t > now"

definition redeem_token :: "(string \<Rightarrow> string) \<Rightarrow> string \<Rightarrow> token_purpose \<Rightarrow> moment \<Rightarrow> account_token list
    \<Rightarrow> account_token list \<times> account_token option" where
  "redeem_token digest token p now ts =
     (filter (\<lambda>t. \<not> redeemable digest token p now t) ts, find (redeemable digest token p now) ts)"

definition pending_email :: "int \<Rightarrow> moment \<Rightarrow> account_token list \<Rightarrow> string option" where
  "pending_email u now ts =
     Option.bind (find (\<lambda>t. tk_user t = u \<and> tk_purpose t = Email_change \<and> tk_expires t > now) ts) tk_new_email"

text \<open>The table, and the hashes of the links followed so far. An issue that fails is rolled back.\<close>

record token_world =
  tw_tokens :: "account_token list"
  tw_used :: "string list"

datatype token_event =
  Issue int token_purpose moment "string option" string moment
| Revoke int token_purpose
| Redeem string token_purpose moment

definition token_step :: "(string \<Rightarrow> string) \<Rightarrow> token_world \<Rightarrow> token_event \<Rightarrow> token_world" where
  "token_step digest w e =
     (case e of
        Issue u p ttl new_email token now \<Rightarrow>
          (case issue_token digest u p ttl new_email token now (tw_tokens w) of Inl _ \<Rightarrow> w | Inr ts \<Rightarrow> w\<lparr>tw_tokens := ts\<rparr>)
      | Revoke u p \<Rightarrow> w\<lparr>tw_tokens := revoke_tokens u p (tw_tokens w)\<rparr>
      | Redeem token p now \<Rightarrow>
          (case redeem_token digest token p now (tw_tokens w) of
             (ts, None) \<Rightarrow> w\<lparr>tw_tokens := ts\<rparr>
           | (ts, Some t) \<Rightarrow> w\<lparr>tw_tokens := ts, tw_used := tw_used w @ [tk_hash t]\<rparr>))"

text \<open>A new secret is none a link was followed with.\<close>

definition token_allowed :: "(string \<Rightarrow> string) \<Rightarrow> token_world \<Rightarrow> token_event \<Rightarrow> bool" where
  "token_allowed digest w e = (case e of Issue u p ttl new_email token now \<Rightarrow> digest token \<notin> set (tw_used w) | _ \<Rightarrow> True)"

definition tokens_ok :: "token_world \<Rightarrow> bool" where
  "tokens_ok w \<longleftrightarrow> distinct (map tk_hash (tw_tokens w)) \<and> distinct (map (\<lambda>t. (tk_user t, tk_purpose t)) (tw_tokens w))
     \<and> distinct (tw_used w) \<and> set (tw_used w) \<inter> tk_hash ` set (tw_tokens w) = {}"

lemma tokens_ok_subset:
  "tokens_ok w \<Longrightarrow> tokens_ok (w\<lparr>tw_tokens := filter P (tw_tokens w)\<rparr>)"
  by (auto simp: tokens_ok_def distinct_map_filter)

lemma token_step_ok:
  assumes ok: "tokens_ok w" and al: "token_allowed digest w e"
  shows "tokens_ok (token_step digest w e)"
proof (cases e)
  case (Issue u p ttl new_email token now)
  note r = tokens_ok_subset[OF ok, of "\<lambda>t. \<not> (tk_user t = u \<and> tk_purpose t = p)"]
  show ?thesis
    using r ok al by (auto simp: token_step_def Issue issue_token_def insert_token_def token_row_def revoke_tokens_def tokens_ok_def
        token_allowed_def split: sum.split)
next
  case (Revoke u p)
  then show ?thesis using tokens_ok_subset[OF ok] by (simp add: token_step_def revoke_tokens_def)
next
  case (Redeem token p now)
  note r = tokens_ok_subset[OF ok, of "\<lambda>t. \<not> redeemable digest token p now t"]
  show ?thesis
  proof (cases "find (redeemable digest token p now) (tw_tokens w)")
    case (Some t)
    then have t: "t \<in> set (tw_tokens w)" "redeemable digest token p now t" by (auto simp: find_Some_iff)
    have "tk_hash t \<notin> tk_hash ` set (filter (\<lambda>t. \<not> redeemable digest token p now t) (tw_tokens w))"
    proof
      assume "tk_hash t \<in> tk_hash ` set (filter (\<lambda>t. \<not> redeemable digest token p now t) (tw_tokens w))"
      then obtain x where "x \<in> set (tw_tokens w)" "\<not> redeemable digest token p now x" "tk_hash x = tk_hash t" by auto
      moreover then have "x = t" using t(1) ok by (auto simp: tokens_ok_def distinct_map inj_on_def)
      ultimately show False using t(2) by blast
    qed
    moreover have "tk_hash t \<notin> set (tw_used w)" using ok t(1) by (auto simp: tokens_ok_def)
    ultimately show ?thesis using r by (auto simp: token_step_def Redeem redeem_token_def Some tokens_ok_def)
  qed (use r in \<open>simp add: token_step_def Redeem redeem_token_def\<close>)
qed

interpretation tokens: machine "token_step digest" tokens_ok "token_allowed digest" for digest
  by unfold_locales (rule token_step_ok)

text \<open>C30. However links are issued, revoked and followed, each one before the next: a link works once, and no later; and once
  one is issued, of that account's links of that purpose it alone works.\<close>

theorem a_link_works_once:
  assumes "tokens_ok w" "tokens.run_ok digest w es" "v = foldl (token_step digest) w es"
  shows "distinct (tw_used v)
    \<and> (digest token \<in> set (tw_used v) \<longrightarrow> snd (redeem_token digest token p now (tw_tokens v)) = None)
    \<and> (\<forall>ts t. issue_token digest u q ttl new_email fresh now (tw_tokens v) = Inr ts \<longrightarrow>
        snd (redeem_token digest token q later ts) = Some t \<longrightarrow> tk_user t = u \<longrightarrow> digest token = digest fresh)"
proof -
  have ok: "tokens_ok v" using tokens.run_inv[OF assms(1,2)] unfolding assms(3) tokens.run_foldl .
  have "snd (redeem_token digest token p now (tw_tokens v)) = None" if "digest token \<in> set (tw_used v)"
  proof -
    have "digest token \<notin> tk_hash ` set (tw_tokens v)" using ok that by (auto simp: tokens_ok_def)
    then show ?thesis by (force simp: redeem_token_def redeemable_def find_None_iff)
  qed
  moreover have "digest token = digest fresh"
    if "issue_token digest u q ttl new_email fresh now (tw_tokens v) = Inr ts" "snd (redeem_token digest token q later ts) = Some t" "tk_user t = u" for ts t
  proof -
    have "t \<in> set ts" "redeemable digest token q later t" using that(2) by (auto simp: redeem_token_def find_Some_iff)
    moreover then have "t = token_row digest u q ttl new_email fresh now"
      using that(1,3) by (auto simp: issue_token_def insert_token_def revoke_tokens_def redeemable_def split: if_splits)
    moreover have "tk_hash (token_row digest u q ttl new_email fresh now) = digest fresh" by (simp add: token_row_def)
    ultimately show ?thesis by (simp add: redeemable_def)
  qed
  ultimately show ?thesis using ok by (simp add: tokens_ok_def)
qed

text \<open>
  Two issues that overlap, each deleting before the other has committed, leave two links of one purpose that work: no row is
  locked and no constraint forbids it.
\<close>

lemma overlapping_issues_leave_two:
  "case bind_res (insert_token (token_row id 7 Password_reset 9 None ''a'' 0) (revoke_tokens 7 Password_reset []))
       (insert_token (token_row id 7 Password_reset 9 None ''b'' 0)) of
     Inl _ \<Rightarrow> False
   | Inr ts \<Rightarrow> snd (redeem_token id ''a'' Password_reset 1 ts) \<noteq> None \<and> snd (redeem_token id ''b'' Password_reset 1 ts) \<noteq> None"
  by code_simp

section \<open>Being active\<close>

text \<open>\<open>user_activity_day\<close>: by account and UTC day, how many exports. A day is its number since the first.\<close>

type_synonym activity_days = "int \<times> int \<rightharpoonup> nat"

definition utc_day :: "moment \<Rightarrow> int" where "utc_day t = t div day_us"

definition due_again :: "moment option \<Rightarrow> moment \<Rightarrow> moment \<Rightarrow> bool" where
  "due_again prev now every = (case prev of None \<Rightarrow> True | Some t \<Rightarrow> now - t \<ge> every \<or> utc_day t \<noteq> utc_day now)"

definition mark_active :: "int \<Rightarrow> moment \<Rightarrow> activity_days \<Rightarrow> activity_days" where
  "mark_active u now days = (case days (u, utc_day now) of None \<Rightarrow> days((u, utc_day now) \<mapsto> 0) | Some _ \<Rightarrow> days)"

definition count_export :: "int \<Rightarrow> moment \<Rightarrow> activity_days \<Rightarrow> activity_days" where
  "count_export u now days = days((u, utc_day now) \<mapsto> (case days (u, utc_day now) of None \<Rightarrow> 1 | Some n \<Rightarrow> n + 1))"

text \<open>\<open>touch\<close>, on when each account was last seen and the days.\<close>

definition touch :: "int \<Rightarrow> moment \<Rightarrow> (int \<rightharpoonup> moment) \<times> activity_days \<Rightarrow> (int \<rightharpoonup> moment) \<times> activity_days" where
  "touch u now = (\<lambda>(seen, days).
     if due_again (seen u) now last_seen_every then (seen(u \<mapsto> now), mark_active u now days) else (seen, days))"

text \<open>Skipping the write loses no day: an account seen on a day has that day's row.\<close>

lemma touch_marks_day:
  assumes "\<forall>u t. fst x u = Some t \<longrightarrow> snd x (u, utc_day t) \<noteq> None"
  shows "snd (touch u now x) (u, utc_day now) \<noteq> None"
    "\<forall>v t. fst (touch u now x) v = Some t \<longrightarrow> snd (touch u now x) (v, utc_day t) \<noteq> None"
proof -
  obtain seen days where x: "x = (seen, days)" by (rule prod.exhaust)
  have d: "days (v, utc_day t) \<noteq> None" if "seen v = Some t" for v t using assms that by (simp add: x)
  have m: "mark_active u now days (v, y) \<noteq> None" if "days (v, y) \<noteq> None \<or> (v, y) = (u, utc_day now)" for v y
    using that by (auto simp: mark_active_def split: option.split)
  have "days (u, utc_day now) \<noteq> None" if "\<not> due_again (seen u) now last_seen_every"
    using that d[of u] by (fastforce simp: due_again_def split: option.splits)
  then show "snd (touch u now x) (u, utc_day now) \<noteq> None" using m by (simp add: touch_def x)
  show "\<forall>v t. fst (touch u now x) v = Some t \<longrightarrow> snd (touch u now x) (v, utc_day t) \<noteq> None"
    using d m by (auto simp: touch_def x split: if_splits)
qed

section \<open>One account, two sessions\<close>

abbreviation a_grant :: "moment \<Rightarrow> grant option" where
  "a_grant t \<equiv> (if t < 10 then None else
     Some \<lparr>gr_plan = Some ''pro'', gr_grandfathered = None, gr_overrides = [], gr_ends_at = None, gr_started_at = Some 10,
       gr_override = None, gr_override_ends_at = None\<rparr>)"

abbreviation empty_world :: session_world where
  "empty_world \<equiv> \<lparr>sw_store = \<lparr>ss_now = 0, ss_values = (\<lambda>_. None), ss_index = (\<lambda>_. None)\<rparr>, sw_tasks = [], sw_started = (\<lambda>_. None)\<rparr>"

abbreviation play :: "session_world \<Rightarrow> session_event list \<Rightarrow> session_world" where
  "play \<equiv> foldl (session_step id (\<lambda>u. a_grant))"

abbreviation two_sessions :: "session_event list" where
  "two_sessions \<equiv> [Start unremembered 7 True ''a'', Start unremembered 7 False ''b'']"

lemma empty_world_ok: "world_ok (\<lambda>u. a_grant) 5 empty_world"
  by (simp add: world_ok_def store_inv_def grants_inv_def)

lemma two_sessions_allowed: "sessions.run_ok id (\<lambda>u. a_grant) 5 empty_world two_sessions"
  by (simp only: sessions.run_ok.simps) code_simp

text \<open>A grant read before the subscription changed and kept after every session was made to forget: it is believed for five minutes more.\<close>

lemma grant_read_before_change_survives:
  "map_option (\<lambda>r. (sr_grant r, sr_granted_at r))
     (find_at ''a'' (sw_store (play empty_world (two_sessions @ [Look ''a'' False, Run 0, Wait 10, Forget 7, Run 1, Run 1, Run 1, Run 0]))))
   = Some (None, Some 10)"
  "a_grant 10 \<noteq> None"
  by code_simp+

lemma play_ok:
  assumes "sessions.run_ok id (\<lambda>u. a_grant) 5 empty_world es"
  shows "world_ok (\<lambda>u. a_grant) 5 (play empty_world es)"
  using sessions.run_inv[OF empty_world_ok assms] unfolding sessions.run_foldl .

lemma sessions_stay_put_witness:
  "find_at ''a'' (sw_store (play (play empty_world (two_sessions @ [Log_out ''a'', Run 0, Run 0])) [Look ''b'' False, Wait 3, Run 0])) = None
   \<and> (\<exists>r. find_at ''b'' (sw_store (play (play empty_world (two_sessions @ [Log_out ''a'', Run 0, Run 0])) [Look ''b'' False, Wait 3, Run 0])) = Some r
        \<and> ''b'' \<in> redis_members (sw_store (play (play empty_world (two_sessions @ [Log_out ''a'', Run 0, Run 0])) [Look ''b'' False, Wait 3, Run 0]))
            (sr_user r))"
proof -
  let ?w = "play empty_world (two_sessions @ [Log_out ''a'', Run 0, Run 0])" and ?es = "[Look ''b'' False, Wait 3, Run 0]"
  have w: "world_ok (\<lambda>u. a_grant) 5 ?w" by (rule play_ok) (simp only: append.simps sessions.run_ok.simps, code_simp)
  have es: "sessions.run_ok id (\<lambda>u. a_grant) 5 ?w ?es" by (simp only: append.simps sessions.run_ok.simps, code_simp)
  note T = sessions_stay_put[OF w es]
  have "sw_started ?w ''a'' = Some (7, True, 2592000000000)" "find_at ''a'' (sw_store ?w) = None" by code_simp+
  then have "find_at ''a'' (sw_store (play ?w ?es)) = None" using conjunct2[OF T] by blast
  moreover have "find_at ''b'' (sw_store (play ?w ?es)) \<noteq> None" by code_simp
  then obtain r where "find_at ''b'' (sw_store (play ?w ?es)) = Some r" by blast
  ultimately show ?thesis using conjunct1[OF T] by blast
qed

text \<open>A request for everything a user has begins by reading their set.\<close>

lemma play_Sign_out:
  assumes "length (sw_tasks w) = 0"
  shows "sw_tasks (play w [Sign_out u keep, Run 0, Wait n]) ! 0 = End_ids u (redis_members (sw_store w) u) keep"
    "0 < length (sw_tasks (play w [Sign_out u keep, Run 0, Wait n]))"
  using assms by (simp_all add: session_step_def begin_task_def run_task_def)

lemma play_Forget:
  assumes "length (sw_tasks w) = 0"
  shows "sw_tasks (play w [Forget u, Run 0, Wait n, Run 0]) ! 0 =
      Forget_values u (mget (redis_members (sw_store w) u) (sw_store (play w [Forget u, Run 0, Wait n])))"
    "0 < length (sw_tasks (play w [Forget u, Run 0, Wait n, Run 0]))"
  using assms by (simp_all add: session_step_def begin_task_def run_task_def)

lemma two_sessions_no_task: "length (sw_tasks (play empty_world two_sessions)) = 0" by code_simp

lemma two_sessions_ok: "world_ok (\<lambda>u. a_grant) 5 (play empty_world two_sessions)"
  by (rule play_ok) (rule two_sessions_allowed)

lemma signed_out_everywhere_witness:
  "find_at ''a'' (sw_store (play (play (play empty_world two_sessions) [Sign_out 7 (Some ''b''), Run 0, Wait 1]) [Run 0, Wait 2])) = None"
proof (rule ccontr)
  let ?w = "play empty_world two_sessions" and ?es = "[Sign_out 7 (Some ''b''), Run 0, Wait 1]"
  assume "find_at ''a'' (sw_store (play (play ?w ?es) [Run 0, Wait 2])) \<noteq> None"
  then obtain r where r: "find_at ''a'' (sw_store (play (play ?w ?es) [Run 0, Wait 2])) = Some r" by blast
  have es: "sessions.run_ok id (\<lambda>u. a_grant) 5 ?w ?es" by (simp only: append.simps sessions.run_ok.simps, code_simp)
  have later: "sessions.run_ok id (\<lambda>u. a_grant) 5 (play ?w ?es) [Run 0, Wait 2]" by (simp only: append.simps sessions.run_ok.simps, code_simp)
  have k: "sw_started ?w ''a'' \<noteq> None" by code_simp
  have "map_option sr_user (find_at ''a'' (sw_store (play (play ?w ?es) [Run 0, Wait 2]))) \<in> {None, Some 7}" by code_simp
  then have "sr_user r = 7" using r by simp
  then have "Some ''b'' = Some ''a''"
    using signed_out_everywhere[OF two_sessions_ok es refl play_Sign_out(2,1)[OF two_sessions_no_task] later k r] by simp
  then show False by simp
qed

lemma grant_in_use_is_recent_witness:
  "\<exists>t. 20 - grant_every - 5 < t \<and> t \<le> (20::int) \<and> None = a_grant t"
proof -
  let ?w = "play empty_world two_sessions" and ?es = "[Look ''a'' False, Run 0, Wait 3, Run 0, Wait 17]"
  let ?s = "sw_store (play ?w ?es)"
  have es: "sessions.run_ok id (\<lambda>u. a_grant) 5 ?w ?es" by (simp only: append.simps sessions.run_ok.simps, code_simp)
  have "map_option (\<lambda>r. (sr_grant r, sr_granted_at r)) (find_at ''a'' ?s) = Some (None, Some 3)" "ss_now ?s = 20" by code_simp+
  then obtain r where r: "find_at ''a'' ?s = Some r" "sr_grant r = None" "sr_granted_at r = Some 3" and now: "ss_now ?s = 20" by auto
  have "\<not> grant_is_stale r (ss_now ?s)" unfolding now by (simp add: grant_is_stale_def r grant_every_def)
  from grant_in_use_is_recent[OF two_sessions_ok es refl r(1) this] show ?thesis unfolding now r(2) .
qed

text \<open>The change at 10 is read by the first request after the sessions forgot.\<close>

lemma forgotten_grants_are_read_again_witness:
  "\<exists>r. find_at ''a'' (sw_store (play (play (play (play empty_world (two_sessions @ [Wait 10])) [Forget 7, Run 0, Wait 1]) [Run 0])
       [Run 0, Look ''a'' False, Run 0, Run 0])) = Some r \<and> sr_grant r \<noteq> None"
proof -
  let ?w = "play empty_world (two_sessions @ [Wait 10])"
  let ?x = "play ?w [Forget 7, Run 0, Wait 1]" and ?y = "play (play ?w [Forget 7, Run 0, Wait 1]) [Run 0]"
  let ?z = "play ?y [Run 0, Look ''a'' False, Run 0, Run 0]"
  have w: "world_ok (\<lambda>u. a_grant) 5 ?w" by (rule play_ok) (simp only: append.simps sessions.run_ok.simps, code_simp)
  have es: "sessions.run_ok id (\<lambda>u. a_grant) 5 ?w [Forget 7, Run 0, Wait 1]" by (simp only: append.simps sessions.run_ok.simps, code_simp)
  have fs: "sessions.run_ok id (\<lambda>u. a_grant) 5 ?x [Run 0]" by (simp only: append.simps sessions.run_ok.simps, code_simp)
  have t0: "length (sw_tasks ?w) = 0" "ss_now (sw_store ?w) = 10" by code_simp+
  have i: "0 < length (sw_tasks ?y)" "sw_tasks ?y ! 0 = Forget_values 7 (mget (redis_members (sw_store ?w) 7) (sw_store ?x))"
    using play_Forget[OF t0(1)] by simp_all
  have "map_option (\<lambda>r. (sr_user r, sr_granted_at r)) (find_at ''a'' (sw_store ?z)) = Some (7, Some 11)" by code_simp
  then obtain r where r: "find_at ''a'' (sw_store ?z) = Some r" "sr_user r = 7" "sr_granted_at r \<noteq> None" by auto
  have changed: "a_grant t \<noteq> None" if "t \<ge> ss_now (sw_store ?w)" for t using that t0(2) by simp
  have none: "\<forall>r g t. Keeping r g t \<in> set (sw_tasks ?w) \<and> sr_user r = 7 \<longrightarrow> g \<noteq> None" using t0(1) by simp
  have "sr_grant r \<noteq> None"
    by (rule forgotten_grants_are_read_again[where P = "\<lambda>g. g \<noteq> None" and grant_at = "\<lambda>u. a_grant", OF w _ none es refl fs refl i refl r]) (rule changed)
  then show ?thesis using r(1) by blast
qed

lemma a_link_works_once_witness:
  "snd (redeem_token id ''a'' Email_verify 2
      (tw_tokens (foldl (token_step id) \<lparr>tw_tokens = [], tw_used = []\<rparr> [Issue 7 Email_verify 9 None ''a'' 0, Redeem ''a'' Email_verify 1]))) = None"
proof -
  let ?w = "\<lparr>tw_tokens = [], tw_used = []\<rparr>" and ?es = "[Issue 7 Email_verify 9 None ''a'' 0, Redeem ''a'' Email_verify 1]"
  have "tokens_ok ?w" by (simp add: tokens_ok_def)
  moreover have "tokens.run_ok id ?w ?es" by (simp only: tokens.run_ok.simps, code_simp)
  moreover have "id ''a'' \<in> set (tw_used (foldl (token_step id) ?w ?es))" by code_simp
  ultimately show ?thesis using a_link_works_once[OF _ _ refl, of ?w id ?es "''a''" Email_verify 2] by blast
qed

end
