(* ===== verification/Gates.thy ===== *)
theory Gates
  imports Entitlements Periods
begin

text \<open>
  \<open>app/api/entitlements.py\<close>: what a plan lets one request see and save. The windows a plan's
  limits open, the context of a request, and the four checks that refuse with a 402 naming the
  limit, what was needed and the cheapest plan that reaches it. The messages of the refusals
  and the headers of gated responses are not modelled; who is asking is the request's viewer.
\<close>

section \<open>Windows\<close>

datatype gate_error =
    Period_error period_error
  | Date_out_of_range
  | Entitlement_error ent_error
  | Plan_limit string int int "plan_terms option"

definition lift_period :: "period_error + 'a \<Rightarrow> gate_error + 'a" where
  "lift_period m = (case m of Inl e \<Rightarrow> Inl (Period_error e) | Inr x \<Rightarrow> Inr x)"

definition lift_ent :: "ent_error + 'a \<Rightarrow> gate_error + 'a" where
  "lift_ent m = (case m of Inl e \<Rightarrow> Inl (Entitlement_error e) | Inr x \<Rightarrow> Inr x)"

definition months_before :: "date \<Rightarrow> int \<Rightarrow> gate_error + date" where
  "months_before d months =
     (let k = year d * 12 + month d - 1 - months; y = k div 12; m = k mod 12 + 1
      in if 1 \<le> y \<and> y \<le> 9999 then Inr (Date y m (min (day d) (month_days y m)))
         else Inl Date_out_of_range)"

definition history_from :: "int option \<Rightarrow> date \<Rightarrow> gate_error + date option" where
  "history_from quarters today =
     (case quarters of None \<Rightarrow> Inr None
      | Some n \<Rightarrow> lift_period (bind_res (current_quarter today)
          (\<lambda>c. if n = 0 then map_res Some (next_quarter_end c)
               else map_res (\<lambda>qs. Some (qs ! 0)) (quarters_ending c n))))"

definition insiders_from :: "int option \<Rightarrow> date \<Rightarrow> gate_error + date option" where
  "insiders_from months today =
     (case months of None \<Rightarrow> Inr None
      | Some n \<Rightarrow>
          if n = 0 then (case add_days today 1 of None \<Rightarrow> Inl Date_out_of_range | Some d \<Rightarrow> Inr (Some d))
          else map_res Some (months_before today n))"

section \<open>The context of a request\<close>

record ent_context =
  ec_history_quarters :: "int option"
  ec_insider_months :: "int option"
  ec_today :: date
  ec_viewer :: who
  ec_history_from :: "date option"
  ec_insiders_from :: "date option"

text \<open>The constructor, with \<open>__post_init__\<close>.\<close>

definition make_context :: "int option \<Rightarrow> int option \<Rightarrow> date \<Rightarrow> who \<Rightarrow> gate_error + ent_context" where
  "make_context quarters months today viewer =
     bind_res (history_from quarters today) (\<lambda>h. bind_res (insiders_from months today) (\<lambda>i.
       Inr \<lparr>ec_history_quarters = quarters, ec_insider_months = months, ec_today = today,
            ec_viewer = viewer, ec_history_from = h, ec_insiders_from = i\<rparr>))"

definition context_of :: "in_force \<Rightarrow> who \<Rightarrow> date \<Rightarrow> moment \<Rightarrow> gate_error + ent_context" where
  "context_of cat viewer today at =
     bind_res (lift_ent (limit cat viewer ''history_quarters'' at at)) (\<lambda>q.
       bind_res (lift_ent (limit cat viewer ''insider_months'' at at)) (\<lambda>m.
         make_context q m today viewer))"

definition unlimited_context :: "who \<Rightarrow> date \<Rightarrow> gate_error + ent_context" where
  "unlimited_context viewer today = make_context None None today viewer"

fun next_quarters :: "nat \<Rightarrow> date \<Rightarrow> period_error + date" where
  "next_quarters 0 d = Inr d"
| "next_quarters (Suc n) d = bind_res (next_quarter_end d) (next_quarters n)"

definition first_period :: "ent_context \<Rightarrow> int \<Rightarrow> gate_error + date option" where
  "first_period ctx quarters =
     (case ec_history_from ctx of None \<Rightarrow> Inr None
      | Some d \<Rightarrow> lift_period (map_res Some (next_quarters (nat (quarters - 1)) d)))"

section \<open>The checks\<close>

text \<open>\<open>_refused\<close>: the caller's own limit, which is a number, and the plan that reaches what was needed.\<close>

definition refused :: "in_force \<Rightarrow> ent_context \<Rightarrow> moment \<Rightarrow> string \<Rightarrow> int \<Rightarrow> gate_error" where
  "refused cat ctx at key needed =
     (case limit cat (ec_viewer ctx) key at at of
        Inl e \<Rightarrow> Entitlement_error e
      | Inr None \<Rightarrow> Entitlement_error Assertion_failed
      | Inr (Some allowed) \<Rightarrow>
          (case lifting_plan cat key needed of
             Inl e \<Rightarrow> Entitlement_error e
           | Inr plan \<Rightarrow> Plan_limit key allowed needed plan))"

definition require_period :: "in_force \<Rightarrow> ent_context \<Rightarrow> moment \<Rightarrow> date option \<Rightarrow> int \<Rightarrow> gate_error + unit" where
  "require_period cat ctx at period quarters =
     (case (period, ec_history_from ctx) of
        (Some p, Some from) \<Rightarrow>
          bind_res (lift_period (quarter_end (year p) ((month p - 1) div 3 + 1))) (\<lambda>quarter.
          bind_res (lift_period (quarters_ending quarter quarters)) (\<lambda>qs.
            let first = qs ! 0 in
            if first \<ge> from then Inr ()
            else if ec_history_quarters ctx = None then Inl (Entitlement_error Assertion_failed)
            else
              bind_res (lift_period (bind_res (current_quarter (ec_today ctx)) (quarters_between first)))
                (\<lambda>span. Inl (refused cat ctx at ''history_quarters'' (int (length span))))))
      | _ \<Rightarrow> Inr ())"

definition require_day :: "in_force \<Rightarrow> ent_context \<Rightarrow> moment \<Rightarrow> date option \<Rightarrow> gate_error + unit" where
  "require_day cat ctx at dy =
     (case (dy, ec_insiders_from ctx) of
        (Some d, Some from) \<Rightarrow>
          if d \<ge> from then Inr ()
          else if ec_insider_months ctx = None then Inl (Entitlement_error Assertion_failed)
          else
            (let today = ec_today ctx;
                 needed = (year today - year d) * 12 + month today - month d
             in bind_res (months_before today needed) (\<lambda>b.
                  Inl (refused cat ctx at ''insider_months'' (if b > d then needed + 1 else needed))))
      | _ \<Rightarrow> Inr ())"

definition require_room :: "in_force \<Rightarrow> ent_context \<Rightarrow> moment \<Rightarrow> string \<Rightarrow> int \<Rightarrow> gate_error + unit" where
  "require_room cat ctx at key saved =
     bind_res (lift_ent (limit cat (ec_viewer ctx) key at at)) (\<lambda>allowed.
       case allowed of None \<Rightarrow> Inr ()
       | Some n \<Rightarrow> if saved < n then Inr () else Inl (refused cat ctx at key (saved + 1)))"

definition require_flag :: "in_force \<Rightarrow> ent_context \<Rightarrow> moment \<Rightarrow> string \<Rightarrow> gate_error + unit" where
  "require_flag cat ctx at key =
     bind_res (lift_ent (can cat (ec_viewer ctx) key at at)) (\<lambda>on.
       if on then Inr ()
       else bind_res (lift_ent (enabling_plan cat key)) (\<lambda>plan. Inl (Plan_limit key 0 1 plan)))"

section \<open>Windows of quarters\<close>

lemma current_quarter_index:
  assumes "valid_date t" and "current_quarter t = Inr c"
  obtains k where "c = quarter_of_index k" "index_ok k" "k + 1 \<le> 39999"
proof -
  define k where "k = year t * 4 + (month t - 1) div 3"
  note qd = quarter_of_day[OF assms(1), folded k_def]
  have "[k - 1..k] = [k - 1, k]" by (simp add: upto_rec1)
  then have "current_quarter t = bind_res (from_index (k - 1)) (\<lambda>a. map_res (\<lambda>_. a) (from_index k))"
    using qd(1) by (cases "from_index (k - 1)"; cases "from_index k")
      (simp_all add: current_quarter_def quarters_ending_def period_index_quarter)
  with assms(2) have "bind_res (from_index (k - 1)) (\<lambda>a. map_res (\<lambda>_. a) (from_index k)) = Inr c"
    by (simp only:)
  then have "from_index (k - 1) = Inr c"
    by (cases "from_index (k - 1)"; cases "from_index k") simp_all
  then show thesis
    using that[of "k - 1"] qd(5) by (auto simp: from_index_Inr_iff)
qed

lemma quarters_ending_first:
  assumes "index_ok k" and "1 \<le> n"
  shows "map_res (\<lambda>qs. qs ! 0) (quarters_ending (quarter_of_index k) n) =
    (if index_ok (k - n + 1) then Inr (quarter_of_index (k - n + 1))
     else Inl (Year_out_of_range ((k - n + 1) div 4)))"
proof -
  have up: "[k - n + 1..k] = (k - n + 1) # [k - n + 2..k]"
    using assms(2) upto_rec1[of "k - n + 1" k] by (simp add: add.commute)
  show ?thesis
  proof (cases "index_ok (k - n + 1)")
    case True
    then have "index_ok i" if "i \<in> set [k - n + 1..k]" for i
      using that assms(1) by (auto simp: index_ok_def)
    then have "mapM_res from_index [k - n + 1..k] = Inr (map quarter_of_index [k - n + 1..k])"
      by (rule mapM_from_index)
    then have "quarters_ending (quarter_of_index k) n = Inr (map quarter_of_index [k - n + 1..k])"
      by (simp add: quarters_ending_def period_index_quarter)
    then show ?thesis using True up by simp
  next
    case False
    then show ?thesis
      by (simp add: quarters_ending_def period_index_quarter up from_index_bad)
  qed
qed

text \<open>A window of \<open>n\<close> quarters starts \<open>n - 1\<close> quarters before the one being filed, and for none, after it.\<close>

lemma history_from_index:
  assumes "valid_date t" and "current_quarter t = Inr (quarter_of_index k)" and "index_ok k"
    and "k + 1 \<le> 39999" and "0 \<le> n"
  shows "history_from (Some n) t =
    (if index_ok (k - n + 1) then Inr (Some (quarter_of_index (k - n + 1)))
     else Inl (Period_error (Year_out_of_range ((k - n + 1) div 4))))"
proof (cases "n = 0")
  case True
  have "index_ok (k + 1)" using assms(3,4) by (simp add: index_ok_def)
  then show ?thesis
    using True assms(2) by (simp add: history_from_def lift_period_def next_quarter_end_def
        period_index_quarter from_index_ok)
next
  case False
  have "map_res (\<lambda>qs. Some (qs ! 0)) m = map_res Some (map_res (\<lambda>qs. qs ! 0) m)"
    for m :: "period_error + date list"
    by (cases m) simp_all
  then show ?thesis
    using False assms quarters_ending_first[of k n]
    by (simp add: history_from_def lift_period_def)
qed

lemma length_quarters_between:
  "index_ok i \<Longrightarrow> index_ok j \<Longrightarrow> i \<le> j \<Longrightarrow>
     map_res length (quarters_between (quarter_of_index i) (quarter_of_index j)) = Inr (nat (j - i + 1))"
  using mapM_from_index[of "[i..j]"]
  by (auto simp: quarters_between_def period_index_quarter index_ok_def)

lemma make_context_fields:
  "make_context q m today w = Inr ctx \<Longrightarrow>
     ec_history_quarters ctx = q \<and> ec_insider_months ctx = m \<and> ec_today ctx = today \<and> ec_viewer ctx = w
     \<and> history_from q today = Inr (ec_history_from ctx) \<and> insiders_from m today = Inr (ec_insiders_from ctx)"
  by (auto simp: make_context_def bind_res_Inr_iff)

text \<open>The check on a period, in quarter indices: the request's first quarter against the window's.\<close>

lemma require_period_index:
  assumes "valid_date (ec_today ctx)" and "current_quarter (ec_today ctx) = Inr (quarter_of_index k)"
    and "index_ok k" and "valid_date p" and "1 \<le> quarters"
    and "ec_history_quarters ctx = Some n" and "ec_history_from ctx = Some (quarter_of_index (k - n + 1))"
    and "0 \<le> n" and "i = year p * 4 + (month p - 1) div 3 - quarters + 1"
  shows "require_period cat ctx at (Some p) quarters =
    (if \<not> index_ok i then Inl (Period_error (Year_out_of_range (i div 4)))
     else if k - n + 1 \<le> i then Inr ()
     else Inl (refused cat ctx at ''history_quarters'' (k - i + 1)))"
proof -
  define j where "j = year p * 4 + (month p - 1) div 3"
  note qd = quarter_of_day[OF assms(4), folded j_def]
  have okj: "index_ok j" using qd(4,5) by (simp add: index_ok_def)
  have ij: "i = j - quarters + 1" using assms(9) by (simp add: j_def)
  have q: "quarter_end (year p) ((month p - 1) div 3 + 1) = Inr (quarter_of_index j)" by (rule qd(1))
  note e = quarters_ending_first[OF okj assms(5), folded ij]
  show ?thesis
  proof (cases "index_ok i")
    case False
    then have "quarters_ending (quarter_of_index j) quarters = Inl (Year_out_of_range (i div 4))"
      using e by (cases "quarters_ending (quarter_of_index j) quarters") simp_all
    then show ?thesis
      using False q assms(7) by (simp add: require_period_def lift_period_def)
  next
    case True
    then obtain qs where qs: "quarters_ending (quarter_of_index j) quarters = Inr qs" "qs ! 0 = quarter_of_index i"
      using e by (cases "quarters_ending (quarter_of_index j) quarters") simp_all
    show ?thesis
    proof (cases "k - n + 1 \<le> i")
      case True
      then show ?thesis
        using \<open>index_ok i\<close> q qs assms(7)
        by (simp add: require_period_def lift_period_def quarter_of_index_le)
    next
      case False
      then have "i \<le> k" using assms(8) by simp
      then obtain span where "quarters_between (quarter_of_index i) (quarter_of_index k) = Inr span"
        "int (length span) = k - i + 1"
        using length_quarters_between[OF True assms(3)]
        by (cases "quarters_between (quarter_of_index i) (quarter_of_index k)") auto
      then show ?thesis
        using False \<open>index_ok i\<close> q qs assms(2,6,7)
        by (simp add: require_period_def lift_period_def quarter_of_index_le)
    qed
  qed
qed

text \<open>A refused period names exactly the window it needed: with any limit of at least that many
  quarters the same request on the same day is answered, and with any fewer it is refused too. So
  the plan a refusal offers is one that does lift it.\<close>

theorem require_period_needed_exact:
  assumes "valid_date today" and "valid_date p" and "1 \<le> quarters" and "0 \<le> n" and "0 \<le> m"
    and "make_context (Some n) months today w = Inr ctx"
    and "make_context (Some m) months today w = Inr ctx'"
    and "require_period cat ctx at (Some p) quarters = Inl (Plan_limit key allowed needed plan)"
  shows "key = ''history_quarters'' \<and> n < needed \<and>
    (require_period cat ctx' at' (Some p) quarters = Inr () \<longleftrightarrow> needed \<le> m)"
proof -
  note f = make_context_fields[OF assms(6)] make_context_fields[OF assms(7)]
  obtain c where c: "current_quarter today = Inr c"
    using f by (cases "current_quarter today") (auto simp: history_from_def lift_period_def)
  obtain k where k: "c = quarter_of_index k" "index_ok k" "k + 1 \<le> 39999"
    using current_quarter_index[OF assms(1) c] by blast
  note h = history_from_index[OF assms(1) c[unfolded k(1)] k(2,3)]
  have hf: "ec_history_from ctx = Some (quarter_of_index (k - n + 1))"
    "ec_history_from ctx' = Some (quarter_of_index (k - m + 1))"
    using f h[OF assms(4)] h[OF assms(5)] by (auto split: if_splits)
  define i where "i = year p * 4 + (month p - 1) div 3 - quarters + 1"
  have r: "require_period cat ctx at (Some p) quarters =
    (if \<not> index_ok i then Inl (Period_error (Year_out_of_range (i div 4)))
     else if k - n + 1 \<le> i then Inr ()
     else Inl (refused cat ctx at ''history_quarters'' (k - i + 1)))"
    using f c k hf(1) assms by (intro require_period_index) (simp_all add: i_def)
  have r': "require_period cat ctx' at' (Some p) quarters =
    (if \<not> index_ok i then Inl (Period_error (Year_out_of_range (i div 4)))
     else if k - m + 1 \<le> i then Inr ()
     else Inl (refused cat ctx' at' ''history_quarters'' (k - i + 1)))"
    using f c k hf(2) assms by (intro require_period_index) (simp_all add: i_def)
  have "needed = k - i + 1" "key = ''history_quarters''" "index_ok i" "\<not> k - n + 1 \<le> i"
    using assms(8) r by (auto simp: refused_def split: if_splits sum.splits option.splits)
  then show ?thesis using r' by auto
qed

definition sample_catalog :: catalog where
  "sample_catalog = [(''free'', sample_plan ''free'' 0), (''pro'', sample_plan ''pro'' 900)]"

text \<open>A window of three quarters, and of five, on 31 March 2026.\<close>

definition sample_context :: "int \<Rightarrow> date \<Rightarrow> ent_context" where
  "sample_context n lo = \<lparr>ec_history_quarters = Some n, ec_insider_months = None,
     ec_today = Date 2026 3 31, ec_viewer = None, ec_history_from = Some lo, ec_insiders_from = None\<rparr>"

lemma sample_contexts:
  "make_context (Some 3) None (Date 2026 3 31) None = Inr (sample_context 3 (Date 2025 6 30))"
  "make_context (Some 5) None (Date 2026 3 31) None = Inr (sample_context 5 (Date 2024 12 31))"
  by code_simp+

theorem require_period_needed_exact_witness:
  "require_period (Some sample_catalog) (sample_context 5 (Date 2024 12 31)) 0 (Some (Date 2024 11 15)) 1 = Inr ()"
proof -
  have "require_period (Some sample_catalog) (sample_context 3 (Date 2025 6 30)) 0 (Some (Date 2024 11 15)) 1
      = Inl (Plan_limit ''history_quarters'' 3 5 None)"
    by code_simp
  from require_period_needed_exact[OF _ _ _ _ _ sample_contexts this, of 0]
  show ?thesis by (simp add: valid_date_def month_days_def)
qed

section \<open>Windows of months\<close>

definition month_index :: "date \<Rightarrow> int" where
  "month_index d = year d * 12 + month d - 1"

lemma months_before_Inr:
  assumes "months_before d n = Inr e"
  shows "month_index e = month_index d - n" "day e = min (day d) (month_days (year e) (month e))"
    "1 \<le> month e" "month e \<le> 12"
proof -
  let ?k = "month_index d - n"
  from assms have e: "e = Date (?k div 12) (?k mod 12 + 1) (min (day d) (month_days (?k div 12) (?k mod 12 + 1)))"
    by (auto simp: months_before_def month_index_def Let_def split: if_splits)
  then show "month_index e = ?k" using div_mult_mod_eq[of ?k 12] by (simp add: month_index_def)
  show "day e = min (day d) (month_days (year e) (month e))" by (simp add: e)
  show "1 \<le> month e" "month e \<le> 12"
    using pos_mod_bound[of 12 ?k] pos_mod_sign[of 12 ?k] by (auto simp: e)
qed

lemma date_le_month_index:
  assumes "1 \<le> month a" "month a \<le> 12" "1 \<le> month b" "month b \<le> 12"
  shows "a \<le> b \<longleftrightarrow> month_index a < month_index b \<or> (month_index a = month_index b \<and> day a \<le> day b)"
  using assms by (auto simp: less_eq_date_def month_index_def)

lemma valid_month: "valid_date d \<Longrightarrow> 1 \<le> month d \<and> month d \<le> 12"
  by (simp add: valid_date_def)

lemma month_index_inj:
  assumes "month_index a = month_index b" and "1 \<le> month a" "month a \<le> 12" "1 \<le> month b" "month b \<le> 12"
  shows "year a = year b" "month a = month b"
proof -
  have "month a - month b = 12 * (year b - year a)" "- 11 \<le> month a - month b" "month a - month b \<le> 11"
    using assms by (auto simp: month_index_def)
  then have "year b - year a = 0" by presburger
  then show "year a = year b" "month a = month b"
    using assms(1) by (auto simp: month_index_def)
qed

text \<open>The least number of months whose window reaches back to a day.\<close>

definition months_needed :: "date \<Rightarrow> date \<Rightarrow> int" where
  "months_needed today d =
     (let n = month_index today - month_index d
      in if min (day today) (month_days (year d) (month d)) > day d then n + 1 else n)"

lemma months_before_le:
  assumes "valid_date today" and "valid_date d" and "months_before today m = Inr b"
  shows "b \<le> d \<longleftrightarrow> months_needed today d \<le> m"
proof -
  note b = months_before_Inr[OF assms(3)]
  have m: "1 \<le> month d" "month d \<le> 12" using valid_month[OF assms(2)] by auto
  have le: "b \<le> d \<longleftrightarrow> month_index b < month_index d \<or> (month_index b = month_index d \<and> day b \<le> day d)"
    by (rule date_le_month_index[OF b(3,4) m])
  have "day b = min (day today) (month_days (year d) (month d))" if "month_index b = month_index d"
    using month_index_inj[OF that b(3,4) m] b(2) by simp
  then show ?thesis using le b(1) by (auto simp: months_needed_def Let_def)
qed

lemma require_day_needed:
  assumes "valid_date (ec_today ctx)" and "valid_date d"
    and "ec_insider_months ctx = Some n" and "ec_insiders_from ctx = Some lo" and "d < lo"
    and "require_day cat ctx at (Some d) = Inl (Plan_limit key allowed needed plan)"
  shows "key = ''insider_months'' \<and> needed = months_needed (ec_today ctx) d"
proof -
  let ?t = "ec_today ctx"
  define k where "k = month_index ?t - month_index d"
  have k: "(year ?t - year d) * 12 + month ?t - month d = k"
    by (simp add: k_def month_index_def algebra_simps)
  have "bind_res (months_before ?t k) (\<lambda>b.
      Inl (refused cat ctx at ''insider_months'' (if b > d then k + 1 else k)) :: gate_error + unit)
    = Inl (Plan_limit key allowed needed plan)"
  proof -
    have "\<not> lo \<le> d" using assms(5) by simp
    with assms(3,4,6) show ?thesis
      unfolding require_day_def Let_def prod.case option.case k by (simp add: if_False)
  qed
  then obtain b where b: "months_before ?t k = Inr b"
    and r: "refused cat ctx at ''insider_months'' (if b > d then k + 1 else k) = Plan_limit key allowed needed plan"
    by (cases "months_before ?t k") (auto simp: months_before_def Let_def split: if_splits)
  have "b \<le> d \<longleftrightarrow> months_needed ?t d \<le> k" by (rule months_before_le[OF assms(1,2) b])
  then have "(if b > d then k + 1 else k) = months_needed ?t d"
    by (auto simp: months_needed_def Let_def k_def not_le split: if_splits)
  with r show ?thesis
    by (auto simp: refused_def split: sum.splits option.splits)
qed

text \<open>A refused trade day names exactly the window it needed: with any limit of a month or more,
  the same day is answered when the limit is at least the months named and refused when it is less.\<close>

theorem require_day_needed_exact:
  assumes "valid_date today" and "valid_date d" and "1 \<le> m"
    and "make_context quarters (Some n) today w = Inr ctx"
    and "make_context quarters (Some m) today w = Inr ctx'"
    and "require_day cat ctx at (Some d) = Inl (Plan_limit key allowed needed plan)"
  shows "key = ''insider_months'' \<and> (require_day cat ctx' at' (Some d) = Inr () \<longleftrightarrow> needed \<le> m)"
proof -
  note f = make_context_fields[OF assms(4)] make_context_fields[OF assms(5)]
  obtain lo where i: "ec_insiders_from ctx = Some lo" "d < lo"
    using assms(6) by (auto simp: require_day_def split: option.splits if_splits)
  obtain b where b: "months_before today m = Inr b" "ec_insiders_from ctx' = Some b"
    using f assms(3) by (auto simp: insiders_from_def map_res_Inr_iff)
  have n: "key = ''insider_months'' \<and> needed = months_needed today d"
    using require_day_needed[of ctx d n lo cat at key allowed needed plan] f i assms(1,2,6) by simp
  have "require_day cat ctx' at' (Some d) \<noteq> Inr ()" if "\<not> b \<le> d"
    using that b(2) by (auto simp: require_day_def Let_def bind_res_Inr_iff)
  moreover have "require_day cat ctx' at' (Some d) = Inr ()" if "b \<le> d"
    using that b(2) by (simp add: require_day_def)
  ultimately show ?thesis
    using n months_before_le[OF assms(1,2) b(1)] by auto
qed

definition sample_months :: "int \<Rightarrow> date \<Rightarrow> ent_context" where
  "sample_months n lo = \<lparr>ec_history_quarters = None, ec_insider_months = Some n,
     ec_today = Date 2026 8 31, ec_viewer = None, ec_history_from = None, ec_insiders_from = Some lo\<rparr>"

lemma sample_months_contexts:
  "make_context None (Some 3) (Date 2026 8 31) None = Inr (sample_months 3 (Date 2026 5 31))"
  "make_context None (Some 6) (Date 2026 8 31) None = Inr (sample_months 6 (Date 2026 2 28))"
  by code_simp+

theorem require_day_needed_exact_witness:
  "require_day (Some sample_catalog) (sample_months 6 (Date 2026 2 28)) 0 (Some (Date 2026 3 1)) = Inr ()"
proof -
  have "require_day (Some sample_catalog) (sample_months 3 (Date 2026 5 31)) 0 (Some (Date 2026 3 1))
      = Inl (Plan_limit ''insider_months'' 3 6 None)"
    by code_simp
  from require_day_needed_exact[OF _ _ _ sample_months_contexts this, of 0]
  show ?thesis by (simp add: valid_date_def month_days_def)
qed

text \<open>With a window of no months the message goes wrong for one day: asking for today, which a
  plan of no months refuses, is said to need no months, so the offer is a plan that reaches zero,
  such as one that refuses the same day.\<close>

theorem require_day_zero_window:
  assumes "valid_date today" and "make_context quarters (Some 0) today w = Inr ctx"
    and "limit cat w ''insider_months'' at at = Inr (Some 0)"
    and "lifting_plan cat ''insider_months'' 0 = Inr plan"
  shows "require_day cat ctx at (Some today) = Inl (Plan_limit ''insider_months'' 0 0 plan)"
proof -
  note f = make_context_fields[OF assms(2)]
  have i: "ec_insiders_from ctx = Some (next_day today)"
    using f by (auto simp: insiders_from_def add_days_def Let_def split: option.splits if_splits)
  have lt: "\<not> next_day today \<le> today" using next_day_greater[OF assms(1)] by simp
  have k: "(year today * 12 + month today - 1) div 12 = year today"
    "(year today * 12 + month today - 1) mod 12 = month today - 1"
    using valid_month[OF assms(1)] by presburger+
  have b: "months_before today 0 = Inr today"
    using assms(1) k by (cases today) (simp add: months_before_def Let_def valid_date_def)
  have fs: "ec_insider_months ctx = Some 0" "ec_today ctx = today" "ec_viewer ctx = w" using f by blast+
  show ?thesis
    unfolding require_day_def i fs refused_def using lt b assms(3,4) by simp
qed

definition zero_catalog :: catalog where
  "zero_catalog = [(''free'', (sample_plan ''free'' 0)\<lparr>pt_values := dict_put ''insider_months'' (Num 0) sample_values\<rparr>),
     (''pro'', (sample_plan ''pro'' 900)\<lparr>pt_values := dict_put ''insider_months'' (Num 0) sample_values\<rparr>)]"

theorem require_day_zero_window_witness:
  "\<exists>ctx plan. make_context None (Some 0) (Date 2026 8 31) None = Inr ctx \<and>
     require_day (Some zero_catalog) ctx 0 (Some (Date 2026 8 31)) = Inl (Plan_limit ''insider_months'' 0 0 (Some plan))
     \<and> map_of (pt_values plan) ''insider_months'' = Some (Num 0)"
proof -
  let ?p = "(sample_plan ''pro'' 900)\<lparr>pt_values := dict_put ''insider_months'' (Num 0) sample_values\<rparr>"
  have c: "make_context None (Some 0) (Date 2026 8 31) None = Inr (sample_months 0 (Date 2026 9 1))"
    by code_simp
  have l: "limit (Some zero_catalog) None ''insider_months'' 0 0 = Inr (Some 0)" by code_simp
  have o: "lifting_plan (Some zero_catalog) ''insider_months'' 0 = Inr (Some ?p)" by code_simp
  have v: "map_of (pt_values ?p) ''insider_months'' = Some (Num 0)" by simp
  show ?thesis
    using require_day_zero_window[OF _ c l o] c v by (auto simp: valid_date_def month_days_def)
qed

text \<open>Room for one more: \<open>require_room\<close> refuses a save exactly when as many are saved as the plan
  allows, names one more than are saved, and a viewer whose limit is at least that is let in.\<close>

theorem require_room_exact:
  assumes "catalog_ok c" and "who_ok (ec_viewer ctx)" and "key \<in> set limit_keys"
  shows "\<exists>allowed. limit (Some c) (ec_viewer ctx) key at at = Inr allowed \<and>
    (case allowed of
       None \<Rightarrow> require_room (Some c) ctx at key saved = Inr ()
     | Some n \<Rightarrow>
         if saved < n then require_room (Some c) ctx at key saved = Inr ()
         else \<exists>plan. lifting_plan (Some c) key (saved + 1) = Inr plan \<and>
           require_room (Some c) ctx at key saved = Inl (Plan_limit key n (saved + 1) plan))"
proof -
  obtain allowed where a: "limit (Some c) (ec_viewer ctx) key at at = Inr allowed"
    using every_key_resolves_limit[OF assms(1,2,3)] by blast
  obtain plan where p: "lifting_plan (Some c) key (saved + 1) = Inr plan"
    using lifting_plan_total[OF assms(1,3)] by blast
  show ?thesis
    using a p by (cases allowed) (auto simp: require_room_def lift_ent_def refused_def)
qed

theorem require_room_exact_witness:
  "\<exists>plan. require_room (Some sample_catalog) (sample_months 3 (Date 2026 5 31)) 0 ''alert_rules'' 3
     = Inl (Plan_limit ''alert_rules'' 3 4 plan)"
proof -
  have w: "who_ok (ec_viewer (sample_months 3 (Date 2026 5 31)))" by (simp add: who_ok_def sample_months_def)
  have l: "limit (Some sample_catalog) (ec_viewer (sample_months 3 (Date 2026 5 31))) ''alert_rules'' 0 0 = Inr (Some 3)"
    by code_simp
  show ?thesis
    using require_room_exact[OF sample_catalog_ok[folded sample_catalog_def] w, of "''alert_rules''" 0 3] l
    by (auto simp: limit_keys_def)
qed

end
