(* ===== verification/Text.thy ===== *)
theory Text
  imports Prelude Complex_Main
begin

text \<open>
  What several modules read and write as text: whole numbers as \<open>str\<close> writes and \<open>int\<close> reads them,
  \<open>str.split\<close> and \<open>str.partition\<close> at one character, and the values \<open>json.loads\<close> gives.
\<close>

section \<open>Splitting\<close>

text \<open>\<open>str.split(sep)\<close>.\<close>

fun split_on :: "char \<Rightarrow> string \<Rightarrow> string list" where
  "split_on sep [] = [[]]"
| "split_on sep (c # cs) =
     (if c = sep then [] # split_on sep cs
      else (case split_on sep cs of [] \<Rightarrow> [[c]] | w # ws \<Rightarrow> (c # w) # ws))"

text \<open>\<open>str.partition(sep)\<close>: the text before the first separator and the text after it.\<close>

fun partition_at :: "char \<Rightarrow> string \<Rightarrow> string \<times> string" where
  "partition_at sep [] = ([], [])"
| "partition_at sep (c # cs) =
     (if c = sep then ([], cs) else (case partition_at sep cs of (a, b) \<Rightarrow> (c # a, b)))"

lemma split_on_free: "sep \<notin> set s \<Longrightarrow> split_on sep s = [s]"
  by (induction s) auto

lemma split_on_append: "sep \<notin> set s \<Longrightarrow> split_on sep (s @ sep # r) = s # split_on sep r"
  by (induction s) auto

lemma partition_at_append: "sep \<notin> set s \<Longrightarrow> partition_at sep (s @ sep # r) = (s, r)"
  by (induction s) auto

section \<open>Whole numbers\<close>

definition show_int :: "int \<Rightarrow> string" where
  "show_int n = (if n < 0 then CHR ''-'' # show_nat (nat (- n)) else show_nat (nat n))"

text \<open>
  \<open>int(text)\<close>: blanks around it, a sign, and decimal digits with single underscores between them.
  \<open>None\<close> is \<open>ValueError\<close>. The interpreter's limit on the number of digits is not modelled.
\<close>

definition int_space :: "char \<Rightarrow> bool" where
  "int_space c = (let k = code c in (9 \<le> k \<and> k \<le> 13) \<or> k = 32 \<or> k = 133 \<or> k = 160)"

fun ungroup :: "string \<Rightarrow> string option" where
  "ungroup [] = None"
| "ungroup [c] = (if is_decimal c then Some [c] else None)"
| "ungroup (c # d # cs) =
     (if is_decimal c then map_option ((#) c) (if d = CHR ''_'' then ungroup cs else ungroup (d # cs))
      else None)"

definition read_grouped :: "string \<Rightarrow> int option" where
  "read_grouped s = map_option int (Option.bind (ungroup s) (read_digits 0))"

definition py_int :: "string \<Rightarrow> int option" where
  "py_int s =
     (case rev (dropWhile int_space (rev (dropWhile int_space s))) of
        [] \<Rightarrow> None
      | c # cs \<Rightarrow>
          if c = CHR ''-'' then map_option uminus (read_grouped cs)
          else if c = CHR ''+'' then read_grouped cs
          else read_grouped (c # cs))"

lemma read_show_nat [simp]: "read_digits 0 (show_nat n) = Some n"
proof (induction n rule: show_nat.induct)
  case (1 n)
  then show ?case by (subst show_nat.simps) (auto simp: read_digits_append)
qed

lemma show_nat_decimal: "c \<in> set (show_nat n) \<Longrightarrow> \<exists>d < 10. c = digit_char d"
proof (induction n rule: show_nat.induct)
  case (1 n)
  show ?case using 1 by (subst (asm) (2) show_nat.simps) (auto split: if_splits intro: exI[of _ "n mod 10"])
qed

lemma show_nat_nonempty [simp]: "show_nat n \<noteq> []"
  by (subst show_nat.simps) auto

lemma digit_char_plain:
  assumes "d < 10"
  shows "digit_char d \<noteq> CHR ''_''" "digit_char d \<noteq> CHR ''+''" "digit_char d \<noteq> CHR ''-''"
    "digit_char d \<noteq> CHR '';''" "digit_char d \<noteq> CHR ''=''" "\<not> int_space (digit_char d)" "\<not> is_space (digit_char d)"
proof -
  have v: "digit_val (digit_char d) = Some d" using assms by simp
  have "c \<noteq> digit_char d" if "digit_val c = None" for c using that v by auto
  from this[of "CHR ''_''"] this[of "CHR ''+''"] this[of "CHR ''-''"] this[of "CHR '';''"] this[of "CHR ''=''"]
  show "digit_char d \<noteq> CHR ''_''" "digit_char d \<noteq> CHR ''+''" "digit_char d \<noteq> CHR ''-''"
    "digit_char d \<noteq> CHR '';''" "digit_char d \<noteq> CHR ''=''"
    by (auto simp: digit_val_def)
  show "\<not> int_space (digit_char d)" "\<not> is_space (digit_char d)"
    using v by (auto simp: int_space_def is_space_def digit_val_def Let_def split: if_splits)
qed

lemma ungroup_digits: "s \<noteq> [] \<Longrightarrow> \<forall>c \<in> set s. \<exists>d < 10. c = digit_char d \<Longrightarrow> ungroup s = Some s"
  by (induction s rule: ungroup.induct) (auto simp: digit_char_plain)

lemma ungroup_show_nat: "ungroup (show_nat n) = Some (show_nat n)"
  by (rule ungroup_digits) (auto dest: show_nat_decimal)

lemma read_grouped_show_nat: "read_grouped (show_nat n) = Some (int n)"
  by (simp add: read_grouped_def ungroup_show_nat)

lemma dropWhile_ends:
  assumes "s \<noteq> []" "\<not> P (hd s)" "\<not> P (last s)"
  shows "rev (dropWhile P (rev (dropWhile P s))) = s"
proof -
  have "dropWhile P s = s" "dropWhile P (rev s) = rev s"
    using assms by (simp_all add: dropWhile_eq_self_iff hd_rev)
  then show ?thesis by simp
qed

lemma show_int_chars: "c \<in> set (show_int n) \<Longrightarrow> c = CHR ''-'' \<or> (\<exists>d < 10. c = digit_char d)"
  by (auto simp: show_int_def dest: show_nat_decimal split: if_splits)

lemma show_int_nonempty [simp]: "show_int n \<noteq> []"
  by (simp add: show_int_def)

lemma show_int_free:
  "CHR '':'' \<notin> set (show_int n)" "CHR '';'' \<notin> set (show_int n)" "CHR ''='' \<notin> set (show_int n)"
  by (rule notI, drule show_int_chars, elim disjE exE conjE,
      simp_all add: digit_char_plain(4,5)[symmetric] digit_char_neq(4)[symmetric])+

lemma show_int_no_space:
  assumes "c \<in> set (show_int n)"
  shows "\<not> int_space c" "\<not> is_space c"
  using show_int_chars[OF assms] digit_char_plain(6,7) by (auto simp: int_space_def is_space_def)

lemma read_show_int [simp]: "py_int (show_int n) = Some n"
proof -
  have s: "rev (dropWhile int_space (rev (dropWhile int_space (show_int n)))) = show_int n"
    using show_int_no_space(1)[of "hd (show_int n)" n] show_int_no_space(1)[of "last (show_int n)" n]
    by (intro dropWhile_ends) simp_all
  obtain c cs where c: "show_nat (nat n) = c # cs" by (cases "show_nat (nat n)") auto
  then obtain d where "d < 10" "c = digit_char d" using show_nat_decimal[of c "nat n"] by auto
  then have "c \<noteq> CHR ''-''" "c \<noteq> CHR ''+''" using digit_char_plain by auto
  then show ?thesis
    using s c read_grouped_show_nat[of "nat n"] read_grouped_show_nat[of "nat (- n)"]
    by (auto simp: py_int_def show_int_def)
qed

section \<open>JSON\<close>

text \<open>A value as \<open>json.loads\<close> gives it, an object's members in their order.\<close>

datatype json =
  JNull | JBool bool | JInt int | JFloat rat | JStr string | JList "json list" | JObj "(string \<times> json) list"

text \<open>What reading a value of another shape raises: \<open>AttributeError\<close>, \<open>TypeError\<close>, \<open>KeyError\<close>, \<open>ValueError\<close>.\<close>

datatype json_error = Not_a_mapping | Not_iterable | No_member string | Not_a_timestamp

fun truthy :: "json \<Rightarrow> bool" where
  "truthy JNull = False"
| "truthy (JBool b) = b"
| "truthy (JInt n) = (n \<noteq> 0)"
| "truthy (JFloat x) = (x \<noteq> 0)"
| "truthy (JStr s) = (s \<noteq> [])"
| "truthy (JList xs) = (xs \<noteq> [])"
| "truthy (JObj ms) = (ms \<noteq> [])"

text \<open>\<open>d.get(k)\<close> of a dict, and of any value.\<close>

definition dict_get :: "(string \<times> json) list \<Rightarrow> string \<Rightarrow> json" where
  "dict_get ms k = (case map_of ms k of None \<Rightarrow> JNull | Some v \<Rightarrow> v)"

definition j_get :: "json \<Rightarrow> string \<Rightarrow> json_error + json" where
  "j_get j k = (case j of JObj ms \<Rightarrow> Inr (dict_get ms k) | _ \<Rightarrow> Inl Not_a_mapping)"

text \<open>\<open>value or {}\<close>.\<close>

definition or_empty :: "json \<Rightarrow> json" where
  "or_empty j = (if truthy j then j else JObj [])"

text \<open>\<open>for item in value or []\<close>: the items, those of a text or of a dict being texts.\<close>

definition items_of :: "json \<Rightarrow> json_error + json list" where
  "items_of j =
     (if \<not> truthy j then Inr []
      else (case j of
          JList xs \<Rightarrow> Inr xs
        | JStr s \<Rightarrow> Inr (map (\<lambda>c. JStr [c]) s)
        | JObj ms \<Rightarrow> Inr (map (\<lambda>m. JStr (fst m)) ms)
        | _ \<Rightarrow> Inl Not_iterable))"

text \<open>A value that is a text, and an optional text as a value.\<close>

definition as_text :: "json \<Rightarrow> string option" where
  "as_text j = (case j of JStr s \<Rightarrow> Some s | _ \<Rightarrow> None)"

definition of_text :: "string option \<Rightarrow> json" where
  "of_text s = (case s of None \<Rightarrow> JNull | Some t \<Rightarrow> JStr t)"

lemma as_of_text [simp]: "as_text (of_text s) = s"
  by (cases s) (simp_all add: as_text_def of_text_def)

end
