(* ===== verification/Usage.thy ===== *)
theory Usage
  imports Calendar Text Complex_Main
begin

text \<open>
  \<open>app/accounts/usage.py\<close>: monthly quotas. The quota month, the meter's Lua script and the
  request around it, the claim of the 80\% email, the write of counts to Postgres and the flush.
  The flush and the request are given twice from the same pieces: composed, as one process runs
  them, and as the atomic steps of a relation in which any processes interleave.

  An aware moment is given as its UTC wall clock. A count of Redis is under its name, the text
  \<open>counter_key\<close> makes; a row of Postgres is under its user, key and month. The keys' expiry times
  are not kept: a counter may vanish from Redis at any time, by expiry or by loss. Counts are
  \<open>nat\<close>: a row's is checked never to be negative, and Redis's starts from it and only grows.
\<close>

section \<open>The quota month\<close>

definition warn_at_num :: int where "warn_at_num = 4"
definition warn_at_den :: int where "warn_at_den = 5"

text \<open>\<open>_on\<close>; \<open>None\<close> is the \<open>ValueError\<close> of a year the calendar does not have.\<close>

definition on_day :: "int \<Rightarrow> int \<Rightarrow> int \<Rightarrow> date option" where
  "on_day y m d = (if 1 \<le> y \<and> y \<le> 9999 then Some (Date y m (min d (month_days y m))) else None)"

definition months_after :: "date \<Rightarrow> int \<Rightarrow> int \<Rightarrow> date option" where
  "months_after d months anniversary =
     (let k = year d * 12 + month d - 1 + months in on_day (k div 12) (k mod 12 + 1) anniversary)"

record quota_month =
  qp_start :: date
  qp_end :: date

definition moment_of :: "datetime \<Rightarrow> moment" where
  "moment_of t = midnight_utc (dt_date t) + dt_time t"

definition resets_at :: "quota_month \<Rightarrow> datetime" where
  "resets_at p = DateTime (qp_end p) 0"

text \<open>\<open>math.ceil\<close> of a duration in seconds.\<close>

definition ceil_seconds :: "int \<Rightarrow> int" where
  "ceil_seconds us = - ((- us) div second_us)"

definition seconds_left :: "quota_month \<Rightarrow> datetime \<Rightarrow> int" where
  "seconds_left p now = max 1 (ceil_seconds (moment_of (resets_at p) - moment_of now))"

definition quota_period :: "datetime \<Rightarrow> datetime \<Rightarrow> quota_month option" where
  "quota_period anchor now =
     (let anniversary = day (dt_date anchor); today = dt_date now in
      Option.bind (on_day (year today) (month today) anniversary) (\<lambda>first.
      Option.bind (if first > today then months_after first (- 1) anniversary else Some first) (\<lambda>start.
      map_option (\<lambda>e. \<lparr>qp_start = start, qp_end = e\<rparr>) (months_after start 1 anniversary))))"

text \<open>
  \<open>max(1, math.ceil(limit * 0.8))\<close>. The product is a float; for any limit below \<open>2 ^ 50\<close> it lies
  on the same side of every whole number as the exact product does, so the ceiling is the same.
\<close>

definition warn_threshold :: "int option \<Rightarrow> int option" where
  "warn_threshold l =
     (case l of None \<Rightarrow> None
      | Some n \<Rightarrow> if n = 0 then None else Some (max 1 (- ((- (n * warn_at_num)) div warn_at_den))))"

section \<open>Names of counters\<close>

type_synonym counter_id = "int \<times> string \<times> date"

definition counter_prefix :: string where "counter_prefix = ''ww:usage:''"

definition counter_key :: "counter_id \<Rightarrow> string" where
  "counter_key c = (case c of (u, key, start) \<Rightarrow>
     counter_prefix @ show_int u @ '':'' @ key @ '':'' @ isoformat start)"

definition removeprefix :: "string \<Rightarrow> string \<Rightarrow> string" where
  "removeprefix p s = (if take (length p) s = p then drop (length p) s else s)"

text \<open>
  Of a name \<open>counter_key\<close> did not make, the code would also read the other ISO shapes of a day, which
  the model refuses; only names \<open>counter_key\<close> made enter the changed set.
\<close>

definition parse_counter :: "string \<Rightarrow> counter_id option" where
  "parse_counter name =
     (case split_on CHR '':'' (removeprefix counter_prefix name) of
        [u, key, start] \<Rightarrow>
          (case (py_int u, date_fromisoformat start) of
             (Some n, Some d) \<Rightarrow> Some (n, key, d)
           | _ \<Rightarrow> None)
      | _ \<Rightarrow> None)"

section \<open>Redis and Postgres\<close>

record usage_row =
  ur_count :: nat
  ur_warned :: bool

text \<open>Where one flush has got to, between its calls.\<close>

datatype phase =
    Idle
  | Locked
  | Staged
  | Named "string list"
  | Counted "(counter_id \<times> nat) list"
  | Written
  | Cleared

record usage_state =
  us_counters :: "string \<rightharpoonup> nat"
  us_warned :: "string set"
  us_dirty :: "string set"
  us_flushing :: "string set"
  us_lock :: "nat option"
  us_rows :: "counter_id \<rightharpoonup> usage_row"
  us_users :: "int set"
  us_phase :: "nat \<Rightarrow> phase"

definition stored_count :: "usage_state \<Rightarrow> counter_id \<Rightarrow> nat" where
  "stored_count s c = (case us_rows s c of None \<Rightarrow> 0 | Some r \<Rightarrow> ur_count r)"

section \<open>The meter\<close>

text \<open>\<open>_SPEND\<close>, which Redis runs atomically: the status, the count after the request, and whether to warn.\<close>

definition spend_script :: "usage_state \<Rightarrow> string \<Rightarrow> int \<Rightarrow> int \<Rightarrow> usage_state \<times> int \<times> nat \<times> int" where
  "spend_script s name lmt threshold =
     (case us_counters s name of
        None \<Rightarrow> (s, - 1, 0, 0)
      | Some count \<Rightarrow>
          if lmt \<ge> 0 \<and> int count \<ge> lmt then (s, 0, count, 0)
          else
            (let count' = count + 1;
                 s' = s\<lparr>us_counters := (us_counters s)(name \<mapsto> count'), us_dirty := insert name (us_dirty s)\<rparr>
             in if threshold \<ge> 0 \<and> int count' \<ge> threshold \<and> name \<notin> us_warned s
                then (s'\<lparr>us_warned := insert name (us_warned s)\<rparr>, 1, count', 1)
                else (s', 1, count', 0)))"

definition minus_one_if_none :: "int option \<Rightarrow> int" where
  "minus_one_if_none l = (case l of None \<Rightarrow> - 1 | Some n \<Rightarrow> n)"

text \<open>\<open>SET counter seed NX\<close>.\<close>

definition seed_counter :: "usage_state \<Rightarrow> string \<Rightarrow> nat \<Rightarrow> usage_state" where
  "seed_counter s name seed =
     (if us_counters s name = None then s\<lparr>us_counters := (us_counters s)(name \<mapsto> seed)\<rparr> else s)"

record spent =
  sp_admitted :: bool
  sp_used :: nat
  sp_limit :: "int option"
  sp_warn :: bool

definition sp_remaining :: "spent \<Rightarrow> int option" where
  "sp_remaining p = (case sp_limit p of None \<Rightarrow> None | Some l \<Rightarrow> Some (max 0 (l - int (sp_used p))))"

definition meter_spend :: "usage_state \<Rightarrow> counter_id \<Rightarrow> int option \<Rightarrow> usage_state \<times> spent" where
  "meter_spend s c l =
     (let name = counter_key c; lmt = minus_one_if_none l; th = minus_one_if_none (warn_threshold l);
          (s1, status, used, warn) = spend_script s name lmt th;
          (s2, status2, used2, warn2) =
            (if status = - 1 then spend_script (seed_counter s1 name (stored_count s1 c)) name lmt th
             else (s1, status, used, warn))
      in (s2, \<lparr>sp_admitted = (status2 = 1), sp_used = used2, sp_limit = l, sp_warn = (warn2 = 1)\<rparr>))"

definition unwarn :: "usage_state \<Rightarrow> counter_id \<Rightarrow> usage_state" where
  "unwarn s c = s\<lparr>us_warned := us_warned s - {counter_key c}\<rparr>"

text \<open>\<open>used\<close>: what has been spent, from Redis while it can be reached, else from the last flush.\<close>

definition meter_used :: "usage_state \<Rightarrow> bool \<Rightarrow> int \<Rightarrow> string list \<Rightarrow> date \<Rightarrow> (string \<times> nat) list" where
  "meter_used s reachable u keys start =
     map (\<lambda>k. (k, case (if reachable then us_counters s (counter_key (u, k, start)) else None) of
                     None \<Rightarrow> stored_count s (u, k, start) | Some n \<Rightarrow> n)) keys"

section \<open>The 80\% email\<close>

text \<open>\<open>claim_warning\<close>: one conditional upsert; true for the claim that wrote.\<close>

definition claim_warning :: "usage_state \<Rightarrow> counter_id \<Rightarrow> nat \<Rightarrow> usage_state \<times> bool" where
  "claim_warning s c count =
     (case us_rows s c of
        None \<Rightarrow> (s\<lparr>us_rows := (us_rows s)(c \<mapsto> \<lparr>ur_count = count, ur_warned = True\<rparr>)\<rparr>, True)
      | Some r \<Rightarrow>
          if ur_warned r then (s, False)
          else (s\<lparr>us_rows := (us_rows s)(c \<mapsto> \<lparr>ur_count = max (ur_count r) count, ur_warned = True\<rparr>)\<rparr>, True))"

section \<open>The flush\<close>

text \<open>\<open>_WRITE\<close> for one counted row: only users that exist, keeping the larger count.\<close>

definition write_count :: "usage_state \<Rightarrow> counter_id \<times> nat \<Rightarrow> usage_state" where
  "write_count s cn =
     (case cn of (c, n) \<Rightarrow>
        if fst c \<in> us_users s then
          (case us_rows s c of
             None \<Rightarrow> s\<lparr>us_rows := (us_rows s)(c \<mapsto> \<lparr>ur_count = n, ur_warned = False\<rparr>)\<rparr>
           | Some r \<Rightarrow>
               if ur_count r < n then s\<lparr>us_rows := (us_rows s)(c \<mapsto> r\<lparr>ur_count := n\<rparr>)\<rparr> else s)
        else s)"

definition write_counts :: "usage_state \<Rightarrow> (counter_id \<times> nat) list \<Rightarrow> usage_state" where
  "write_counts s counts = foldl write_count s counts"

definition flush_lock :: "nat \<Rightarrow> usage_state \<Rightarrow> usage_state" where
  "flush_lock t s = s\<lparr>us_lock := Some t\<rparr>"

text \<open>The pipeline: the changed set is moved aside, in one transaction.\<close>

definition flush_stage :: "usage_state \<Rightarrow> usage_state" where
  "flush_stage s = s\<lparr>us_flushing := us_flushing s \<union> us_dirty s, us_dirty := {}\<rparr>"

definition flush_counts :: "usage_state \<Rightarrow> string list \<Rightarrow> (counter_id \<times> nat) list" where
  "flush_counts s names =
     List.map_filter (\<lambda>name. case (parse_counter name, us_counters s name) of
        (Some c, Some n) \<Rightarrow> Some (c, n) | _ \<Rightarrow> None) names"

definition flush_clear :: "usage_state \<Rightarrow> usage_state" where
  "flush_clear s = s\<lparr>us_flushing := {}\<rparr>"

text \<open>\<open>_RELEASE\<close>: only while the lock is still this flush's.\<close>

definition flush_release :: "nat \<Rightarrow> usage_state \<Rightarrow> usage_state" where
  "flush_release t s = (if us_lock s = Some t then s\<lparr>us_lock := None\<rparr> else s)"

text \<open>\<open>sorted(members)\<close>: the set's members, each once.\<close>

definition sorted_names :: "string set \<Rightarrow> string list" where
  "sorted_names = sorted_list_of_set"

definition flush :: "nat \<Rightarrow> usage_state \<Rightarrow> usage_state \<times> int" where
  "flush t s =
     (if us_lock s \<noteq> None then (s, 0)
      else
        (let s1 = flush_stage (flush_lock t s);
             counts = flush_counts s1 (sorted_names (us_flushing s1));
             s2 = (if counts \<noteq> [] then write_counts s1 counts else s1)
         in (flush_release t (flush_clear s2), int (length counts))))"

section \<open>Any processes, interleaved\<close>

datatype label =
    Spend string "int option" bool
  | Claim counter_id bool
  | Vanish string
  | Other

text \<open>
  One atomic call of one process. A seed is what \<open>stored_count\<close> read some time before; the stored
  count of an account that exists never goes down, so it is at most what is stored now. A claim
  needs the account (its row references it). An account may be erased at any time, with its rows.
  A flush may fail at any point, and releases its lock, or die there, and does not: the lock of a
  dead flush runs out. \<open>expire_lock\<close>, the lock's 60 seconds running out whoever holds it, is
  apart: a flush that takes less never meets it.
\<close>

definition expire_lock :: "usage_state \<Rightarrow> usage_state" where
  "expire_lock s = s\<lparr>us_lock := None\<rparr>"

definition erase_user :: "int \<Rightarrow> usage_state \<Rightarrow> usage_state" where
  "erase_user u s = s\<lparr>us_users := us_users s - {u}, us_rows := (\<lambda>c. if fst c = u then None else us_rows s c)\<rparr>"

definition at_phase :: "nat \<Rightarrow> phase \<Rightarrow> usage_state \<Rightarrow> usage_state" where
  "at_phase t p s = s\<lparr>us_phase := (us_phase s)(t := p)\<rparr>"

inductive usage_step :: "usage_state \<Rightarrow> label \<Rightarrow> usage_state \<Rightarrow> bool" where
  step_spend: "spend_script s name (minus_one_if_none l) (minus_one_if_none (warn_threshold l)) = (s', status, used, warn)
    \<Longrightarrow> usage_step s (Spend name l (status = 1)) s'"
| step_seed: "parse_counter name = Some c \<Longrightarrow> n \<le> stored_count s c \<or> fst c \<notin> us_users s
    \<Longrightarrow> usage_step s Other (seed_counter s name n)"
| step_claim: "fst c \<in> us_users s \<Longrightarrow> claim_warning s c n = (s', won) \<Longrightarrow> usage_step s (Claim c won) s'"
| step_unwarn: "usage_step s Other (unwarn s c)"
| step_vanish: "usage_step s (Vanish name) (s\<lparr>us_counters := (us_counters s)(name := None)\<rparr>)"
| step_erase: "usage_step s Other (erase_user u s)"
| step_lock: "us_lock s = None \<Longrightarrow> us_phase s t = Idle \<Longrightarrow> usage_step s Other (at_phase t Locked (flush_lock t s))"
| step_stage: "us_phase s t = Locked \<Longrightarrow> usage_step s Other (at_phase t Staged (flush_stage s))"
| step_members: "us_phase s t = Staged \<Longrightarrow> set names = us_flushing s \<Longrightarrow> usage_step s Other (at_phase t (Named names) s)"
| step_count: "us_phase s t = Named names \<Longrightarrow> usage_step s Other (at_phase t (Counted (flush_counts s names)) s)"
| step_write: "us_phase s t = Counted counts \<Longrightarrow> usage_step s Other (at_phase t Written (write_counts s counts))"
| step_clear: "us_phase s t = Written \<Longrightarrow> usage_step s Other (at_phase t Cleared (flush_clear s))"
| step_release: "us_phase s t \<noteq> Idle \<Longrightarrow> usage_step s Other (at_phase t Idle (flush_release t s))"
| step_die: "us_phase s t \<noteq> Idle \<Longrightarrow> usage_step s Other (at_phase t Idle s)"
| step_expire: "us_lock s = Some t \<Longrightarrow> us_phase s t = Idle \<Longrightarrow> usage_step s Other (expire_lock s)"

inductive usage_run :: "usage_state \<Rightarrow> label list \<Rightarrow> usage_state \<Rightarrow> bool" where
  run_nil: "usage_run s [] s"
| run_step: "usage_step s l s' \<Longrightarrow> usage_run s' ls s'' \<Longrightarrow> usage_run s (l # ls) s''"

inductive_cases usage_stepE: "usage_step s l s'"
inductive_cases vanish_stepE: "usage_step s (Vanish name) s'"
inductive_simps usage_run_nil [simp]: "usage_run s [] s'"
inductive_simps usage_run_cons: "usage_run s (l # ls) s'"

lemma usage_run_append:
  "usage_run s ls s' \<Longrightarrow> usage_run s' ls' s'' \<Longrightarrow> usage_run s (ls @ ls') s''"
  by (induction rule: usage_run.induct) (auto intro: run_step)

section \<open>What the pieces change\<close>

text \<open>The parts of the state one operation leaves alone.\<close>

lemma write_count_fields [simp]:
  "us_counters (write_count s x) = us_counters s" "us_dirty (write_count s x) = us_dirty s"
  "us_flushing (write_count s x) = us_flushing s" "us_lock (write_count s x) = us_lock s"
  "us_phase (write_count s x) = us_phase s" "us_users (write_count s x) = us_users s"
  "us_warned (write_count s x) = us_warned s"
  by (auto simp: write_count_def split: prod.splits option.splits)

lemma write_counts_fields [simp]:
  "us_counters (write_counts s xs) = us_counters s" "us_dirty (write_counts s xs) = us_dirty s"
  "us_flushing (write_counts s xs) = us_flushing s" "us_lock (write_counts s xs) = us_lock s"
  "us_phase (write_counts s xs) = us_phase s" "us_users (write_counts s xs) = us_users s"
  "us_warned (write_counts s xs) = us_warned s"
  by (induction xs arbitrary: s) (auto simp: write_counts_def)

lemma write_count_stored: "stored_count s c \<le> stored_count (write_count s x) c \<or> fst c \<notin> us_users s"
  by (auto simp: write_count_def stored_count_def split: prod.splits option.splits)

lemma at_phase_fields [simp]:
  "us_counters (at_phase t p s) = us_counters s" "us_dirty (at_phase t p s) = us_dirty s"
  "us_flushing (at_phase t p s) = us_flushing s" "us_lock (at_phase t p s) = us_lock s"
  "us_rows (at_phase t p s) = us_rows s" "us_users (at_phase t p s) = us_users s"
  "us_phase (at_phase t p s) = (us_phase s)(t := p)" "stored_count (at_phase t p s) = stored_count s"
  by (auto simp: at_phase_def stored_count_def)


section \<open>No count is lost\<close>

text \<open>A name is \<open>covered\<close> while the row of its counter holds at least what Redis counts.\<close>

definition covered :: "usage_state \<Rightarrow> string \<Rightarrow> bool" where
  "covered s name = (\<forall>c n. parse_counter name = Some c \<longrightarrow> fst c \<in> us_users s \<longrightarrow> us_counters s name = Some n
     \<longrightarrow> n \<le> stored_count s c)"

definition counted_in :: "usage_state \<Rightarrow> (counter_id \<times> nat) list \<Rightarrow> string \<Rightarrow> bool" where
  "counted_in s counts name =
     (\<exists>c n m. parse_counter name = Some c \<and> us_counters s name = Some n \<and> (c, m) \<in> set counts \<and> n \<le> m)"

text \<open>What holds of the names a flush has set aside, by how far it has got.\<close>

definition phase_ok :: "usage_state \<Rightarrow> phase \<Rightarrow> bool" where
  "phase_ok s p =
     (case p of
        Named names \<Rightarrow> set names = us_flushing s
      | Counted counts \<Rightarrow> (\<forall>name\<in>us_flushing s. covered s name \<or> name \<in> us_dirty s \<or> counted_in s counts name)
      | Written \<Rightarrow> (\<forall>name\<in>us_flushing s. covered s name \<or> name \<in> us_dirty s)
      | _ \<Rightarrow> True)"

definition noted :: "usage_state \<Rightarrow> bool" where
  "noted s = (\<forall>name. covered s name \<or> name \<in> us_dirty s \<or> name \<in> us_flushing s)"

definition flush_inv :: "usage_state \<Rightarrow> bool" where
  "flush_inv s = (noted s \<and> (\<forall>t. us_phase s t \<noteq> Idle \<longrightarrow> us_lock s = Some t \<and> phase_ok s (us_phase s t)))"

lemma flush_invI:
  "noted s \<Longrightarrow> (\<And>t. us_phase s t \<noteq> Idle \<Longrightarrow> us_lock s = Some t) \<Longrightarrow> (\<And>t. us_phase s t \<noteq> Idle \<Longrightarrow> phase_ok s (us_phase s t))
    \<Longrightarrow> flush_inv s"
  by (simp add: flush_inv_def)

text \<open>
  A step outside the flush keeps the invariant when it touches neither the lock, the phases nor
  the set aside, and a name it leaves unnoted was covered and stays so.
\<close>

lemma phase_ok_mono:
  assumes ok: "phase_ok s p" and fl: "us_flushing s' = us_flushing s"
    and co: "\<And>name. covered s name \<Longrightarrow> covered s' name \<or> name \<in> us_dirty s'"
    and di: "us_dirty s \<subseteq> us_dirty s'"
    and cn: "\<And>counts name. counted_in s counts name \<Longrightarrow> counted_in s' counts name \<or> covered s' name \<or> name \<in> us_dirty s'"
  shows "phase_ok s' p"
  using ok co di cn fl unfolding phase_ok_def by (cases p) (simp_all, blast+)

lemma flush_inv_mono:
  assumes "flush_inv s" and "us_flushing s' = us_flushing s" "us_lock s' = us_lock s" "us_phase s' = us_phase s"
    and "\<And>name. covered s name \<Longrightarrow> covered s' name \<or> name \<in> us_dirty s'" "us_dirty s \<subseteq> us_dirty s'"
    and "\<And>counts name. counted_in s counts name \<Longrightarrow> counted_in s' counts name \<or> covered s' name \<or> name \<in> us_dirty s'"
  shows "flush_inv s'"
proof (rule flush_invI)
  show "noted s'" using assms unfolding flush_inv_def noted_def by blast
next
  fix t assume "us_phase s' t \<noteq> Idle"
  then show "us_lock s' = Some t" using assms(1,3,4) by (simp add: flush_inv_def)
next
  fix t assume "us_phase s' t \<noteq> Idle"
  then have "phase_ok s (us_phase s t)" using assms(1,4) by (simp add: flush_inv_def)
  then show "phase_ok s' (us_phase s' t)" using phase_ok_mono[OF _ assms(2,5,6,7)] assms(4) by simp
qed

text \<open>
  A step of the flush that holds the lock: every other is idle, so its own phase is all there is
  to show beside \<open>noted\<close>.
\<close>

lemma flush_inv_own:
  assumes "flush_inv s" "us_phase s t \<noteq> Idle" "us_phase s' = (us_phase s)(t := p)"
    and "noted s'" "p \<noteq> Idle \<Longrightarrow> us_lock s' = us_lock s" "p \<noteq> Idle \<Longrightarrow> phase_ok s' p"
  shows "flush_inv s'"
proof -
  have lk: "us_lock s = Some ta" if "us_phase s ta \<noteq> Idle" for ta
    using assms(1) that by (simp add: flush_inv_def)
  have own: "ta = t \<and> p \<noteq> Idle" if "us_phase s' ta \<noteq> Idle" for ta
    using that lk[of ta] lk[OF assms(2)] unfolding assms(3) by (cases "ta = t") simp_all
  show ?thesis
  proof (rule flush_invI)
    fix ta assume i: "us_phase s' ta \<noteq> Idle"
    show "us_lock s' = Some ta" using own[OF i] assms(5) lk[OF assms(2)] by simp
    show "phase_ok s' (us_phase s' ta)" using own[OF i] assms(6) unfolding assms(3) by simp
  qed (fact assms(4))
qed

lemma spend_script_counts:
  assumes "spend_script s name lmt th = (s', status, used, warn)"
  shows "us_flushing s' = us_flushing s" "us_lock s' = us_lock s" "us_phase s' = us_phase s" "us_rows s' = us_rows s"
    "us_users s' = us_users s" "us_dirty s \<subseteq> us_dirty s'"
    "us_counters s' x = us_counters s x \<or> x \<in> us_dirty s'"
  using assms by (auto simp: spend_script_def Let_def split: option.splits if_splits)

lemma covered_cong:
  "us_counters s' name = us_counters s name \<Longrightarrow> us_users s' \<subseteq> us_users s
    \<Longrightarrow> (\<And>c. fst c \<in> us_users s' \<Longrightarrow> stored_count s c \<le> stored_count s' c) \<Longrightarrow> covered s name \<Longrightarrow> covered s' name"
  unfolding covered_def by (metis (no_types, lifting) order_trans subsetD)

lemma counted_in_cong:
  "us_counters s' name = us_counters s name \<Longrightarrow> counted_in s' counts name = counted_in s counts name"
  by (simp add: counted_in_def)

lemma spend_inv:
  assumes "flush_inv s" "spend_script s name lmt th = (s', status, used, warn)"
  shows "flush_inv s'"
proof -
  note f = spend_script_counts[OF assms(2)]
  have st: "stored_count s' = stored_count s" by (simp add: stored_count_def f(4) fun_eq_iff)
  show ?thesis
    by (rule flush_inv_mono[OF assms(1) f(1-3) _ f(6)])
       (use f(5,7) st in \<open>metis covered_cong order_refl\<close>, use f(7) in \<open>metis counted_in_cong\<close>)
qed

lemma seed_counter_covered:
  assumes "parse_counter name = Some c" "n \<le> stored_count s c \<or> fst c \<notin> us_users s"
  shows "covered s x \<Longrightarrow> covered (seed_counter s name n) x"
    "counted_in s counts x \<Longrightarrow> counted_in (seed_counter s name n) counts x"
  using assms by (auto simp: seed_counter_def covered_def counted_in_def stored_count_def)

lemma seed_inv:
  assumes "flush_inv s" "parse_counter name = Some c" "n \<le> stored_count s c \<or> fst c \<notin> us_users s"
  shows "flush_inv (seed_counter s name n)"
  using seed_counter_covered[OF assms(2,3)]
  by (intro flush_inv_mono[OF assms(1)]) (auto simp: seed_counter_def)

lemma claim_inv:
  assumes "flush_inv s" "claim_warning s c n = (s', won)"
  shows "flush_inv s'"
proof -
  have f: "us_flushing s' = us_flushing s" "us_lock s' = us_lock s" "us_phase s' = us_phase s" "us_users s' = us_users s"
    "us_dirty s' = us_dirty s" "us_counters s' = us_counters s" and st: "stored_count s x \<le> stored_count s' x" for x
    using assms(2) by (auto simp: claim_warning_def stored_count_def split: option.splits if_splits)
  show ?thesis
    by (rule flush_inv_mono[OF assms(1) f(1-3)])
       (use f st in \<open>auto intro: covered_cong[of s' _ s] simp: counted_in_cong[of s' _ s]\<close>)
qed

lemma unwarn_inv: "flush_inv s \<Longrightarrow> flush_inv (unwarn s c)"
  by (rule flush_inv_mono) (auto simp: unwarn_def covered_def counted_in_def stored_count_def)

lemma vanish_inv: "flush_inv s \<Longrightarrow> flush_inv (s\<lparr>us_counters := (us_counters s)(name := None)\<rparr>)"
  by (rule flush_inv_mono) (auto simp: covered_def counted_in_def stored_count_def)

lemma erase_inv: "flush_inv s \<Longrightarrow> flush_inv (erase_user u s)"
  by (rule flush_inv_mono) (auto simp: erase_user_def covered_def counted_in_def stored_count_def)

text \<open>The flush's own steps.\<close>

lemma write_counts_stored:
  "fst c \<in> us_users s \<Longrightarrow> stored_count s c \<le> stored_count (write_counts s xs) c"
proof (induction xs arbitrary: s)
  case Nil
  then show ?case by (simp add: write_counts_def)
next
  case (Cons x xs)
  then show ?case using Cons.IH[of "write_count s x"] write_count_stored[of s c x]
    by (simp add: write_counts_def order_trans[of "stored_count s c"])
qed

lemma write_counts_written:
  "(c, m) \<in> set xs \<Longrightarrow> fst c \<in> us_users s \<Longrightarrow> m \<le> stored_count (write_counts s xs) c"
proof (induction xs arbitrary: s)
  case (Cons x xs)
  show ?case
  proof (cases "x = (c, m)")
    case True
    then have "m \<le> stored_count (write_count s x) c" using Cons.prems
      by (auto simp: write_count_def stored_count_def split: option.splits)
    then show ?thesis using write_counts_stored[of c "write_count s x" xs] Cons.prems
      by (force simp: write_counts_def)
  next
    case False
    then show ?thesis using Cons.IH[of "write_count s x"] Cons.prems by (simp add: write_counts_def)
  qed
qed simp

lemma write_counts_covered:
  "covered s name \<Longrightarrow> covered (write_counts s xs) name"
  "counted_in s xs name \<Longrightarrow> covered (write_counts s xs) name"
  using write_counts_stored write_counts_written
  by (auto simp: covered_def counted_in_def intro: order_trans)

lemma flush_counts_mem:
  "(c, n) \<in> set (flush_counts s names) \<longleftrightarrow> (\<exists>name\<in>set names. parse_counter name = Some c \<and> us_counters s name = Some n)"
  by (induction names) (auto simp: flush_counts_def List.map_filter_simps split: option.splits)

lemma covered_at_phase [simp]: "covered (at_phase t p s) = covered s" "noted (at_phase t p s) = noted s"
  "counted_in (at_phase t p s) = counted_in s" "phase_ok (at_phase t p s) = phase_ok s"
  by (auto simp: covered_def noted_def counted_in_def phase_ok_def fun_eq_iff split: phase.splits)

lemma covered_only: "us_counters s' = us_counters s \<Longrightarrow> us_rows s' = us_rows s \<Longrightarrow> us_users s' = us_users s
    \<Longrightarrow> covered s' = covered s"
  by (simp add: covered_def stored_count_def fun_eq_iff)

lemma covered_flush_ops [simp]:
  "covered (flush_lock t s) = covered s" "covered (flush_stage s) = covered s" "covered (flush_clear s) = covered s"
  "covered (flush_release t s) = covered s" "covered (expire_lock s) = covered s"
  by (auto intro!: covered_only simp: flush_lock_def flush_stage_def flush_clear_def flush_release_def expire_lock_def)

lemma flush_invD:
  "flush_inv s \<Longrightarrow> us_phase s t = p \<Longrightarrow> p \<noteq> Idle \<Longrightarrow> noted s \<and> us_lock s = Some t \<and> phase_ok s p"
  by (auto simp: flush_inv_def)

lemma lock_inv: "flush_inv s \<Longrightarrow> us_lock s = None \<Longrightarrow> flush_inv (at_phase t Locked (flush_lock t s))"
  by (auto simp: flush_inv_def noted_def phase_ok_def) (auto simp: flush_lock_def)

lemma stage_inv: "flush_inv s \<Longrightarrow> us_phase s t = Locked \<Longrightarrow> flush_inv (at_phase t Staged (flush_stage s))"
  by (rule flush_inv_own[where s = s and t = t and p = Staged])
     (simp_all add: phase_ok_def noted_def flush_inv_def, simp_all add: flush_stage_def, blast)

lemma members_inv:
  "flush_inv s \<Longrightarrow> us_phase s t = Staged \<Longrightarrow> set names = us_flushing s \<Longrightarrow> flush_inv (at_phase t (Named names) s)"
  by (rule flush_inv_own[where t = t]) (auto simp: flush_inv_def phase_ok_def)

lemma count_inv:
  assumes "flush_inv s" "us_phase s t = Named names"
  shows "flush_inv (at_phase t (Counted (flush_counts s names)) s)"
proof -
  have n: "set names = us_flushing s" using flush_invD[OF assms] by (simp add: phase_ok_def)
  have "covered s x \<or> x \<in> us_dirty s \<or> counted_in s (flush_counts s names) x" if "x \<in> us_flushing s" for x
    using that n unfolding covered_def counted_in_def flush_counts_mem by (metis order_refl)
  then show ?thesis
    using flush_invD[OF assms] by (intro flush_inv_own[OF assms(1), where t = t]) (auto simp: assms phase_ok_def)
qed

lemma write_inv:
  assumes "flush_inv s" "us_phase s t = Counted counts"
  shows "flush_inv (at_phase t Written (write_counts s counts))"
proof -
  have "phase_ok s (Counted counts)" "noted s" using flush_invD[OF assms] by simp_all
  then have "phase_ok (write_counts s counts) Written" "noted (write_counts s counts)"
    unfolding phase_ok_def noted_def by (auto intro: write_counts_covered)
  then show ?thesis by (intro flush_inv_own[OF assms(1), where t = t]) (auto simp: assms)
qed

lemma clear_inv:
  assumes "flush_inv s" "us_phase s t = Written"
  shows "flush_inv (at_phase t Cleared (flush_clear s))"
proof -
  have "noted (flush_clear s)" using flush_invD[OF assms]
    unfolding noted_def phase_ok_def by (simp add: flush_clear_def) (metis covered_flush_ops(3) flush_clear_def)
  then show ?thesis
    by (intro flush_inv_own[OF assms(1), where t = t and p = Cleared])
       (simp_all add: assms phase_ok_def, simp_all add: flush_clear_def)
qed

lemma die_inv: "flush_inv s \<Longrightarrow> us_phase s t \<noteq> Idle \<Longrightarrow> flush_inv (at_phase t Idle s)"
  by (rule flush_inv_own[where t = t]) (auto simp: flush_inv_def)

lemma release_inv: "flush_inv s \<Longrightarrow> us_phase s t \<noteq> Idle \<Longrightarrow> flush_inv (at_phase t Idle (flush_release t s))"
  by (rule flush_inv_own[where s = s and t = t and p = Idle])
     (simp_all add: flush_inv_def noted_def, simp_all add: flush_release_def)

lemma expire_inv:
  "flush_inv s \<Longrightarrow> us_lock s = Some t \<Longrightarrow> us_phase s t = Idle \<Longrightarrow> flush_inv (expire_lock s)"
  by (auto simp: flush_inv_def noted_def) (auto simp: expire_lock_def)

lemma usage_step_inv: "usage_step s l s' \<Longrightarrow> flush_inv s \<Longrightarrow> flush_inv s'"
  by (induction rule: usage_step.induct)
     (blast intro: spend_inv seed_inv claim_inv unwarn_inv vanish_inv erase_inv lock_inv stage_inv members_inv
        count_inv write_inv clear_inv release_inv die_inv expire_inv)+

lemma usage_run_inv: "usage_run s ls s' \<Longrightarrow> flush_inv s \<Longrightarrow> flush_inv s'"
  by (induction rule: usage_run.induct) (auto intro: usage_step_inv)

text \<open>Nothing is running and every name the rows are behind of is noted: a flush has work to do.\<close>

definition settled :: "usage_state \<Rightarrow> bool" where
  "settled s = (noted s \<and> (\<forall>t. us_phase s t = Idle))"

lemma settled_inv: "settled s \<Longrightarrow> flush_inv s"
  by (simp add: settled_def flush_inv_def)

text \<open>C25. No count is lost. Whatever requests, seeds, claims, erasures, expiries, failures and flushes
  interleave after a settled state, a counter whose count in Redis has passed its row is in the
  changed set or in the set a flush has moved aside: a later flush still writes it.\<close>

theorem no_count_is_lost:
  assumes "settled s" "usage_run s ls s'"
    and "us_counters s' name = Some n" "parse_counter name = Some c" "fst c \<in> us_users s'" "stored_count s' c < n"
  shows "name \<in> us_dirty s' \<union> us_flushing s'"
proof -
  have "noted s'" using usage_run_inv[OF assms(2) settled_inv[OF assms(1)]] by (simp add: flush_inv_def)
  moreover have "\<not> covered s' name" using assms(3-6) unfolding covered_def by (meson not_le)
  ultimately show ?thesis by (auto simp: noted_def)
qed

section \<open>The flush as its steps\<close>

lemma write_counts_nil [simp]: "write_counts s [] = s"
  by (simp add: write_counts_def)

lemma write_count_at_phase: "write_count (at_phase t p s) x = at_phase t p (write_count s x)"
  by (auto simp: write_count_def at_phase_def split: prod.splits option.splits)

lemma write_counts_at_phase: "write_counts (at_phase t p s) xs = at_phase t p (write_counts s xs)"
  by (induction xs arbitrary: s) (simp_all add: write_counts_def write_count_at_phase)

lemma flush_ops_at_phase:
  "flush_lock u (at_phase t p s) = at_phase t p (flush_lock u s)" "flush_stage (at_phase t p s) = at_phase t p (flush_stage s)"
  "flush_clear (at_phase t p s) = at_phase t p (flush_clear s)" "flush_release u (at_phase t p s) = at_phase t p (flush_release u s)"
  "flush_counts (at_phase t p s) names = flush_counts s names" "at_phase t p (at_phase t q s) = at_phase t p s"
  by (auto simp: flush_lock_def flush_stage_def flush_clear_def flush_release_def flush_counts_def at_phase_def)

lemma flush_ops_phase [simp]:
  "us_phase (flush_lock u s) = us_phase s" "us_phase (flush_stage s) = us_phase s" "us_phase (flush_clear s) = us_phase s"
  "us_phase (flush_release u s) = us_phase s"
  by (auto simp: flush_lock_def flush_stage_def flush_clear_def flush_release_def)

lemma at_phase_same: "us_phase s t = p \<Longrightarrow> at_phase t p s = s"
  by (simp add: at_phase_def fun_upd_idem)

text \<open>The composed flush is a run of the relation: a flush by one process that nothing
  interrupts is the steps lock, move aside, name, count, write, clear and release.\<close>

theorem flush_is_run:
  assumes "us_lock s = None" "us_phase s t = Idle" "finite (us_flushing s \<union> us_dirty s)" "flush t s = (s', k)"
  shows "usage_run s [Other, Other, Other, Other, Other, Other, Other] s'"
proof -
  let ?l = "at_phase t Locked (flush_lock t s)"
  let ?g = "at_phase t Staged (flush_stage ?l)"
  let ?n = "sorted_names (us_flushing ?g)"
  let ?m = "at_phase t (Named ?n) ?g"
  let ?c = "flush_counts ?m ?n"
  let ?d = "at_phase t (Counted ?c) ?m"
  let ?w = "at_phase t Written (write_counts ?d ?c)"
  let ?k = "at_phase t Cleared (flush_clear ?w)"
  have n: "set ?n = us_flushing ?g" using assms(3)
    by (simp add: sorted_names_def flush_stage_def flush_lock_def)
  have e: "at_phase t Idle (flush_release t ?k) = s'"
    using assms(1,2,4)
    by (auto simp: flush_def Let_def flush_ops_at_phase write_counts_at_phase at_phase_same split: if_splits)
  have "usage_step s Other ?l" by (rule step_lock) (simp_all add: assms)
  moreover have "usage_step ?l Other ?g" by (rule step_stage) simp
  moreover have "usage_step ?g Other ?m" by (rule step_members) (simp, fact n)
  moreover have "usage_step ?m Other ?d" by (rule step_count) simp
  moreover have "usage_step ?d Other ?w" by (rule step_write) simp
  moreover have "usage_step ?w Other ?k" by (rule step_clear) simp
  moreover have "usage_step ?k Other (at_phase t Idle (flush_release t ?k))" by (rule step_release) simp
  ultimately show ?thesis unfolding e by (meson run_step run_nil)
qed

text \<open>After a flush that nothing interrupts the changed set is empty and every counter that was noted
  has its count in its row, the larger of the two kept.\<close>

theorem flush_writes_everything:
  assumes "settled s" "us_lock s = None" "finite (us_flushing s \<union> us_dirty s)" "flush t s = (s', k)"
  shows "us_dirty s' = {} \<and> us_flushing s' = {} \<and> us_lock s' = None \<and> us_counters s' = us_counters s
    \<and> (\<forall>name. covered s' name)"
proof -
  let ?g = "flush_stage (flush_lock t s)"
  let ?c = "flush_counts ?g (sorted_names (us_flushing ?g))"
  have e: "s' = flush_release t (flush_clear (write_counts ?g ?c))"
    using assms(2,4) by (auto simp: flush_def Let_def split: if_splits)
  have set: "set (sorted_names (us_flushing ?g)) = us_flushing s \<union> us_dirty s"
    using assms(3) by (simp add: sorted_names_def flush_stage_def flush_lock_def)
  have cs: "us_counters ?g = us_counters s" by (simp add: flush_stage_def flush_lock_def)
  have "covered (write_counts ?g ?c) name" for name
  proof (cases "name \<in> us_flushing s \<union> us_dirty s")
    case True
    then have "covered ?g name \<or> counted_in ?g ?c name" using set cs
      unfolding covered_def counted_in_def flush_counts_mem by (metis order_refl)
    then show ?thesis by (auto intro: write_counts_covered)
  next
    case False
    then show ?thesis using assms(1) by (auto simp: settled_def noted_def intro!: write_counts_covered(1))
  qed
  then show ?thesis unfolding e
    by (simp add: flush_release_def flush_clear_def flush_stage_def flush_lock_def covered_def stored_count_def)
qed

section \<open>Names read back\<close>

lemma isoformat_no_colon: "CHR '':'' \<notin> set (isoformat d)"
  by (auto simp: isoformat_def digit_char_neq(4)[symmetric] simp del: pad_digits.simps dest!: pad_digits_decimal)

lemma parse_counter_name:
  assumes "valid_date start" "CHR '':'' \<notin> set key"
  shows "parse_counter (counter_key (u, key, start)) = Some (u, key, start)"
proof -
  have "removeprefix counter_prefix (counter_key (u, key, start)) = show_int u @ CHR '':'' # key @ CHR '':'' # isoformat start"
    by (simp add: counter_key_def removeprefix_def)
  then have "split_on CHR '':'' (removeprefix counter_prefix (counter_key (u, key, start))) = [show_int u, key, isoformat start]"
    by (simp add: split_on_append split_on_free show_int_free(1) isoformat_no_colon assms(2))
  then show ?thesis by (simp add: parse_counter_def read_show_int iso_roundtrip assms(1))
qed

text \<open>A flush reads back every name the meter wrote: the name of a counter whose key holds no colon
  parses to that counter, so two counters never share a name.\<close>

theorem parse_counter_key:
  assumes "valid_date start" "CHR '':'' \<notin> set key"
  shows "parse_counter (counter_key (u, key, start)) = Some (u, key, start)
    \<and> (valid_date (snd (snd c)) \<and> CHR '':'' \<notin> set (fst (snd c)) \<and> counter_key c = counter_key (u, key, start)
        \<longrightarrow> c = (u, key, start))"
  using parse_counter_name[OF assms, of u] parse_counter_name[of "snd (snd c)" "fst (snd c)" "fst c"] by auto

lemma parse_counter_key_witness:
  "parse_counter (counter_key (7, ''api_calls_month'', Date 2024 2 29)) = Some (7, ''api_calls_month'', Date 2024 2 29)"
  by (rule conjunct1, rule parse_counter_key) (simp_all add: valid_date_def month_days_def is_leap_def)

section \<open>The quota month contains its moment\<close>

definition month_index :: "date \<Rightarrow> int" where
  "month_index d = year d * 12 + month d - 1"

definition anniversary_of :: "int \<Rightarrow> int \<Rightarrow> date option" where
  "anniversary_of a k = on_day (k div 12) (k mod 12 + 1) a"

lemma anniversary_index:
  assumes "anniversary_of a k = Some d"
  shows "month_index d = k" "1 \<le> month d" "month d \<le> 12"
  using assms mod_div_mult_eq[of k 12] pos_mod_bound[of 12 k] pos_mod_sign[of 12 k]
  by (auto simp: anniversary_of_def on_day_def month_index_def split: if_splits)

lemma month_index_less:
  assumes "1 \<le> month d" "month d \<le> 12" "1 \<le> month e" "month e \<le> 12" "month_index d < month_index e"
  shows "d < e"
  using assms by (auto simp: month_index_def date_order)

lemma month_index_split: "1 \<le> month d \<Longrightarrow> month d \<le> 12 \<Longrightarrow> month_index d div 12 = year d \<and> month_index d mod 12 + 1 = month d"
proof -
  assume "1 \<le> month d" "month d \<le> 12"
  then have "month_index d = (month d - 1) + year d * 12" "0 \<le> month d - 1" "month d - 1 < 12"
    by (simp_all add: month_index_def)
  then show ?thesis by (simp add: div_mult_self1 mod_mult_self1)
qed

lemma months_after_index: "1 \<le> month d \<Longrightarrow> month d \<le> 12 \<Longrightarrow> months_after d n a = anniversary_of a (month_index d + n)"
  by (simp add: months_after_def anniversary_of_def month_index_def Let_def algebra_simps)

lemma quota_period_index:
  assumes "1 \<le> month (dt_date now)" "month (dt_date now) \<le> 12"
  shows "quota_period anchor now = Some p \<longleftrightarrow>
    (\<exists>k. anniversary_of (day (dt_date anchor)) k = Some (qp_start p) \<and> anniversary_of (day (dt_date anchor)) (k + 1) = Some (qp_end p)
       \<and> (k = month_index (dt_date now) \<and> qp_start p \<le> dt_date now
          \<or> k + 1 = month_index (dt_date now) \<and> dt_date now < qp_end p))"
  (is "?L \<longleftrightarrow> ?R")
proof -
  let ?a = "day (dt_date anchor)"
  let ?t = "dt_date now"
  have first: "on_day (year ?t) (month ?t) ?a = anniversary_of ?a (month_index ?t)"
    using month_index_split[OF assms] by (simp add: anniversary_of_def)
  have ma: "anniversary_of ?a k = Some d \<Longrightarrow> months_after d n ?a = anniversary_of ?a (k + n)" for d n k
    using anniversary_index[of ?a k d] by (simp add: months_after_index)
  show ?thesis
  proof
    assume ?L
    then obtain f where f: "anniversary_of ?a (month_index ?t) = Some f"
      "Option.bind (if f > ?t then months_after f (- 1) ?a else Some f)
         (\<lambda>start. map_option (\<lambda>e. \<lparr>qp_start = start, qp_end = e\<rparr>) (months_after start 1 ?a)) = Some p"
      by (auto simp: quota_period_def Let_def first bind_eq_Some_conv)
    show ?R
    proof (cases "f > ?t")
      case True
      then show ?thesis using f ma[OF f(1)]
        by (intro exI[of _ "month_index ?t - 1"]) (auto simp: bind_eq_Some_conv ma)
    next
      case False
      then show ?thesis using f ma[OF f(1)]
        by (intro exI[of _ "month_index ?t"]) (auto simp: bind_eq_Some_conv)
    qed
  next
    assume ?R
    then obtain k where k: "anniversary_of ?a k = Some (qp_start p)" "anniversary_of ?a (k + 1) = Some (qp_end p)"
      and c: "k = month_index ?t \<and> qp_start p \<le> ?t \<or> month_index ?t = k + 1 \<and> ?t < qp_end p" by auto
    from c show ?L
    proof
      assume "k = month_index ?t \<and> qp_start p \<le> ?t"
      then show ?L using k by (cases p) (auto simp: quota_period_def Let_def first ma not_less)
    next
      assume "month_index ?t = k + 1 \<and> ?t < qp_end p"
      then show ?L using k by (cases p) (simp add: quota_period_def Let_def first ma)
    qed
  qed
qed

text \<open>Quota months tile time. The month a moment is in, when the calendar has it, starts at or
  before its day and ends after it; every other day from its start up to its end has that same
  month; and the month of a moment on its last day's morrow starts where it ended.\<close>

theorem quota_periods_tile:
  assumes "quota_period anchor now = Some p" "valid_date (dt_date now)"
  shows "qp_start p \<le> dt_date now \<and> dt_date now < qp_end p
    \<and> (valid_date (dt_date now') \<and> qp_start p \<le> dt_date now' \<and> dt_date now' < qp_end p \<longrightarrow> quota_period anchor now' = Some p)
    \<and> (dt_date now' = qp_end p \<and> quota_period anchor now' = Some p' \<longrightarrow> qp_start p' = qp_end p)"
proof -
  let ?a = "day (dt_date anchor)"
  have m: "valid_date d \<Longrightarrow> 1 \<le> month d \<and> month d \<le> 12" for d by (simp add: valid_date_def)
  obtain k where k: "anniversary_of ?a k = Some (qp_start p)" "anniversary_of ?a (k + 1) = Some (qp_end p)"
    and now: "k = month_index (dt_date now) \<and> qp_start p \<le> dt_date now \<or> k + 1 = month_index (dt_date now) \<and> dt_date now < qp_end p"
    using assms(1) quota_period_index m[OF assms(2)] by blast
  note s = anniversary_index[OF k(1)] and e = anniversary_index[OF k(2)]
  have le: "month_index x \<le> month_index y" if "1 \<le> month x" "month x \<le> 12" "1 \<le> month y" "month y \<le> 12" "x \<le> y" for x y
    using month_index_less[of y x] that by (meson not_less leD)
  have 1: "qp_start p \<le> dt_date now \<and> dt_date now < qp_end p"
    using now month_index_less[of "qp_start p" "dt_date now"] month_index_less[of "dt_date now" "qp_end p"] s e m[OF assms(2)]
    by force
  moreover have "quota_period anchor now' = Some p"
    if v: "valid_date (dt_date now')" and i: "qp_start p \<le> dt_date now'" "dt_date now' < qp_end p"
  proof -
    have "k \<le> month_index (dt_date now')" "month_index (dt_date now') \<le> k + 1"
      using le[of "qp_start p" "dt_date now'"] le[of "dt_date now'" "qp_end p"] s e m[OF v] i by auto
    then have "k = month_index (dt_date now') \<or> k + 1 = month_index (dt_date now')" by linarith
    then show ?thesis using k i m[OF v] by (auto simp: quota_period_index)
  qed
  moreover have "qp_start p' = qp_end p" if d: "dt_date now' = qp_end p" and q: "quota_period anchor now' = Some p'"
  proof -
    obtain j where j: "anniversary_of ?a j = Some (qp_start p')" "anniversary_of ?a (j + 1) = Some (qp_end p')"
      and c: "j = k + 1 \<or> j + 1 = k + 1 \<and> qp_end p < qp_end p'"
      using q[unfolded quota_period_index[of now', unfolded d, OF e(2,3)]] e(1) by auto
    show ?thesis
      using c j k(2) by auto
  qed
  ultimately show ?thesis by blast
qed

lemma quota_periods_tile_witness:
  "Date 2024 1 31 \<le> Date 2024 2 10 \<and> Date 2024 2 10 < Date 2024 2 29
    \<and> quota_period (DateTime (Date 2023 10 31) 0) (DateTime (Date 2024 2 28) 5) = Some \<lparr>qp_start = Date 2024 1 31, qp_end = Date 2024 2 29\<rparr>"
proof -
  have "quota_period (DateTime (Date 2023 10 31) 0) (DateTime (Date 2024 2 10) 0)
     = Some \<lparr>qp_start = Date 2024 1 31, qp_end = Date 2024 2 29\<rparr>" by code_simp
  note quota_periods_tile[OF this, of "DateTime (Date 2024 2 28) 5"]
  then show ?thesis by (simp add: valid_date_def month_days_def is_leap_def date_order)
qed

section \<open>Requests and their limit\<close>

text \<open>What has been spent before a request: Redis's count, else the row's.\<close>

definition spent_before :: "usage_state \<Rightarrow> counter_id \<Rightarrow> nat" where
  "spent_before s c = (case us_counters s (counter_key c) of None \<Rightarrow> stored_count s c | Some n \<Rightarrow> n)"

text \<open>One request through the meter: it is admitted exactly while the month has room for it, a
  refused one is not counted and an admitted one is counted once, and its name is noted for the
  flush; it warns exactly when it is admitted at or past the threshold and nothing has warned.\<close>

theorem meter_spend_exact:
  assumes "meter_spend s c l = (s', p)"
  shows "(sp_admitted p \<longleftrightarrow> minus_one_if_none l < 0 \<or> int (spent_before s c) < minus_one_if_none l)
    \<and> sp_used p = spent_before s c + of_bool (sp_admitted p)
    \<and> us_counters s' (counter_key c) = Some (sp_used p) \<and> (sp_admitted p \<longrightarrow> counter_key c \<in> us_dirty s')
    \<and> (sp_warn p \<longleftrightarrow> sp_admitted p \<and> counter_key c \<notin> us_warned s
         \<and> (case warn_threshold l of None \<Rightarrow> False | Some th \<Rightarrow> 0 \<le> th \<and> th \<le> int (sp_used p)))"
proof (cases "us_counters s (counter_key c)")
  case None
  then show ?thesis using assms
    by (cases "warn_threshold l")
       (auto simp: meter_spend_def spend_script_def seed_counter_def spent_before_def Let_def minus_one_if_none_def
         split: if_splits prod.splits)
next
  case (Some n)
  then show ?thesis using assms
    by (cases "warn_threshold l")
       (auto simp: meter_spend_def spend_script_def spent_before_def Let_def minus_one_if_none_def
         split: if_splits prod.splits)
qed

definition admitted :: "string \<Rightarrow> label list \<Rightarrow> nat" where
  "admitted name ls = length (filter (\<lambda>l. case l of Spend m _ a \<Rightarrow> m = name \<and> a | _ \<Rightarrow> False) ls)"

lemma usage_step_count:
  assumes "usage_step s l s'" "us_counters s name = Some k" "l \<noteq> Vanish name"
  shows "us_counters s' name = Some (k + admitted name [l])
    \<and> (case l of Spend m (Some L) a \<Rightarrow> m = name \<and> a \<and> 0 \<le> L \<longrightarrow> int k < L | _ \<Rightarrow> True)"
  using assms(1)
proof cases
  case (step_spend m lmt status used warn)
  then show ?thesis using assms(2)
    by (auto simp: spend_script_def admitted_def Let_def minus_one_if_none_def split: option.splits if_splits)
next
  case (step_claim c n won)
  then show ?thesis using assms(2)
    by (auto simp: claim_warning_def admitted_def split: option.splits if_splits)
next
  case (step_vanish m)
  then show ?thesis using assms(2,3) by (auto simp: admitted_def)
qed (use assms(2) in \<open>auto simp: admitted_def seed_counter_def unwarn_def erase_user_def flush_lock_def flush_stage_def
      flush_clear_def flush_release_def expire_lock_def\<close>)

text \<open>C26. Requests never pass the limit together. However requests of one counter interleave with each
  other and with everything else, while Redis keeps the counter and every request has the same
  limit, its count is where it began plus the requests admitted, and never passes the limit.\<close>

theorem spends_within_limit:
  assumes "usage_run s ls s'" "us_counters s name = Some k" "Vanish name \<notin> set ls"
    and "\<And>l a. Spend name l a \<in> set ls \<Longrightarrow> l = Some lmt" "0 \<le> lmt"
  shows "us_counters s' name = Some (k + admitted name ls) \<and> int (k + admitted name ls) \<le> max (int k) lmt"
  using assms
proof (induction arbitrary: k rule: usage_run.induct)
  case (run_nil s)
  then show ?case by (simp add: admitted_def)
next
  case (run_step s l s' ls s'')
  have "l \<noteq> Vanish name" using run_step.prems(2) by auto
  note c = usage_step_count[OF run_step.hyps(1) run_step.prems(1) this]
  have "admitted name [l] = 0 \<or> admitted name [l] = 1 \<and> int k < lmt"
  proof (cases l)
    case (Spend m x a)
    then show ?thesis using conjunct2[OF c] run_step.prems(3)[of x a] run_step.prems(4)
      by (cases "m = name \<and> a") (auto simp: admitted_def)
  qed (simp_all add: admitted_def)
  moreover have "us_counters s'' name = Some (k + admitted name [l] + admitted name ls)
      \<and> int (k + admitted name [l] + admitted name ls) \<le> max (int (k + admitted name [l])) lmt"
  proof (rule run_step.IH)
    show "us_counters s' name = Some (k + admitted name [l])" using c by blast
    show "Vanish name \<notin> set ls" "0 \<le> lmt" using run_step.prems by simp_all
    show "x = Some lmt" if "Spend name x a \<in> set ls" for x a using run_step.prems(3)[of x a] that by simp
  qed
  moreover have "admitted name (l # ls) = admitted name [l] + admitted name ls" by (simp add: admitted_def)
  ultimately show ?case by auto
qed

section \<open>One email a month\<close>

definition warned_or_gone :: "counter_id \<Rightarrow> usage_state \<Rightarrow> bool" where
  "warned_or_gone c s = (fst c \<notin> us_users s \<or> (\<exists>r. us_rows s c = Some r \<and> ur_warned r))"

lemma write_count_warned: "warned_or_gone c s \<Longrightarrow> warned_or_gone c (write_count s x)"
  by (auto simp: warned_or_gone_def write_count_def split: prod.splits option.splits)

lemma write_counts_warned: "warned_or_gone c s \<Longrightarrow> warned_or_gone c (write_counts s xs)"
  by (induction xs arbitrary: s) (simp_all add: write_counts_def write_count_warned)

lemma usage_step_warned:
  assumes "usage_step s l s'"
  shows "(warned_or_gone c s \<longrightarrow> warned_or_gone c s' \<and> l \<noteq> Claim c True) \<and> (l = Claim c True \<longrightarrow> warned_or_gone c s')"
  using assms
proof cases
  case (step_spend m lmt status used warn)
  then show ?thesis
    by (auto simp: warned_or_gone_def dest: spend_script_counts)
next
  case (step_claim d n won)
  then show ?thesis
    by (auto simp: warned_or_gone_def claim_warning_def split: option.splits if_splits)
next
  case (step_write t counts)
  then show ?thesis using write_counts_warned[of c s counts] by (auto simp: warned_or_gone_def)
qed (auto simp: warned_or_gone_def seed_counter_def unwarn_def erase_user_def flush_lock_def flush_stage_def
      flush_clear_def flush_release_def expire_lock_def)

lemma usage_run_warned: "usage_run s ls s' \<Longrightarrow> warned_or_gone c s \<Longrightarrow> Claim c True \<notin> set ls"
  by (induction rule: usage_run.induct) (auto dest: usage_step_warned)

text \<open>Whatever interleaves, at most one claim of a counter's warning succeeds: the 80\% email of one
  account, thing and month is sent at most once.\<close>

theorem warning_claimed_once:
  assumes "usage_run s ls s'"
  shows "length (filter (\<lambda>l. l = Claim c True) ls) \<le> 1"
  using assms
proof (induction rule: usage_run.induct)
  case (run_step s l s' ls s'')
  show ?case
  proof (cases "l = Claim c True")
    case True
    then have "Claim c True \<notin> set ls" using usage_step_warned[OF run_step.hyps(1)] usage_run_warned[OF run_step.hyps(2)] by blast
    then have "filter (\<lambda>l. l = Claim c True) ls = []" by (auto simp: filter_empty_conv)
    then show ?thesis using True by simp
  qed (use run_step.IH in simp)
qed simp

section \<open>Concrete runs\<close>

definition quiet_state :: "(string \<rightharpoonup> nat) \<Rightarrow> string set \<Rightarrow> (counter_id \<rightharpoonup> usage_row) \<Rightarrow> usage_state" where
  "quiet_state counters dirty rows = \<lparr>us_counters = counters, us_warned = {}, us_dirty = dirty, us_flushing = {},
     us_lock = None, us_rows = rows, us_users = {7}, us_phase = (\<lambda>_. Idle)\<rparr>"

definition some_counter :: counter_id where
  "some_counter = (7, ''api_calls_month'', Date 2024 1 15)"

abbreviation some_name :: string where "some_name \<equiv> counter_key some_counter"

lemma some_name_parses [simp]: "parse_counter some_name = Some some_counter"
  unfolding some_counter_def by (rule parse_counter_name) (simp_all add: valid_date_def month_days_def)

lemma some_counter_user [simp]: "fst some_counter = 7"
  by (simp add: some_counter_def)

lemma quiet_settled: "finite dirty \<Longrightarrow> (\<And>name n. counters name = Some n \<Longrightarrow> name \<in> dirty) \<Longrightarrow> settled (quiet_state counters dirty rows)"
  by (auto simp: settled_def noted_def covered_def quiet_state_def)

lemma some_spend:
  assumes "us_counters s some_name = Some 5"
  shows "usage_step s (Spend some_name (Some 10) True)
    (s\<lparr>us_counters := (us_counters s)(some_name \<mapsto> 6), us_dirty := insert some_name (us_dirty s)\<rparr>)"
proof -
  have "spend_script s some_name (minus_one_if_none (Some 10)) (minus_one_if_none (warn_threshold (Some 10)))
      = (s\<lparr>us_counters := (us_counters s)(some_name \<mapsto> 6), us_dirty := insert some_name (us_dirty s)\<rparr>, 1, 6, 0)"
    using assms by (simp add: spend_script_def minus_one_if_none_def warn_threshold_def warn_at_num_def warn_at_den_def)
  from step_spend[OF this] show ?thesis by simp
qed

abbreviation some_state :: usage_state where
  "some_state \<equiv> quiet_state [some_name \<mapsto> 5] {some_name} [some_counter \<mapsto> \<lparr>ur_count = 4, ur_warned = False\<rparr>]"

abbreviation spent_state :: usage_state where
  "spent_state \<equiv> some_state\<lparr>us_counters := (us_counters some_state)(some_name \<mapsto> 6), us_dirty := insert some_name (us_dirty some_state)\<rparr>"

lemma some_run: "usage_run some_state [Spend some_name (Some 10) True] spent_state"
  by (rule run_step[OF some_spend run_nil]) (simp add: quiet_state_def)

lemma some_settled: "settled some_state"
  by (rule quiet_settled) (auto split: if_splits)

lemma no_count_is_lost_witness: "some_name \<in> us_dirty spent_state \<union> us_flushing spent_state"
  by (rule no_count_is_lost[OF some_settled some_run]) (auto simp: quiet_state_def stored_count_def)

lemma some_flush: "flush 1 some_state = (fst (flush 1 some_state), snd (flush 1 some_state))"
  by simp

lemma flush_is_run_witness:
  "usage_run some_state [Other, Other, Other, Other, Other, Other, Other] (fst (flush 1 some_state))"
  by (rule flush_is_run[OF _ _ _ some_flush]) (simp_all add: quiet_state_def)

lemma flush_writes_everything_witness: "us_dirty (fst (flush 1 some_state)) = {} \<and> covered (fst (flush 1 some_state)) some_name"
  using flush_writes_everything[OF some_settled _ _ some_flush] by (simp add: quiet_state_def)

lemma meter_spend_exact_witness:
  "sp_used (snd (meter_spend some_state some_counter (Some 5))) = 5 \<and> \<not> sp_admitted (snd (meter_spend some_state some_counter (Some 5)))"
  using meter_spend_exact[of some_state some_counter "Some 5", OF prod.collapse[symmetric]]
  by (simp add: minus_one_if_none_def spent_before_def quiet_state_def)

lemma spends_within_limit_witness: "us_counters spent_state some_name = Some (5 + admitted some_name [Spend some_name (Some 10) True])"
  using spends_within_limit[OF some_run, of some_name 5 10] by (simp add: quiet_state_def)

lemma warning_claimed_once_witness:
  "length (filter (\<lambda>l. l = Claim some_counter True) [Spend some_name (Some 10) True]) \<le> 1"
  by (rule warning_claimed_once[OF some_run])

text \<open>
  The lock is what the promise rests on. A flush slower than the lock's 60 seconds, with another
  begun meanwhile, can delete the set the other has just moved aside: the count of the request
  between them is then neither in the row nor noted.
\<close>

lemma slow_flush_run:
  assumes "s1 = at_phase 2 (Counted [(some_counter, 5)]) (at_phase 2 (Named [some_name])
      (at_phase 2 Staged (flush_stage (at_phase 2 Locked (flush_lock 2 some_state)))))"
  shows "usage_run some_state [Other, Other, Other, Other] s1"
proof -
  let ?a = "at_phase 2 Locked (flush_lock 2 some_state)"
  let ?b = "at_phase 2 Staged (flush_stage ?a)"
  let ?c = "at_phase 2 (Named [some_name]) ?b"
  have "usage_step some_state Other ?a" by (rule step_lock) (simp_all add: quiet_state_def)
  moreover have "usage_step ?a Other ?b" by (rule step_stage) simp
  moreover have "usage_step ?b Other ?c" by (rule step_members) (simp_all add: flush_stage_def flush_lock_def quiet_state_def)
  moreover have "usage_step ?c Other (at_phase 2 (Counted (flush_counts ?c [some_name])) ?c)"
    by (rule step_count) simp
  moreover have "flush_counts ?c [some_name] = [(some_counter, 5)]"
    by (simp add: flush_counts_def List.map_filter_simps flush_stage_def flush_lock_def quiet_state_def)
  ultimately show ?thesis unfolding assms by (auto intro!: run_step[where s' = ?a] run_step[where s' = ?b] run_step[where s' = ?c] run_step run_nil)
qed

lemma slow_flush_rest:
  assumes c: "us_phase s 2 = Counted [(some_counter, 5)]" and l: "us_lock s = None" and i: "us_phase s 3 = Idle"
    and n: "us_counters s some_name = Some 5"
  shows "\<exists>ls s'. usage_run s ls s' \<and> us_counters s' some_name = Some 6 \<and> us_rows s' = us_rows (write_counts s [(some_counter, 5)])
    \<and> us_users s' = us_users s \<and> us_dirty s' = {} \<and> us_flushing s' = {}"
proof -
  let ?a = "s\<lparr>us_counters := (us_counters s)(some_name \<mapsto> 6), us_dirty := insert some_name (us_dirty s)\<rparr>"
  let ?b = "at_phase 3 Locked (flush_lock 3 ?a)"
  let ?d = "at_phase 3 Staged (flush_stage ?b)"
  let ?e = "at_phase 2 Written (write_counts ?d [(some_counter, 5)])"
  let ?f = "at_phase 2 Cleared (flush_clear ?e)"
  let ?g = "at_phase 3 (Named []) ?f"
  have "usage_step s (Spend some_name (Some 10) True) ?a" by (rule some_spend[OF n])
  moreover have "usage_step ?a Other ?b" by (rule step_lock) (simp_all add: l i)
  moreover have "usage_step ?b Other ?d" by (rule step_stage) simp
  moreover have "usage_step ?d Other ?e" by (rule step_write) (simp add: c)
  moreover have "usage_step ?e Other ?f" by (rule step_clear) simp
  moreover have "usage_step ?f Other ?g" by (rule step_members) (simp_all add: flush_clear_def)
  ultimately have "usage_run s [Spend some_name (Some 10) True, Other, Other, Other, Other, Other] ?g"
    by (meson run_step run_nil)
  moreover have "us_rows (write_counts ?d [(some_counter, 5)]) = us_rows (write_counts s [(some_counter, 5)])"
    by (auto simp: write_counts_def write_count_def flush_stage_def flush_lock_def split: option.splits)
  ultimately show ?thesis
    by (intro exI[of _ "[Spend some_name (Some 10) True, Other, Other, Other, Other, Other]"] exI[of _ ?g])
       (simp add: flush_clear_def, simp add: flush_stage_def flush_lock_def)
qed

theorem slow_flush_loses_count:
  "\<exists>ls s ls' s'. settled some_state \<and> usage_run some_state ls s \<and> usage_run (expire_lock s) ls' s' \<and> \<not> noted s'"
proof -
  let ?s = "at_phase 2 (Counted [(some_counter, 5)]) (at_phase 2 (Named [some_name])
      (at_phase 2 Staged (flush_stage (at_phase 2 Locked (flush_lock 2 some_state)))))"
  have "us_phase (expire_lock ?s) 2 = Counted [(some_counter, 5)]" "us_lock (expire_lock ?s) = None"
    "us_phase (expire_lock ?s) 3 = Idle" "us_counters (expire_lock ?s) some_name = Some 5"
    by (simp_all add: expire_lock_def flush_stage_def flush_lock_def quiet_state_def)
  then obtain ls' s' where r: "usage_run (expire_lock ?s) ls' s'" "us_counters s' some_name = Some 6"
      "us_rows s' = us_rows (write_counts (expire_lock ?s) [(some_counter, 5)])" "us_users s' = us_users (expire_lock ?s)"
      "us_dirty s' = {}" "us_flushing s' = {}"
    using slow_flush_rest by blast
  have "stored_count s' some_counter = 5" "7 \<in> us_users s'"
    by (simp_all add: r stored_count_def write_counts_def write_count_def expire_lock_def flush_stage_def flush_lock_def quiet_state_def)
  then have "\<not> covered s' some_name" using r(2) unfolding covered_def by fastforce
  then have "\<not> noted s'" using r(5,6) by (auto simp: noted_def)
  then show ?thesis using some_settled slow_flush_run[OF refl] r(1) by blast
qed

end
