(* ===== verification/AlertRules.thy ===== *)
theory AlertRules
  imports Entitlements Complex_Main
begin

text \<open>
  \<open>app/accounts/alert_rules.py\<close>, on the kinds and rows of \<open>app/db/models/alert.py\<close>: which kinds
  of alert a plan sends, how many rules it keeps on, and what following and unfollowing turn on
  and off. The rows of \<open>alert_rule\<close> are a list with its id sequence; a query of them is a filter.
  Each change holds the user's row, so changes of one user's rules come one after another; a
  request reads the clock within milliseconds, and the model reads it once.
\<close>

section \<open>Kinds, channels and rows\<close>

datatype alert_kind =
    Filer_filed | Filer_position_change | Stock_ownership_change | Insider_cluster | Season_digest | Saved_filter_match

datatype channel = In_app | Email

text \<open>
  What a rule is about, as the dictionary of the one column it sets; the table's checks let a row
  set no second one.
\<close>

datatype target = Filer_id int | Security_id int | Saved_filter_id int | No_target

record preset =
  pr_kind :: alert_kind
  pr_channels :: "channel list"
  pr_min_value :: "rat option"

record alert_rule =
  ar_id :: int
  ar_user :: int
  ar_kind :: alert_kind
  ar_target :: target
  ar_min_value :: "rat option"
  ar_channels :: "channel list"
  ar_active :: bool

record rule_table =
  rt_rows :: "alert_rule list"
  rt_next :: int

definition every_kind :: "alert_kind list" where
  "every_kind = [Filer_filed, Filer_position_change, Stock_ownership_change, Insider_cluster, Season_digest, Saved_filter_match]"

definition max_watchlist_items :: nat where "max_watchlist_items = 500"

definition max_alert_rules :: nat where "max_alert_rules = 2 * max_watchlist_items + 1"

definition every_plan_kinds :: "alert_kind set" where "every_plan_kinds = {Season_digest}"

definition large_change :: rat where "large_change = 1000000"

definition investor_presets :: "preset list" where
  "investor_presets =
     [\<lparr>pr_kind = Filer_filed, pr_channels = [In_app, Email], pr_min_value = None\<rparr>,
      \<lparr>pr_kind = Filer_position_change, pr_channels = [In_app], pr_min_value = Some large_change\<rparr>]"

definition stock_presets :: "preset list" where
  "stock_presets =
     [\<lparr>pr_kind = Stock_ownership_change, pr_channels = [In_app], pr_min_value = Some large_change\<rparr>,
      \<lparr>pr_kind = Insider_cluster, pr_channels = [In_app], pr_min_value = None\<rparr>]"

definition digest_preset :: preset where
  "digest_preset = \<lparr>pr_kind = Season_digest, pr_channels = [In_app, Email], pr_min_value = None\<rparr>"

section \<open>What a plan sends, and counts\<close>

definition sent_kinds :: "in_force \<Rightarrow> who \<Rightarrow> moment \<Rightarrow> ent_error + alert_kind set" where
  "sent_kinds cat w now =
     map_res (\<lambda>instant. if instant then set every_kind else every_plan_kinds) (can cat w ''alerts_instant'' now now)"

definition rules_on :: "rule_table \<Rightarrow> int \<Rightarrow> alert_kind set \<Rightarrow> nat" where
  "rules_on t u kinds = length (filter (\<lambda>r. ar_user r = u \<and> ar_active r \<and> ar_kind r \<in> kinds) (rt_rows t))"

definition rules_kept :: "rule_table \<Rightarrow> int \<Rightarrow> nat" where
  "rules_kept t u = length (filter (\<lambda>r. ar_user r = u) (rt_rows t))"

section \<open>Turning presets on\<close>

definition about :: "int \<Rightarrow> alert_kind \<Rightarrow> target \<Rightarrow> alert_rule \<Rightarrow> bool" where
  "about u k tg r = (ar_user r = u \<and> ar_kind r = k \<and> ar_target r = tg)"

text \<open>\<open>found.get(kind)\<close>: whether the rule of the kind is on, if there is one; a later row stands.\<close>

definition found :: "rule_table \<Rightarrow> int \<Rightarrow> target \<Rightarrow> alert_kind \<Rightarrow> bool option" where
  "found t u tg k =
     (case filter (about u k tg) (rt_rows t) of [] \<Rightarrow> None | rs \<Rightarrow> Some (ar_active (last rs)))"

definition pending :: "rule_table \<Rightarrow> int \<Rightarrow> preset list \<Rightarrow> target \<Rightarrow> bool \<Rightarrow> preset list \<times> alert_kind set" where
  "pending t u presets tg reactivate =
     (let todo = filter (\<lambda>p. found t u tg (pr_kind p) = None \<or> reactivate \<and> found t u tg (pr_kind p) = Some False) presets
      in (todo, pr_kind ` set (filter (\<lambda>p. found t u tg (pr_kind p) = None) todo)))"

text \<open>The upsert of one preset: its rule turned on, or made, with an id of the sequence.\<close>

definition write_one :: "int \<Rightarrow> target \<Rightarrow> rule_table \<Rightarrow> preset \<Rightarrow> rule_table" where
  "write_one u tg t p =
     (if list_ex (about u (pr_kind p) tg) (rt_rows t)
      then t\<lparr>rt_rows := map (\<lambda>r. if about u (pr_kind p) tg r then r\<lparr>ar_active := True\<rparr> else r) (rt_rows t)\<rparr>
      else t\<lparr>rt_rows := rt_rows t @ [\<lparr>ar_id = rt_next t, ar_user = u, ar_kind = pr_kind p, ar_target = tg,
               ar_min_value = pr_min_value p, ar_channels = pr_channels p, ar_active = True\<rparr>],
             rt_next := rt_next t + 1\<rparr>)"

definition write_rules :: "rule_table \<Rightarrow> int \<Rightarrow> preset list \<Rightarrow> target \<Rightarrow> rule_table" where
  "write_rules t u presets tg = foldl (write_one u tg) t presets"

definition room :: "in_force \<Rightarrow> who \<Rightarrow> moment \<Rightarrow> rule_table \<Rightarrow> int \<Rightarrow> ent_error + nat option" where
  "room cat w now t u =
     bind_res (Entitlements.limit cat w ''alert_rules'' now now) (\<lambda>allowed.
       case allowed of None \<Rightarrow> Inr None
       | Some n \<Rightarrow> map_res (\<lambda>kinds. Some (nat (max 0 (n - int (rules_on t u kinds))))) (sent_kinds cat w now))"

section \<open>Following and unfollowing\<close>

text \<open>What is left of the presets once the room is known.\<close>

definition fitting :: "rule_table \<Rightarrow> int \<Rightarrow> preset list \<times> alert_kind set \<Rightarrow> nat option \<Rightarrow> preset list" where
  "fitting t u todo space =
     (let fits = (case space of None \<Rightarrow> fst todo | Some n \<Rightarrow> take n (fst todo))
      in if snd todo \<noteq> {} \<and> rules_kept t u + card (snd todo) > max_alert_rules
         then filter (\<lambda>p. pr_kind p \<notin> snd todo) fits else fits)"

definition on_follow :: "in_force \<Rightarrow> who \<Rightarrow> moment \<Rightarrow> rule_table \<Rightarrow> int \<Rightarrow> target \<Rightarrow> ent_error + rule_table" where
  "on_follow cat w now t u tg =
     (case tg of
        Filer_id _ \<Rightarrow>
          bind_res (sent_kinds cat w now) (\<lambda>kinds.
            let (presets, reactivate, tg') =
                  (if Filer_filed \<in> kinds then (investor_presets, True, tg) else ([digest_preset], False, No_target));
                todo = pending t u presets tg' reactivate
            in map_res (\<lambda>space. write_rules t u (fitting t u todo space) tg') (room cat w now t u))
      | _ \<Rightarrow> Inr t)"

definition on_unfollow :: "rule_table \<Rightarrow> int \<Rightarrow> target \<Rightarrow> rule_table" where
  "on_unfollow t u tg =
     (if tg = No_target then t
      else t\<lparr>rt_rows := map (\<lambda>r. if ar_user r = u \<and> ar_active r \<and> ar_target r = tg then r\<lparr>ar_active := False\<rparr> else r) (rt_rows t)\<rparr>)"

section \<open>How writing changes the counts\<close>

text \<open>The unique index: one row for a user, a kind and a target.\<close>

definition rule_key :: "alert_rule \<Rightarrow> int \<times> alert_kind \<times> target" where
  "rule_key r = (ar_user r, ar_kind r, ar_target r)"

definition unique_rules :: "rule_table \<Rightarrow> bool" where
  "unique_rules t = distinct (map rule_key (rt_rows t))"

lemma about_key: "about u k tg r \<longleftrightarrow> rule_key r = (u, k, tg)"
  by (auto simp: about_def rule_key_def)

lemma rule_key_active [simp]: "rule_key (r\<lparr>ar_active := b\<rparr>) = rule_key r"
  by (simp add: rule_key_def)

lemma rule_key_turn_on:
  "map rule_key (map (\<lambda>r. if P r then r\<lparr>ar_active := b\<rparr> else r) xs) = map rule_key xs"
  by (induction xs) auto

lemma unique_write_one: "unique_rules t \<Longrightarrow> unique_rules (write_one u tg t p)"
  unfolding write_one_def unique_rules_def
  by (auto simp: rule_key_turn_on about_key list_ex_iff simp del: map_map) (auto simp: rule_key_def)

text \<open>A change of the one row of a key moves a count by at most one.\<close>

lemma count_update_le:
  assumes "distinct (map key xs)"
  shows "length (filter P (map (\<lambda>r. if key r = k then f r else r) xs)) \<le> length (filter P xs) + 1"
  using assms
proof (induction xs)
  case (Cons x xs)
  show ?case
  proof (cases "key x = k")
    case True
    have "key r \<noteq> k" if "r \<in> set xs" for r using Cons.prems True that by (auto simp: rev_image_eqI)
    then have "map (\<lambda>r. if key r = k then f r else r) xs = xs" by (intro map_idI) simp
    then show ?thesis by simp
  qed (use Cons in auto)
qed simp

lemma rules_on_write_one:
  assumes "unique_rules t"
  shows "rules_on (write_one u tg t p) v kinds \<le> rules_on t v kinds + 1"
  using count_update_le[OF assms[unfolded unique_rules_def], where k = "(u, pr_kind p, tg)" and f = "\<lambda>r. r\<lparr>ar_active := True\<rparr>"
      and P = "\<lambda>r. ar_user r = v \<and> ar_active r \<and> ar_kind r \<in> kinds"]
  by (auto simp: write_one_def rules_on_def about_key)

lemma rules_on_write:
  "unique_rules t \<Longrightarrow> unique_rules (write_rules t u ps tg) \<and> rules_on (write_rules t u ps tg) v kinds \<le> rules_on t v kinds + length ps"
proof (induction ps arbitrary: t)
  case (Cons p ps)
  note ih = Cons.IH[OF unique_write_one[OF Cons.prems, of u tg p]]
  have "write_rules t u (p # ps) tg = write_rules (write_one u tg t p) u ps tg" by (simp add: write_rules_def)
  then show ?case using ih rules_on_write_one[OF Cons.prems, of u tg p v kinds] by simp
qed (simp add: write_rules_def)

lemma rules_kept_write_one:
  "rules_kept (write_one u tg t p) v = rules_kept t v + of_bool (v = u \<and> \<not> list_ex (about u (pr_kind p) tg) (rt_rows t))"
proof -
  have "filter (\<lambda>r. ar_user r = v) (map (\<lambda>r. if about u k tg r then r\<lparr>ar_active := True\<rparr> else r) xs)
      = map (\<lambda>r. if about u k tg r then r\<lparr>ar_active := True\<rparr> else r) (filter (\<lambda>r. ar_user r = v) xs)" for k xs
    by (induction xs) auto
  then show ?thesis by (auto simp: write_one_def rules_kept_def)
qed

lemma found_None: "found t u tg k = None \<longleftrightarrow> (u, k, tg) \<notin> rule_key ` set (rt_rows t)"
proof -
  have "filter (about u k tg) (rt_rows t) = [] \<longleftrightarrow> (u, k, tg) \<notin> rule_key ` set (rt_rows t)"
    unfolding filter_empty_conv about_key by (metis imageE image_eqI)
  then show ?thesis by (auto simp: found_def split: list.splits)
qed

lemma list_ex_about: "list_ex (about u k tg) (rt_rows t) \<longleftrightarrow> found t u tg k \<noteq> None"
  unfolding found_None by (auto simp: list_ex_iff about_key rev_image_eqI)

lemma keys_write_one: "rule_key ` set (rt_rows (write_one u tg t p)) = insert (u, pr_kind p, tg) (rule_key ` set (rt_rows t))"
proof (cases "list_ex (about u (pr_kind p) tg) (rt_rows t)")
  case True
  then have "(u, pr_kind p, tg) \<in> rule_key ` set (rt_rows t)" by (simp add: list_ex_about found_None)
  moreover have "rule_key ` set (rt_rows (write_one u tg t p)) = rule_key ` set (rt_rows t)"
    using True by (simp add: write_one_def rule_key_turn_on flip: set_map del: map_map)
  ultimately show ?thesis by blast
qed (auto simp: write_one_def rule_key_def)

lemma found_write_one: "found (write_one u tg t p) u tg k = None \<longleftrightarrow> found t u tg k = None \<and> k \<noteq> pr_kind p"
  by (auto simp: found_None keys_write_one)

lemma rules_kept_write:
  assumes "distinct (map pr_kind ps)"
  shows "rules_kept (write_rules t u ps tg) v
    = rules_kept t v + (if v = u then length (filter (\<lambda>p. found t u tg (pr_kind p) = None) ps) else 0)"
  using assms
proof (induction ps arbitrary: t)
  case (Cons p ps)
  have "filter (\<lambda>q. found (write_one u tg t p) u tg (pr_kind q) = None) ps = filter (\<lambda>q. found t u tg (pr_kind q) = None) ps"
    using Cons.prems by (intro filter_cong) (auto simp: found_write_one rev_image_eqI)
  then show ?case using Cons.IH[of "write_one u tg t p"] Cons.prems
    by (simp add: write_rules_def rules_kept_write_one list_ex_about)
qed (simp add: write_rules_def)

lemma distinct_pending: "distinct (map pr_kind presets) \<Longrightarrow> pending t u presets tg re = (todo, missing)
    \<Longrightarrow> distinct (map pr_kind todo) \<and> missing = pr_kind ` set (filter (\<lambda>p. found t u tg (pr_kind p) = None) todo)"
  by (auto simp: pending_def Let_def distinct_map_filter)

lemma presets_distinct: "distinct (map pr_kind investor_presets)" "distinct (map pr_kind [digest_preset])"
  by (simp_all add: investor_presets_def)

lemma distinct_map_take: "distinct (map f xs) \<Longrightarrow> distinct (map f (take n xs))"
  by (metis distinct_take take_map)

lemma fitting_pair:
  "fitting t u (ps, missing) space =
     (let fits = (case space of None \<Rightarrow> ps | Some n \<Rightarrow> take n ps)
      in if missing \<noteq> {} \<and> rules_kept t u + card missing > max_alert_rules
         then filter (\<lambda>p. pr_kind p \<notin> missing) fits else fits)"
  by (simp add: fitting_def Let_def cong: option.case_cong)

lemma fitting_bounds:
  assumes "pending t u presets tg re = todo" "distinct (map pr_kind presets)"
  shows "distinct (map pr_kind (fitting t u todo space))"
    and "space = Some n \<Longrightarrow> length (fitting t u todo space) \<le> n"
    and "rules_kept (write_rules t u (fitting t u todo space) tg) v \<le> max (rules_kept t v) max_alert_rules"
proof -
  obtain ps missing where todo: "todo = (ps, missing)" by (cases todo)
  have d: "distinct (map pr_kind ps)" and m: "missing = pr_kind ` set (filter (\<lambda>p. found t u tg (pr_kind p) = None) ps)"
    using distinct_pending[OF assms(2), of t u tg re ps missing] assms(1) todo by auto
  let ?f = "case space of None \<Rightarrow> ps | Some n \<Rightarrow> take n ps"
  have df: "distinct (map pr_kind ?f)" using d by (auto simp: distinct_map_take split: option.splits)
  then show 1: "distinct (map pr_kind (fitting t u todo space))"
    by (simp add: fitting_pair todo Let_def distinct_map_filter)
  show "space = Some n \<Longrightarrow> length (fitting t u todo space) \<le> n"
    by (simp add: fitting_pair todo Let_def le_trans[OF length_filter_le])
  let ?new = "\<lambda>xs. length (filter (\<lambda>p. found t u tg (pr_kind p) = None) xs)"
  have "distinct (map pr_kind (filter (\<lambda>p. found t u tg (pr_kind p) = None) ps))"
    using d by (simp add: distinct_map_filter)
  then have card: "card missing = ?new ps"
    unfolding m by (metis distinct_card length_map list.set_map)
  have le: "?new ?f \<le> ?new ps"
  proof (cases space)
    case (Some n)
    have "filter (\<lambda>p. found t u tg (pr_kind p) = None) ps
        = filter (\<lambda>p. found t u tg (pr_kind p) = None) (take n ps) @ filter (\<lambda>p. found t u tg (pr_kind p) = None) (drop n ps)"
      by (simp flip: filter_append)
    then show ?thesis using Some by simp
  qed simp
  have "rules_kept t u + ?new (fitting t u todo space) \<le> max (rules_kept t u) max_alert_rules"
  proof (cases "missing \<noteq> {} \<and> rules_kept t u + card missing > max_alert_rules")
    case True
    then have f: "fitting t u todo space = filter (\<lambda>p. pr_kind p \<notin> missing) ?f" by (simp add: fitting_pair todo Let_def)
    have "set ?f \<subseteq> set ps" by (auto split: option.splits dest: in_set_takeD)
    then have "?new (fitting t u todo space) = 0" unfolding f m by (auto simp: filter_empty_conv)
    then show ?thesis by simp
  next
    case False
    then have "fitting t u todo space = ?f" by (auto simp: fitting_pair todo Let_def)
    moreover have "rules_kept t u + ?new ps \<le> max (rules_kept t u) max_alert_rules"
      using False card m by (cases "missing = {}") (auto simp: filter_empty_conv)
    ultimately show ?thesis using le by simp
  qed
  then show "rules_kept (write_rules t u (fitting t u todo space) tg) v \<le> max (rules_kept t v) max_alert_rules"
    by (simp add: rules_kept_write[OF 1])
qed

section \<open>Following keeps to the plan\<close>

text \<open>C40. Following never takes an account past its plan or past any plan's bound, and keeps one rule per
  kind and target: of the kinds the plan sends, no more rules are on than the plan's
  \<open>alert_rules\<close> or than were on before, and no more are kept than \<open>max_alert_rules\<close> or than were.
  No other account's rules change in number.\<close>

theorem follow_keeps_bounds:
  assumes "on_follow cat w now t u tg = Inr t'" "unique_rules t"
    and "sent_kinds cat w now = Inr kinds" "Entitlements.limit cat w ''alert_rules'' now now = Inr allowed"
  shows "unique_rules t' \<and> (case allowed of None \<Rightarrow> True | Some n \<Rightarrow> int (rules_on t' u kinds) \<le> max (int (rules_on t u kinds)) n)
    \<and> rules_kept t' v \<le> max (rules_kept t v) max_alert_rules \<and> (v \<noteq> u \<longrightarrow> rules_kept t' v = rules_kept t v)"
proof (cases "\<exists>f. tg = Filer_id f")
  case False
  then have "t' = t" using assms(1) by (auto simp: on_follow_def split: target.splits)
  then show ?thesis using assms(2) by (auto split: option.splits)
next
  case True
  obtain presets re tg' where p: "(if Filer_filed \<in> kinds then (investor_presets, True, tg) else ([digest_preset], False, No_target)) = (presets, re, tg')"
    by (metis prod_cases3)
  then have dp: "distinct (map pr_kind presets)" using presets_distinct by (auto split: if_splits)
  let ?todo = "pending t u presets tg' re"
  let ?space = "case allowed of None \<Rightarrow> None | Some n \<Rightarrow> Some (nat (max 0 (n - int (rules_on t u kinds))))"
  let ?fits = "fitting t u ?todo ?space"
  have rm: "room cat w now t u = Inr ?space"
    using assms(3,4) by (auto simp: room_def split: option.splits)
  have t': "t' = write_rules t u ?fits tg'"
    using assms(1,3) True p rm by (auto simp: on_follow_def Let_def)
  note b = fitting_bounds[where t = t and u = u and tg = tg' and re = re and space = "?space", OF refl dp]
  note on = rules_on_write[OF assms(2), of u ?fits tg' u kinds]
  have "int (rules_on t' u kinds) \<le> max (int (rules_on t u kinds)) n" if "allowed = Some n" for n
  proof -
    have "length ?fits \<le> nat (max 0 (n - int (rules_on t u kinds)))" using b(2) that by simp
    moreover have "rules_on t' u kinds \<le> rules_on t u kinds + length ?fits" using on unfolding t' by blast
    ultimately show ?thesis by (cases "n \<le> int (rules_on t u kinds)") (simp_all add: le_nat_iff)
  qed
  moreover have "v \<noteq> u \<longrightarrow> rules_kept t' v = rules_kept t v"
    unfolding t' using rules_kept_write[OF b(1)] by simp
  ultimately show ?thesis using on b(3)[of v] unfolding t' by (simp split: option.splits)
qed

text \<open>Unfollowing turns off every rule about what was unfollowed and keeps its settings: the same rows
  with the same thresholds and channels, and a rule about anything else, or of anyone else, as it
  was; no rule about it is then on, so nothing is sent for it.\<close>

theorem unfollow_turns_off:
  assumes "tg \<noteq> No_target"
  shows "map (\<lambda>r. r\<lparr>ar_active := False\<rparr>) (rt_rows (on_unfollow t u tg)) = map (\<lambda>r. r\<lparr>ar_active := False\<rparr>) (rt_rows t)
    \<and> filter (\<lambda>r. ar_user r \<noteq> u \<or> ar_target r \<noteq> tg) (rt_rows (on_unfollow t u tg)) = filter (\<lambda>r. ar_user r \<noteq> u \<or> ar_target r \<noteq> tg) (rt_rows t)
    \<and> filter (\<lambda>r. ar_user r = u \<and> ar_target r = tg \<and> ar_active r) (rt_rows (on_unfollow t u tg)) = []"
proof -
  let ?P = "\<lambda>r. ar_user r = u \<and> ar_active r \<and> ar_target r = tg"
  let ?off = "\<lambda>r::alert_rule. r\<lparr>ar_active := False\<rparr>"
  have e: "rt_rows (on_unfollow t u tg) = map (\<lambda>r. if ?P r then ?off r else r) (rt_rows t)"
    using assms by (simp add: on_unfollow_def)
  have "map ?off (map (\<lambda>r. if ?P r then ?off r else r) xs) = map ?off xs" for xs
    by (induction xs) auto
  moreover have "filter (\<lambda>r. ar_user r \<noteq> u \<or> ar_target r \<noteq> tg) (map (\<lambda>r. if ?P r then ?off r else r) xs)
      = filter (\<lambda>r. ar_user r \<noteq> u \<or> ar_target r \<noteq> tg) xs" for xs
    by (induction xs) auto
  moreover have "filter (\<lambda>r. ar_user r = u \<and> ar_target r = tg \<and> ar_active r) (map (\<lambda>r. if ?P r then ?off r else r) xs) = []" for xs
    by (induction xs) auto
  ultimately show ?thesis unfolding e by blast
qed

definition sample_pro :: in_force where
  "sample_pro = Some [(''free'', (sample_plan ''free'' 0)\<lparr>pt_values := map (\<lambda>k. (k, Num 1)) limit_keys @ map (\<lambda>k. (k, Flag True)) flag_keys\<rparr>)]"

definition sample_followed :: rule_table where
  "sample_followed = \<lparr>rt_rows = [\<lparr>ar_id = 1, ar_user = 7, ar_kind = Filer_filed, ar_target = Filer_id 3, ar_min_value = None,
     ar_channels = [In_app, Email], ar_active = True\<rparr>], rt_next = 2\<rparr>"

lemma sample_free:
  "free_value (the sample_pro) ''alerts_instant'' = Inr (Flag True)" "free_value (the sample_pro) ''alert_rules'' = Inr (Num 1)"
  by (simp_all add: sample_pro_def free_value_def catalog_free_def FREE_def limit_keys_def flag_keys_def)

lemma sample_can: "can sample_pro None ''alerts_instant'' 0 0 = Inr True"
  using sample_free(1) by (simp add: can_def sample_pro_def current_def resolve_def live_grant_def flag_keys_def)

lemma sample_limit: "Entitlements.limit sample_pro None ''alert_rules'' 0 0 = Inr (Some 1)"
  using sample_free(2) by (simp add: Entitlements.limit_def sample_pro_def current_def resolve_def live_grant_def limit_keys_def)

lemma sample_kinds: "sent_kinds sample_pro None 0 = Inr (set every_kind)"
  by (simp add: sent_kinds_def sample_can)

lemma sample_follow: "on_follow sample_pro None 0 \<lparr>rt_rows = [], rt_next = 1\<rparr> 7 (Filer_id 3) = Inr sample_followed"
  by (simp add: on_follow_def sample_kinds room_def sample_limit)
    (simp add: every_kind_def investor_presets_def pending_def found_def fitting_pair rules_on_def rules_kept_def
      write_rules_def write_one_def sample_followed_def max_alert_rules_def max_watchlist_items_def Let_def)

lemma follow_keeps_bounds_witness: "rules_on sample_followed 7 (set every_kind) \<le> 1"
  using follow_keeps_bounds[OF sample_follow _ sample_kinds sample_limit, of 7] by (simp add: unique_rules_def rules_on_def)

lemma unfollow_turns_off_witness:
  "filter (\<lambda>r. ar_user r = 7 \<and> ar_target r = Filer_id 3 \<and> ar_active r) (rt_rows (on_unfollow sample_followed 7 (Filer_id 3))) = []"
  using unfollow_turns_off[of "Filer_id 3" sample_followed 7] by simp

end
