(* ===== verification/Outbox.thy ===== *)
theory Outbox
  imports AlertRules Periods
begin

text \<open>
  \<open>app/alerts/outbox.py\<close>: what of a user's waiting alerts is emailed now. The clock rules, the
  decision (\<open>decide\<close>), what a digest says, and the writing of a decision to the tables, one user at a
  time. A zone is a parameter: \<open>clock\<close> gives the wall clock of a moment in the user's zone, which
  Postgres's \<open>timezone()\<close> reads off its zone tables. A run that skips a user whose row another run
  holds is one that does not happen for that user, so decisions of one user come one by one. The
  application's clock and Postgres's \<open>now()\<close> are taken as one. The emails themselves are built elsewhere
  (\<open>app.accounts.mail\<close>); here an email is what it lists, and what is counted is every email a committed
  decision asks for, which \<open>send_due\<close> hands to the courier once at most.

  A history is a list of events: one user's decision, a forgetting, a courier's word, and what others write.
  \<open>decide_due\<close> and \<open>send_due\<close> are such histories (\<open>decide_due_runs\<close>, \<open>send_due_sends\<close>). \<open>recorded\<close> and
  \<open>mailed\<close> are its deliveries and its emails, those since forgotten too, so that what holds of them
  is not undone by a deletion.
\<close>

section \<open>The clock\<close>

abbreviation batch_window :: int where "batch_window \<equiv> 15 * minute_us"
abbreviation digest_at :: time where "digest_at \<equiv> 19 * hour_us"
abbreviation keep_for :: int where "keep_for \<equiv> 35 * day_us"
abbreviation emails_per_day :: nat where "emails_per_day \<equiv> 3"

definition is_quiet :: "time \<Rightarrow> time \<Rightarrow> time \<Rightarrow> bool" where
  "is_quiet clk start till =
     (if start = till then False
      else if start < till then start \<le> clk \<and> clk < till
      else clk \<ge> start \<or> clk < till)"

definition last_digest_time :: "datetime \<Rightarrow> datetime" where
  "last_digest_time local_now =
     (let today = DateTime (dt_date local_now) digest_at
      in if local_now \<ge> today then today else DateTime (prev_day (dt_date local_now)) digest_at)"

definition weekday_name :: "date \<Rightarrow> string" where
  "weekday_name d = [''Monday'', ''Tuesday'', ''Wednesday'', ''Thursday'', ''Friday'', ''Saturday'', ''Sunday''] ! nat (weekday d)"

text \<open>\<open>filed_when\<close> of days that are some; the code asks it of no other.\<close>

definition filed_when :: "date list \<Rightarrow> date \<Rightarrow> string" where
  "filed_when days today =
     (if set days = {today} then ''today''
      else if set days = {prev_day today} then ''yesterday''
      else
        (let earliest = Min (set days) in
         if earliest = prev_day today then ''since yesterday''
         else if toordinal today - toordinal earliest < 7 then ''since '' @ weekday_name earliest
         else ''recently''))"

definition plural :: "nat \<Rightarrow> string \<Rightarrow> string" where
  "plural count word = show_nat count @ '' '' @ (if count = 1 then word else word @ ''s'')"

definition digest_subject :: "nat \<Rightarrow> string \<Rightarrow> nat \<Rightarrow> string" where
  "digest_subject investors whn overflow =
     (if investors = 0 then plural overflow ''more alert''
      else
        show_nat investors @ '' of your investors filed '' @ whn
        @ (if overflow \<noteq> 0 then '', and '' @ plural overflow ''more alert'' else []))"

section \<open>Deciding\<close>

datatype route = Digest_route | Instant_route

text \<open>The keys of a payload that are read here.\<close>

record payload =
  pl_filer_slug :: "string option"
  pl_filer_name :: "string option"
  pl_period :: "string option"

record waiting =
  w_id :: int
  w_rule_id :: int
  w_route :: route
  w_kind :: alert_kind
  w_title :: string
  w_body :: string
  w_payload :: payload
  w_queued_at :: moment
  w_local_queued_at :: datetime
  w_local_filed_at :: "datetime option"
  w_rule_kind :: alert_kind
  w_rule_active :: bool
  w_rule_channels :: "channel list"

definition season :: "waiting \<Rightarrow> bool" where
  "season w = (w_rule_kind w = Season_digest)"

record account =
  a_now :: moment
  a_local_now :: datetime
  a_quiet_start :: time
  a_quiet_end :: time
  a_verified :: bool
  a_sent :: "alert_kind set"
  a_emailed_today :: nat
  a_last_digest :: "datetime option"
  a_digest_emails :: bool
  a_waiting :: "waiting list"

record digest =
  dg_filed :: "waiting list"
  dg_overflow :: "waiting list"
  dg_emailed :: "waiting list"
  dg_rings :: bool
  dg_at :: datetime

definition digest_items :: "digest \<Rightarrow> waiting list" where
  "digest_items d = dg_filed d @ dg_overflow d"

record decision =
  de_dropped :: "waiting list"
  de_overflowed :: "waiting list"
  de_batch :: "waiting list"
  de_digest :: "digest option"

definition emails :: "waiting \<Rightarrow> bool \<Rightarrow> bool" where
  "emails item verified = (Email \<in> set (w_rule_channels item) \<and> verified)"

definition may_go :: "account \<Rightarrow> waiting \<Rightarrow> bool" where
  "may_go a item =
     (if \<not> w_rule_active item \<or> w_rule_kind item \<notin> a_sent a then False
      else if season item then In_app \<in> set (w_rule_channels item) \<or> emails item (a_verified a)
      else emails item (a_verified a))"

text \<open>What may go in the digest that is due: what waits on its route since before its time.\<close>

definition due_items :: "account \<Rightarrow> waiting list \<Rightarrow> waiting list" where
  "due_items a live =
     filter (\<lambda>w. w_local_queued_at w \<le> last_digest_time (a_local_now a)) (filter (\<lambda>w. w_route w = Digest_route) live)"

text \<open>The digest of what is due, and whether it may go: a digest with nothing to email needs no room.\<close>

definition digest_of :: "account \<Rightarrow> waiting list \<Rightarrow> digest" where
  "digest_of a due =
     (let filed = filter season due;
          overflow = filter (\<lambda>w. \<not> season w) due;
          emails_filed = (case filed of [] \<Rightarrow> False | f # _ \<Rightarrow> emails f (a_verified a))
      in \<lparr>dg_filed = filed, dg_overflow = overflow, dg_emailed = (if emails_filed then filed else []) @ overflow,
          dg_rings = (case filed of [] \<Rightarrow> False | f # _ \<Rightarrow> In_app \<in> set (w_rule_channels f)),
          dg_at = last_digest_time (a_local_now a)\<rparr>)"

definition decide_digest :: "account \<Rightarrow> waiting list \<Rightarrow> digest option" where
  "decide_digest a live =
     (let due_at = last_digest_time (a_local_now a);
          done = (case a_last_digest a of None \<Rightarrow> False | Some t \<Rightarrow> t \<ge> due_at);
          due = due_items a live
      in if due \<noteq> [] \<and> \<not> done then
           (let d = digest_of a due in
            if dg_emailed d = [] \<or> a_emailed_today a < emails_per_day then Some d else None)
         else None)"

text \<open>Whether the batch's window has closed, from the first item waiting.\<close>

definition window_closed :: "account \<Rightarrow> waiting list \<Rightarrow> bool" where
  "window_closed a instant = (instant \<noteq> [] \<and> Min (w_queued_at ` set instant) + batch_window \<le> a_now a)"

definition digest_ahead :: "account \<Rightarrow> waiting list \<Rightarrow> digest option \<Rightarrow> bool" where
  "digest_ahead a live dg =
     (let taken = (case dg of None \<Rightarrow> {} | Some d \<Rightarrow> w_id ` set (digest_items d));
          ahead = filter (\<lambda>w. w_id w \<notin> taken) (filter (\<lambda>w. w_route w = Digest_route) live)
      in dt_time (a_local_now a) < digest_at \<and>
         (list_ex (\<lambda>w. \<not> season w \<or> a_digest_emails a) ahead
          \<or> a_digest_emails a \<and> in_filing_window (dt_date (a_local_now a))))"

definition decide :: "account \<Rightarrow> decision" where
  "decide a =
     (let live = filter (may_go a) (a_waiting a);
          none = \<lparr>de_dropped = filter (\<lambda>w. \<not> may_go a w) (a_waiting a), de_overflowed = [], de_batch = [], de_digest = None\<rparr>
      in if is_quiet (dt_time (a_local_now a)) (a_quiet_start a) (a_quiet_end a) then none
         else
           (let dg = decide_digest a live;
                emailed = a_emailed_today a + (case dg of None \<Rightarrow> 0 | Some d \<Rightarrow> of_bool (dg_emailed d \<noteq> []));
                instant = filter (\<lambda>w. w_route w = Instant_route) live
            in if window_closed a instant
               then (if emailed + of_bool (digest_ahead a live dg) < emails_per_day
                     then none\<lparr>de_batch := instant, de_digest := dg\<rparr>
                     else none\<lparr>de_overflowed := instant, de_digest := dg\<rparr>)
               else none\<lparr>de_digest := dg\<rparr>))"

section \<open>What a digest says\<close>

text \<open>\<open>_period\<close>: \<open>max\<close> of the periods by count and then by label; an empty period counts for nothing.\<close>

definition digest_period :: "waiting list \<Rightarrow> string option" where
  "digest_period filed =
     (let ps = filter (\<lambda>p. p \<noteq> []) (List.map_filter (\<lambda>w. pl_period (w_payload w)) filed) in
      if ps = [] then None
      else Some (snd (Max ((\<lambda>p. (length (filter ((=) p) ps), p)) ` set ps))))"

definition digest_title :: "digest \<Rightarrow> date \<Rightarrow> string" where
  "digest_title d today =
     (let investors = remdups (map (\<lambda>w. pl_filer_slug (w_payload w)) (dg_filed d));
          days = map dt_date (List.map_filter w_local_filed_at (dg_filed d))
      in digest_subject (length investors) (if days \<noteq> [] then filed_when days today else ''today'') (length (dg_overflow d)))"

datatype body_error = Nothing_filed

text \<open>
  \<open>payload.get("filer_name") or payload["filer_slug"]\<close>, as a string. Every payload has the key, by
  \<open>PAYLOAD_KEYS\<close>; a null slug prints as \<open>None\<close>.
\<close>

definition filer_said :: "waiting \<Rightarrow> string" where
  "filer_said w =
     (case pl_filer_name (w_payload w) of
        Some (c # cs) \<Rightarrow> c # cs
      | _ \<Rightarrow> (case pl_filer_slug (w_payload w) of Some s \<Rightarrow> s | None \<Rightarrow> ''None''))"

fun join_comma :: "string list \<Rightarrow> string" where
  "join_comma [] = []"
| "join_comma [s] = s"
| "join_comma (s # ss) = s @ '', '' @ join_comma ss"

definition digest_body :: "digest \<Rightarrow> body_error + string" where
  "digest_body d =
     (let names = sort (remdups (map filer_said (dg_filed d)));
          shown = take 3 names @ (if length names > 3 then [show_nat (length names - 3) @ '' more''] else [])
      in case shown of
           [] \<Rightarrow> Inl Nothing_filed
         | [s] \<Rightarrow> Inr (s @ '' filed their 13F.'')
         | _ \<Rightarrow> Inr (join_comma (butlast shown) @ '' and '' @ last shown @ '' filed their 13F.''))"

section \<open>The tables\<close>

record outbox_row =
  ob_id :: int
  ob_user :: int
  ob_rule_id :: int
  ob_route :: route
  ob_kind :: alert_kind
  ob_title :: string
  ob_body :: string
  ob_payload :: payload
  ob_queued_at :: moment
  ob_filed_at :: "moment option"
  ob_settled_at :: "moment option"
  ob_delivery :: "int option"

datatype delivery_kind = Batch_delivery | Digest_delivery

record delivery_row =
  dl_id :: int
  dl_user :: int
  dl_kind :: delivery_kind
  dl_local_at :: datetime
  dl_sent_at :: moment
  dl_items :: nat
  dl_emailed :: bool
  dl_status :: "string option"
  dl_notification :: "int option"

record bell_row =
  nb_id :: int
  nb_user :: int
  nb_title :: string
  nb_body :: string
  nb_evening :: date
  nb_period :: "string option"
  nb_investors :: "string list"

record user_row =
  u_id :: int
  u_email :: string
  u_verified :: bool
  u_deleted :: bool
  u_quiet_start :: time
  u_quiet_end :: time
  u_zone :: string
  u_grant :: "grant option"

record tables =
  tb_users :: "user_row list"
  tb_rules :: rule_table
  tb_outbox :: "outbox_row list"
  tb_deliveries :: "delivery_row list"
  tb_bell :: "bell_row list"
  tb_next_delivery :: int
  tb_next_bell :: int

text \<open>An email to send once the decision has committed, as what it lists.\<close>

datatype outgoing =
    Batch_mail "waiting list"
  | Digest_mail string "waiting list" "waiting list" "string option"

record due =
  du_delivery :: int
  du_to :: string
  du_mail :: outgoing

record decided =
  dc_users :: nat
  dc_due :: "due list"
  dc_batches :: nat
  dc_digests :: nat
  dc_overflowed :: nat
  dc_dropped :: nat
  dc_rang :: "int list"

datatype outbox_error = Grant_error ent_error | Body_error body_error

type_synonym clock = "string \<Rightarrow> moment \<Rightarrow> datetime"

section \<open>Reading an account\<close>

definition waiting_row :: "clock \<Rightarrow> string \<Rightarrow> outbox_row \<Rightarrow> alert_rule \<Rightarrow> waiting" where
  "waiting_row clock zone r rule =
     \<lparr>w_id = ob_id r, w_rule_id = ob_rule_id r, w_route = ob_route r, w_kind = ob_kind r, w_title = ob_title r,
      w_body = ob_body r, w_payload = ob_payload r, w_queued_at = ob_queued_at r,
      w_local_queued_at = clock zone (ob_queued_at r), w_local_filed_at = map_option (clock zone) (ob_filed_at r),
      w_rule_kind = ar_kind rule, w_rule_active = ar_active rule, w_rule_channels = ar_channels rule\<rparr>"

text \<open>The query of what waits: joined to its rule, the newest first.\<close>

definition waiting_of :: "clock \<Rightarrow> string \<Rightarrow> tables \<Rightarrow> int \<Rightarrow> waiting list" where
  "waiting_of clock zone tb u =
     List.map_filter
       (\<lambda>r. map_option (waiting_row clock zone r) (find (\<lambda>x. ar_id x = ob_rule_id r) (rt_rows (tb_rules tb))))
       (rev (sort_key ob_id (filter (\<lambda>r. ob_user r = u \<and> ob_settled_at r = None) (tb_outbox tb))))"

definition emailed_on :: "tables \<Rightarrow> int \<Rightarrow> date \<Rightarrow> nat" where
  "emailed_on tb u d =
     (let day_start = DateTime d 0 in
      length (filter (\<lambda>r. dl_user r = u \<and> dl_emailed r \<and> dl_local_at r \<ge> day_start \<and> dl_local_at r < DateTime (next_day d) 0)
        (tb_deliveries tb)))"

definition max_of :: "'a::linorder list \<Rightarrow> 'a option" where
  "max_of xs = (case xs of [] \<Rightarrow> None | _ \<Rightarrow> Some (Max (set xs)))"

definition last_digest :: "tables \<Rightarrow> int \<Rightarrow> datetime option" where
  "last_digest tb u =
     max_of (map dl_local_at (filter (\<lambda>r. dl_user r = u \<and> dl_kind r = Digest_delivery) (tb_deliveries tb)))"

definition digest_rule_emails :: "tables \<Rightarrow> int \<Rightarrow> bool" where
  "digest_rule_emails tb u =
     list_ex (\<lambda>r. ar_user r = u \<and> ar_kind r = Season_digest \<and> ar_active r \<and> Email \<in> set (ar_channels r)) (rt_rows (tb_rules tb))"

definition read_account :: "in_force \<Rightarrow> clock \<Rightarrow> tables \<Rightarrow> int \<Rightarrow> moment \<Rightarrow> outbox_error + (account \<times> string) option" where
  "read_account cat clock tb u now =
     (case find (\<lambda>x. u_id x = u \<and> \<not> u_deleted x) (tb_users tb) of
        None \<Rightarrow> Inr None
      | Some user \<Rightarrow>
          (case sent_kinds cat (Some (u_grant user)) now of
             Inl e \<Rightarrow> Inl (Grant_error e)
           | Inr sent \<Rightarrow>
               (let local_now = clock (u_zone user) now in
                Inr (Some (\<lparr>a_now = now, a_local_now = local_now, a_quiet_start = u_quiet_start user,
                   a_quiet_end = u_quiet_end user, a_verified = u_verified user, a_sent = sent,
                   a_emailed_today = emailed_on tb u (dt_date local_now), a_last_digest = last_digest tb u,
                   a_digest_emails = (digest_rule_emails tb u \<and> u_verified user),
                   a_waiting = waiting_of clock (u_zone user) tb u\<rparr>, u_email user)))))"

section \<open>Writing a decision\<close>

definition settle :: "waiting list \<Rightarrow> moment \<Rightarrow> int option \<Rightarrow> tables \<Rightarrow> tables" where
  "settle items now delivery tb =
     tb\<lparr>tb_outbox := map (\<lambda>r. if ob_id r \<in> w_id ` set items then r\<lparr>ob_settled_at := Some now, ob_delivery := delivery\<rparr> else r)
          (tb_outbox tb)\<rparr>"

definition reroute :: "waiting list \<Rightarrow> tables \<Rightarrow> tables" where
  "reroute items tb =
     tb\<lparr>tb_outbox := map (\<lambda>r. if ob_id r \<in> w_id ` set items then r\<lparr>ob_route := Digest_route\<rparr> else r) (tb_outbox tb)\<rparr>"

definition ring :: "int \<Rightarrow> digest \<Rightarrow> string \<Rightarrow> string option \<Rightarrow> tables \<Rightarrow> body_error + tables \<times> int option" where
  "ring u d title period tb =
     bind_res (digest_body d) (\<lambda>body.
       if list_ex (\<lambda>n. nb_user n = u \<and> nb_evening n = dt_date (dg_at d)) (tb_bell tb) then Inr (tb, None)
       else Inr (tb\<lparr>tb_bell := tb_bell tb @ [\<lparr>nb_id = tb_next_bell tb, nb_user = u, nb_title = title, nb_body = body,
                       nb_evening = dt_date (dg_at d), nb_period = period,
                       nb_investors = sort (remdups (map (\<lambda>w. case pl_filer_slug (w_payload w) of Some s \<Rightarrow> s | None \<Rightarrow> ''None'') (dg_filed d)))\<rparr>],
                   tb_next_bell := tb_next_bell tb + 1\<rparr>, Some (tb_next_bell tb)))"

definition deliver :: "int \<Rightarrow> delivery_kind \<Rightarrow> account \<Rightarrow> waiting list \<Rightarrow> bool \<Rightarrow> int option \<Rightarrow> tables \<Rightarrow> tables" where
  "deliver u kind a items emailed notification tb =
     settle items (a_now a) (Some (tb_next_delivery tb))
       (tb\<lparr>tb_deliveries := tb_deliveries tb @ [\<lparr>dl_id = tb_next_delivery tb, dl_user = u, dl_kind = kind,
              dl_local_at = a_local_now a, dl_sent_at = a_now a, dl_items = length items, dl_emailed = emailed,
              dl_status = None, dl_notification = notification\<rparr>],
           tb_next_delivery := tb_next_delivery tb + 1\<rparr>)"

definition write_digest :: "int \<Rightarrow> account \<Rightarrow> string \<Rightarrow> digest \<Rightarrow> tables \<times> decided \<Rightarrow> body_error + tables \<times> decided" where
  "write_digest u a address d td =
     (case td of (tb, dc) \<Rightarrow>
        (let title = digest_title d (dt_date (a_local_now a)); period = digest_period (dg_filed d) in
         bind_res (if dg_rings d then ring u d title period tb else Inr (tb, None)) (\<lambda>(tb1, rang).
           let tb2 = deliver u Digest_delivery a (digest_items d) (dg_emailed d \<noteq> []) rang tb1;
               listed = w_id ` set (dg_emailed d);
               mail = Digest_mail title (filter (\<lambda>w. w_id w \<in> listed) (dg_filed d)) (dg_overflow d) period
           in Inr (tb2, dc\<lparr>dc_rang := dc_rang dc @ (case rang of None \<Rightarrow> [] | Some _ \<Rightarrow> [u]), dc_digests := dc_digests dc + 1,
                dc_due := dc_due dc @ (if dg_emailed d \<noteq> []
                  then [\<lparr>du_delivery = tb_next_delivery tb1, du_to = address, du_mail = mail\<rparr>] else [])\<rparr>))))"

definition write_batch :: "int \<Rightarrow> account \<Rightarrow> string \<Rightarrow> waiting list \<Rightarrow> tables \<times> decided \<Rightarrow> tables \<times> decided" where
  "write_batch u a address batch td =
     (case td of (tb, dc) \<Rightarrow>
        if batch = [] then td
        else (deliver u Batch_delivery a batch True None tb,
              dc\<lparr>dc_batches := dc_batches dc + 1,
                 dc_due := dc_due dc @ [\<lparr>du_delivery = tb_next_delivery tb, du_to = address, du_mail = Batch_mail batch\<rparr>]\<rparr>))"

definition write_decision :: "int \<Rightarrow> account \<Rightarrow> string \<Rightarrow> decision \<Rightarrow> tables \<times> decided \<Rightarrow> body_error + tables \<times> decided" where
  "write_decision u a address de td =
     (case td of (tb, dc) \<Rightarrow>
        (let tb1 = settle (de_dropped de) (a_now a) None tb;
             dc1 = dc\<lparr>dc_users := dc_users dc + 1, dc_dropped := dc_dropped dc + length (de_dropped de)\<rparr>;
             tb2 = (if de_overflowed de \<noteq> [] then reroute (de_overflowed de) tb1 else tb1);
             dc2 = dc1\<lparr>dc_overflowed := dc_overflowed dc1 + length (de_overflowed de)\<rparr>
         in map_res (write_batch u a address (de_batch de))
              (case de_digest de of None \<Rightarrow> Inr (tb2, dc2) | Some d \<Rightarrow> write_digest u a address d (tb2, dc2))))"

definition decide_for :: "in_force \<Rightarrow> clock \<Rightarrow> int \<Rightarrow> moment \<Rightarrow> tables \<times> decided \<Rightarrow> outbox_error + tables \<times> decided" where
  "decide_for cat clock u now td =
     bind_res (read_account cat clock (fst td) u now) (\<lambda>got.
       case got of
         None \<Rightarrow> Inr td
       | Some (a, address) \<Rightarrow>
           (case write_decision u a address (decide a) td of Inl e \<Rightarrow> Inl (Body_error e) | Inr r \<Rightarrow> Inr r))"

text \<open>\<open>_forget\<close>: a deleted delivery takes its items with it.\<close>

definition forget :: "moment \<Rightarrow> tables \<Rightarrow> tables" where
  "forget now tb =
     (let before = now - keep_for;
          gone = dl_id ` set (filter (\<lambda>r. dl_sent_at r < before) (tb_deliveries tb))
      in tb\<lparr>tb_deliveries := filter (\<lambda>r. \<not> dl_sent_at r < before) (tb_deliveries tb),
            tb_outbox := filter (\<lambda>r. \<not> (case ob_delivery r of Some i \<Rightarrow> i \<in> gone
                 | None \<Rightarrow> (case ob_settled_at r of None \<Rightarrow> False | Some t \<Rightarrow> t < before))) (tb_outbox tb)\<rparr>)"

text \<open>
  \<open>decide_due\<close>: each user with something waiting, in the order of their ids, committed on its own.
  An error rolls back its user, is raised, and leaves the commits before it: the tables, what was
  decided, and the error.
\<close>

fun decide_users :: "in_force \<Rightarrow> clock \<Rightarrow> moment \<Rightarrow> int list \<Rightarrow> tables \<times> decided \<Rightarrow> (tables \<times> decided) \<times> outbox_error option" where
  "decide_users cat clock now [] td = (td, None)"
| "decide_users cat clock now (u # us) td =
     (case decide_for cat clock u now td of Inl e \<Rightarrow> (td, Some e) | Inr td' \<Rightarrow> decide_users cat clock now us td')"

definition nothing_decided :: decided where
  "nothing_decided = \<lparr>dc_users = 0, dc_due = [], dc_batches = 0, dc_digests = 0, dc_overflowed = 0, dc_dropped = 0, dc_rang = []\<rparr>"

definition decide_due :: "in_force \<Rightarrow> clock \<Rightarrow> moment \<Rightarrow> tables \<Rightarrow> tables \<times> (outbox_error + decided)" where
  "decide_due cat clock now tb =
     (let us = sort (remdups (map ob_user (filter (\<lambda>r. ob_settled_at r = None) (tb_outbox tb)))) in
      (case decide_users cat clock now us (tb, nothing_decided) of
         ((tb', dc), Some e) \<Rightarrow> (tb', Inl e)
       | ((tb', dc), None) \<Rightarrow> (forget now tb', Inr dc)))"

text \<open>\<open>send_due\<close>: what the courier said of an email, if anything, is kept on its delivery.\<close>

definition mark_sent :: "(due \<Rightarrow> string option) \<Rightarrow> tables \<Rightarrow> due \<Rightarrow> tables" where
  "mark_sent courier tb d =
     (case courier d of None \<Rightarrow> tb
      | Some status \<Rightarrow> tb\<lparr>tb_deliveries := map (\<lambda>r. if dl_id r = du_delivery d then r\<lparr>dl_status := Some status\<rparr> else r) (tb_deliveries tb)\<rparr>)"

definition send_due :: "(due \<Rightarrow> string option) \<Rightarrow> decided \<Rightarrow> tables \<Rightarrow> tables \<times> string option list" where
  "send_due courier dc tb = (foldl (mark_sent courier) tb (dc_due dc), map courier (dc_due dc))"

section \<open>What a decision does\<close>

lemma digest_of_fields:
  "digest_items (digest_of a due) = filter season due @ filter (\<lambda>w. \<not> season w) due"
  "set (dg_emailed (digest_of a due)) \<subseteq> set due" "dg_at (digest_of a due) = last_digest_time (a_local_now a)"
  "dg_rings (digest_of a due) \<Longrightarrow> dg_filed (digest_of a due) \<noteq> []"
  by (auto simp: digest_of_def digest_items_def Let_def)

lemma digest_of_items [simp]: "set (digest_items (digest_of a due)) = set due" "digest_items (digest_of a due) = [] \<longleftrightarrow> due = []"
  by (auto simp: digest_of_fields filter_empty_conv)

lemma digest_of_distinct: "distinct (map w_id due) \<Longrightarrow> distinct (map w_id (digest_items (digest_of a due)))"
  by (auto simp: digest_of_fields distinct_map_filter distinct_map inj_on_def)

lemma decide_digest_Some:
  assumes "decide_digest a live = Some d"
  shows "d = digest_of a (due_items a live)" "due_items a live \<noteq> []"
    "dg_emailed d = [] \<or> a_emailed_today a < emails_per_day"
    "case a_last_digest a of None \<Rightarrow> True | Some t \<Rightarrow> t < last_digest_time (a_local_now a)"
  using assms by (auto simp: decide_digest_def Let_def not_le split: if_splits option.splits)

definition taken_items :: "decision \<Rightarrow> waiting list" where
  "taken_items de = de_batch de @ (case de_digest de of None \<Rightarrow> [] | Some d \<Rightarrow> digest_items d)"

lemmas decide_unfold = decide_def Let_def

lemma decide_parts:
  "de_dropped (decide a) = filter (\<lambda>w. \<not> may_go a w) (a_waiting a)"
  "de_batch (decide a) \<in> {[], filter (\<lambda>w. w_route w = Instant_route) (filter (may_go a) (a_waiting a))}"
  "de_overflowed (decide a) \<in> {[], filter (\<lambda>w. w_route w = Instant_route) (filter (may_go a) (a_waiting a))}"
  "de_batch (decide a) = [] \<or> de_overflowed (decide a) = []"
  "de_digest (decide a) \<in> {None, decide_digest a (filter (may_go a) (a_waiting a))}"
  by (auto simp: decide_unfold simp del: filter_filter)

lemma decide_batch:
  "de_batch (decide a) =
     (let live = filter (may_go a) (a_waiting a); inst = filter (\<lambda>w. w_route w = Instant_route) live; dg = decide_digest a live in
      if \<not> is_quiet (dt_time (a_local_now a)) (a_quiet_start a) (a_quiet_end a) \<and> window_closed a inst
         \<and> a_emailed_today a + (case dg of None \<Rightarrow> 0 | Some d \<Rightarrow> of_bool (dg_emailed d \<noteq> [])) + of_bool (digest_ahead a live dg) < emails_per_day
      then inst else [])"
  by (simp add: decide_unfold del: filter_filter)

lemma if_nonempty: "(if c then xs else []) \<noteq> [] \<Longrightarrow> c \<and> (if c then xs else []) = xs"
  by (simp split: if_splits)

lemma decide_batch_nonempty:
  assumes "de_batch (decide a) \<noteq> []"
  shows "(\<not> is_quiet (dt_time (a_local_now a)) (a_quiet_start a) (a_quiet_end a)
     \<and> window_closed a (filter (\<lambda>w. w_route w = Instant_route) (filter (may_go a) (a_waiting a)))
     \<and> a_emailed_today a + (case decide_digest a (filter (may_go a) (a_waiting a)) of None \<Rightarrow> 0 | Some d \<Rightarrow> of_bool (dg_emailed d \<noteq> []))
         + of_bool (digest_ahead a (filter (may_go a) (a_waiting a)) (decide_digest a (filter (may_go a) (a_waiting a)))) < emails_per_day)
     \<and> de_batch (decide a) = filter (\<lambda>w. w_route w = Instant_route) (filter (may_go a) (a_waiting a))"
  using assms unfolding decide_batch Let_def by (rule if_nonempty)

lemma decide_cap:
  "a_emailed_today a + (case de_digest (decide a) of None \<Rightarrow> 0 | Some d \<Rightarrow> of_bool (dg_emailed d \<noteq> [])) + of_bool (de_batch (decide a) \<noteq> [])
    \<le> max (a_emailed_today a) emails_per_day"
proof -
  let ?live = "filter (may_go a) (a_waiting a)"
  have "(case decide_digest a ?live of None \<Rightarrow> 0 | Some d \<Rightarrow> of_bool (dg_emailed d \<noteq> []))
      \<le> (if a_emailed_today a < emails_per_day then 1 else (0::nat))"
    using decide_digest_Some(3)[of a ?live] by (cases "decide_digest a ?live") auto
  then show ?thesis by (auto simp: decide_unfold simp del: filter_filter split: if_splits)
qed

section \<open>What writing changes\<close>

lemma settle_fields [simp]:
  "tb_deliveries (settle items now i tb) = tb_deliveries tb" "tb_rules (settle items now i tb) = tb_rules tb"
  "tb_users (settle items now i tb) = tb_users tb" "tb_next_delivery (settle items now i tb) = tb_next_delivery tb"
  "tb_deliveries (reroute items tb) = tb_deliveries tb" "tb_next_delivery (reroute items tb) = tb_next_delivery tb"
  by (simp_all add: settle_def reroute_def)

definition delivery_of :: "int \<Rightarrow> account \<Rightarrow> delivery_kind \<Rightarrow> bool \<Rightarrow> delivery_row \<Rightarrow> bool" where
  "delivery_of u a k emailed r =
     (dl_user r = u \<and> dl_local_at r = a_local_now a \<and> dl_sent_at r = a_now a \<and> dl_kind r = k \<and> dl_emailed r = emailed)"

text \<open>The delivery an email is of, and the kind of it.\<close>

fun mail_kind :: "outgoing \<Rightarrow> delivery_kind" where
  "mail_kind (Batch_mail _) = Batch_delivery"
| "mail_kind (Digest_mail _ _ _ _) = Digest_delivery"

definition mail_of :: "delivery_row list \<Rightarrow> due list \<Rightarrow> bool" where
  "mail_of rs ms \<longleftrightarrow> map (\<lambda>m. (du_delivery m, mail_kind (du_mail m))) ms = map (\<lambda>r. (dl_id r, dl_kind r)) (filter dl_emailed rs)"

lemma deliver_deliveries:
  "\<exists>r. tb_deliveries (deliver u k a items emailed n tb) = tb_deliveries tb @ [r] \<and> delivery_of u a k emailed r \<and> dl_id r = tb_next_delivery tb"
  by (simp add: deliver_def delivery_of_def)

lemma ring_deliveries: "ring u d title period tb = Inr (tb', n) \<Longrightarrow> tb_deliveries tb' = tb_deliveries tb"
  by (auto simp: ring_def bind_res_Inr_iff split: if_splits)

lemma write_digest_deliveries:
  assumes "write_digest u a address d (tb, dc) = Inr (tb', dc')"
  shows "\<exists>r ms. tb_deliveries tb' = tb_deliveries tb @ [r] \<and> delivery_of u a Digest_delivery (dg_emailed d \<noteq> []) r
    \<and> dc_due dc' = dc_due dc @ ms \<and> mail_of [r] ms"
proof -
  obtain tb1 rang where r: "(if dg_rings d then ring u d (digest_title d (dt_date (a_local_now a))) (digest_period (dg_filed d)) tb else Inr (tb, None))
      = Inr (tb1, rang)" and t: "tb' = deliver u Digest_delivery a (digest_items d) (dg_emailed d \<noteq> []) rang tb1"
    and m: "\<exists>title fs os p. dc_due dc' = dc_due dc @ (if dg_emailed d \<noteq> []
        then [\<lparr>du_delivery = tb_next_delivery tb1, du_to = address, du_mail = Digest_mail title fs os p\<rparr>] else [])"
    using assms by (fastforce simp: write_digest_def Let_def bind_res_Inr_iff)
  then have "tb_deliveries tb1 = tb_deliveries tb" by (auto dest: ring_deliveries split: if_splits)
  then obtain row where "tb_deliveries tb' = tb_deliveries tb @ [row]" "delivery_of u a Digest_delivery (dg_emailed d \<noteq> []) row"
    "dl_id row = tb_next_delivery tb1"
    using deliver_deliveries[of u Digest_delivery a "digest_items d" "dg_emailed d \<noteq> []" rang tb1] t by auto
  then show ?thesis using m by (cases "dg_emailed d = []") (auto simp: mail_of_def delivery_of_def)
qed

lemma write_batch_deliveries:
  assumes "write_batch u a address b (tb, dc) = (tb', dc')"
  shows "\<exists>rs ms. tb_deliveries tb' = tb_deliveries tb @ rs \<and> dc_due dc' = dc_due dc @ ms \<and> mail_of rs ms
     \<and> (if b = [] then rs = [] else \<exists>r. rs = [r] \<and> delivery_of u a Batch_delivery True r)"
proof (cases "b = []")
  case True
  then show ?thesis using assms by (simp add: write_batch_def mail_of_def)
next
  case False
  then show ?thesis using assms deliver_deliveries[of u Batch_delivery a b True None tb]
    by (auto simp: write_batch_def mail_of_def delivery_of_def)
qed

lemma write_decision_deliveries:
  assumes "write_decision u a address de (tb, dc) = Inr (tb', dc')"
  shows "\<exists>ds bs ms. tb_deliveries tb' = tb_deliveries tb @ ds @ bs \<and> dc_due dc' = dc_due dc @ ms \<and> mail_of (ds @ bs) ms
     \<and> (case de_digest de of None \<Rightarrow> ds = [] | Some d \<Rightarrow> \<exists>r. ds = [r] \<and> delivery_of u a Digest_delivery (dg_emailed d \<noteq> []) r)
     \<and> (if de_batch de = [] then bs = [] else \<exists>r. bs = [r] \<and> delivery_of u a Batch_delivery True r)"
proof -
  let ?tb2 = "if de_overflowed de \<noteq> [] then reroute (de_overflowed de) (settle (de_dropped de) (a_now a) None tb)
      else settle (de_dropped de) (a_now a) None tb"
  obtain tb3 dc2 dc3 where w: "(case de_digest de of None \<Rightarrow> Inr (?tb2, dc2) | Some d \<Rightarrow> write_digest u a address d (?tb2, dc2)) = Inr (tb3, dc3)"
    and b: "(tb', dc') = write_batch u a address (de_batch de) (tb3, dc3)" and dc2: "dc_due dc2 = dc_due dc"
    using assms unfolding write_decision_def Let_def prod.case map_res_Inr_iff split_paired_Ex by auto
  obtain ds ms where ds: "tb_deliveries tb3 = tb_deliveries ?tb2 @ ds" "dc_due dc3 = dc_due dc2 @ ms" "mail_of ds ms"
    "case de_digest de of None \<Rightarrow> ds = [] | Some d \<Rightarrow> \<exists>r. ds = [r] \<and> delivery_of u a Digest_delivery (dg_emailed d \<noteq> []) r"
  proof (cases "de_digest de")
    case None
    then show thesis using w by (intro that[of "[]" "[]"]) (simp_all add: mail_of_def)
  next
    case (Some d)
    then show thesis using w write_digest_deliveries[of u a address d ?tb2 dc2 tb3 dc3] that by fastforce
  qed
  have "tb_deliveries ?tb2 = tb_deliveries tb" by simp
  moreover obtain bs ns where "tb_deliveries tb' = tb_deliveries tb3 @ bs" "dc_due dc' = dc_due dc3 @ ns" "mail_of bs ns"
    "if de_batch de = [] then bs = [] else \<exists>r. bs = [r] \<and> delivery_of u a Batch_delivery True r"
    using write_batch_deliveries[OF b[symmetric]] by blast
  ultimately show ?thesis using ds dc2
    by (intro exI[of _ ds] exI[of _ bs] exI[of _ "ms @ ns"]) (simp add: mail_of_def)
qed

section \<open>The cap and the one digest\<close>

definition wall_clock :: "datetime \<Rightarrow> bool" where
  "wall_clock t = (valid_date (dt_date t) \<and> 0 \<le> dt_time t \<and> dt_time t < day_us)"

text \<open>A wall clock as if it were UTC's, and a moment it can be the wall clock of: no zone is a day from UTC.\<close>

definition wall_us :: "datetime \<Rightarrow> int" where
  "wall_us t = midnight_utc (dt_date t) + dt_time t"

definition near :: "moment \<Rightarrow> datetime \<Rightarrow> bool" where
  "near m t = (\<bar>wall_us t - m\<bar> \<le> day_us)"

text \<open>
  What the code relies on of Postgres's \<open>timezone()\<close>, at a moment: in every zone it is a time of a day of the
  calendar, and within a day of the moment.
\<close>

definition clock_ok :: "clock \<Rightarrow> moment \<Rightarrow> bool" where
  "clock_ok clock m = (\<forall>z. wall_clock (clock z m) \<and> near m (clock z m))"

text \<open>A user's deliveries with an email on one of their days, and the digests with the evening each is of.\<close>

definition day_rows :: "delivery_row list \<Rightarrow> int \<Rightarrow> date \<Rightarrow> delivery_row list" where
  "day_rows rs u d = filter (\<lambda>r. dl_user r = u \<and> dl_emailed r \<and> dt_date (dl_local_at r) = d) rs"

definition evenings :: "delivery_row list \<Rightarrow> (int \<times> datetime) list" where
  "evenings rs = map (\<lambda>r. (dl_user r, last_digest_time (dl_local_at r))) (filter (\<lambda>r. dl_kind r = Digest_delivery) rs)"

definition deliveries_ok :: "delivery_row list \<Rightarrow> bool" where
  "deliveries_ok rs \<longleftrightarrow> (\<forall>u d. length (day_rows rs u d) \<le> emails_per_day) \<and> distinct (evenings rs)
     \<and> (\<forall>r\<in>set rs. wall_clock (dl_local_at r) \<and> near (dl_sent_at r) (dl_local_at r))"

lemma between_days:
  assumes "valid_date d" "valid_date e" "d \<le> e" "e < next_day d"
  shows "e = d"
  using assms by (cases d; cases e) (auto simp: date_order next_day_def valid_date_def split: if_splits)

lemma emailed_on_day:
  assumes "\<forall>r\<in>set (tb_deliveries tb). wall_clock (dl_local_at r)" "valid_date d"
  shows "emailed_on tb u d = length (day_rows (tb_deliveries tb) u d)"
proof -
  have "(dl_local_at r \<ge> DateTime d 0 \<and> dl_local_at r < DateTime (next_day d) 0) = (dt_date (dl_local_at r) = d)"
    if "r \<in> set (tb_deliveries tb)" for r
  proof -
    let ?t = "dl_local_at r"
    have v: "valid_date (dt_date ?t)" "0 \<le> dt_time ?t" using assms(1) that by (auto simp: wall_clock_def)
    have "d < next_day d" by (rule next_day_greater[OF assms(2)])
    then show ?thesis using v(2) between_days[OF assms(2) v(1)] by (auto simp: datetime_order less_imp_le)
  qed
  then show ?thesis unfolding emailed_on_def day_rows_def Let_def
    by (intro arg_cong[where f = length] filter_cong) auto
qed

lemma prev_day_less: "prev_day d < d"
  by (auto simp: prev_day_def date_order)

lemma last_digest_time_le: "last_digest_time t \<le> t"
  using prev_day_less[of "dt_date t"] by (auto simp: last_digest_time_def Let_def datetime_order)

text \<open>Wall clocks of one day, or of one evening, are less than two days apart.\<close>

lemma same_day_wall: "wall_clock a \<Longrightarrow> wall_clock b \<Longrightarrow> dt_date a = dt_date b \<Longrightarrow> \<bar>wall_us a - wall_us b\<bar> < 2 * day_us"
  by (auto simp: wall_us_def wall_clock_def)

lemma same_evening_wall:
  assumes "wall_clock a" "wall_clock b" "last_digest_time a = last_digest_time b"
  shows "\<bar>wall_us a - wall_us b\<bar> < 2 * day_us"
proof -
  have v: "valid_date (dt_date a)" "valid_date (dt_date b)" using assms(1,2) by (simp_all add: wall_clock_def)
  have e: "dt_date (last_digest_time t) = dt_date t \<or> dt_date (last_digest_time t) = prev_day (dt_date t)" for t
    by (simp add: last_digest_time_def Let_def)
  have "dt_date a = dt_date b \<or> dt_date a = next_day (dt_date b) \<or> dt_date b = next_day (dt_date a)"
    using e[of a] e[of b] assms(3) next_day_prev_day[OF v(1)] next_day_prev_day[OF v(2)] by metis
  then have o: "\<bar>toordinal (dt_date a) - toordinal (dt_date b)\<bar> \<le> 1"
    using toordinal_next_day[OF v(1)] toordinal_next_day[OF v(2)] by (elim disjE) simp_all
  have "wall_us a - wall_us b = (toordinal (dt_date a) - toordinal (dt_date b)) * day_us + (dt_time a - dt_time b)"
    by (simp add: wall_us_def midnight_utc_def algebra_simps)
  moreover have "0 \<le> dt_time a" "dt_time a < day_us" "0 \<le> dt_time b" "dt_time b < day_us"
    using assms(1,2) by (simp_all add: wall_clock_def)
  moreover have "\<bar>(toordinal (dt_date a) - toordinal (dt_date b)) * day_us\<bar> \<le> 1 * day_us"
    unfolding abs_mult by (rule mult_mono[OF o]) simp_all
  ultimately show ?thesis unfolding abs_less_iff abs_le_iff by (intro conjI; linarith)
qed

lemma max_of_less:
  assumes "case max_of xs of None \<Rightarrow> True | Some m \<Rightarrow> m < b" "x \<in> set xs"
  shows "x < b"
  using assms Max_ge[of "set xs" x] by (cases xs) (auto simp: max_of_def simp del: Max_ge intro: le_less_trans)

text \<open>The wall clock of a user at a moment, as the query reads it.\<close>

definition local_now_of :: "clock \<Rightarrow> tables \<Rightarrow> int \<Rightarrow> moment \<Rightarrow> datetime" where
  "local_now_of clock tb u now =
     clock (case find (\<lambda>x. u_id x = u \<and> \<not> u_deleted x) (tb_users tb) of None \<Rightarrow> [] | Some x \<Rightarrow> u_zone x) now"

lemma read_account_fields:
  assumes "read_account cat clock tb u now = Inr (Some (a, address))"
  shows "a_local_now a = local_now_of clock tb u now" "a_emailed_today a = emailed_on tb u (dt_date (a_local_now a))"
    "a_last_digest a = last_digest tb u" "a_now a = now" "\<exists>zone. a_waiting a = waiting_of clock zone tb u"
  using assms by (auto simp: read_account_def local_now_of_def Let_def split: option.splits sum.splits)

lemma decide_for_cases:
  assumes "decide_for cat clock u now (tb, dc) = Inr (tb', dc')"
  shows "tb' = tb \<and> dc' = dc \<or> (\<exists>a address. read_account cat clock tb u now = Inr (Some (a, address))
    \<and> write_decision u a address (decide a) (tb, dc) = Inr (tb', dc'))"
proof -
  obtain got where g: "read_account cat clock tb u now = Inr got"
    and c: "(case got of None \<Rightarrow> Inr (tb, dc)
       | Some (a, address) \<Rightarrow> (case write_decision u a address (decide a) (tb, dc) of Inl e \<Rightarrow> Inl (Body_error e) | Inr r \<Rightarrow> Inr r))
      = Inr (tb', dc')"
    using assms by (auto simp: decide_for_def bind_res_Inr_iff)
  then show ?thesis by (cases got) (auto split: sum.splits)
qed

text \<open>The deliveries of a decision keep the cap and the one digest an evening, after any that hold at least what it read.\<close>

lemma deliveries_ok_append:
  assumes ok: "deliveries_ok rs" and w: "wall_clock (a_local_now a)" "near (a_now a) (a_local_now a)"
    and today: "a_emailed_today a = length (day_rows rs u (dt_date (a_local_now a)))"
    and old: "de_digest (decide a) \<noteq> None \<Longrightarrow> (u, last_digest_time (a_local_now a)) \<notin> set (evenings rs)"
    and ds: "case de_digest (decide a) of None \<Rightarrow> ds = [] | Some d \<Rightarrow> \<exists>r. ds = [r] \<and> delivery_of u a Digest_delivery (dg_emailed d \<noteq> []) r"
    and bs: "if de_batch (decide a) = [] then bs = [] else \<exists>r. bs = [r] \<and> delivery_of u a Batch_delivery True r"
  shows "deliveries_ok (rs @ ds @ bs)" "\<forall>r\<in>set (ds @ bs). dl_user r = u \<and> dl_local_at r = a_local_now a \<and> dl_sent_at r = a_now a"
proof -
  have new_of: "delivery_of u a (dl_kind r) (dl_emailed r) r" if "r \<in> set (ds @ bs)" for r
  proof (cases "r \<in> set ds")
    case True
    then show ?thesis using ds by (cases "de_digest (decide a)") (auto simp: delivery_of_def)
  next
    case False
    then show ?thesis using that bs by (cases "de_batch (decide a)") (auto simp: delivery_of_def)
  qed
  then show "\<forall>r\<in>set (ds @ bs). dl_user r = u \<and> dl_local_at r = a_local_now a \<and> dl_sent_at r = a_now a"
    by (simp add: delivery_of_def)
  have len: "length (day_rows (rs @ ds @ bs) v d) = length (day_rows rs v d) + length (day_rows ds v d) + length (day_rows bs v d)" for v d
    by (simp add: day_rows_def)
  have "length (day_rows ds u (dt_date (a_local_now a))) = (case de_digest (decide a) of None \<Rightarrow> 0 | Some d \<Rightarrow> of_bool (dg_emailed d \<noteq> []))"
    using ds by (cases "de_digest (decide a)") (auto simp: delivery_of_def day_rows_def)
  moreover have "length (day_rows bs u (dt_date (a_local_now a))) = of_bool (de_batch (decide a) \<noteq> [])"
    using bs by (cases "de_batch (decide a)") (auto simp: delivery_of_def day_rows_def)
  ultimately have n: "length (day_rows (rs @ ds @ bs) u (dt_date (a_local_now a))) \<le> max (a_emailed_today a) emails_per_day"
    using decide_cap[of a] unfolding len today by simp
  have ok3: "length (day_rows rs v d) \<le> emails_per_day" for v d using ok by (simp add: deliveries_ok_def)
  have cap: "length (day_rows (rs @ ds @ bs) v d) \<le> emails_per_day" for v d
  proof (cases "v = u \<and> d = dt_date (a_local_now a)")
    case True
    then show ?thesis using n ok3[of u "dt_date (a_local_now a)"] today by simp
  next
    case False
    then have "day_rows (ds @ bs) v d = []"
      using new_of unfolding day_rows_def filter_empty_conv by (auto simp: delivery_of_def)
    then show ?thesis using ok3[of v d] by (simp add: day_rows_def)
  qed
  have "evenings bs = []" using bs by (cases "de_batch (decide a)") (auto simp: delivery_of_def evenings_def)
  moreover have "evenings ds = (case de_digest (decide a) of None \<Rightarrow> [] | Some d \<Rightarrow> [(u, last_digest_time (a_local_now a))])"
    using ds by (cases "de_digest (decide a)") (auto simp: delivery_of_def evenings_def)
  moreover have "evenings (rs @ ds @ bs) = evenings rs @ evenings ds @ evenings bs" by (simp add: evenings_def)
  ultimately have "distinct (evenings (rs @ ds @ bs))"
    using ok old by (cases "de_digest (decide a)") (auto simp: deliveries_ok_def)
  moreover have "wall_clock (dl_local_at r) \<and> near (dl_sent_at r) (dl_local_at r)" if "r \<in> set (rs @ ds @ bs)" for r
  proof (cases "r \<in> set (ds @ bs)")
    case True
    then show ?thesis using new_of[OF True] w by (simp add: delivery_of_def)
  next
    case False
    then show ?thesis using that ok by (simp add: deliveries_ok_def)
  qed
  ultimately show "deliveries_ok (rs @ ds @ bs)" using cap by (simp add: deliveries_ok_def)
qed

section \<open>Every delivery and every email of a history\<close>

text \<open>Everything that happens to the tables: a run deciding a user, and what is not this module's.\<close>

datatype box_event =
    Run in_force int moment
  | Queue outbox_row
  | Change_rules rule_table
  | Change_users "user_row list"
  | Forget moment
  | Sent due "string option"

definition box_step :: "clock \<Rightarrow> tables \<Rightarrow> box_event \<Rightarrow> tables" where
  "box_step clock tb e =
     (case e of
        Run cat u now \<Rightarrow> (case decide_for cat clock u now (tb, nothing_decided) of Inl _ \<Rightarrow> tb | Inr td \<Rightarrow> fst td)
      | Queue r \<Rightarrow> tb\<lparr>tb_outbox := tb_outbox tb @ [r]\<rparr>
      | Change_rules rules \<Rightarrow> tb\<lparr>tb_rules := rules\<rparr>
      | Change_users users \<Rightarrow> tb\<lparr>tb_users := users\<rparr>
      | Forget now \<Rightarrow> forget now tb
      | Sent d status \<Rightarrow> mark_sent (\<lambda>_. status) tb d)"

text \<open>An email asked for: whose, when on their clock, and what. One is asked for only if its decision committed.\<close>

record sent_mail =
  ml_user :: int
  ml_local :: datetime
  ml_due :: due

definition mails_of :: "clock \<Rightarrow> tables \<Rightarrow> box_event \<Rightarrow> sent_mail list" where
  "mails_of clock tb e =
     (case e of
        Run cat u now \<Rightarrow>
          (case decide_for cat clock u now (tb, nothing_decided) of
             Inl _ \<Rightarrow> []
           | Inr td \<Rightarrow> map (\<lambda>m. \<lparr>ml_user = u, ml_local = local_now_of clock tb u now, ml_due = m\<rparr>) (dc_due (snd td)))
      | _ \<Rightarrow> [])"

fun mailed :: "clock \<Rightarrow> tables \<Rightarrow> box_event list \<Rightarrow> sent_mail list" where
  "mailed clock tb [] = []"
| "mailed clock tb (e # es) = mails_of clock tb e @ mailed clock (box_step clock tb e) es"

text \<open>The deliveries an event adds, of which a later one may forget some.\<close>

definition rows_of :: "clock \<Rightarrow> tables \<Rightarrow> box_event \<Rightarrow> delivery_row list" where
  "rows_of clock tb e =
     (case e of Run _ _ _ \<Rightarrow> drop (length (tb_deliveries tb)) (tb_deliveries (box_step clock tb e)) | _ \<Rightarrow> [])"

fun recorded :: "clock \<Rightarrow> tables \<Rightarrow> box_event list \<Rightarrow> delivery_row list" where
  "recorded clock tb [] = []"
| "recorded clock tb (e # es) = rows_of clock tb e @ recorded clock (box_step clock tb e) es"

text \<open>A run never takes place a month before a forgetting that came first: clocks agree better than that.\<close>

definition timely :: "box_event list \<Rightarrow> bool" where
  "timely es = sorted_wrt (\<lambda>a b. case (a, b) of (Forget f, Run _ _ now) \<Rightarrow> f - 30 * day_us \<le> now | _ \<Rightarrow> True) es"

definition clocks_ok :: "clock \<Rightarrow> box_event list \<Rightarrow> bool" where
  "clocks_ok clock es = (\<forall>e\<in>set es. case e of Run _ _ now \<Rightarrow> clock_ok clock now | _ \<Rightarrow> True)"

text \<open>
  What the table has of all that was ever delivered, less the courier's word: what no forgetting so far has been
  old enough for.
\<close>

definition unspoken :: "delivery_row \<Rightarrow> delivery_row" where "unspoken r = r\<lparr>dl_status := None\<rparr>"

definition kept_since :: "moment set \<Rightarrow> delivery_row \<Rightarrow> bool" where
  "kept_since F r = (\<forall>f\<in>F. f - keep_for \<le> dl_sent_at r)"

definition remembers :: "moment set \<Rightarrow> tables \<Rightarrow> delivery_row list \<Rightarrow> bool" where
  "remembers F tb hist = (map unspoken (tb_deliveries tb) = map unspoken (filter (kept_since F) hist))"

lemma unspoken_fields [simp]:
  "dl_user (unspoken r) = dl_user r" "dl_kind (unspoken r) = dl_kind r" "dl_emailed (unspoken r) = dl_emailed r"
  "dl_local_at (unspoken r) = dl_local_at r" "dl_sent_at (unspoken r) = dl_sent_at r" "dl_id (unspoken r) = dl_id r"
  by (simp_all add: unspoken_def)

text \<open>What depends on the rows' own fields is the same of rows that differ in the courier's word.\<close>

lemma day_rows_unspoken: "length (day_rows rs u d) = length (day_rows (map unspoken rs) u d)"
  by (simp add: day_rows_def filter_map o_def)

lemma remembers_mem:
  assumes "remembers F tb hist"
  shows "r \<in> set hist \<Longrightarrow> kept_since F r \<Longrightarrow> \<exists>x\<in>set (tb_deliveries tb). unspoken x = unspoken r"
    "x \<in> set (tb_deliveries tb) \<Longrightarrow> \<exists>r\<in>set hist. unspoken x = unspoken r"
proof -
  have e: "unspoken ` set (tb_deliveries tb) = unspoken ` {r \<in> set hist. kept_since F r}"
    using arg_cong[OF assms[unfolded remembers_def], of set] by simp
  show "\<exists>x\<in>set (tb_deliveries tb). unspoken x = unspoken r" if "r \<in> set hist" "kept_since F r"
  proof -
    have "unspoken r \<in> unspoken ` set (tb_deliveries tb)" unfolding e using that by simp
    then show ?thesis by force
  qed
  show "\<exists>r\<in>set hist. unspoken x = unspoken r" if "x \<in> set (tb_deliveries tb)"
  proof -
    have "unspoken x \<in> unspoken ` {r \<in> set hist. kept_since F r}" using that unfolding e[symmetric] by simp
    then show ?thesis by force
  qed
qed

text \<open>A delivery near in its user's time is not forgotten yet.\<close>

lemma recent_kept:
  assumes "deliveries_ok hist" "r \<in> set hist" "near now l" "\<forall>f\<in>F. f - 30 * day_us \<le> now"
    "\<bar>wall_us (dl_local_at r) - wall_us l\<bar> < 2 * day_us"
  shows "kept_since F r"
proof -
  have "near (dl_sent_at r) (dl_local_at r)" using assms(1,2) by (simp add: deliveries_ok_def)
  then have "now - 4 * day_us \<le> dl_sent_at r"
    using assms(3,5) unfolding near_def abs_le_iff abs_less_iff by linarith
  then show ?thesis using assms(4) unfolding kept_since_def by fastforce
qed

lemma decide_digest_None: "de_digest (decide a) = Some d \<Longrightarrow> decide_digest a (filter (may_go a) (a_waiting a)) = Some d"
  using decide_parts(5)[of a] by (metis empty_iff insertE option.discI)

lemma run_recorded:
  assumes hist: "remembers F tb hist" "deliveries_ok hist" and clk: "clock_ok clock now" and F: "\<forall>f\<in>F. f - 30 * day_us \<le> now"
    and run: "decide_for cat clock u now (tb, nothing_decided) = Inr (tb', dc')"
  shows "\<exists>new. tb_deliveries tb' = tb_deliveries tb @ new \<and> mail_of new (dc_due dc') \<and> deliveries_ok (hist @ new)
    \<and> (\<forall>r\<in>set new. dl_user r = u \<and> dl_local_at r = local_now_of clock tb u now \<and> dl_sent_at r = now)"
  using decide_for_cases[OF run]
proof (elim disjE exE conjE)
  assume "tb' = tb" "dc' = nothing_decided"
  then show ?thesis using hist(2) by (simp add: mail_of_def nothing_decided_def)
next
  fix a address assume r: "read_account cat clock tb u now = Inr (Some (a, address))"
    and w: "write_decision u a address (decide a) (tb, nothing_decided) = Inr (tb', dc')"
  note f = read_account_fields[OF r]
  obtain ds bs ms where d: "tb_deliveries tb' = tb_deliveries tb @ ds @ bs" "dc_due dc' = dc_due nothing_decided @ ms" "mail_of (ds @ bs) ms"
    and dsb: "case de_digest (decide a) of None \<Rightarrow> ds = [] | Some d \<Rightarrow> \<exists>r. ds = [r] \<and> delivery_of u a Digest_delivery (dg_emailed d \<noteq> []) r"
      "if de_batch (decide a) = [] then bs = [] else \<exists>r. bs = [r] \<and> delivery_of u a Batch_delivery True r"
    using write_decision_deliveries[OF w] by blast
  have wall: "wall_clock (a_local_now a)" "near (a_now a) (a_local_now a)"
    using clk unfolding f(1,4) local_now_of_def clock_ok_def by blast+
  have hw: "wall_clock (dl_local_at x)" if "x \<in> set hist" for x using hist(2) that by (simp add: deliveries_ok_def)
  have kept: "kept_since F x" if "x \<in> set hist" "\<bar>wall_us (dl_local_at x) - wall_us (a_local_now a)\<bar> < 2 * day_us" for x
    by (rule recent_kept[OF hist(2) that(1) _ F that(2)]) (use wall(2) in \<open>simp only: f(4)\<close>)
  have "day_rows (filter (kept_since F) hist) u (dt_date (a_local_now a)) = day_rows hist u (dt_date (a_local_now a))"
    using kept same_day_wall[OF hw wall(1)] unfolding day_rows_def filter_filter by (intro filter_cong) auto
  then have "length (day_rows (tb_deliveries tb) u (dt_date (a_local_now a))) = length (day_rows hist u (dt_date (a_local_now a)))"
    by (metis day_rows_unspoken hist(1) remembers_def)
  moreover have "\<forall>x\<in>set (tb_deliveries tb). wall_clock (dl_local_at x)"
    using remembers_mem(2)[OF hist(1)] hw by (metis unspoken_fields(4))
  ultimately have today: "a_emailed_today a = length (day_rows hist u (dt_date (a_local_now a)))"
    using emailed_on_day[of tb "dt_date (a_local_now a)" u] wall(1) f(2) by (simp add: wall_clock_def)
  have old: "(u, last_digest_time (a_local_now a)) \<notin> set (evenings hist)" if "de_digest (decide a) \<noteq> None"
  proof
    assume "(u, last_digest_time (a_local_now a)) \<in> set (evenings hist)"
    then obtain x where x: "x \<in> set hist" "dl_kind x = Digest_delivery" "dl_user x = u"
      "last_digest_time (dl_local_at x) = last_digest_time (a_local_now a)" by (auto simp: evenings_def)
    obtain y where y: "y \<in> set (tb_deliveries tb)" "unspoken y = unspoken x"
      using remembers_mem(1)[OF hist(1) x(1) kept[OF x(1) same_evening_wall[OF hw[OF x(1)] wall(1) x(4)]]] by blast
    have yx: "dl_kind y = Digest_delivery" "dl_user y = u" "dl_local_at y = dl_local_at x" using x(2,3) y(2) by (metis unspoken_fields)+
    obtain d where "de_digest (decide a) = Some d" using \<open>de_digest (decide a) \<noteq> None\<close> by blast
    from decide_digest_Some(4)[OF decide_digest_None[OF this]]
    have "case last_digest tb u of None \<Rightarrow> True | Some t \<Rightarrow> t < last_digest_time (a_local_now a)" by (simp add: f(3))
    moreover have "dl_local_at x \<in> set (map dl_local_at (filter (\<lambda>r. dl_user r = u \<and> dl_kind r = Digest_delivery) (tb_deliveries tb)))"
      unfolding set_map by (rule image_eqI[of _ _ y]) (simp_all add: y(1) yx)
    ultimately have "dl_local_at x < last_digest_time (a_local_now a)" unfolding last_digest_def by (rule max_of_less)
    then show False using x(4) last_digest_time_le[of "dl_local_at x"] by simp
  qed
  note new = deliveries_ok_append[OF hist(2) wall today old dsb]
  show ?thesis using d new by (intro exI[of _ "ds @ bs"]) (simp add: nothing_decided_def f(1,4))
qed

text \<open>An email belongs to exactly one delivery ever recorded, and is of its user, time and kind.\<close>

definition mail_core :: "sent_mail \<Rightarrow> int \<times> datetime \<times> int \<times> delivery_kind" where
  "mail_core m = (ml_user m, ml_local m, du_delivery (ml_due m), mail_kind (du_mail (ml_due m)))"

definition row_core :: "delivery_row \<Rightarrow> int \<times> datetime \<times> int \<times> delivery_kind" where
  "row_core r = (dl_user r, dl_local_at r, dl_id r, dl_kind r)"

lemma mail_cores:
  assumes "mail_of new ms" "\<forall>r\<in>set new. dl_user r = u \<and> dl_local_at r = l"
  shows "map mail_core (map (\<lambda>m. \<lparr>ml_user = u, ml_local = l, ml_due = m\<rparr>) ms) = map row_core (filter dl_emailed new)"
proof -
  have "map mail_core (map (\<lambda>m. \<lparr>ml_user = u, ml_local = l, ml_due = m\<rparr>) ms) = map (\<lambda>x. (u, l, x)) (map (\<lambda>m. (du_delivery m, mail_kind (du_mail m))) ms)"
    by (simp add: mail_core_def)
  also have "\<dots> = map (\<lambda>x. (u, l, x)) (map (\<lambda>r. (dl_id r, dl_kind r)) (filter dl_emailed new))" using assms(1) by (simp add: mail_of_def)
  also have "\<dots> = map row_core (filter dl_emailed new)" using assms(2) by (simp add: row_core_def)
  finally show ?thesis .
qed

lemma forget_remembered: "remembers F tb hist \<Longrightarrow> remembers (insert f F) (forget f tb) hist"
proof -
  assume r: "remembers F tb hist"
  let ?P = "\<lambda>r. f - keep_for \<le> dl_sent_at r"
  have f: "map unspoken (filter ?P xs) = filter ?P (map unspoken xs)" for xs by (simp add: filter_map o_def)
  have "tb_deliveries (forget f tb) = filter ?P (tb_deliveries tb)" by (simp add: forget_def Let_def not_less)
  then have "map unspoken (tb_deliveries (forget f tb)) = map unspoken (filter ?P (filter (kept_since F) hist))"
    using r unfolding f remembers_def by (simp only: f)
  moreover have "filter ?P (filter (kept_since F) hist) = filter (kept_since (insert f F)) hist"
    by (auto simp: kept_since_def intro: filter_cong)
  ultimately show ?thesis by (simp add: remembers_def)
qed

lemma sent_remembered: "remembers F tb hist \<Longrightarrow> remembers F (mark_sent courier tb d) hist"
proof -
  have "map unspoken (map (\<lambda>r. if dl_id r = du_delivery d then r\<lparr>dl_status := Some s\<rparr> else r) rs) = map unspoken rs" for s rs
    by (simp add: unspoken_def)
  then show "remembers F tb hist \<Longrightarrow> remembers F (mark_sent courier tb d) hist"
    unfolding remembers_def mark_sent_def by (simp split: option.split del: map_map)
qed

lemma history_ok:
  assumes "remembers F tb hist" "deliveries_ok hist" "timely es" "clocks_ok clock es"
    and "\<forall>f\<in>F. \<forall>e\<in>set es. case e of Run _ _ now \<Rightarrow> f - 30 * day_us \<le> now | _ \<Rightarrow> True"
  shows "deliveries_ok (hist @ recorded clock tb es)
    \<and> map mail_core (mailed clock tb es) = map row_core (filter dl_emailed (recorded clock tb es))"
  using assms
proof (induction es arbitrary: F tb hist)
  case (Cons e es)
  have later: "timely es" "clocks_ok clock es" "\<forall>f\<in>F. \<forall>e\<in>set es. case e of Run _ _ now \<Rightarrow> f - 30 * day_us \<le> now | _ \<Rightarrow> True"
    using Cons.prems(3-5) by (simp_all add: timely_def clocks_ok_def)
  have quiet: ?case if "rows_of clock tb e = []" "mails_of clock tb e = []" "remembers G (box_step clock tb e) hist"
      "\<forall>f\<in>G. \<forall>e\<in>set es. case e of Run _ _ now \<Rightarrow> f - 30 * day_us \<le> now | _ \<Rightarrow> True" for G
    using Cons.IH[OF that(3) Cons.prems(2) later(1,2) that(4)] that(1,2) by simp
  show ?case
  proof (cases e)
    case (Run cat u now)
    show ?thesis
    proof (cases "decide_for cat clock u now (tb, nothing_decided)")
      case (Inl x)
      then have "rows_of clock tb e = []" "mails_of clock tb e = []" "box_step clock tb e = tb"
        by (simp_all add: Run rows_of_def mails_of_def box_step_def)
      then show ?thesis using quiet[of F] Cons.prems(1) later(3) by simp
    next
      case (Inr td)
      obtain tb' dc' where td: "td = (tb', dc')" by (rule prod.exhaust)
      have clk: "clock_ok clock now" "\<forall>f\<in>F. f - 30 * day_us \<le> now" using Cons.prems(4,5) Run by (simp_all add: clocks_ok_def)
      obtain new where new: "tb_deliveries tb' = tb_deliveries tb @ new" "mail_of new (dc_due dc')" "deliveries_ok (hist @ new)"
        "\<forall>r\<in>set new. dl_user r = u \<and> dl_local_at r = local_now_of clock tb u now \<and> dl_sent_at r = now"
        using run_recorded[OF Cons.prems(1,2) clk Inr[unfolded td]] by blast
      have step: "box_step clock tb e = tb'" "rows_of clock tb e = new"
        "mails_of clock tb e = map (\<lambda>m. \<lparr>ml_user = u, ml_local = local_now_of clock tb u now, ml_due = m\<rparr>) (dc_due dc')"
        using new(1) by (simp_all add: Run box_step_def rows_of_def mails_of_def Inr td)
      have "kept_since F r" if "r \<in> set new" for r using new(4) that clk(2) by (auto simp: kept_since_def)
      then have "remembers F tb' (hist @ new)" using Cons.prems(1) new(1) by (simp add: remembers_def)
      note IH = Cons.IH[OF this new(3) later]
      show ?thesis using IH mail_cores[OF new(2)] new(4) by (simp add: step)
    qed
  next
    case (Forget f)
    have "\<forall>g\<in>insert f F. \<forall>e\<in>set es. case e of Run _ _ now \<Rightarrow> g - 30 * day_us \<le> now | _ \<Rightarrow> True"
      using Cons.prems(3) later(3) by (simp add: Forget timely_def)
    then show ?thesis using quiet[of "insert f F"] forget_remembered[OF Cons.prems(1)]
      by (simp add: Forget rows_of_def mails_of_def box_step_def)
  next
    case (Sent d s)
    show ?thesis using quiet[of F] sent_remembered[OF Cons.prems(1)] later(3) by (simp add: Sent rows_of_def mails_of_def box_step_def)
  qed (use quiet[of F] Cons.prems(1) later(3) in \<open>simp_all add: rows_of_def mails_of_def box_step_def remembers_def\<close>)
qed simp

text \<open>C38. Whatever is queued, turned off, edited or forgotten, and whenever the sender runs for whom, of all the emails
  ever asked for no user has more than three in one of their days, those of the deliveries there at the start
  counted too, nor two digests of one evening, in the bell or by email. What it takes is that runs do not fall a month
  behind a forgetting, and that a zone's clock is within a day of UTC's.\<close>

theorem alert_cap_and_one_digest:
  assumes "deliveries_ok (tb_deliveries tb)" "timely es" "clocks_ok clock es"
  shows "length (day_rows (tb_deliveries tb) u d)
      + length (filter (\<lambda>m. ml_user m = u \<and> dt_date (ml_local m) = d) (mailed clock tb es)) \<le> emails_per_day
    \<and> distinct (evenings (tb_deliveries tb @ recorded clock tb es))
    \<and> distinct (evenings (tb_deliveries tb) @ map (\<lambda>m. (ml_user m, last_digest_time (ml_local m)))
        (filter (\<lambda>m. mail_kind (du_mail (ml_due m)) = Digest_delivery) (mailed clock tb es)))"
proof -
  let ?hist = "tb_deliveries tb" and ?new = "recorded clock tb es" and ?mails = "mailed clock tb es"
  have "remembers {} tb ?hist" by (simp add: remembers_def kept_since_def)
  note h = history_ok[OF this assms(1,2,3)]
  then have ok: "deliveries_ok (?hist @ ?new)" and c: "map mail_core ?mails = map row_core (filter dl_emailed ?new)" by simp_all
  have "length (filter (\<lambda>m. ml_user m = u \<and> dt_date (ml_local m) = d) ?mails)
      = length (filter (\<lambda>x. fst x = u \<and> dt_date (fst (snd x)) = d) (map mail_core ?mails))"
    by (simp add: filter_map o_def mail_core_def)
  also have "\<dots> = length (day_rows ?new u d)" unfolding c by (simp add: filter_map o_def row_core_def day_rows_def conj_ac)
  finally have n: "length (filter (\<lambda>m. ml_user m = u \<and> dt_date (ml_local m) = d) ?mails) = length (day_rows ?new u d)" .
  have "map (\<lambda>m. (ml_user m, last_digest_time (ml_local m))) (filter (\<lambda>m. mail_kind (du_mail (ml_due m)) = Digest_delivery) ?mails)
      = map (\<lambda>x. (fst x, last_digest_time (fst (snd x)))) (filter (\<lambda>x. snd (snd (snd x)) = Digest_delivery) (map mail_core ?mails))"
    by (simp add: filter_map o_def mail_core_def)
  also have "\<dots> = evenings (filter dl_emailed ?new)" unfolding c by (simp add: filter_map o_def row_core_def evenings_def)
  finally have m: "map (\<lambda>m. (ml_user m, last_digest_time (ml_local m))) (filter (\<lambda>m. mail_kind (du_mail (ml_due m)) = Digest_delivery) ?mails)
      = evenings (filter dl_emailed ?new)" .
  have sum: "length (day_rows (?hist @ ?new) u d) \<le> emails_per_day" "day_rows (?hist @ ?new) u d = day_rows ?hist u d @ day_rows ?new u d"
    "evenings (?hist @ ?new) = evenings ?hist @ evenings ?new" "distinct (evenings (?hist @ ?new))"
    using ok by (simp_all add: deliveries_ok_def day_rows_def evenings_def)
  have part: "distinct (evenings xs @ evenings (filter P ys))" if "distinct (evenings xs @ evenings ys)" for xs ys P
  proof -
    have "filter (\<lambda>r. dl_kind r = Digest_delivery) (filter P ys) = filter P (filter (\<lambda>r. dl_kind r = Digest_delivery) ys)"
      by (simp add: conj_commute)
    then have e: "evenings (filter P ys) = map (\<lambda>r. (dl_user r, last_digest_time (dl_local_at r))) (filter P (filter (\<lambda>r. dl_kind r = Digest_delivery) ys))"
      by (simp add: evenings_def del: filter_filter)
    have "set (evenings (filter P ys)) \<subseteq> set (evenings ys)" by (auto simp: evenings_def)
    moreover have "distinct (evenings (filter P ys))" unfolding e
      by (rule distinct_map_filter) (use that in \<open>simp add: evenings_def\<close>)
    ultimately show ?thesis using that unfolding distinct_append by blast
  qed
  show ?thesis unfolding n m using sum(1,2,4) part[OF sum(4)[unfolded sum(3)], of dl_emailed] by (simp only: length_append simp_thms)
qed


section \<open>What goes, and what waits\<close>

lemma due_items_sub: "set (due_items a live) \<subseteq> {w \<in> set live. w_route w = Digest_route \<and> w_local_queued_at w \<le> last_digest_time (a_local_now a)}"
  by (auto simp: due_items_def)

lemma distinct_due: "distinct (map w_id live) \<Longrightarrow> distinct (map w_id (due_items a live))"
  by (simp add: due_items_def distinct_map_filter del: filter_filter)

lemma decide_digest_items:
  assumes "de_digest (decide a) = Some d"
  shows "d = digest_of a (due_items a (filter (may_go a) (a_waiting a)))"
    "set (digest_items d) \<subseteq> {w \<in> set (a_waiting a). may_go a w \<and> w_route w = Digest_route \<and> w_local_queued_at w \<le> dg_at d}"
    "dg_at d \<le> a_local_now a"
proof -
  let ?live = "filter (may_go a) (a_waiting a)"
  have "decide_digest a ?live = Some d"
    using decide_parts(5)[of a] unfolding assms by (metis empty_iff insertE option.discI)
  from decide_digest_Some(1)[OF this] show d: "d = digest_of a (due_items a ?live)" .
  show "set (digest_items d) \<subseteq> {w \<in> set (a_waiting a). may_go a w \<and> w_route w = Digest_route \<and> w_local_queued_at w \<le> dg_at d}"
    using due_items_sub[of a ?live] unfolding d by (auto simp: digest_of_fields)
  show "dg_at d \<le> a_local_now a" unfolding d digest_of_fields by (rule last_digest_time_le)
qed

lemma decide_touches:
  assumes "distinct (map w_id (a_waiting a))"
  shows "(is_quiet (dt_time (a_local_now a)) (a_quiet_start a) (a_quiet_end a) \<longrightarrow> taken_items (decide a) @ de_overflowed (decide a) = [])
    \<and> distinct (map w_id (de_dropped (decide a) @ de_overflowed (decide a) @ taken_items (decide a)))
    \<and> set (de_dropped (decide a)) = {w \<in> set (a_waiting a). \<not> may_go a w}
    \<and> set (de_overflowed (decide a) @ taken_items (decide a)) \<subseteq> {w \<in> set (a_waiting a). may_go a w}
    \<and> (\<forall>d. de_digest (decide a) = Some d \<longrightarrow> dg_at d \<le> a_local_now a \<and> (\<forall>w\<in>set (digest_items d). w_local_queued_at w \<le> dg_at d))
    \<and> (de_batch (decide a) \<noteq> [] \<longrightarrow> (\<exists>w\<in>set (de_batch (decide a)). w_queued_at w + batch_window \<le> a_now a))"
proof -
  let ?live = "filter (may_go a) (a_waiting a)"
  let ?inst = "filter (\<lambda>w. w_route w = Instant_route) ?live"
  let ?dig = "case de_digest (decide a) of None \<Rightarrow> [] | Some d \<Rightarrow> digest_items d"
  have q: "is_quiet (dt_time (a_local_now a)) (a_quiet_start a) (a_quiet_end a) \<Longrightarrow> taken_items (decide a) @ de_overflowed (decide a) = []"
    by (simp add: taken_items_def decide_unfold)
  have dl: "distinct (map w_id ?live)" using assms by (simp add: distinct_map_filter)
  have inj: "w = v" if "w \<in> set (a_waiting a)" "v \<in> set (a_waiting a)" "w_id w = w_id v" for w v
    using assms that by (auto simp: distinct_map inj_on_def)
  have dd: "distinct (map w_id ?dig)"
    using decide_digest_items(1) digest_of_distinct[OF distinct_due[OF dl]] by (cases "de_digest (decide a)") auto
  have sd: "set ?dig \<subseteq> {w \<in> set (a_waiting a). may_go a w \<and> w_route w = Digest_route}"
    using decide_digest_items(2) by (cases "de_digest (decide a)") auto
  let ?bo = "de_overflowed (decide a) @ de_batch (decide a)"
  have bo: "?bo \<in> {[], ?inst}" using decide_parts(2-4)[of a] by auto
  then have db: "distinct (map w_id ?bo)" and sb: "set ?bo \<subseteq> {w \<in> set (a_waiting a). may_go a w \<and> w_route w = Instant_route}"
  proof -
    have "distinct (map w_id ?inst)" using dl by (simp add: distinct_map_filter del: filter_filter)
    then show "distinct (map w_id ?bo)" using bo by (metis distinct.simps(1) empty_iff insertE list.simps(8))
    have "set ?bo \<subseteq> set ?inst" using bo by (metis empty_iff empty_subsetI insertE list.set(1) order_refl)
    then show "set ?bo \<subseteq> {w \<in> set (a_waiting a). may_go a w \<and> w_route w = Instant_route}" by auto
  qed
  have ddr: "distinct (map w_id (de_dropped (decide a)))" and sdr: "set (de_dropped (decide a)) = {w \<in> set (a_waiting a). \<not> may_go a w}"
    using assms by (auto simp: decide_parts(1) distinct_map_filter)
  have disj: "w_id ` A \<inter> w_id ` B = {}" if "A \<inter> B = {}" "A \<subseteq> set (a_waiting a)" "B \<subseteq> set (a_waiting a)" for A B
    using that inj by blast
  have bd: "w_id ` set ?bo \<inter> w_id ` set ?dig = {}"
  proof (rule disj)
    show "set ?bo \<inter> set ?dig = {}" using sb sd by fastforce
  qed (use sb sd in blast)+
  have "w_id ` set (de_dropped (decide a)) \<inter> w_id ` (set ?bo \<union> set ?dig) = {}"
  proof (rule disj)
    show "set (de_dropped (decide a)) \<inter> (set ?bo \<union> set ?dig) = {}" using sb sd unfolding sdr by blast
  qed (use sb sd sdr in blast)+
  then have "distinct (map w_id (de_dropped (decide a) @ ?bo @ ?dig))"
    using ddr db dd bd by (simp only: map_append distinct_append set_append set_map image_Un)
  moreover have "de_batch (decide a) \<noteq> [] \<Longrightarrow> \<exists>w\<in>set (de_batch (decide a)). w_queued_at w + batch_window \<le> a_now a"
  proof -
    assume ne: "de_batch (decide a) \<noteq> []"
    then have b: "de_batch (decide a) = ?inst" "window_closed a ?inst"
      using decide_batch_nonempty by blast+
    have "?inst \<noteq> []" using b(1) ne by simp
    then have "Min (w_queued_at ` set ?inst) \<in> w_queued_at ` set ?inst"
      by (intro Min_in) (simp_all del: filter_filter set_filter)
    then obtain w where "Min (w_queued_at ` set ?inst) = w_queued_at w" "w \<in> set ?inst" by (rule imageE)
    then show ?thesis using b unfolding window_closed_def b(1) by metis
  qed
  moreover have "set (de_overflowed (decide a) @ taken_items (decide a)) \<subseteq> {w \<in> set (a_waiting a). may_go a w}"
    using sb sd unfolding taken_items_def set_append by blast
  moreover have "dg_at d \<le> a_local_now a \<and> (\<forall>w\<in>set (digest_items d). w_local_queued_at w \<le> dg_at d)"
    if "de_digest (decide a) = Some d" for d
    using decide_digest_items(2,3)[OF that] by blast
  ultimately show ?thesis
    using q sdr unfolding taken_items_def append_assoc by blast
qed

text \<open>A decision touches each waiting item once at most, and only ones its rules allow: nothing in quiet
  hours; what is dropped may no longer go; what goes may, the digest only items queued before its
  time, which has come, and a batch only once its first item has waited out the window.\<close>

theorem decide_sound:
  assumes "distinct (map w_id (a_waiting a))"
  shows "(is_quiet (dt_time (a_local_now a)) (a_quiet_start a) (a_quiet_end a) \<longrightarrow> taken_items (decide a) @ de_overflowed (decide a) = [])
    \<and> distinct (map w_id (de_dropped (decide a) @ de_overflowed (decide a) @ taken_items (decide a)))
    \<and> set (de_dropped (decide a)) = {w \<in> set (a_waiting a). \<not> may_go a w}
    \<and> set (de_overflowed (decide a) @ taken_items (decide a)) \<subseteq> {w \<in> set (a_waiting a). may_go a w}
    \<and> (\<forall>d. de_digest (decide a) = Some d \<longrightarrow> dg_at d \<le> a_local_now a \<and> (\<forall>w\<in>set (digest_items d). w_local_queued_at w \<le> dg_at d))
    \<and> (de_batch (decide a) \<noteq> [] \<longrightarrow> (\<exists>w\<in>set (de_batch (decide a)). w_queued_at w + batch_window \<le> a_now a))"
  by (rule decide_touches[OF assms])

text \<open>The last email of a day is the digest's. A batch that goes while the evening's digest is ahead and
  will have something to email leaves it room under the cap; and at its time, out of quiet hours,
  a digest not yet done goes with everything due, if there is room or nothing of it is emailed.\<close>

theorem digest_has_room:
  assumes "\<not> is_quiet (dt_time (a_local_now a)) (a_quiet_start a) (a_quiet_end a)"
  shows "(de_batch (decide a) \<noteq> [] \<and> digest_ahead a (filter (may_go a) (a_waiting a)) (de_digest (decide a))
      \<longrightarrow> a_emailed_today a + (case de_digest (decide a) of None \<Rightarrow> 0 | Some d \<Rightarrow> of_bool (dg_emailed d \<noteq> [])) + 1 < emails_per_day)
    \<and> (due_items a (filter (may_go a) (a_waiting a)) \<noteq> []
       \<and> (case a_last_digest a of None \<Rightarrow> True | Some t \<Rightarrow> t < last_digest_time (a_local_now a))
       \<and> (a_emailed_today a < emails_per_day \<or> dg_emailed (digest_of a (due_items a (filter (may_go a) (a_waiting a)))) = [])
      \<longrightarrow> (\<exists>d. de_digest (decide a) = Some d \<and> set (digest_items d) = set (due_items a (filter (may_go a) (a_waiting a)))))"
proof -
  let ?live = "filter (may_go a) (a_waiting a)"
  have e: "de_digest (decide a) = decide_digest a ?live" using assms by (simp add: decide_unfold)
  have b: "de_batch (decide a) \<noteq> [] \<Longrightarrow> a_emailed_today a + (case decide_digest a ?live of None \<Rightarrow> 0 | Some d \<Rightarrow> of_bool (dg_emailed d \<noteq> []))
      + of_bool (digest_ahead a ?live (decide_digest a ?live)) < emails_per_day"
    using decide_batch_nonempty[of a] by blast
  have "decide_digest a ?live = Some (digest_of a (due_items a ?live))"
    if "due_items a ?live \<noteq> []" "case a_last_digest a of None \<Rightarrow> True | Some t \<Rightarrow> t < last_digest_time (a_local_now a)"
      "a_emailed_today a < emails_per_day \<or> dg_emailed (digest_of a (due_items a ?live)) = []"
    using that by (cases "a_last_digest a") (auto simp: decide_digest_def Let_def)
  moreover have "a_emailed_today a + (case decide_digest a ?live of None \<Rightarrow> 0 | Some d \<Rightarrow> of_bool (dg_emailed d \<noteq> [])) + 1 < emails_per_day"
    if "de_batch (decide a) \<noteq> []" "digest_ahead a ?live (decide_digest a ?live)"
    using b[OF that(1)] that(2) by simp
  ultimately show ?thesis unfolding e by (metis digest_of_items(1))
qed

section \<open>Each item goes once\<close>

text \<open>One row's change, and the rows of a table after it.\<close>

definition settle_row :: "int set \<Rightarrow> moment \<Rightarrow> int option \<Rightarrow> outbox_row \<Rightarrow> outbox_row" where
  "settle_row is now delivery r = (if ob_id r \<in> is then r\<lparr>ob_settled_at := Some now, ob_delivery := delivery\<rparr> else r)"

lemma settle_outbox: "tb_outbox (settle items now i tb) = map (settle_row (w_id ` set items) now i) (tb_outbox tb)"
  by (simp add: settle_def settle_row_def[abs_def])

lemma settle_row_id [simp]: "ob_id (settle_row is now i r) = ob_id r" "ob_user (settle_row is now i r) = ob_user r"
  by (simp_all add: settle_row_def)

lemma deliver_outbox:
  "tb_outbox (deliver u k a items emailed n tb) = map (settle_row (w_id ` set items) (a_now a) (Some (tb_next_delivery tb))) (tb_outbox tb)"
  by (simp add: deliver_def settle_outbox)

lemma ring_outbox: "ring u d title period tb = Inr (tb', n) \<Longrightarrow> tb_outbox tb' = tb_outbox tb"
  by (auto simp: ring_def bind_res_Inr_iff split: if_splits)

fun mail_items :: "outgoing \<Rightarrow> waiting list" where
  "mail_items (Batch_mail ws) = ws"
| "mail_items (Digest_mail _ filed overflow _) = filed @ overflow"

definition items_of :: "due list \<Rightarrow> waiting list" where
  "items_of ms = concat (map (\<lambda>m. mail_items (du_mail m)) ms)"

lemma items_of_simps [simp]:
  "items_of [] = []" "items_of (m # ms) = mail_items (du_mail m) @ items_of ms" "items_of (ms @ ns) = items_of ms @ items_of ns"
  "set (items_of ms) = (\<Union>m\<in>set ms. set (mail_items (du_mail m)))"
  by (simp_all add: items_of_def)

text \<open>What one step writes: rows settled, and the emails that list, each once, only what was settled under them.\<close>

definition writes :: "waiting list \<Rightarrow> moment \<Rightarrow> tables \<times> decided \<Rightarrow> tables \<times> decided \<Rightarrow> bool" where
  "writes items now td td' =
     (\<exists>i ms. tb_outbox (fst td') = map (settle_row (w_id ` set items) now (Some i)) (tb_outbox (fst td))
        \<and> dc_due (snd td') = dc_due (snd td) @ ms
        \<and> (\<forall>m\<in>set ms. du_delivery m = i \<and> set (mail_items (du_mail m)) \<subseteq> set items)
        \<and> (distinct (map w_id items) \<longrightarrow> distinct (map w_id (items_of ms))))"

lemma distinct_sub_digest:
  "distinct (map w_id (xs @ ys)) \<Longrightarrow> distinct (map w_id (filter P xs @ ys))"
  by (auto simp: distinct_map_filter)

lemma write_digest_writes:
  assumes "write_digest u a address d (tb, dc) = Inr td'"
  shows "writes (digest_items d) (a_now a) (tb, dc) td'"
proof -
  obtain tb1 rang where r: "(if dg_rings d then ring u d (digest_title d (dt_date (a_local_now a))) (digest_period (dg_filed d)) tb else Inr (tb, None))
      = Inr (tb1, rang)"
    and t: "fst td' = deliver u Digest_delivery a (digest_items d) (dg_emailed d \<noteq> []) rang tb1"
    and m: "\<exists>title p. dc_due (snd td') = dc_due dc @ (if dg_emailed d \<noteq> []
        then [\<lparr>du_delivery = tb_next_delivery tb1, du_to = address,
               du_mail = Digest_mail title (filter (\<lambda>w. w_id w \<in> w_id ` set (dg_emailed d)) (dg_filed d)) (dg_overflow d) p\<rparr>] else [])"
    using assms by (fastforce simp: write_digest_def Let_def bind_res_Inr_iff)
  have "tb_outbox tb1 = tb_outbox tb" using r by (auto dest: ring_outbox split: if_splits)
  then show ?thesis using m unfolding writes_def fst_conv snd_conv t deliver_outbox
    using distinct_sub_digest[of "dg_filed d" "dg_overflow d" "\<lambda>w. w_id w \<in> w_id ` set (dg_emailed d)"]
    by (intro exI[of _ "tb_next_delivery tb1"]) (auto simp: digest_items_def)
qed

lemma write_batch_writes: "b \<noteq> [] \<Longrightarrow> writes b (a_now a) (tb, dc) (write_batch u a address b (tb, dc))"
  by (auto simp: write_batch_def writes_def deliver_outbox)

text \<open>The rows are the same users', in the same order, and those of other ids as they were.\<close>

definition same_but :: "int set \<Rightarrow> tables \<Rightarrow> tables \<Rightarrow> bool" where
  "same_but is tb tb' = (map (\<lambda>r. (ob_id r, ob_user r)) (tb_outbox tb') = map (\<lambda>r. (ob_id r, ob_user r)) (tb_outbox tb)
     \<and> filter (\<lambda>r. ob_id r \<notin> is) (tb_outbox tb') = filter (\<lambda>r. ob_id r \<notin> is) (tb_outbox tb))"

lemma same_but_map:
  assumes "tb_outbox tb' = map f (tb_outbox tb)" "\<And>r. ob_id (f r) = ob_id r \<and> ob_user (f r) = ob_user r" "\<And>r. ob_id r \<notin> is \<Longrightarrow> f r = r"
  shows "same_but is tb tb'"
proof -
  have "filter (\<lambda>r. ob_id r \<notin> is) (map f rs) = filter (\<lambda>r. ob_id r \<notin> is) rs" for rs
    by (induction rs) (simp_all add: assms(2,3))
  then show ?thesis by (simp add: same_but_def assms(1,2))
qed

lemma same_but_trans:
  assumes "same_but A tb tb'" "same_but B tb' tb''" "A \<subseteq> C" "B \<subseteq> C"
  shows "same_but C tb tb''"
proof -
  have f: "filter (\<lambda>r. ob_id r \<notin> C) xs = filter (\<lambda>r. ob_id r \<notin> C) (filter (\<lambda>r. ob_id r \<notin> A) xs)" if "A \<subseteq> C" for A xs
    using that by (auto simp: intro!: filter_cong)
  show ?thesis using assms(1,2) f[OF assms(3), of "tb_outbox tb"] f[OF assms(3), of "tb_outbox tb'"]
      f[OF assms(4), of "tb_outbox tb'"] f[OF assms(4), of "tb_outbox tb''"] by (simp add: same_but_def)
qed

lemma same_but_refl: "same_but A tb tb"
  by (simp add: same_but_def)

lemma same_but_ids: "same_but A tb tb' \<Longrightarrow> map ob_id (tb_outbox tb') = map ob_id (tb_outbox tb)"
proof -
  have e: "map ob_id rs = map fst (map (\<lambda>r. (ob_id r, ob_user r)) rs)" for rs :: "outbox_row list" by simp
  show "same_but A tb tb' \<Longrightarrow> map ob_id (tb_outbox tb') = map ob_id (tb_outbox tb)" unfolding same_but_def e by simp
qed

lemma same_but_row:
  assumes "same_but A tb tb'" "r' \<in> set (tb_outbox tb')"
  shows "\<exists>r\<in>set (tb_outbox tb). ob_id r = ob_id r' \<and> ob_user r = ob_user r'"
proof -
  have "(ob_id r', ob_user r') \<in> set (map (\<lambda>r. (ob_id r, ob_user r)) (tb_outbox tb))"
    using assms unfolding same_but_def by (metis (no_types, lifting) image_eqI set_map)
  then show ?thesis by force
qed

lemma same_but_mem: "same_but A tb tb' \<Longrightarrow> ob_id r \<notin> A \<Longrightarrow> r \<in> set (tb_outbox tb') \<longleftrightarrow> r \<in> set (tb_outbox tb)"
  unfolding same_but_def by (metis (mono_tags, lifting) filter_set mem_Collect_eq set_filter)

lemma same_but_settle: "same_but (w_id ` set items) tb (settle items now i tb)"
  by (rule same_but_map[OF settle_outbox]) (auto simp: settle_row_def)

lemma same_but_reroute: "same_but (w_id ` set items) tb (reroute items tb)"
  by (rule same_but_map[where f = "\<lambda>r. if ob_id r \<in> w_id ` set items then r\<lparr>ob_route := Digest_route\<rparr> else r"]) (simp_all add: reroute_def)

lemma same_but_writes: "writes items now td td' \<Longrightarrow> same_but (w_id ` set items) (fst td) (fst td')"
  unfolding writes_def by (elim exE conjE) (rule same_but_map, assumption, auto simp: settle_row_def)

definition mails_settled :: "due list \<Rightarrow> moment \<Rightarrow> tables \<Rightarrow> bool" where
  "mails_settled ms now tb = (\<forall>m\<in>set ms. \<forall>w\<in>set (mail_items (du_mail m)). \<forall>r\<in>set (tb_outbox tb). ob_id r = w_id w
     \<longrightarrow> ob_settled_at r = Some now \<and> ob_delivery r = Some (du_delivery m))"

lemma writes_mails:
  assumes "writes items now td td'"
  shows "\<exists>ms. dc_due (snd td') = dc_due (snd td) @ ms \<and> mails_settled ms now (fst td') \<and> (\<forall>m\<in>set ms. set (mail_items (du_mail m)) \<subseteq> set items)
    \<and> (distinct (map w_id items) \<longrightarrow> distinct (map w_id (items_of ms)))"
proof -
  obtain i ms where w: "tb_outbox (fst td') = map (settle_row (w_id ` set items) now (Some i)) (tb_outbox (fst td))"
    "dc_due (snd td') = dc_due (snd td) @ ms" "\<forall>m\<in>set ms. du_delivery m = i \<and> set (mail_items (du_mail m)) \<subseteq> set items"
    "distinct (map w_id items) \<longrightarrow> distinct (map w_id (items_of ms))"
    using assms unfolding writes_def by blast
  have "mails_settled ms now (fst td')" unfolding mails_settled_def w(1) using w(3) by (fastforce simp: settle_row_def)
  then show ?thesis using w by (intro exI[of _ ms]) blast
qed

lemma mails_settled_later:
  assumes "mails_settled ms now tb" "same_but A tb tb'" "\<forall>m\<in>set ms. w_id ` set (mail_items (du_mail m)) \<inter> A = {}"
  shows "mails_settled ms now tb'"
  unfolding mails_settled_def
proof (intro ballI impI)
  fix m w r assume "m \<in> set ms" "w \<in> set (mail_items (du_mail m))" "r \<in> set (tb_outbox tb')" "ob_id r = w_id w"
  moreover from this assms(3) have "ob_id r \<notin> A" by fastforce
  ultimately show "ob_settled_at r = Some now \<and> ob_delivery r = Some (du_delivery m)"
    using assms(1) same_but_mem[OF assms(2)] unfolding mails_settled_def by blast
qed

lemma write_decision_once:
  assumes w: "write_decision u a address de (tb, dc) = Inr (tb', dc')"
    and d: "distinct (map w_id (de_dropped de @ de_overflowed de @ taken_items de))"
    and s: "set (de_dropped de @ de_overflowed de @ taken_items de) \<subseteq> W"
  shows "same_but (w_id ` W) tb tb'
    \<and> (\<exists>ms. dc_due dc' = dc_due dc @ ms \<and> mails_settled ms (a_now a) tb' \<and> (\<forall>m\<in>set ms. set (mail_items (du_mail m)) \<subseteq> W)
      \<and> distinct (map w_id (items_of ms)))"
proof -
  let ?tb1 = "settle (de_dropped de) (a_now a) None tb"
  let ?tb2 = "if de_overflowed de \<noteq> [] then reroute (de_overflowed de) ?tb1 else ?tb1"
  let ?D = "case de_digest de of None \<Rightarrow> [] | Some d \<Rightarrow> digest_items d"
  obtain dc2 tb3 dc3 where dg: "(case de_digest de of None \<Rightarrow> Inr (?tb2, dc2) | Some d \<Rightarrow> write_digest u a address d (?tb2, dc2)) = Inr (tb3, dc3)"
    and b: "(tb', dc') = write_batch u a address (de_batch de) (tb3, dc3)" and due: "dc_due dc2 = dc_due dc"
    using w unfolding write_decision_def Let_def prod.case map_res_Inr_iff split_paired_Ex by auto
  have 2: "same_but (w_id ` W) tb ?tb2"
    using same_but_trans[OF same_but_settle same_but_reroute, of "de_dropped de" "w_id ` W" "de_overflowed de"]
      same_but_trans[OF same_but_settle same_but_refl, of "de_dropped de" "w_id ` W" "{}"] s by (auto simp: image_mono)
  have D: "set ?D \<subseteq> W" "set (de_batch de) \<subseteq> W" "w_id ` set ?D \<inter> w_id ` set (de_batch de) = {}"
      "distinct (map w_id ?D)" "distinct (map w_id (de_batch de))"
    using s d unfolding taken_items_def set_append map_append distinct_append set_map by blast+
  have 3: "same_but (w_id ` set ?D) ?tb2 tb3 \<and> (\<exists>ms. dc_due dc3 = dc_due dc2 @ ms \<and> mails_settled ms (a_now a) tb3 \<and> (\<forall>m\<in>set ms. set (mail_items (du_mail m)) \<subseteq> set ?D)
      \<and> distinct (map w_id (items_of ms)))"
  proof (cases "de_digest de")
    case None
    then show ?thesis using dg by (simp add: same_but_refl mails_settled_def)
  next
    case (Some d)
    then have "writes (digest_items d) (a_now a) (?tb2, dc2) (tb3, dc3)" using dg write_digest_writes by simp
    then show ?thesis using same_but_writes writes_mails D(4) Some by fastforce
  qed
  have 4: "same_but (w_id ` set (de_batch de)) tb3 tb' \<and> (\<exists>ms. dc_due dc' = dc_due dc3 @ ms \<and> mails_settled ms (a_now a) tb' \<and> (\<forall>m\<in>set ms. set (mail_items (du_mail m)) \<subseteq> set (de_batch de))
      \<and> distinct (map w_id (items_of ms)))"
  proof (cases "de_batch de = []")
    case True
    then show ?thesis using b by (simp add: same_but_refl mails_settled_def write_batch_def)
  next
    case False
    then have "writes (de_batch de) (a_now a) (tb3, dc3) (tb', dc')" using b write_batch_writes by simp
    then show ?thesis using same_but_writes writes_mails D(5) by fastforce
  qed
  obtain ms ns where ms: "dc_due dc3 = dc_due dc2 @ ms" "mails_settled ms (a_now a) tb3" "\<forall>m\<in>set ms. set (mail_items (du_mail m)) \<subseteq> set ?D" "distinct (map w_id (items_of ms))"
    and ns: "dc_due dc' = dc_due dc3 @ ns" "mails_settled ns (a_now a) tb'" "\<forall>m\<in>set ns. set (mail_items (du_mail m)) \<subseteq> set (de_batch de)" "distinct (map w_id (items_of ns))"
    using 3 4 by blast
  have "w_id ` set (items_of ms) \<inter> w_id ` set (items_of ns) = {}" using D(3) ms(3) ns(3) by fastforce
  then have "distinct (map w_id (items_of (ms @ ns)))" using ms(4) ns(4) by (simp del: items_of_simps(4))
  moreover have "mails_settled ms (a_now a) tb'"
    by (rule mails_settled_later[OF ms(2) conjunct1[OF 4]]) (use ms(3) D(3) in blast)
  then have "mails_settled (ms @ ns) (a_now a) tb'" using ns(2) unfolding mails_settled_def by auto
  moreover have "same_but (w_id ` W) tb tb3"
    by (rule same_but_trans[OF 2 conjunct1[OF 3]]) (use D(1) in \<open>blast+\<close>)
  then have "same_but (w_id ` W) tb tb'"
    by (rule same_but_trans[OF _ conjunct1[OF 4]]) (use D(2) in \<open>blast+\<close>)
  moreover have "\<forall>m\<in>set ms. set (mail_items (du_mail m)) \<subseteq> W" using ms(3) D(1) by (meson order_trans)
  moreover have "\<forall>m\<in>set ns. set (mail_items (du_mail m)) \<subseteq> W" using ns(3) D(2) by (meson order_trans)
  moreover have "dc_due dc' = dc_due dc @ ms @ ns" using ms(1) ns(1) due by simp
  ultimately show ?thesis by (intro conjI exI[of _ "ms @ ns"]) (simp_all only: set_append ball_Un simp_thms)
qed

lemma map_filter_total: "(\<And>x y. f x = Some y \<Longrightarrow> g y = h x) \<Longrightarrow> map g (List.map_filter f xs) = map h (filter (\<lambda>x. f x \<noteq> None) xs)"
  by (induction xs) (auto simp: List.map_filter_simps split: option.splits)

lemma waiting_of_ids:
  "map w_id (waiting_of clock zone tb u) = map ob_id (filter (\<lambda>r. find (\<lambda>x. ar_id x = ob_rule_id r) (rt_rows (tb_rules tb)) \<noteq> None)
     (rev (sort_key ob_id (filter (\<lambda>r. ob_user r = u \<and> ob_settled_at r = None) (tb_outbox tb)))))"
  unfolding waiting_of_def by (subst map_filter_total[where h = ob_id]) (auto simp: waiting_row_def)

lemma waiting_of_distinct:
  assumes "distinct (map ob_id (tb_outbox tb))"
  shows "distinct (map w_id (waiting_of clock zone tb u))"
proof -
  have "distinct (map ob_id (filter P (tb_outbox tb)))" for P using assms by (simp add: distinct_map_filter)
  then have "distinct (map ob_id (rev (sort_key ob_id (filter (\<lambda>r. ob_user r = u \<and> ob_settled_at r = None) (tb_outbox tb)))))"
    by (simp add: distinct_map rev_map[symmetric])
  then show ?thesis unfolding waiting_of_ids by (rule distinct_map_filter)
qed

lemma waiting_of_unsettled:
  assumes "w \<in> set (waiting_of clock zone tb u)"
  shows "\<exists>r\<in>set (tb_outbox tb). ob_id r = w_id w \<and> ob_user r = u \<and> ob_settled_at r = None"
proof -
  have "w_id w \<in> set (map w_id (waiting_of clock zone tb u))" using assms by simp
  then show ?thesis unfolding waiting_of_ids by auto
qed

text \<open>
  One user's decision: what was settled before is untouched by it; every item a new email lists was the user's and
  waiting, is in no other, and is settled, under that email's delivery, by the time the decision commits.
\<close>

lemma decision_settles:
  assumes "distinct (map ob_id (tb_outbox tb))" "decide_for cat clock u now (tb, dc) = Inr (tb', dc')"
  shows "(\<exists>A. same_but A tb tb')
    \<and> (\<forall>r\<in>set (tb_outbox tb). ob_settled_at r \<noteq> None \<longrightarrow> r \<in> set (tb_outbox tb'))
    \<and> (\<exists>ms. dc_due dc' = dc_due dc @ ms \<and> mails_settled ms now tb' \<and> distinct (map w_id (items_of ms))
        \<and> (\<forall>m\<in>set ms. \<forall>w\<in>set (mail_items (du_mail m)). \<exists>r\<in>set (tb_outbox tb). ob_id r = w_id w \<and> ob_user r = u \<and> ob_settled_at r = None))"
proof (cases "tb' = tb \<and> dc' = dc")
  case True
  then show ?thesis by (intro conjI exI[of _ "{}"] exI[of _ "[]"]) (simp_all add: mails_settled_def same_but_refl)
next
  case False
  then obtain a address where r: "read_account cat clock tb u now = Inr (Some (a, address))"
    and w: "write_decision u a address (decide a) (tb, dc) = Inr (tb', dc')"
    using decide_for_cases[OF assms(2)] by blast
  obtain zone where wt: "a_waiting a = waiting_of clock zone tb u" using read_account_fields(5)[OF r] by blast
  have dw: "distinct (map w_id (a_waiting a))" unfolding wt by (rule waiting_of_distinct[OF assms(1)])
  note ds = decide_touches[OF dw]
  have sub: "set (de_dropped (decide a) @ de_overflowed (decide a) @ taken_items (decide a)) \<subseteq> set (a_waiting a)" using ds by auto
  have dd: "distinct (map w_id (de_dropped (decide a) @ de_overflowed (decide a) @ taken_items (decide a)))" using ds by blast
  obtain ms where ms: "dc_due dc' = dc_due dc @ ms" "mails_settled ms (a_now a) tb'" "\<forall>m\<in>set ms. set (mail_items (du_mail m)) \<subseteq> set (a_waiting a)"
      "distinct (map w_id (items_of ms))"
    and same: "same_but (w_id ` set (a_waiting a)) tb tb'"
    using write_decision_once[OF w dd sub] by blast
  have un: "\<exists>r\<in>set (tb_outbox tb). ob_id r = w_id x \<and> ob_user r = u \<and> ob_settled_at r = None" if "x \<in> set (a_waiting a)" for x
    using waiting_of_unsettled that unfolding wt .
  have "x \<in> set (tb_outbox tb')" if "x \<in> set (tb_outbox tb)" "ob_settled_at x \<noteq> None" for x
  proof -
    have "ob_id x \<notin> w_id ` set (a_waiting a)"
    proof
      assume "ob_id x \<in> w_id ` set (a_waiting a)"
      then obtain y where y: "y \<in> set (tb_outbox tb)" "ob_id y = ob_id x" "ob_settled_at y = None" using un by force
      then have "y = x" using assms(1) that(1) by (auto simp: distinct_map inj_on_def)
      then show False using y(3) that(2) by simp
    qed
    then show ?thesis using same_but_mem[OF same] that(1) by blast
  qed
  moreover have "a_now a = now" using read_account_fields(4)[OF r] .
  moreover have "\<forall>m\<in>set ms. \<forall>w\<in>set (mail_items (du_mail m)). \<exists>r\<in>set (tb_outbox tb). ob_id r = w_id w \<and> ob_user r = u \<and> ob_settled_at r = None"
    using ms(3) un by blast
  ultimately show ?thesis using ms(1,2,4) same by (intro conjI exI[of _ "w_id ` set (a_waiting a)"] exI[of _ ms]) simp_all
qed

text \<open>The rows a history queues.\<close>

definition queued :: "box_event list \<Rightarrow> outbox_row list" where
  "queued es = concat (map (\<lambda>e. case e of Queue r \<Rightarrow> [r] | _ \<Rightarrow> []) es)"

lemma queued_simps [simp]: "queued [] = []" "queued (Queue r # es) = r # queued es"
  by (simp_all add: queued_def)

lemma queued_Cons: "queued (e # es) = queued [e] @ queued es"
  by (simp add: queued_def)

lemma same_id: "distinct (map ob_id rs) \<Longrightarrow> x \<in> set rs \<Longrightarrow> y \<in> set rs \<Longrightarrow> ob_id x = ob_id y \<Longrightarrow> x = y"
  by (auto simp: distinct_map inj_on_def)

text \<open>After an event a row is one there was or the one queued, of the same user, and as it was if it was settled.\<close>

lemma box_step_rows:
  assumes "distinct (map ob_id (tb_outbox tb))" "r' \<in> set (tb_outbox (box_step clock tb e))"
  shows "\<exists>r\<in>set (tb_outbox tb @ queued [e]). ob_id r = ob_id r' \<and> ob_user r = ob_user r' \<and> (ob_settled_at r \<noteq> None \<longrightarrow> r' = r)"
proof (cases e)
  case (Run cat u now)
  show ?thesis
  proof (cases "decide_for cat clock u now (tb, nothing_decided)")
    case (Inl x)
    then show ?thesis using assms(2) by (auto simp: Run box_step_def)
  next
    case (Inr td)
    then have d: "decide_for cat clock u now (tb, nothing_decided) = Inr (fst td, snd td)" by simp
    have r': "r' \<in> set (tb_outbox (fst td))" using assms(2) by (simp add: Run box_step_def Inr)
    obtain A where A: "same_but A tb (fst td)" using decision_settles[OF assms(1) d] by blast
    obtain r where r: "r \<in> set (tb_outbox tb)" "ob_id r = ob_id r'" "ob_user r = ob_user r'" using same_but_row[OF A r'] by blast
    have "distinct (map ob_id (tb_outbox (fst td)))" using assms(1) same_but_ids[OF A] by simp
    then have "r' = r" if "ob_settled_at r \<noteq> None"
      using that r r' decision_settles[OF assms(1) d] by (metis same_id)
    then show ?thesis using r by auto
  qed
qed (use assms(2) in \<open>auto simp: box_step_def forget_def Let_def mark_sent_def split: option.splits\<close>)

lemma box_step_ids:
  assumes "distinct (map ob_id (tb_outbox tb @ queued (e # es)))"
  shows "distinct (map ob_id (tb_outbox (box_step clock tb e) @ queued es))"
proof -
  have f: "distinct (map ob_id (filter P (tb_outbox tb) @ queued es))" if "distinct (map ob_id (tb_outbox tb @ queued es))" for P
    using that by (auto simp: distinct_map_filter)
  show ?thesis
  proof (cases e)
    case (Run cat u now)
    show ?thesis
    proof (cases "decide_for cat clock u now (tb, nothing_decided)")
      case (Inr td)
      then have d: "decide_for cat clock u now (tb, nothing_decided) = Inr (fst td, snd td)" by simp
      have "distinct (map ob_id (tb_outbox tb))" using assms by simp
      then obtain A where "same_but A tb (fst td)" using decision_settles[OF _ d] by blast
      then show ?thesis using assms same_but_ids by (simp add: Run box_step_def Inr queued_def)
    qed (use assms in \<open>simp add: Run box_step_def queued_def\<close>)
  qed (use assms f in \<open>auto simp: box_step_def queued_def forget_def Let_def mark_sent_def split: option.splits\<close>)
qed

text \<open>A settled row is the only one its id ever has.\<close>

lemma settled_stays:
  assumes "distinct (map ob_id (tb_outbox tb @ queued es))" "r \<in> set (tb_outbox tb)" "ob_settled_at r \<noteq> None"
    and "r' \<in> set (tb_outbox (foldl (box_step clock) tb es))" "ob_id r' = ob_id r"
  shows "r' = r"
proof -
  have "\<forall>x\<in>set (tb_outbox tb @ queued es). ob_id x = ob_id r \<longrightarrow> x = r"
    using assms(1,2) same_id[OF assms(1), of _ r] by auto
  then show ?thesis using assms(1,4,5)
  proof (induction es arbitrary: tb)
    case (Cons e es)
    have d: "distinct (map ob_id (tb_outbox tb))" using Cons.prems(2) by simp
    have "\<forall>x\<in>set (tb_outbox (box_step clock tb e)). ob_id x = ob_id r \<longrightarrow> x = r"
      using box_step_rows[OF d] Cons.prems(1) assms(3) unfolding queued_Cons[of e es] by fastforce
    moreover have "\<forall>x\<in>set (queued es). ob_id x = ob_id r \<longrightarrow> x = r" using Cons.prems(1) unfolding queued_Cons[of e es] by auto
    ultimately have "\<forall>x\<in>set (tb_outbox (box_step clock tb e) @ queued es). ob_id x = ob_id r \<longrightarrow> x = r" by auto
    from Cons.IH[OF this box_step_ids[OF Cons.prems(2)]] Cons.prems(3,4) show ?case by simp
  qed simp
qed

lemma mails_of_settled:
  assumes "distinct (map ob_id (tb_outbox tb))"
  shows "distinct (map w_id (items_of (map ml_due (mails_of clock tb e))))"
    "m \<in> set (mails_of clock tb e) \<Longrightarrow> w \<in> set (mail_items (du_mail (ml_due m))) \<Longrightarrow>
      (\<exists>r\<in>set (tb_outbox tb). ob_id r = w_id w \<and> ob_user r = ml_user m \<and> ob_settled_at r = None)
      \<and> (\<exists>r\<in>set (tb_outbox (box_step clock tb e)). ob_id r = w_id w \<and> ob_settled_at r \<noteq> None \<and> ob_delivery r = Some (du_delivery (ml_due m)))"
proof (atomize (full), cases e)
  case (Run cat u now)
  show "distinct (map w_id (items_of (map ml_due (mails_of clock tb e)))) \<and> (m \<in> set (mails_of clock tb e) \<longrightarrow>
      w \<in> set (mail_items (du_mail (ml_due m))) \<longrightarrow> (\<exists>r\<in>set (tb_outbox tb). ob_id r = w_id w \<and> ob_user r = ml_user m \<and> ob_settled_at r = None)
      \<and> (\<exists>r\<in>set (tb_outbox (box_step clock tb e)). ob_id r = w_id w \<and> ob_settled_at r \<noteq> None \<and> ob_delivery r = Some (du_delivery (ml_due m))))"
  proof (cases "decide_for cat clock u now (tb, nothing_decided)")
    case (Inr td)
    then have d: "decide_for cat clock u now (tb, nothing_decided) = Inr (fst td, snd td)" by simp
    obtain A ms where A: "same_but A tb (fst td)" and due: "dc_due (snd td) = ms" and ms: "mails_settled ms now (fst td)"
      "distinct (map w_id (items_of ms))" "\<forall>m\<in>set ms. \<forall>w\<in>set (mail_items (du_mail m)). \<exists>r\<in>set (tb_outbox tb). ob_id r = w_id w \<and> ob_user r = u \<and> ob_settled_at r = None"
      using decision_settles[OF assms d] by (auto simp: nothing_decided_def)
    have "\<exists>r'\<in>set (tb_outbox (fst td)). ob_id r' = ob_id r" if "r \<in> set (tb_outbox tb)" for r
      using same_but_ids[OF A] that by (metis (no_types, lifting) image_iff set_map)
    then have "\<exists>r\<in>set (tb_outbox (fst td)). ob_id r = w_id w \<and> ob_settled_at r \<noteq> None \<and> ob_delivery r = Some (du_delivery m)"
      if "m \<in> set ms" "w \<in> set (mail_items (du_mail m))" for m w
      using that ms(1,3) unfolding mails_settled_def by (metis option.discI)
    then show ?thesis using ms(2,3) by (auto simp: Run mails_of_def box_step_def Inr due o_def)
  qed (simp add: Run mails_of_def)
qed (simp_all add: mails_of_def)

lemma mails_settle:
  assumes "distinct (map ob_id (tb_outbox tb @ queued es))"
  shows "distinct (map w_id (items_of (map ml_due (mailed clock tb es))))
    \<and> (\<forall>m\<in>set (mailed clock tb es). \<forall>w\<in>set (mail_items (du_mail (ml_due m))).
        (\<exists>r\<in>set (tb_outbox tb @ queued es). ob_id r = w_id w \<and> ob_user r = ml_user m \<and> ob_settled_at r = None)
      \<and> (\<forall>r\<in>set (tb_outbox (foldl (box_step clock) tb es)). ob_id r = w_id w
          \<longrightarrow> ob_settled_at r \<noteq> None \<and> ob_delivery r = Some (du_delivery (ml_due m))))"
  using assms
proof (induction es arbitrary: tb)
  case (Cons e es)
  let ?tb = "box_step clock tb e" and ?now = "mails_of clock tb e" and ?later = "mailed clock (box_step clock tb e) es"
  have d: "distinct (map ob_id (tb_outbox tb))" using Cons.prems by simp
  note ids = box_step_ids[OF Cons.prems, of clock]
  note IH = Cons.IH[OF ids] and S = mails_of_settled(1)[OF d, of clock e] mails_of_settled(2)[OF d, of _ clock e]
  have later: "\<exists>r\<in>set (tb_outbox tb @ queued (e # es)). ob_id r = w_id w \<and> ob_user r = ml_user m \<and> ob_settled_at r = None"
    if m: "m \<in> set ?later" "w \<in> set (mail_items (du_mail (ml_due m)))" for m w
  proof -
    obtain r where r: "r \<in> set (tb_outbox ?tb @ queued es)" "ob_id r = w_id w" "ob_user r = ml_user m" "ob_settled_at r = None"
      using conjunct1[OF bspec[OF bspec[OF conjunct2[OF IH] m(1)] m(2)]] by blast
    then show ?thesis using box_step_rows[OF d, of r clock e] unfolding queued_Cons[of e es] by fastforce
  qed
  have apart: "w_id w \<noteq> w_id v" if n: "m \<in> set ?now" "w \<in> set (mail_items (du_mail (ml_due m)))"
    "n \<in> set ?later" "v \<in> set (mail_items (du_mail (ml_due n)))" for m w n v
  proof
    assume e: "w_id w = w_id v"
    obtain x where x: "x \<in> set (tb_outbox ?tb)" "ob_id x = w_id w" "ob_settled_at x \<noteq> None" using S(2)[OF n(1,2)] by blast
    obtain y where y: "y \<in> set (tb_outbox ?tb @ queued es)" "ob_id y = w_id v" "ob_settled_at y = None"
      using conjunct1[OF bspec[OF bspec[OF conjunct2[OF IH] n(3)] n(4)]] by blast
    have "x = y" by (rule same_id[OF ids]) (use x y e in simp_all)
    then show False using x(3) y(3) by simp
  qed
  have now: "ob_settled_at r \<noteq> None \<and> ob_delivery r = Some (du_delivery (ml_due m))"
    if m: "m \<in> set ?now" "w \<in> set (mail_items (du_mail (ml_due m)))" "r \<in> set (tb_outbox (foldl (box_step clock) ?tb es))" "ob_id r = w_id w" for m w r
  proof -
    obtain x where x: "x \<in> set (tb_outbox ?tb)" "ob_id x = w_id w" "ob_settled_at x \<noteq> None" "ob_delivery x = Some (du_delivery (ml_due m))"
      using S(2)[OF m(1,2)] by blast
    then have "r = x" using settled_stays[OF ids x(1,3) m(3)] m(4) by simp
    then show ?thesis using x by simp
  qed
  have "w_id ` set (items_of (map ml_due ?now)) \<inter> w_id ` set (items_of (map ml_due ?later)) = {}" using apart by fastforce
  then have "distinct (map w_id (items_of (map ml_due (mailed clock tb (e # es)))))"
    using S(1) IH by (simp del: items_of_simps(4))
  moreover have "\<exists>r\<in>set (tb_outbox tb @ queued (e # es)). ob_id r = w_id w \<and> ob_user r = ml_user m \<and> ob_settled_at r = None"
    if "m \<in> set (mailed clock tb (e # es))" "w \<in> set (mail_items (du_mail (ml_due m)))" for m w
    using that(1) later[OF _ that(2)] S(2)[OF _ that(2)] by (force simp del: queued_simps)
  moreover have "ob_settled_at r \<noteq> None \<and> ob_delivery r = Some (du_delivery (ml_due m))"
    if "m \<in> set (mailed clock tb (e # es))" "w \<in> set (mail_items (du_mail (ml_due m)))"
      "r \<in> set (tb_outbox (foldl (box_step clock) tb (e # es)))" "ob_id r = w_id w" for m w r
    using that now[of m w r] IH by (cases "m \<in> set ?now") auto
  ultimately show ?case by blast
qed simp

text \<open>C39. Every item goes once. In any history, with whatever is queued, decided, changed and forgotten in between,
  no two of the emails asked for, and no email twice, list the same item; each lists only what waited, unsettled, for its
  user; and what it lists is settled from then on, under that email's delivery, until it is forgotten.\<close>

theorem each_item_goes_once:
  assumes "distinct (map ob_id (tb_outbox tb @ queued es))"
  shows "distinct (map w_id (items_of (map ml_due (mailed clock tb es))))
    \<and> (\<forall>m\<in>set (mailed clock tb es). \<forall>w\<in>set (mail_items (du_mail (ml_due m))).
        (\<exists>r\<in>set (tb_outbox tb @ queued es). ob_id r = w_id w \<and> ob_user r = ml_user m \<and> ob_settled_at r = None)
      \<and> (\<forall>r\<in>set (tb_outbox (foldl (box_step clock) tb es)). ob_id r = w_id w
          \<longrightarrow> ob_settled_at r \<noteq> None \<and> ob_delivery r = Some (du_delivery (ml_due m))))"
  by (rule mails_settle[OF assms])

section \<open>The job's own history\<close>

text \<open>What is written and what is due do not depend on what was decided before in the same job.\<close>

definition same_due :: "decided \<Rightarrow> decided \<Rightarrow> decided \<Rightarrow> decided \<Rightarrow> bool" where
  "same_due dc dc' de de' = (\<exists>ms. dc_due dc' = dc_due dc @ ms \<and> dc_due de' = dc_due de @ ms)"

lemma write_digest_due:
  assumes "write_digest u a address d (tb, dc) = Inr (tb', dc')"
  shows "\<exists>de'. write_digest u a address d (tb, de) = Inr (tb', de') \<and> same_due dc dc' de de'"
  using assms by (fastforce simp: write_digest_def Let_def bind_res_Inr_iff same_due_def)

lemma write_batch_due:
  assumes "write_batch u a address b (tb, dc) = (tb', dc')"
  shows "\<exists>de'. write_batch u a address b (tb, de) = (tb', de') \<and> same_due dc dc' de de'"
  using assms by (cases "b = []") (auto simp: write_batch_def same_due_def)

lemma write_decision_due:
  assumes "write_decision u a address d (tb, dc) = Inr (tb', dc')"
  shows "\<exists>de'. write_decision u a address d (tb, de) = Inr (tb', de') \<and> same_due dc dc' de de'"
proof -
  let ?tb2 = "if de_overflowed d \<noteq> [] then reroute (de_overflowed d) (settle (de_dropped d) (a_now a) None tb) else settle (de_dropped d) (a_now a) None tb"
  define before where "before c = (let c1 = c\<lparr>dc_users := dc_users c + 1, dc_dropped := dc_dropped c + length (de_dropped d)\<rparr>
      in c1\<lparr>dc_overflowed := dc_overflowed c1 + length (de_overflowed d)\<rparr>)" for c :: decided
  define dig where "dig c = (case de_digest d of None \<Rightarrow> Inr (?tb2, c) | Some g \<Rightarrow> write_digest u a address g (?tb2, c))" for c
  have e: "write_decision u a address d (tb, c) = map_res (write_batch u a address (de_batch d)) (dig (before c))" for c
    by (simp only: write_decision_def Let_def before_def dig_def prod.case)
  obtain tb3 dc3 where 3: "dig (before dc) = Inr (tb3, dc3)" "(tb', dc') = write_batch u a address (de_batch d) (tb3, dc3)"
    using assms unfolding e map_res_Inr_iff by auto
  obtain de3 where 4: "dig (before de) = Inr (tb3, de3)" "same_due (before dc) dc3 (before de) de3"
    using 3(1) write_digest_due unfolding dig_def by (cases "de_digest d") (fastforce simp: same_due_def)+
  obtain de' where "write_batch u a address (de_batch d) (tb3, de3) = (tb', de')" "same_due dc3 dc' de3 de'"
    using write_batch_due[OF 3(2)[symmetric]] by blast
  then show ?thesis using 4 unfolding e by (auto simp: map_res_Inr_iff same_due_def before_def Let_def)
qed

lemma decide_for_due:
  assumes "decide_for cat clock u now (tb, dc) = Inr (tb', dc')"
  shows "\<exists>de'. decide_for cat clock u now (tb, de) = Inr (tb', de') \<and> same_due dc dc' de de'"
proof -
  obtain got where got: "read_account cat clock tb u now = Inr got" using assms by (auto simp: decide_for_def bind_res_Inr_iff)
  show ?thesis
  proof (cases got)
    case None
    then show ?thesis using assms got by (simp add: decide_for_def bind_res_def same_due_def)
  next
    case (Some x)
    then obtain a address where x: "got = Some (a, address)" by (cases x) auto
    have w: "write_decision u a address (decide a) (tb, dc) = Inr (tb', dc')"
      using assms got by (auto simp: decide_for_def bind_res_def x split: sum.splits)
    show ?thesis using write_decision_due[OF w, of de] got by (auto simp: decide_for_def bind_res_def x)
  qed
qed

text \<open>
  \<open>decide_due\<close> is a history: a run for each user until one fails, and a forgetting if none does; what it returns to
  send is what that history mails.
\<close>

lemma decide_users_runs:
  assumes "decide_users cat clock now us (tb, dc) = ((tb', dc'), e)"
  shows "\<exists>vs. (\<exists>ws. us = vs @ ws) \<and> tb' = foldl (box_step clock) tb (map (\<lambda>u. Run cat u now) vs)
    \<and> dc_due dc' = dc_due dc @ map ml_due (mailed clock tb (map (\<lambda>u. Run cat u now) vs)) \<and> (e = None \<longrightarrow> vs = us)"
  using assms
proof (induction us arbitrary: tb dc)
  case (Cons u us)
  show ?case
  proof (cases "decide_for cat clock u now (tb, dc)")
    case (Inl x)
    then show ?thesis using Cons.prems by (intro exI[of _ "[]"]) auto
  next
    case (Inr td)
    obtain tb1 dc1 where td: "td = (tb1, dc1)" by (rule prod.exhaust)
    obtain de where de: "decide_for cat clock u now (tb, nothing_decided) = Inr (tb1, de)" "same_due dc dc1 nothing_decided de"
      using decide_for_due[OF Inr[unfolded td]] by blast
    have step: "box_step clock tb (Run cat u now) = tb1" "map ml_due (mails_of clock tb (Run cat u now)) = dc_due de"
      by (simp_all add: box_step_def mails_of_def de(1) o_def)
    have "decide_users cat clock now us (tb1, dc1) = ((tb', dc'), e)" using Cons.prems by (simp add: Inr td)
    from Cons.IH[OF this] obtain vs where "\<exists>ws. us = vs @ ws" "tb' = foldl (box_step clock) tb1 (map (\<lambda>u. Run cat u now) vs)"
      "dc_due dc' = dc_due dc1 @ map ml_due (mailed clock tb1 (map (\<lambda>u. Run cat u now) vs))" "e = None \<longrightarrow> vs = us" by blast
    then show ?thesis using step de(2) by (intro exI[of _ "u # vs"]) (auto simp: same_due_def nothing_decided_def)
  qed
qed simp

lemma decide_due_runs:
  assumes "decide_due cat clock now tb = (tb', res)"
  shows "\<exists>vs ws. sort (remdups (map ob_user (filter (\<lambda>r. ob_settled_at r = None) (tb_outbox tb)))) = vs @ ws \<and> (isl res \<or> ws = [])
    \<and> tb' = foldl (box_step clock) tb (map (\<lambda>u. Run cat u now) vs @ (if isl res then [] else [Forget now]))
    \<and> (\<forall>dc. res = Inr dc \<longrightarrow> dc_due dc = map ml_due (mailed clock tb (map (\<lambda>u. Run cat u now) vs)))"
proof -
  obtain tb1 dc1 e where d: "decide_users cat clock now (sort (remdups (map ob_user (filter (\<lambda>r. ob_settled_at r = None) (tb_outbox tb)))))
      (tb, nothing_decided) = ((tb1, dc1), e)" by (metis prod.exhaust)
  from decide_users_runs[OF d] obtain vs ws where "sort (remdups (map ob_user (filter (\<lambda>r. ob_settled_at r = None) (tb_outbox tb)))) = vs @ ws"
    "tb1 = foldl (box_step clock) tb (map (\<lambda>u. Run cat u now) vs)" "dc_due dc1 = map ml_due (mailed clock tb (map (\<lambda>u. Run cat u now) vs))"
    "e = None \<longrightarrow> ws = []" by (auto simp: nothing_decided_def)
  then show ?thesis using assms d
    by (intro exI[of _ vs] exI[of _ ws]) (cases e; auto simp: decide_due_def box_step_def)
qed

lemma send_due_sends: "fst (send_due courier dc tb) = foldl (box_step clock) tb (map (\<lambda>d. Sent d (courier d)) (dc_due dc))"
proof -
  have "foldl (mark_sent courier) tb ds = foldl (box_step clock) tb (map (\<lambda>d. Sent d (courier d)) ds)" for ds
    by (induction ds arbitrary: tb) (simp_all add: box_step_def mark_sent_def)
  then show ?thesis by (simp add: send_due_def)
qed

section \<open>Concrete runs\<close>

text \<open>Noon on 2 March 2026, a day of no filing window, and a clock that stands there.\<close>

definition noon :: moment where "noon = 63908049600000000"

lemma noon_wall: "wall_us (DateTime (Date 2026 3 2) (12 * hour_us)) = noon"
  by (simp add: wall_us_def noon_def midnight_utc_def toordinal_def days_before_month_def days_before_year_def upto_rec1 month_days_def is_leap_def)

definition noon_clock :: clock where
  "noon_clock z t = DateTime (Date 2026 3 2) (12 * hour_us)"

definition sample_item :: outbox_row where
  "sample_item = \<lparr>ob_id = 1, ob_user = 7, ob_rule_id = 1, ob_route = Instant_route, ob_kind = Filer_filed, ob_title = ''t'',
     ob_body = ''b'', ob_payload = \<lparr>pl_filer_slug = None, pl_filer_name = None, pl_period = None\<rparr>, ob_queued_at = 0,
     ob_filed_at = None, ob_settled_at = None, ob_delivery = None\<rparr>"

definition sample_tables :: tables where
  "sample_tables = \<lparr>tb_users = [\<lparr>u_id = 7, u_email = ''a'', u_verified = True, u_deleted = False, u_quiet_start = 0, u_quiet_end = 0,
       u_zone = ''UTC'', u_grant = None\<rparr>], tb_rules = sample_followed, tb_outbox = [sample_item], tb_deliveries = [], tb_bell = [],
     tb_next_delivery = 1, tb_next_bell = 1\<rparr>"

lemma sample_sent: "sent_kinds sample_pro (Some None) now = Inr (set every_kind)"
  using sample_free(1) by (simp add: sent_kinds_def can_def sample_pro_def current_def resolve_def live_grant_def flag_keys_def)

definition sample_account :: account where
  "sample_account = \<lparr>a_now = noon, a_local_now = noon_clock [] 0, a_quiet_start = 0, a_quiet_end = 0, a_verified = True,
     a_sent = set every_kind, a_emailed_today = 0, a_last_digest = None, a_digest_emails = False,
     a_waiting = [waiting_row noon_clock ''UTC'' sample_item (hd (rt_rows sample_followed))]\<rparr>"

lemma sample_reads: "read_account sample_pro noon_clock sample_tables 7 noon = Inr (Some (sample_account, ''a''))"
  by (simp add: read_account_def sample_tables_def sample_sent sample_account_def noon_clock_def emailed_on_def last_digest_def max_of_def
      digest_rule_emails_def sample_followed_def waiting_of_def sample_item_def List.map_filter_simps Let_def)

lemma sample_decides:
  "decide sample_account = \<lparr>de_dropped = [], de_overflowed = [], de_batch = a_waiting sample_account, de_digest = None\<rparr>"
  by (simp add: decide_unfold sample_account_def noon_clock_def may_go_def waiting_row_def sample_followed_def sample_item_def every_kind_def
      season_def emails_def is_quiet_def decide_digest_def due_items_def window_closed_def digest_ahead_def in_filing_window_def noon_def)

definition sample_batch :: due where
  "sample_batch = \<lparr>du_delivery = 1, du_to = ''a'', du_mail = Batch_mail (a_waiting sample_account)\<rparr>"

lemma sample_run:
  "\<exists>tb dc. decide_for sample_pro noon_clock 7 noon (sample_tables, nothing_decided) = Inr (tb, dc) \<and> dc_due dc = [sample_batch]"
  by (simp add: decide_for_def sample_reads write_decision_def sample_decides write_batch_def sample_batch_def Let_def)
    (simp add: sample_account_def settle_def sample_tables_def nothing_decided_def bind_res_def map_res_def)

text \<open>The run, a row queued behind it, and all of it forgotten.\<close>

definition sample_history :: "box_event list" where
  "sample_history = [Run sample_pro 7 noon, Queue (sample_item\<lparr>ob_id := 2\<rparr>), Sent sample_batch (Some ''sent''), Forget (noon + 30 * day_us)]"

lemma sample_mailed:
  "mailed noon_clock sample_tables sample_history
    = [\<lparr>ml_user = 7, ml_local = DateTime (Date 2026 3 2) (12 * hour_us), ml_due = sample_batch\<rparr>]"
proof -
  obtain tb dc where "decide_for sample_pro noon_clock 7 noon (sample_tables, nothing_decided) = Inr (tb, dc)" "dc_due dc = [sample_batch]"
    using sample_run by blast
  then show ?thesis by (simp add: sample_history_def mails_of_def local_now_of_def noon_clock_def)
qed

lemma each_item_goes_once_witness:
  "items_of (map ml_due (mailed noon_clock sample_tables sample_history)) = a_waiting sample_account
    \<and> (\<exists>r\<in>set (tb_outbox sample_tables). ob_id r = 1 \<and> ob_user r = 7 \<and> ob_settled_at r = None)"
proof -
  have d: "distinct (map ob_id (tb_outbox sample_tables @ queued sample_history))"
    by (simp add: sample_tables_def sample_history_def sample_item_def queued_def)
  let ?w = "hd (a_waiting sample_account)"
  have i: "items_of (map ml_due (mailed noon_clock sample_tables sample_history)) = a_waiting sample_account"
    by (simp add: sample_mailed sample_batch_def)
  have "\<exists>r\<in>set (tb_outbox sample_tables @ queued sample_history). ob_id r = w_id ?w \<and> ob_user r = 7 \<and> ob_settled_at r = None"
    using each_item_goes_once[OF d, of noon_clock] by (simp add: sample_mailed sample_batch_def sample_account_def)
  then show ?thesis unfolding i
    by (auto simp: sample_tables_def sample_history_def sample_item_def queued_def sample_account_def waiting_row_def)
qed

lemma alert_cap_and_one_digest_witness:
  "mailed noon_clock sample_tables sample_history \<noteq> []
    \<and> length (filter (\<lambda>m. ml_user m = 7 \<and> dt_date (ml_local m) = Date 2026 3 2) (mailed noon_clock sample_tables sample_history)) \<le> emails_per_day"
proof -
  have "clock_ok noon_clock noon"
    by (simp add: clock_ok_def wall_clock_def near_def noon_clock_def noon_wall[simplified] valid_date_def month_days_def)
  then have "clocks_ok noon_clock sample_history" by (simp add: clocks_ok_def sample_history_def)
  moreover have "timely sample_history" by (simp add: timely_def sample_history_def)
  moreover have "deliveries_ok (tb_deliveries sample_tables)" by (simp add: deliveries_ok_def sample_tables_def day_rows_def evenings_def)
  ultimately have "length (day_rows (tb_deliveries sample_tables) 7 (Date 2026 3 2))
      + length (filter (\<lambda>m. ml_user m = 7 \<and> dt_date (ml_local m) = Date 2026 3 2) (mailed noon_clock sample_tables sample_history)) \<le> emails_per_day"
    using alert_cap_and_one_digest by blast
  then show ?thesis by (simp add: sample_mailed)
qed

lemma decide_sound_witness: "set (de_overflowed (decide sample_account) @ taken_items (decide sample_account)) \<subseteq> set (a_waiting sample_account)"
proof -
  have "distinct (map w_id (a_waiting sample_account))" by (simp add: sample_account_def)
  from decide_sound[OF this] show ?thesis by blast
qed

lemma digest_has_room_witness:
  "\<exists>d. de_digest (decide (sample_account\<lparr>a_waiting := [(hd (a_waiting sample_account))\<lparr>w_route := Digest_route, w_local_queued_at := DateTime (Date 2026 3 1) 0\<rparr>]\<rparr>)) = Some d"
  (is "\<exists>d. de_digest (decide ?a) = Some d")
proof -
  have "\<not> is_quiet (dt_time (a_local_now ?a)) (a_quiet_start ?a) (a_quiet_end ?a)" by (simp add: sample_account_def is_quiet_def)
  moreover have "due_items ?a (filter (may_go ?a) (a_waiting ?a)) \<noteq> []"
    by (simp add: due_items_def may_go_def sample_account_def noon_clock_def waiting_row_def sample_followed_def every_kind_def season_def emails_def
        last_digest_time_def datetime_order date_order prev_day_def Let_def)
  moreover have "a_last_digest ?a = None" "a_emailed_today ?a = 0" by (simp_all add: sample_account_def)
  ultimately show ?thesis using digest_has_room[of ?a] by auto
qed

end
