(* ===== verification/Scopes.thy ===== *)
theory Scopes
  imports Calendar Complex_Main
begin

text \<open>
  \<open>app/derived/scope.py\<close>, and what the derived tables share. A table is the set of its rows, a
  record each: every table here has a primary key, so no row is there twice. A query is a function
  of the tables it reads. \<open>numeric\<close> values are exact rationals. The contract of a derived table,
  that a rebuild of some of its keys leaves what a rebuild of all of it would, is the locale
  \<open>derived_table\<close>; each derived table interprets it on its own query.
\<close>

section \<open>Scopes\<close>

type_synonym pair = "int \<times> date"
type_synonym scope = "pair set option"

definition everything :: scope where "everything = None"

definition scope_of :: "pair set \<Rightarrow> scope" where "scope_of ps = Some ps"

definition filer_ids :: "scope \<Rightarrow> int set option" where
  "filer_ids s = (case s of None \<Rightarrow> None | Some ps \<Rightarrow> Some (fst ` ps))"

definition scope_or :: "scope \<Rightarrow> scope \<Rightarrow> scope" where
  "scope_or a b = (case (a, b) of (Some ps, Some qs) \<Rightarrow> Some (ps \<union> qs) | _ \<Rightarrow> everything)"

text \<open>\<open>keyed\<close> and \<open>covers\<close>: the rows at the keys, or every row.\<close>

definition covers :: "'k set option \<Rightarrow> 'k \<Rightarrow> bool" where
  "covers s k = (case s of None \<Rightarrow> True | Some ks \<Rightarrow> k \<in> ks)"

definition of_filers :: "scope \<Rightarrow> int \<Rightarrow> bool" where
  "of_filers s f = covers (filer_ids s) f"

lemma covers_simps [simp]: "covers None k" "covers (Some ks) k \<longleftrightarrow> k \<in> ks"
  by (simp_all add: covers_def)

lemma covers_or [simp]: "covers (scope_or a b) k \<longleftrightarrow> covers a k \<or> covers b k"
  by (cases a; cases b) (auto simp: scope_or_def everything_def)

lemma of_filers_covers: "covers s (f, p) \<Longrightarrow> of_filers s f"
  by (cases s) (force simp: of_filers_def filer_ids_def)+

section \<open>Rebuilding a table\<close>

text \<open>Delete the rows in scope, insert the query's rows.\<close>

definition rebuild :: "('r \<Rightarrow> 'k) \<Rightarrow> 'k set option \<Rightarrow> 'r set \<Rightarrow> 'r set \<Rightarrow> 'r set" where
  "rebuild key ks old new = {r \<in> old. \<not> covers ks (key r)} \<union> new"

locale derived_table =
  fixes query :: "'k set option \<Rightarrow> 's \<Rightarrow> 'r set"
    and key :: "'r \<Rightarrow> 'k"
  assumes scoped: "query (Some ks) s = {r \<in> query None s. key r \<in> ks}"
begin

lemma scoped_covers: "query ks s = {r \<in> query None s. covers ks (key r)}"
  by (cases ks) (auto simp: scoped)

text \<open>A rebuild gives the whole table, when what it reads moved only the rows it rebuilds.\<close>

lemma rebuild_eq:
  assumes "\<And>r. \<not> covers ks (key r) \<Longrightarrow> r \<in> query None s \<longleftrightarrow> r \<in> query None s'"
  shows "rebuild key ks (query None s) (query ks s') = query None s'"
  using assms by (subst scoped_covers) (auto simp: rebuild_def)

lemma rebuild_idem: "rebuild key ks (query None s) (query ks s) = query None s"
  by (rule rebuild_eq) simp

end

section \<open>Rows by their key\<close>

text \<open>The row at a key, as a join on the key finds it: none, or the one there is.\<close>

definition row_at :: "('r \<Rightarrow> 'k) \<Rightarrow> 'r set \<Rightarrow> 'k \<Rightarrow> 'r option" where
  "row_at key t k = (let rs = {r \<in> t. key r = k} in if rs = {} then None else Some (the_elem rs))"

lemma row_at_None: "row_at key t k = None \<longleftrightarrow> k \<notin> key ` t"
  by (auto simp: row_at_def Let_def)

lemma row_at_Some: "inj_on key t \<Longrightarrow> row_at key t k = Some r \<longleftrightarrow> r \<in> t \<and> key r = k"
proof -
  assume i: "inj_on key t"
  have "{r \<in> t. key r = k} = {r}" if "r \<in> t" "key r = k" for r using i that by (auto simp: inj_on_def)
  then show ?thesis by (auto simp: row_at_def Let_def split: if_splits) blast
qed

lemma row_at_same: "{r \<in> t. key r = k} = {r \<in> t'. key r = k} \<Longrightarrow> row_at key t k = row_at key t' k"
  by (simp add: row_at_def)

section \<open>Orders of rows\<close>

text \<open>The greatest period before, and the least after, of a set of them: \<open>LAG\<close> and \<open>LEAD\<close> of a period.\<close>

definition before_in :: "'a::linorder set \<Rightarrow> 'a \<Rightarrow> 'a option" where
  "before_in A p = (if {q \<in> A. q < p} = {} then None else Some (Max {q \<in> A. q < p}))"

definition after_in :: "'a::linorder set \<Rightarrow> 'a \<Rightarrow> 'a option" where
  "after_in A p = (if {q \<in> A. p < q} = {} then None else Some (Min {q \<in> A. p < q}))"

lemma before_in_Some:
  assumes "finite A"
  shows "before_in A p = Some q \<longleftrightarrow> q \<in> A \<and> q < p \<and> (\<forall>r\<in>A. r < p \<longrightarrow> r \<le> q)"
proof -
  let ?S = "{q \<in> A. q < p}"
  have f: "finite ?S" using assms by simp
  show ?thesis
  proof (cases "?S = {}")
    case True
    then show ?thesis unfolding before_in_def by auto
  next
    case False
    then show ?thesis using Max_eq_iff[OF f False, of q] unfolding before_in_def by auto
  qed
qed

lemma before_in_None: "before_in A p = None \<longleftrightarrow> (\<forall>q\<in>A. \<not> q < p)"
  by (auto simp: before_in_def)

lemma after_in_Some:
  assumes "finite A"
  shows "after_in A p = Some q \<longleftrightarrow> q \<in> A \<and> p < q \<and> (\<forall>r\<in>A. p < r \<longrightarrow> q \<le> r)"
proof -
  let ?S = "{q \<in> A. p < q}"
  have f: "finite ?S" using assms by simp
  show ?thesis
  proof (cases "?S = {}")
    case True
    then show ?thesis unfolding after_in_def by auto
  next
    case False
    then show ?thesis using Min_eq_iff[OF f False, of q] unfolding after_in_def by auto
  qed
qed

lemma after_in_None: "after_in A p = None \<longleftrightarrow> (\<forall>q\<in>A. \<not> p < q)"
  by (auto simp: after_in_def)

lemma before_after: "finite A \<Longrightarrow> p \<in> A \<Longrightarrow> q \<in> A \<Longrightarrow> before_in A p = Some q \<longleftrightarrow> after_in A q = Some p"
  by (auto simp: before_in_Some after_in_Some not_less[symmetric])

text \<open>Postgres's \<open>round(x, n)\<close>: half away from zero.\<close>

definition sql_round :: "nat \<Rightarrow> rat \<Rightarrow> rat" where
  "sql_round n x = (if 0 \<le> x then of_int \<lfloor>x * 10 ^ n + 1 / 2\<rfloor> else - of_int \<lfloor>- x * 10 ^ n + 1 / 2\<rfloor>) / 10 ^ n"

lemma sql_round_error: "\<bar>sql_round n x - x\<bar> \<le> 1 / (2 * 10 ^ n)"
proof -
  let ?p = "10 ^ n :: rat"
  have near: "\<bar>of_int \<lfloor>y + 1 / 2\<rfloor> - y\<bar> \<le> 1 / 2" for y :: rat
    using floor_correct[of "y + 1 / 2"] by linarith
  have "\<exists>z. sql_round n x = z / ?p \<and> \<bar>z - x * ?p\<bar> \<le> 1 / 2"
  proof (cases "0 \<le> x")
    case True
    then show ?thesis using near[of "x * ?p"] by (auto simp: sql_round_def)
  next
    case False
    have "\<bar>- of_int \<lfloor>- x * ?p + 1 / 2\<rfloor> - x * ?p\<bar> \<le> 1 / 2" using near[of "- x * ?p"] unfolding abs_le_iff by linarith
    then show ?thesis using False by (intro exI[of _ "- of_int \<lfloor>- x * ?p + 1 / 2\<rfloor>"]) (simp add: sql_round_def)
  qed
  then obtain z where z: "sql_round n x = z / ?p" "\<bar>z - x * ?p\<bar> \<le> 1 / 2" by blast
  have "sql_round n x - x = (z - x * ?p) / ?p" using z(1) by (simp add: field_simps)
  then have "\<bar>sql_round n x - x\<bar> = \<bar>z - x * ?p\<bar> / ?p" by simp
  also have "\<dots> \<le> (1 / 2) / ?p" using z(2) by (intro divide_right_mono) simp_all
  finally show ?thesis by simp
qed

text \<open>\<open>percentile_disc(0.5)\<close>: the first value that half of them do not pass; null of none.\<close>

definition median_disc :: "('a::linorder \<times> 'b::linorder) set \<Rightarrow> 'a option" where
  "median_disc A = (if A = {} then None else Some (fst (sorted_list_of_set A ! ((card A + 1) div 2 - 1))))"

lemma median_disc_mem: "finite A \<Longrightarrow> median_disc A = Some x \<Longrightarrow> \<exists>b. (x, b) \<in> A"
proof -
  assume f: "finite A" and m: "median_disc A = Some x"
  have "A \<noteq> {}" using m by (auto simp: median_disc_def)
  then have "0 < card A" using f by (simp add: card_gt_0_iff)
  then have "(card A + 1) div 2 - 1 < length (sorted_list_of_set A)" by simp
  then have "sorted_list_of_set A ! ((card A + 1) div 2 - 1) \<in> A"
    using nth_mem[of _ "sorted_list_of_set A"] f by simp
  moreover have "x = fst (sorted_list_of_set A ! ((card A + 1) div 2 - 1))"
    using m \<open>A \<noteq> {}\<close> by (simp add: median_disc_def)
  ultimately show ?thesis by (metis prod.collapse)
qed

text \<open>A median of a majority that lies between two bounds lies between them, wherever the others are.\<close>

lemma median_disc_between:
  fixes A :: "('a::linorder \<times> 'b::linorder) set"
  assumes f: "finite A" and maj: "card A < 2 * card {x \<in> A. lo \<le> fst x \<and> fst x \<le> hi}"
  shows "\<exists>m. median_disc A = Some m \<and> lo \<le> m \<and> m \<le> hi"
proof -
  let ?xs = "sorted_list_of_set A" and ?P = "\<lambda>x. lo \<le> fst x \<and> fst x \<le> hi"
  let ?n = "card A" and ?m = "(card A + 1) div 2 - 1"
  have n: "length ?xs = ?n" "0 < ?n" using maj card_mono[OF f, of "{x \<in> A. ?P x}"] by auto
  have cnt: "card {x \<in> A. ?P x} = card {i. i < ?n \<and> ?P (?xs ! i)}"
  proof -
    have "{x \<in> A. ?P x} = set (filter ?P ?xs)" using f by auto
    then have "card {x \<in> A. ?P x} = length (filter ?P ?xs)" using distinct_card[of "filter ?P ?xs"] by simp
    then show ?thesis by (simp add: length_filter_conv_card)
  qed
  have mono: "fst (?xs ! i) \<le> fst (?xs ! j)" if "i \<le> j" "j < ?n" for i j
    using sorted_nth_mono[OF sorted_sorted_list_of_set, of i j A] that by (auto simp: less_eq_prod_def)
  have lo: "lo \<le> fst (?xs ! ?m)"
  proof (rule ccontr)
    assume "\<not> ?thesis"
    then have "{i. i < ?n \<and> ?P (?xs ! i)} \<subseteq> {?m<..<?n}" using mono[of _ ?m] n(2) by (force simp: not_le)
    then have "card {i. i < ?n \<and> ?P (?xs ! i)} \<le> ?n - Suc ?m" using card_mono[of "{?m<..<?n}"] by fastforce
    then show False using maj cnt n(2) by linarith
  qed
  have hi: "fst (?xs ! ?m) \<le> hi"
  proof (rule ccontr)
    assume "\<not> ?thesis"
    then have "{i. i < ?n \<and> ?P (?xs ! i)} \<subseteq> {..<?m}" using mono[of ?m] by (force simp: not_le)
    then have "card {i. i < ?n \<and> ?P (?xs ! i)} \<le> ?m" using card_mono[of "{..<?m}"] by fastforce
    then show False using maj cnt n(2) by linarith
  qed
  have "A \<noteq> {}" using n(2) by auto
  then show ?thesis using lo hi by (simp add: median_disc_def)
qed

end
