(* ===== verification/Effective.thy ===== *)
theory Effective
  imports Scopes
begin

text \<open>
  The \<open>effective_filing\<close> views (\<open>alembic/versions/20260930_0006_effective_filing.py\<close>): which filings
  count for a filer and period, after amendments within each CIK and the filer's policy across its
  CIKs. A Form 4 has no period, but is no candidate, so here every filing has one.
\<close>

section \<open>Rows\<close>

datatype parse_status = Pending | Parsed_ok | Suspect | Failed
datatype amendment_kind = Restatement | New_holdings
datatype overlap = Successor | Sum_all

record filing =
  fl_id :: int
  fl_accession :: string
  fl_cik :: string
  fl_filer :: "int option"
  fl_form :: string
  fl_period :: date
  fl_filed_at :: moment
  fl_kind :: "amendment_kind option"
  fl_status :: parse_status

record filer =
  fr_id :: int
  fr_overlap :: overlap

record filer_cik =
  fc_filer :: int
  fc_cik :: string
  fc_priority :: int

record effective_row =
  ef_filing :: int
  ef_filer :: int
  ef_cik :: string
  ef_period :: date

text \<open>\<open>upper()\<close> of the letters a form type is written in.\<close>

definition upper_char :: "char \<Rightarrow> char" where
  "upper_char c = (if 97 \<le> code c \<and> code c \<le> 122 then char_of (code c - 32) else c)"

definition upper :: "string \<Rightarrow> string" where "upper = map upper_char"

section \<open>Within one CIK\<close>

definition is_candidate :: "filing \<Rightarrow> bool" where
  "is_candidate f = (fl_filer f \<noteq> None \<and> fl_status f \<in> {Parsed_ok, Suspect}
     \<and> (upper (fl_form f) = ''13F-HR'' \<or> upper (fl_form f) = ''13F-HR/A'' \<and> fl_kind f \<noteq> None))"

definition replaces_period :: "filing \<Rightarrow> bool" where
  "replaces_period f = (upper (fl_form f) = ''13F-HR'' \<or> fl_kind f = Some Restatement)"

type_synonym book = "int option \<times> string \<times> date"

definition book_of :: "filing \<Rightarrow> book" where
  "book_of f = (fl_filer f, fl_cik f, fl_period f)"

definition filing_order :: "filing \<Rightarrow> moment \<times> string" where
  "filing_order f = (fl_filed_at f, fl_accession f)"

text \<open>\<open>base\<close>: the accession and order of the latest filed whole-period filing of a book.\<close>

definition base_order :: "filing set \<Rightarrow> book \<Rightarrow> (moment \<times> string) option" where
  "base_order fs k =
     (let orders = filing_order ` {f \<in> fs. is_candidate f \<and> replaces_period f \<and> book_of f = k}
      in if orders = {} then None else Some (Max orders))"

definition effective_by_cik :: "filing set \<Rightarrow> filing set" where
  "effective_by_cik fs =
     {c \<in> fs. is_candidate c \<and>
        (case base_order fs (book_of c) of
           None \<Rightarrow> True
         | Some b \<Rightarrow> fl_accession c = snd b \<or> \<not> replaces_period c \<and> filing_order c > b)}"

section \<open>Across a filer's CIKs\<close>

text \<open>\<open>coalesce(fc.priority, -1)\<close> of the CIK's link to the filer.\<close>

definition cik_priority :: "filer_cik set \<Rightarrow> int \<Rightarrow> string \<Rightarrow> int" where
  "cik_priority ciks f c =
     (let ps = fc_priority ` {x \<in> ciks. fc_filer x = f \<and> fc_cik x = c} in if ps = {} then - 1 else Max ps)"

definition cik_rank_key :: "filer_cik set \<Rightarrow> filing \<Rightarrow> int \<times> string" where
  "cik_rank_key ciks f = (cik_priority ciks (the (fl_filer f)) (fl_cik f), fl_cik f)"

text \<open>
  The view's rows, as the filings they are of. \<open>cik_rank = 1\<close> is that no CIK counting for the same
  filer and period ranks above. A filing whose filer is not in the table has no row.
\<close>

definition effective :: "filing set \<Rightarrow> filer set \<Rightarrow> filer_cik set \<Rightarrow> filing set" where
  "effective fs filers ciks =
     {e \<in> effective_by_cik fs. \<exists>r\<in>filers. fl_filer e = Some (fr_id r) \<and>
        (fr_overlap r = Sum_all \<or>
         (\<forall>x\<in>effective_by_cik fs. fl_filer x = fl_filer e \<and> fl_period x = fl_period e \<longrightarrow> cik_rank_key ciks x \<le> cik_rank_key ciks e))}"

definition view_row :: "filing \<Rightarrow> effective_row" where
  "view_row f = \<lparr>ef_filing = fl_id f, ef_filer = the (fl_filer f), ef_cik = fl_cik f, ef_period = fl_period f\<rparr>"

section \<open>Amendments replayed\<close>

text \<open>
  What the views promise, as the story of one book told in the order it was filed: a whole-period
  filing starts the book over, an addition adds to it.
\<close>

definition replay_step :: "filing list \<Rightarrow> filing \<Rightarrow> filing list" where
  "replay_step counted f = (if replaces_period f then [f] else counted @ [f])"

definition replay :: "filing list \<Rightarrow> filing list" where
  "replay fs = foldl replay_step [] fs"

lemma replay_snoc: "replay (fs @ [f]) = replay_step (replay fs) f"
  by (simp add: replay_def)

text \<open>A candidate counts when no whole-period filing of its book was filed after it.\<close>

lemma replay_set:
  assumes "sorted_wrt (\<lambda>a b. filing_order a < filing_order b) fs"
  shows "set (replay fs) = {f \<in> set fs. \<forall>g\<in>set fs. replaces_period g \<longrightarrow> filing_order g \<le> filing_order f}"
  using assms
proof (induction fs rule: rev_induct)
  case Nil
  then show ?case by (simp add: replay_def)
next
  case (snoc f fs)
  have lt: "\<And>g. g \<in> set fs \<Longrightarrow> filing_order g < filing_order f" and s: "sorted_wrt (\<lambda>a b. filing_order a < filing_order b) fs"
    using snoc.prems by (auto simp: sorted_wrt_append)
  note ih = snoc.IH[OF s]
  show ?case
  proof (cases "replaces_period f")
    case True
    have "\<not> filing_order f \<le> filing_order g" if "g \<in> set fs" for g using lt[OF that] by simp
    then show ?thesis using True lt by (auto simp: replay_snoc replay_step_def less_imp_le)
  next
    case False
    have "filing_order g \<le> filing_order f" if "g \<in> set fs" for g using lt[OF that] by simp
    then show ?thesis using False by (auto simp: replay_snoc replay_step_def ih)
  qed
qed

lemma effective_by_cik_iff:
  assumes "finite fs" "inj_on fl_accession fs" "c \<in> fs"
  shows "c \<in> effective_by_cik fs \<longleftrightarrow> is_candidate c \<and>
    (\<forall>g\<in>fs. is_candidate g \<and> book_of g = book_of c \<and> replaces_period g \<longrightarrow> filing_order g \<le> filing_order c)"
proof -
  let ?G = "{f \<in> fs. is_candidate f \<and> replaces_period f \<and> book_of f = book_of c}"
  have fin: "finite (filing_order ` ?G)" using assms(1) by simp
  show ?thesis
  proof (cases "?G = {}")
    case True
    then have "base_order fs (book_of c) = None" by (simp add: base_order_def Let_def)
    then show ?thesis using True assms(3) by (auto simp: effective_by_cik_def)
  next
    case False
    then have b: "base_order fs (book_of c) = Some (Max (filing_order ` ?G))" by (simp add: base_order_def Let_def)
    obtain m where m: "m \<in> ?G" "Max (filing_order ` ?G) = filing_order m"
      using Max_in[OF fin] False by blast
    have le: "\<And>g. g \<in> ?G \<Longrightarrow> filing_order g \<le> filing_order m" using Max_ge[OF fin] m(2) by auto
    have acc: "fl_accession c = snd (filing_order m) \<longleftrightarrow> c = m"
      using assms(2,3) m(1) by (auto simp: filing_order_def inj_on_def)
    have ord: "filing_order c = filing_order m \<longleftrightarrow> c = m"
      using assms(2,3) m(1) by (auto simp: filing_order_def inj_on_def)
    have "c \<in> effective_by_cik fs \<longleftrightarrow> is_candidate c \<and> (c = m \<or> \<not> replaces_period c \<and> filing_order m < filing_order c)"
      using assms(3) acc b m(2) by (auto simp: effective_by_cik_def)
    also have "\<dots> \<longleftrightarrow> is_candidate c \<and> filing_order m \<le> filing_order c"
    proof -
      have "is_candidate c \<Longrightarrow> replaces_period c \<Longrightarrow> filing_order c \<le> filing_order m" using le assms(3) by simp
      then show ?thesis using ord by (metis leD order_le_less)
    qed
    also have "\<dots> \<longleftrightarrow> is_candidate c \<and> (\<forall>g\<in>?G. filing_order g \<le> filing_order c)"
      using le m(1) by (meson order_trans)
    finally show ?thesis by auto
  qed
qed

lemma effective_replayed:
  assumes "finite fs" "inj_on fl_accession fs"
    and "set cs = {f \<in> fs. is_candidate f \<and> book_of f = k}" "sorted_wrt (\<lambda>a b. filing_order a < filing_order b) cs"
  shows "{f \<in> effective_by_cik fs. book_of f = k} = set (replay cs)"
proof -
  have "{f \<in> effective_by_cik fs. book_of f = k} = {f \<in> set cs. \<forall>g\<in>set cs. replaces_period g \<longrightarrow> filing_order g \<le> filing_order f}"
    using effective_by_cik_iff[OF assms(1,2)] by (auto simp: assms(3) effective_by_cik_def)
  then show ?thesis using replay_set[OF assms(4)] by simp
qed

text \<open>C35. Amendments resolve as they were filed. For every book (a filer, a CIK and a period), the filings the
  view counts are those left by replaying its candidates in the order they were filed, each
  original or restatement starting over and each new-holdings amendment adding to what is there.\<close>

theorem effective_is_replay:
  assumes "finite fs" "inj_on fl_accession fs"
    and "set cs = {f \<in> fs. is_candidate f \<and> book_of f = k}" "sorted_wrt (\<lambda>a b. filing_order a < filing_order b) cs"
  shows "{f \<in> effective_by_cik fs. book_of f = k} = set (replay cs)"
  by (rule effective_replayed[OF assms])

definition sample_filing :: "int \<Rightarrow> string \<Rightarrow> string \<Rightarrow> amendment_kind option \<Rightarrow> moment \<Rightarrow> filing" where
  "sample_filing i cik form kind filed = \<lparr>fl_id = i, fl_accession = ''A'' @ [char_of (48 + i)], fl_cik = cik, fl_filer = Some 7,
     fl_form = form, fl_period = Date 2024 3 31, fl_filed_at = filed, fl_kind = kind, fl_status = Parsed_ok\<rparr>"

definition sample_filings :: "filing list" where
  "sample_filings = [sample_filing 1 ''c1'' ''13F-HR'' None 10, sample_filing 2 ''c1'' ''13F-HR/A'' (Some New_holdings) 20,
     sample_filing 3 ''c1'' ''13f-hr/a'' (Some Restatement) 30, sample_filing 4 ''c1'' ''13F-HR/A'' (Some New_holdings) 40]"

lemma sample_filings_all: "list_all (\<lambda>f. is_candidate f \<and> book_of f = (Some 7, ''c1'', Date 2024 3 31)) sample_filings"
  by (simp add: sample_filings_def sample_filing_def is_candidate_def book_of_def upper_def upper_char_def char_of_def bit_0)

lemma sample_filings_ok:
  "inj_on fl_accession (set sample_filings)"
  "sorted_wrt (\<lambda>a b. filing_order a < filing_order b) sample_filings"
  "set sample_filings = {f \<in> set sample_filings. is_candidate f \<and> book_of f = (Some 7, ''c1'', Date 2024 3 31)}"
    apply (simp add: sample_filings_def sample_filing_def)
   apply (simp add: sample_filings_def sample_filing_def filing_order_def less_prod_def)
  using sample_filings_all apply (auto simp: list_all_iff)
  done

lemma effective_is_replay_witness:
  "{f \<in> effective_by_cik (set sample_filings). book_of f = (Some 7, ''c1'', Date 2024 3 31)}
     = {sample_filing 3 ''c1'' ''13f-hr/a'' (Some Restatement) 30, sample_filing 4 ''c1'' ''13F-HR/A'' (Some New_holdings) 40}"
  unfolding effective_is_replay[OF finite_set sample_filings_ok(1,3,2)]
  by (simp add: replay_def replay_step_def sample_filings_def sample_filing_def replaces_period_def upper_def upper_char_def char_of_def bit_0)

text \<open>Under the successor policy one book counts for a filer's period, the highest ranked of those with
  anything to count, and it counts whole; under the sum policy every book counts.\<close>

theorem effective_successor_one_book:
  assumes "r \<in> filers" "inj_on fr_id filers" "finite fs"
  shows "(fr_overlap r = Successor \<longrightarrow> (\<forall>e\<in>effective fs filers ciks. \<forall>x\<in>effective fs filers ciks.
        fl_filer e = Some (fr_id r) \<and> fl_filer x = Some (fr_id r) \<and> fl_period x = fl_period e \<longrightarrow> fl_cik x = fl_cik e))
    \<and> (\<forall>e\<in>effective fs filers ciks. \<forall>x\<in>effective_by_cik fs. book_of x = book_of e \<longrightarrow> x \<in> effective fs filers ciks)
    \<and> (\<forall>e\<in>effective_by_cik fs. fl_filer e = Some (fr_id r)
        \<longrightarrow> (if fr_overlap r = Sum_all then e \<in> effective fs filers ciks
            else \<exists>x\<in>effective fs filers ciks. fl_filer x = fl_filer e \<and> fl_period x = fl_period e))"
proof -
  have uniq: "s = r" if "s \<in> filers" "fr_id s = fr_id r" for s using assms(1,2) that by (auto simp: inj_on_def)
  have 1: "fl_cik x = fl_cik e" if "fr_overlap r = Successor" "e \<in> effective fs filers ciks" "x \<in> effective fs filers ciks"
      "fl_filer e = Some (fr_id r)" "fl_filer x = Some (fr_id r)" "fl_period x = fl_period e" for e x
  proof -
    have ex: "e \<in> effective_by_cik fs" "x \<in> effective_by_cik fs" using that(2,3) by (auto simp: effective_def)
    have top: "\<forall>y\<in>effective_by_cik fs. fl_filer y = fl_filer z \<and> fl_period y = fl_period z \<longrightarrow> cik_rank_key ciks y \<le> cik_rank_key ciks z"
      if z: "z \<in> effective fs filers ciks" "fl_filer z = Some (fr_id r)" for z
    proof -
      obtain s where s: "s \<in> filers" "fl_filer z = Some (fr_id s)" "fr_overlap s = Sum_all \<or>
          (\<forall>y\<in>effective_by_cik fs. fl_filer y = fl_filer z \<and> fl_period y = fl_period z \<longrightarrow> cik_rank_key ciks y \<le> cik_rank_key ciks z)"
        using z(1) unfolding effective_def by blast
      then have "s = r" using z(2) uniq by simp
      then show ?thesis using s(3) \<open>fr_overlap r = Successor\<close> by simp
    qed
    have "cik_rank_key ciks x \<le> cik_rank_key ciks e" using top[OF that(2,4)] ex(2) that(4,5,6) by metis
    moreover have "cik_rank_key ciks e \<le> cik_rank_key ciks x" using top[OF that(3,5)] ex(1) that(4,5,6) by metis
    ultimately have "cik_rank_key ciks x = cik_rank_key ciks e" by simp
    then show ?thesis by (simp add: cik_rank_key_def)
  qed
  have 2: "x \<in> effective fs filers ciks" if "e \<in> effective fs filers ciks" "x \<in> effective_by_cik fs" "book_of x = book_of e" for e x
    using that by (auto simp: effective_def book_of_def cik_rank_key_def)
  have 3: "\<exists>x\<in>effective fs filers ciks. fl_filer x = fl_filer e \<and> fl_period x = fl_period e"
    if e: "e \<in> effective_by_cik fs" "fl_filer e = Some (fr_id r)" for e
  proof -
    let ?S = "{x \<in> effective_by_cik fs. fl_filer x = fl_filer e \<and> fl_period x = fl_period e}"
    have fin: "finite (cik_rank_key ciks ` ?S)" using assms(3) by (simp add: effective_by_cik_def)
    obtain m where m: "m \<in> ?S" "Max (cik_rank_key ciks ` ?S) = cik_rank_key ciks m"
      using Max_in[OF fin] e by blast
    have "\<And>x. x \<in> ?S \<Longrightarrow> cik_rank_key ciks x \<le> cik_rank_key ciks m" using Max_ge[OF fin] m(2) by auto
    then have "m \<in> effective fs filers ciks" using m(1) e(2) assms(1) by (auto simp: effective_def)
    then show ?thesis using m(1) by blast
  qed
  have 4: "e \<in> effective fs filers ciks" if "e \<in> effective_by_cik fs" "fl_filer e = Some (fr_id r)" "fr_overlap r = Sum_all" for e
    using that assms(1) by (auto simp: effective_def)
  show ?thesis
  proof (intro conjI impI ballI)
    show "fl_cik x = fl_cik e" if "fr_overlap r = Successor" "e \<in> effective fs filers ciks" "x \<in> effective fs filers ciks"
      "fl_filer e = Some (fr_id r) \<and> fl_filer x = Some (fr_id r) \<and> fl_period x = fl_period e" for e x
      using 1[OF that(1-3)] that(4) by simp
    show "x \<in> effective fs filers ciks" if "e \<in> effective fs filers ciks" "x \<in> effective_by_cik fs" "book_of x = book_of e" for e x
      by (rule 2[OF that])
    show "if fr_overlap r = Sum_all then e \<in> effective fs filers ciks
        else \<exists>x\<in>effective fs filers ciks. fl_filer x = fl_filer e \<and> fl_period x = fl_period e"
      if "e \<in> effective_by_cik fs" "fl_filer e = Some (fr_id r)" for e
      using 3[OF that] 4[OF that] by simp
  qed
qed

lemma effective_successor_one_book_witness:
  "\<exists>x\<in>effective (set sample_filings) {\<lparr>fr_id = 7, fr_overlap = Successor\<rparr>} {}. fl_filer x = Some 7 \<and> fl_period x = Date 2024 3 31"
proof -
  let ?e = "sample_filing 4 ''c1'' ''13F-HR/A'' (Some New_holdings) 40"
  have e: "?e \<in> effective_by_cik (set sample_filings)" using effective_replayed[OF finite_set sample_filings_ok(1,3,2)]
    by (auto simp: replay_def replay_step_def sample_filings_def sample_filing_def replaces_period_def upper_def upper_char_def char_of_def bit_0)
  have f: "fl_filer ?e = Some 7" "fl_period ?e = Date 2024 3 31" by (simp_all add: sample_filing_def)
  let ?r = "\<lparr>fr_id = 7, fr_overlap = Successor\<rparr>"
  have "if fr_overlap ?r = Sum_all then ?e \<in> effective (set sample_filings) {?r} {}
      else \<exists>x\<in>effective (set sample_filings) {?r} {}. fl_filer x = fl_filer ?e \<and> fl_period x = fl_period ?e"
    by (rule effective_successor_one_book[of ?r "{?r}" "set sample_filings" "{}", THEN conjunct2, THEN conjunct2, rule_format])
      (simp_all add: e f)
  then show ?thesis using f by simp
qed

end
