(* ===== verification/Snapshots.thy ===== *)
theory Snapshots
  imports Effective
begin

text \<open>
  \<open>app/derived/position_snapshot.py\<close> and the \<open>filer_period\<close> view of migration 0013: the published
  portfolio, one row for each security a filer held at the end of a period. The arithmetic of
  \<open>numeric\<close> is exact; a weight is rounded as its column stores it.
\<close>

section \<open>Rows\<close>

record holding =
  ho_filing :: int
  ho_security :: int
  ho_cusip :: string
  ho_put_call :: "string option"
  ho_type :: string
  ho_value :: rat
  ho_shares :: rat

record snapshot =
  sn_filer :: int
  sn_period :: date
  sn_security :: int
  sn_shares :: rat
  sn_value :: rat
  sn_weight :: "rat option"
  sn_source :: int
  sn_suspect :: bool

text \<open>The tables an ingest writes, which everything derived is read from.\<close>

record base =
  bs_filings :: "filing set"
  bs_filers :: "filer set"
  bs_ciks :: "filer_cik set"
  bs_holdings :: "holding set"

definition sn_pair :: "snapshot \<Rightarrow> pair" where "sn_pair r = (sn_filer r, sn_period r)"

definition sn_key :: "snapshot \<Rightarrow> int \<times> date \<times> int" where "sn_key r = (sn_filer r, sn_period r, sn_security r)"

section \<open>The query\<close>

definition fl_pair :: "filing \<Rightarrow> pair" where "fl_pair f = (the (fl_filer f), fl_period f)"

text \<open>\<open>winning_filings\<close>: the filings in scope that count, and whether one of a period's is suspect.\<close>

definition winning :: "scope \<Rightarrow> base \<Rightarrow> filing set" where
  "winning s b = {f \<in> effective (bs_filings b) (bs_filers b) (bs_ciks b). covers s (fl_pair f)}"

definition suspect_pair :: "filing set \<Rightarrow> pair \<Rightarrow> bool" where
  "suspect_pair w p = (\<exists>f\<in>w. fl_pair f = p \<and> fl_status f = Suspect)"

text \<open>The common stock lines of the winning filings of a pair, and of one security of them.\<close>

definition common_stock :: "holding \<Rightarrow> bool" where
  "common_stock h = (ho_put_call h = None \<and> ho_type h = ''SH'')"

definition lines_of :: "filing set \<Rightarrow> holding set \<Rightarrow> pair \<Rightarrow> int \<Rightarrow> (filing \<times> holding) set" where
  "lines_of w hs p sec = {(f, h) \<in> w \<times> hs. ho_filing h = fl_id f \<and> common_stock h \<and> fl_pair f = p \<and> ho_security h = sec}"

text \<open>\<open>agg\<close>: the groups, and the sums and the latest filed filing of a group.\<close>

definition agg_keys :: "bool \<Rightarrow> filing set \<Rightarrow> holding set \<Rightarrow> (pair \<times> int) set" where
  "agg_keys include_suspect w hs =
     {(p, sec) \<in> fl_pair ` w \<times> ho_security ` hs. lines_of w hs p sec \<noteq> {} \<and> (include_suspect \<or> \<not> suspect_pair w p)}"

definition agg_shares :: "filing set \<Rightarrow> holding set \<Rightarrow> pair \<Rightarrow> int \<Rightarrow> rat" where
  "agg_shares w hs p sec = (\<Sum>x\<in>lines_of w hs p sec. ho_shares (snd x))"

definition agg_value :: "filing set \<Rightarrow> holding set \<Rightarrow> pair \<Rightarrow> int \<Rightarrow> rat" where
  "agg_value w hs p sec = (\<Sum>x\<in>lines_of w hs p sec. ho_value (snd x))"

definition agg_source :: "filing set \<Rightarrow> holding set \<Rightarrow> pair \<Rightarrow> int \<Rightarrow> int" where
  "agg_source w hs p sec = snd (Max ((\<lambda>x. (filing_order (fst x), fl_id (fst x))) ` lines_of w hs p sec))"

definition period_total :: "bool \<Rightarrow> filing set \<Rightarrow> holding set \<Rightarrow> pair \<Rightarrow> rat" where
  "period_total include_suspect w hs p =
     (\<Sum>sec\<in>{sec. (p, sec) \<in> agg_keys include_suspect w hs}. agg_value w hs p sec)"

text \<open>A percentage of a total, null of a total of zero, unrounded and as the column stores it.\<close>

definition weight_pct :: "rat \<Rightarrow> rat \<Rightarrow> rat option" where
  "weight_pct v tot = (if tot = 0 then None else Some (v * 100 / tot))"

definition snapshot_row :: "bool \<Rightarrow> filing set \<Rightarrow> holding set \<Rightarrow> pair \<times> int \<Rightarrow> snapshot" where
  "snapshot_row include_suspect w hs k =
     (case k of (p, sec) \<Rightarrow>
        \<lparr>sn_filer = fst p, sn_period = snd p, sn_security = sec, sn_shares = agg_shares w hs p sec,
         sn_value = agg_value w hs p sec,
         sn_weight = map_option (sql_round 6) (weight_pct (agg_value w hs p sec) (period_total include_suspect w hs p)),
         sn_source = agg_source w hs p sec, sn_suspect = suspect_pair w p\<rparr>)"

definition snapshot_positions :: "bool \<Rightarrow> scope \<Rightarrow> base \<Rightarrow> snapshot set" where
  "snapshot_positions include_suspect s b =
     (let w = winning s b in snapshot_row include_suspect w (bs_holdings b) ` agg_keys include_suspect w (bs_holdings b))"

section \<open>The rebuild\<close>

record snapshot_rebuild =
  sr_filers :: nat
  sr_periods :: nat
  sr_positions :: nat
  sr_suspect_periods :: nat
  sr_include_suspect :: bool

definition withheld :: "snapshot_rebuild \<Rightarrow> nat" where
  "withheld r = (if sr_include_suspect r then 0 else sr_suspect_periods r)"

definition recompute_position_snapshot :: "bool \<Rightarrow> scope \<Rightarrow> base \<Rightarrow> snapshot set \<Rightarrow> snapshot set \<times> snapshot_rebuild" where
  "recompute_position_snapshot include_suspect s b old =
     (let t = rebuild sn_pair s old (snapshot_positions include_suspect s b);
          published = {r \<in> t. covers s (sn_pair r)};
          w = winning s b
      in (t, \<lparr>sr_filers = card (sn_filer ` published), sr_periods = card (sn_pair ` published), sr_positions = card published,
              sr_suspect_periods = card {p \<in> fl_pair ` w. suspect_pair w p}, sr_include_suspect = include_suspect\<rparr>))"

text \<open>\<open>filer_period\<close>: the periods a filer published, and whether with a suspect filing.\<close>

definition published :: "snapshot set \<Rightarrow> int \<Rightarrow> date set" where
  "published t f = sn_period ` {r \<in> t. sn_filer r = f}"

definition period_suspect :: "snapshot set \<Rightarrow> int \<Rightarrow> date \<Rightarrow> bool" where
  "period_suspect t f p = (\<exists>r\<in>t. sn_filer r = f \<and> sn_period r = p \<and> sn_suspect r)"

section \<open>A pair's rows depend on its own filings\<close>

lemma winning_mem: "f \<in> winning s b \<longleftrightarrow> f \<in> winning None b \<and> covers s (fl_pair f)"
  by (auto simp: winning_def)

text \<open>Two sets of filings that have the same for a pair give it the same rows.\<close>

lemma lines_of_same:
  assumes "{f \<in> w. fl_pair f = p} = {f \<in> w'. fl_pair f = p}"
  shows "lines_of w hs p sec = lines_of w' hs p sec"
  using assms unfolding lines_of_def by blast

lemma suspect_pair_same:
  assumes "{f \<in> w. fl_pair f = p} = {f \<in> w'. fl_pair f = p}"
  shows "suspect_pair w p = suspect_pair w' p"
  using assms unfolding suspect_pair_def by blast

lemma agg_keys_iff: "(p, sec) \<in> agg_keys i w hs \<longleftrightarrow> lines_of w hs p sec \<noteq> {} \<and> (i \<or> \<not> suspect_pair w p)"
  by (auto simp: agg_keys_def lines_of_def)

lemma snapshot_row_same:
  assumes "{f \<in> w. fl_pair f = p} = {f \<in> w'. fl_pair f = p}"
  shows "(p, sec) \<in> agg_keys i w hs \<longleftrightarrow> (p, sec) \<in> agg_keys i w' hs"
    and "snapshot_row i w hs (p, sec) = snapshot_row i w' hs (p, sec)"
  using lines_of_same[OF assms] suspect_pair_same[OF assms]
  by (simp_all add: agg_keys_iff snapshot_row_def period_total_def agg_shares_def agg_value_def agg_source_def)

lemma sn_pair_row [simp]: "sn_pair (snapshot_row i w hs (p, sec)) = p"
  by (simp add: snapshot_row_def sn_pair_def)

lemma sn_key_row: "sn_key (snapshot_row i w hs (p, sec)) = (fst p, snd p, sec)"
  by (simp add: snapshot_row_def sn_key_def)

lemma snapshot_mem:
  "r \<in> snapshot_positions i s b \<longleftrightarrow> (\<exists>p sec. (p, sec) \<in> agg_keys i (winning s b) (bs_holdings b)
     \<and> r = snapshot_row i (winning s b) (bs_holdings b) (p, sec))"
  by (auto simp: snapshot_positions_def Let_def image_iff)

lemma winning_covered: "covers s p \<Longrightarrow> {f \<in> winning s b. fl_pair f = p} = {f \<in> winning None b. fl_pair f = p}"
  by (auto simp: winning_mem[of _ s])

lemma agg_keys_covered: "(p, sec) \<in> agg_keys i (winning s b) hs \<Longrightarrow> covers s p"
  by (auto simp: agg_keys_def winning_def)

lemma snapshot_scoped: "snapshot_positions i s b = {r \<in> snapshot_positions i None b. covers s (sn_pair r)}"
proof -
  have "r \<in> snapshot_positions i s b \<longleftrightarrow> r \<in> snapshot_positions i None b \<and> covers s (sn_pair r)" for r
  proof -
    have "(p, sec) \<in> agg_keys i (winning s b) (bs_holdings b) \<and> r = snapshot_row i (winning s b) (bs_holdings b) (p, sec)
      \<longleftrightarrow> (p, sec) \<in> agg_keys i (winning None b) (bs_holdings b) \<and> r = snapshot_row i (winning None b) (bs_holdings b) (p, sec)
          \<and> covers s (sn_pair r)" for p sec
    proof (cases "covers s p")
      case True
      show ?thesis using snapshot_row_same[OF winning_covered[OF True, of b]] True
        by (cases "r = snapshot_row i (winning None b) (bs_holdings b) (p, sec)") simp_all
    next
      case False
      then show ?thesis using agg_keys_covered[of p sec i s b "bs_holdings b"] by auto
    qed
    then show ?thesis unfolding snapshot_mem by blast
  qed
  then show ?thesis by blast
qed

interpretation snap: derived_table "\<lambda>ks b. snapshot_positions i ks b" sn_pair for i
proof unfold_locales
  fix ks s
  show "snapshot_positions i (Some ks) s = {r \<in> snapshot_positions i None s. sn_pair r \<in> ks}"
    using snapshot_scoped[of i "Some ks" s] by simp
qed

lemma snapshot_keyed: "inj_on sn_key (snapshot_positions i s b)"
  by (auto simp: inj_on_def snapshot_mem sn_key_row prod_eq_iff)

section \<open>What is published\<close>

text \<open>A pair's rows, and the common stock lines of the filings that count toward it.\<close>

definition rows_at :: "snapshot set \<Rightarrow> pair \<Rightarrow> snapshot set" where
  "rows_at t p = {r \<in> t. sn_pair r = p}"

definition stock_lines :: "filing set \<Rightarrow> holding set \<Rightarrow> pair \<Rightarrow> (filing \<times> holding) set" where
  "stock_lines w hs p = {(f, h) \<in> w \<times> hs. ho_filing h = fl_id f \<and> common_stock h \<and> fl_pair f = p}"

lemma lines_of_finite: "finite w \<Longrightarrow> finite hs \<Longrightarrow> finite (lines_of w hs p sec)"
  by (rule finite_subset[of _ "w \<times> hs"]) (auto simp: lines_of_def)

lemma securities_finite: "finite hs \<Longrightarrow> finite {sec. (p, sec) \<in> agg_keys i w hs}"
  by (rule finite_subset[of _ "ho_security ` hs"]) (auto simp: agg_keys_def)

lemma sum_over_securities:
  assumes "finite w" "finite hs" "i \<or> \<not> suspect_pair w p"
  shows "(\<Sum>sec\<in>{sec. (p, sec) \<in> agg_keys i w hs}. \<Sum>x\<in>lines_of w hs p sec. g x)
    = (\<Sum>x\<in>stock_lines w hs p. g x)"
proof -
  let ?S = "{sec. (p, sec) \<in> agg_keys i w hs}"
  have "(\<Union>sec\<in>?S. lines_of w hs p sec) = stock_lines w hs p"
    using assms(3) by (auto simp: agg_keys_iff lines_of_def stock_lines_def)
  moreover have "(\<Sum>x\<in>(\<Union>sec\<in>?S. lines_of w hs p sec). g x) = (\<Sum>sec\<in>?S. \<Sum>x\<in>lines_of w hs p sec. g x)"
    using assms(1,2) by (intro sum.UNION_disjoint securities_finite ballI lines_of_finite) (auto simp: lines_of_def)
  ultimately show ?thesis by simp
qed

lemma rows_of_pair:
  "rows_at (snapshot_positions i None b) p
     = (\<lambda>sec. snapshot_row i (winning None b) (bs_holdings b) (p, sec)) ` {sec. (p, sec) \<in> agg_keys i (winning None b) (bs_holdings b)}"
  by (auto simp: rows_at_def snapshot_mem simp del: split_paired_Ex)

lemma sum_rows_of_pair:
  "(\<Sum>r\<in>rows_at (snapshot_positions i None b) p. g r)
     = (\<Sum>sec\<in>{sec. (p, sec) \<in> agg_keys i (winning None b) (bs_holdings b)}. g (snapshot_row i (winning None b) (bs_holdings b) (p, sec)))"
proof -
  have "inj_on (\<lambda>sec. snapshot_row i (winning None b) (bs_holdings b) (p, sec)) A" for A
    by (auto simp: inj_on_def snapshot_row_def)
  then show ?thesis unfolding rows_of_pair by (rule sum.reindex[unfolded o_def])
qed

lemma winning_finite: "finite (bs_filings b) \<Longrightarrow> finite (winning s b)"
  by (simp add: winning_def effective_def effective_by_cik_def)

lemma card_rows_of_pair: "card (rows_at (snapshot_positions i None b) p) = card {sec. (p, sec) \<in> agg_keys i (winning None b) (bs_holdings b)}"
  unfolding rows_of_pair by (rule card_image) (auto simp: inj_on_def snapshot_row_def)

text \<open>C19. Nothing is lost or counted twice on the way to the portfolio: the rows of a published pair add up,
  in shares and in value, to the common stock lines of the filings that count, and there is a row
  for each security they hold.\<close>

theorem positions_add_up:
  assumes "finite (bs_filings b)" "finite (bs_holdings b)" "i \<or> \<not> suspect_pair (winning None b) p"
  shows "(\<Sum>r\<in>rows_at (snapshot_positions i None b) p. sn_shares r) = (\<Sum>x\<in>stock_lines (winning None b) (bs_holdings b) p. ho_shares (snd x))
    \<and> (\<Sum>r\<in>rows_at (snapshot_positions i None b) p. sn_value r) = (\<Sum>x\<in>stock_lines (winning None b) (bs_holdings b) p. ho_value (snd x))
    \<and> sn_security ` rows_at (snapshot_positions i None b) p = ho_security ` snd ` stock_lines (winning None b) (bs_holdings b) p"
proof (intro conjI)
  let ?w = "winning None b" and ?hs = "bs_holdings b"
  note s = sum_over_securities[OF winning_finite[OF assms(1), of None] assms(2,3)]
  show "(\<Sum>r\<in>rows_at (snapshot_positions i None b) p. sn_shares r) = (\<Sum>x\<in>stock_lines (winning None b) (bs_holdings b) p. ho_shares (snd x))"
    unfolding sum_rows_of_pair by (simp add: snapshot_row_def agg_shares_def s)
  show "(\<Sum>r\<in>rows_at (snapshot_positions i None b) p. sn_value r) = (\<Sum>x\<in>stock_lines (winning None b) (bs_holdings b) p. ho_value (snd x))"
    unfolding sum_rows_of_pair by (simp add: snapshot_row_def agg_value_def s)
  have "{sec. (p, sec) \<in> agg_keys i ?w ?hs} = ho_security ` snd ` stock_lines (winning None b) (bs_holdings b) p"
    using assms(3) by (auto simp: agg_keys_iff lines_of_def stock_lines_def image_iff) blast+
  then show "sn_security ` rows_at (snapshot_positions i None b) p = ho_security ` snd ` stock_lines (winning None b) (bs_holdings b) p"
    unfolding rows_of_pair image_image by (simp add: snapshot_row_def)
qed

text \<open>Weights are percentages of the period. A period worth nothing has none; in any other each stored
  weight is within half a millionth of the row's share of the total, and together they are 100, out
  by at most half a millionth for each row.\<close>

theorem weights_add_to_100:
  assumes "finite (bs_holdings b)" "rows = rows_at (snapshot_positions i None b) p"
  shows "if (\<Sum>r\<in>rows. sn_value r) = 0 then sn_weight ` rows \<subseteq> {None}
    else sn_weight ` rows \<subseteq> range Some
      \<and> (\<Sum>r\<in>rows. \<bar>the (sn_weight r) - sn_value r * 100 / (\<Sum>r\<in>rows. sn_value r)\<bar>) \<le> of_nat (card rows) / 2000000
      \<and> \<bar>(\<Sum>r\<in>rows. the (sn_weight r)) - 100\<bar> \<le> of_nat (card rows) / 2000000"
proof -
  let ?w = "winning None b" and ?hs = "bs_holdings b"
  let ?S = "{sec. (p, sec) \<in> agg_keys i ?w ?hs}" and ?v = "agg_value ?w ?hs p" and ?t = "period_total i ?w ?hs p"
  have tot: "(\<Sum>r\<in>rows. sn_value r) = ?t"
    unfolding assms(2) sum_rows_of_pair by (simp add: snapshot_row_def period_total_def)
  have fin: "finite rows" unfolding assms(2) rows_of_pair by (intro finite_imageI securities_finite assms(1))
  have row: "\<exists>sec\<in>?S. r = snapshot_row i ?w ?hs (p, sec)" if "r \<in> rows" for r using that by (auto simp: assms(2) rows_of_pair)
  have wt: "sn_weight r = map_option (sql_round 6) (weight_pct (sn_value r) ?t)" if "r \<in> rows" for r
    using row[OF that] by (auto simp: snapshot_row_def)
  show ?thesis
  proof (cases "?t = 0")
    case True
    have "sn_weight ` rows \<subseteq> {None}" using wt True by (auto simp: weight_pct_def)
    then show ?thesis unfolding tot if_P[OF True] .
  next
    case False
    have w: "sn_weight r = Some (sql_round 6 (sn_value r * 100 / ?t))" if "r \<in> rows" for r using wt[OF that] False by (simp add: weight_pct_def)
    have "\<bar>the (sn_weight r) - sn_value r * 100 / ?t\<bar> \<le> 1 / 2000000" if "r \<in> rows" for r
      using sql_round_error[of 6 "sn_value r * 100 / ?t"] w[OF that] by simp
    then have e: "(\<Sum>r\<in>rows. \<bar>the (sn_weight r) - sn_value r * 100 / ?t\<bar>) \<le> of_nat (card rows) / 2000000"
      using sum_bounded_above[of rows "\<lambda>r. \<bar>the (sn_weight r) - sn_value r * 100 / ?t\<bar>" "1 / 2000000"] by simp
    have "(\<Sum>r\<in>rows. sn_value r * 100 / ?t) = (\<Sum>r\<in>rows. sn_value r) * 100 / ?t" by (simp add: sum_distrib_right sum_divide_distrib)
    then have "(\<Sum>r\<in>rows. sn_value r * 100 / ?t) = 100" using tot False by simp
    then have "(\<Sum>r\<in>rows. the (sn_weight r)) - 100 = (\<Sum>r\<in>rows. the (sn_weight r) - sn_value r * 100 / ?t)" by (simp add: sum_subtractf)
    then have "\<bar>(\<Sum>r\<in>rows. the (sn_weight r)) - 100\<bar> \<le> of_nat (card rows) / 2000000"
      using order_trans[OF sum_abs e] by (simp only:)
    moreover have "sn_weight ` rows \<subseteq> range Some" using w by auto
    ultimately show ?thesis using e unfolding tot if_not_P[OF False] by blast
  qed
qed

text \<open>The rows a rebuild leaves at a pair in its scope are the query's, whatever was there.\<close>

lemma rebuilt_rows:
  assumes "covers s p"
  shows "rows_at (fst (recompute_position_snapshot i s b old)) p = rows_at (snapshot_positions i None b) p"
  using assms by (auto simp: recompute_position_snapshot_def Let_def rebuild_def rows_at_def snapshot_scoped[of i s])

lemma suspect_pair_counts:
  "suspect_pair (winning None b) p
     \<longleftrightarrow> (\<exists>f\<in>effective (bs_filings b) (bs_filers b) (bs_ciks b). fl_pair f = p \<and> fl_status f = Suspect)"
  by (auto simp: suspect_pair_def winning_def)

lemma securities_of_pair:
  "i \<or> \<not> suspect_pair (winning None b) p
    \<Longrightarrow> sn_security ` rows_at (snapshot_positions i None b) p = ho_security ` snd ` stock_lines (winning None b) (bs_holdings b) p"
  unfolding rows_of_pair image_image by (auto simp: agg_keys_iff lines_of_def stock_lines_def snapshot_row_def image_iff) blast+

lemma suspect_of_row: "r \<in> rows_at (snapshot_positions i None b) p \<Longrightarrow> sn_suspect r = suspect_pair (winning None b) p"
  unfolding rows_of_pair by (auto simp: snapshot_row_def)

text \<open>C24. A period is withheld whole. After a rebuild of a pair, whatever the table held before: if any filing that
  counts toward it is suspect, it has no row at all; unless suspect periods were asked for, when it has a
  row for every security the counting filings hold as common stock, each marked. If none is, it has a row
  for each such security, none marked, and the same whether they were asked for or not.\<close>

theorem suspect_period_withheld:
  assumes "covers s p"
  shows "if \<exists>f\<in>effective (bs_filings b) (bs_filers b) (bs_ciks b). fl_pair f = p \<and> fl_status f = Suspect
    then rows_at (fst (recompute_position_snapshot False s b old)) p = {}
      \<and> sn_security ` rows_at (fst (recompute_position_snapshot True s b old)) p
          = ho_security ` snd ` stock_lines (winning None b) (bs_holdings b) p
      \<and> (\<forall>r\<in>rows_at (fst (recompute_position_snapshot True s b old)) p. sn_suspect r)
    else rows_at (fst (recompute_position_snapshot False s b old)) p = rows_at (fst (recompute_position_snapshot True s b old)) p
      \<and> sn_security ` rows_at (fst (recompute_position_snapshot False s b old)) p
          = ho_security ` snd ` stock_lines (winning None b) (bs_holdings b) p
      \<and> (\<forall>r\<in>rows_at (fst (recompute_position_snapshot False s b old)) p. \<not> sn_suspect r)"
proof -
  note r = rebuilt_rows[OF assms]
  show ?thesis
  proof (cases "suspect_pair (winning None b) p")
    case True
    then have "rows_at (snapshot_positions False None b) p = {}" unfolding rows_of_pair by (simp add: agg_keys_iff)
    then show ?thesis
      using True securities_of_pair[of True b p] suspect_of_row[of _ True b p] unfolding r suspect_pair_counts[symmetric] by simp
  next
    case False
    have "rows_at (snapshot_positions True None b) p = rows_at (snapshot_positions False None b) p"
      using False unfolding rows_of_pair by (simp add: agg_keys_iff snapshot_row_def period_total_def)
    then show ?thesis
      using False securities_of_pair[of False b p] suspect_of_row[of _ False b p] unfolding r suspect_pair_counts[symmetric] by simp
  qed
qed

section \<open>A sample portfolio\<close>

definition original_only :: "filing list" where "original_only = [sample_filing 1 ''c1'' ''13F-HR'' None 10]"

definition with_amendment :: "filing list" where
  "with_amendment = [sample_filing 1 ''c1'' ''13F-HR'' None 10, sample_filing 2 ''c1'' ''13F-HR/A'' (Some New_holdings) 20]"

definition sample_base :: "filing set \<Rightarrow> base" where
  "sample_base fs = \<lparr>bs_filings = fs, bs_filers = {\<lparr>fr_id = 7, fr_overlap = Successor\<rparr>}, bs_ciks = {},
     bs_holdings = {\<lparr>ho_filing = 1, ho_security = 9, ho_cusip = ''x'', ho_put_call = None, ho_type = ''SH'', ho_value = 100, ho_shares = 10\<rparr>,
       \<lparr>ho_filing = 2, ho_security = 9, ho_cusip = ''x'', ho_put_call = None, ho_type = ''SH'', ho_value = 50, ho_shares = 5\<rparr>}\<rparr>"

lemma sample_winning: "winning None (sample_base (set original_only)) = {sample_filing 1 ''c1'' ''13F-HR'' None 10}"
proof -
  let ?f = "sample_filing 1 ''c1'' ''13F-HR'' None 10"
  have fs: "set original_only = {?f}" by (simp add: original_only_def)
  have "is_candidate ?f" using sample_filings_all by (simp add: sample_filings_def)
  then have e: "effective_by_cik {?f} = {?f}"
    using effective_by_cik_iff[of "{?f}" ?f] by (auto simp: effective_by_cik_def)
  have "fl_filer ?f = Some 7" by (simp add: sample_filing_def)
  then show ?thesis unfolding winning_def effective_def fs sample_base_def base.select_convs e by auto
qed

lemma sample_pair: "fl_pair (sample_filing 1 ''c1'' ''13F-HR'' None 10) = (7, Date 2024 3 31)"
  "fl_id (sample_filing 1 ''c1'' ''13F-HR'' None 10) = 1" "fl_status (sample_filing 1 ''c1'' ''13F-HR'' None 10) = Parsed_ok"
  by (simp_all add: sample_filing_def fl_pair_def)

lemma sample_lines: "lines_of (winning None (sample_base (set original_only))) (bs_holdings (sample_base fs)) (7, Date 2024 3 31) sec
   = (if sec = 9 then {(sample_filing 1 ''c1'' ''13F-HR'' None 10,
        \<lparr>ho_filing = 1, ho_security = 9, ho_cusip = ''x'', ho_put_call = None, ho_type = ''SH'', ho_value = 100, ho_shares = 10\<rparr>)} else {})"
  unfolding sample_winning by (auto simp: lines_of_def sample_base_def sample_pair common_stock_def)

lemma sample_suspect: "\<not> suspect_pair (winning None (sample_base (set original_only))) p"
  unfolding sample_winning by (simp add: suspect_pair_def sample_pair)

lemma sample_keys: "{sec. ((7, Date 2024 3 31), sec) \<in> agg_keys i (winning None (sample_base (set original_only))) (bs_holdings (sample_base fs))} = {9}"
  by (simp add: agg_keys_iff sample_lines sample_suspect)

lemma sample_rows: "rows_at (snapshot_positions i None (sample_base (set original_only))) (7, Date 2024 3 31)
   = {\<lparr>sn_filer = 7, sn_period = Date 2024 3 31, sn_security = 9, sn_shares = 10, sn_value = 100, sn_weight = Some 100, sn_source = 1, sn_suspect = False\<rparr>}"
proof -
  have "\<lfloor>200000001 / 2 :: rat\<rfloor> = 100000000" by (rule floor_unique) simp_all
  then show ?thesis unfolding rows_of_pair sample_keys
    by (simp add: snapshot_row_def agg_shares_def agg_value_def agg_source_def period_total_def sample_keys sample_lines sample_suspect
      weight_pct_def sql_round_def sample_pair)
qed

lemma sample_base_finite: "finite fs \<Longrightarrow> finite (bs_filings (sample_base fs))" "finite (bs_holdings (sample_base fs))"
  by (simp_all add: sample_base_def)

theorem positions_add_up_witness:
  "(\<Sum>x\<in>stock_lines (winning None (sample_base (set original_only))) (bs_holdings (sample_base (set original_only))) (7, Date 2024 3 31). ho_value (snd x)) = 100"
  using positions_add_up[OF sample_base_finite(1)[OF finite_set] sample_base_finite(2), of False original_only "(7, Date 2024 3 31)"]
  by (simp add: sample_rows sample_suspect)

theorem weights_add_to_100_witness:
  "\<bar>(\<Sum>r\<in>rows_at (snapshot_positions False None (sample_base (set original_only))) (7, Date 2024 3 31). the (sn_weight r)) - 100\<bar> \<le> 1 / 2000000"
  using weights_add_to_100[OF sample_base_finite(2) refl, of False "set original_only" "(7, Date 2024 3 31)"]
  by (simp add: sample_rows)

text \<open>The same book with a suspect addition: what was published of it before goes, the sound original's line too.\<close>

definition suspect_addition :: filing where
  "suspect_addition = (sample_filing 2 ''c1'' ''13F-HR/A'' (Some New_holdings) 20)\<lparr>fl_status := Suspect\<rparr>"

definition doubted_base :: base where
  "doubted_base = sample_base {sample_filing 1 ''c1'' ''13F-HR'' None 10, suspect_addition}"

lemma doubted_effective: "effective (bs_filings doubted_base) (bs_filers doubted_base) (bs_ciks doubted_base)
    = {sample_filing 1 ''c1'' ''13F-HR'' None 10, suspect_addition}"
proof -
  let ?o = "sample_filing 1 ''c1'' ''13F-HR'' None 10"
  have c: "is_candidate ?o" "is_candidate suspect_addition" "book_of suspect_addition = book_of ?o"
    using sample_filings_all by (simp_all add: sample_filings_def suspect_addition_def is_candidate_def book_of_def)
  have o: "\<not> replaces_period suspect_addition" "filing_order ?o \<le> filing_order suspect_addition"
    by (simp_all add: replaces_period_def suspect_addition_def sample_filing_def filing_order_def less_eq_prod_def upper_def upper_char_def char_of_def bit_0)
  have inj: "inj_on fl_accession {?o, suspect_addition}" by (simp add: suspect_addition_def sample_filing_def)
  have "f \<in> effective_by_cik {?o, suspect_addition}" if f: "f \<in> {?o, suspect_addition}" for f
    unfolding effective_by_cik_iff[OF _ inj f, simplified] using f c o by (elim insertE) simp_all
  then have "effective_by_cik {?o, suspect_addition} = {?o, suspect_addition}" by (auto simp: effective_by_cik_def)
  then have e: "effective_by_cik (bs_filings doubted_base) = {?o, suspect_addition}" by (simp add: doubted_base_def sample_base_def)
  have "fl_filer ?o = Some 7" "fl_filer suspect_addition = Some 7" "cik_rank_key {} ?o = cik_rank_key {} suspect_addition"
    by (simp_all add: suspect_addition_def sample_filing_def cik_rank_key_def)
  moreover have "bs_filers doubted_base = {\<lparr>fr_id = 7, fr_overlap = Successor\<rparr>}" "bs_ciks doubted_base = {}"
    by (simp_all add: doubted_base_def sample_base_def)
  ultimately show ?thesis unfolding effective_def e by auto
qed

theorem suspect_period_withheld_witness:
  "rows_at (fst (recompute_position_snapshot False None doubted_base
      (snapshot_positions False None (sample_base (set original_only))))) (7, Date 2024 3 31) = {}
   \<and> sn_security ` rows_at (fst (recompute_position_snapshot True None doubted_base {})) (7, Date 2024 3 31) = {9}"
proof -
  have s: "\<exists>f\<in>effective (bs_filings doubted_base) (bs_filers doubted_base) (bs_ciks doubted_base).
      fl_pair f = (7, Date 2024 3 31) \<and> fl_status f = Suspect"
    unfolding doubted_effective by (simp add: suspect_addition_def fl_pair_def sample_filing_def)
  have "ho_security ` snd ` stock_lines (winning None doubted_base) (bs_holdings doubted_base) (7, Date 2024 3 31) = {9}"
    unfolding winning_def doubted_effective
    by (force simp: stock_lines_def doubted_base_def sample_base_def suspect_addition_def fl_pair_def sample_filing_def common_stock_def)
  then show ?thesis
    using suspect_period_withheld[of None "(7, Date 2024 3 31)" doubted_base] s by simp
qed

end
