(* ===== verification/Prices.thy ===== *)
theory Prices
  imports Snapshots
begin

text \<open>
  \<open>app/derived/implied_price.py\<close>: the price of a security at a quarter's end, as the median of what
  its holders' filings imply, with how far they agree.
\<close>

section \<open>Rows\<close>

type_synonym security_period = "int \<times> date"

datatype confidence = High | Medium | Low

record price_row =
  ip_security :: int
  ip_period :: date
  ip_price :: "rat option"
  ip_observations :: nat
  ip_unpriced :: nat
  ip_agreeing :: nat
  ip_confidence :: "confidence option"
  ip_suspect :: bool

definition ip_key :: "price_row \<Rightarrow> security_period" where "ip_key r = (ip_security r, ip_period r)"

definition security_period :: "snapshot \<Rightarrow> security_period" where "security_period r = (sn_security r, sn_period r)"

definition agreement_pct :: rat where "agreement_pct = 2"
definition price_places :: nat where "price_places = 8"

section \<open>The query\<close>

text \<open>\<open>observations\<close>, at the keys asked for; a row's price, and whether it is priced at all.\<close>

definition observations :: "security_period set option \<Rightarrow> snapshot set \<Rightarrow> snapshot set" where
  "observations keys t = {r \<in> t. sn_shares r > 0 \<and> covers keys (security_period r)}"

definition obs_price :: "snapshot \<Rightarrow> rat" where "obs_price r = sn_value r / sn_shares r"

definition priced :: "snapshot set \<Rightarrow> snapshot set" where "priced obs = {r \<in> obs. sn_value r > 0}"

text \<open>\<open>medians\<close> and what agrees with one, over the observations of one key.\<close>

definition obs_median :: "snapshot set \<Rightarrow> rat option" where
  "obs_median obs = median_disc ((\<lambda>r. (obs_price r, sn_filer r)) ` priced obs)"

definition agreeing :: "snapshot set \<Rightarrow> nat" where
  "agreeing obs =
     (case obs_median obs of None \<Rightarrow> 0
      | Some m \<Rightarrow> card {r \<in> priced obs. \<bar>obs_price r - m\<bar> * 100 \<le> m * agreement_pct})"

definition rounded_price :: "snapshot set \<Rightarrow> rat option" where
  "rounded_price obs =
     (case obs_median obs of None \<Rightarrow> None
      | Some m \<Rightarrow> if sql_round price_places m = 0 then None else Some (sql_round price_places m))"

definition unpriced_count :: "snapshot set \<Rightarrow> nat" where "unpriced_count obs = card {r \<in> obs. sn_value r = 0}"

definition price_confidence :: "snapshot set \<Rightarrow> confidence option" where
  "price_confidence obs =
     (let candidates = int (card obs) - int (unpriced_count obs); agree = agreeing obs in
      if rounded_price obs = None then None
      else if agree \<ge> 3 \<and> int agree * 2 > candidates then Some High
      else if agree \<ge> 2 \<and> int agree * 2 > candidates then Some Medium
      else Some Low)"

definition price_of :: "security_period \<Rightarrow> snapshot set \<Rightarrow> price_row" where
  "price_of k obs =
     \<lparr>ip_security = fst k, ip_period = snd k, ip_price = rounded_price obs, ip_observations = card obs,
      ip_unpriced = unpriced_count obs, ip_agreeing = agreeing obs, ip_confidence = price_confidence obs,
      ip_suspect = (\<exists>r\<in>obs. sn_suspect r)\<rparr>"

definition implied_prices :: "security_period set option \<Rightarrow> snapshot set \<Rightarrow> price_row set" where
  "implied_prices keys t =
     (let obs = observations keys t in (\<lambda>k. price_of k {r \<in> obs. security_period r = k}) ` security_period ` obs)"

section \<open>The rebuild\<close>

record price_rebuild =
  pr_high :: nat
  pr_medium :: nat
  pr_low :: nat
  pr_unpriced :: nat

definition pr_prices :: "price_rebuild \<Rightarrow> nat" where "pr_prices r = pr_high r + pr_medium r + pr_low r + pr_unpriced r"

definition recompute_implied_price :: "security_period set option \<Rightarrow> snapshot set \<Rightarrow> price_row set \<Rightarrow> price_row set \<times> price_rebuild" where
  "recompute_implied_price keys t old =
     (if keys = Some {} then (old, \<lparr>pr_high = 0, pr_medium = 0, pr_low = 0, pr_unpriced = 0\<rparr>)
      else (let new = rebuild ip_key keys old (implied_prices keys t);
                graded = (\<lambda>c. card {r \<in> new. covers keys (ip_key r) \<and> ip_confidence r = Some c})
            in (new, \<lparr>pr_high = graded High, pr_medium = graded Medium, pr_low = graded Low,
                      pr_unpriced = card {r \<in> new. covers keys (ip_key r) \<and> ip_price r = None}\<rparr>)))"

text \<open>\<open>held_in\<close>: the keys whose price the rows of a scope count toward.\<close>

definition held_in :: "scope \<Rightarrow> snapshot set \<Rightarrow> security_period set" where
  "held_in s t = security_period ` {r \<in> t. covers s (sn_pair r)}"

section \<open>A price depends on the rows at its key\<close>

lemma ip_key_price_of [simp]: "ip_key (price_of k obs) = k"
  by (simp add: price_of_def ip_key_def)

lemma implied_mem:
  "r \<in> implied_prices keys t \<longleftrightarrow> (let obs = {x \<in> observations keys t. security_period x = ip_key r} in obs \<noteq> {} \<and> r = price_of (ip_key r) obs)"
proof
  assume "r \<in> implied_prices keys t"
  then obtain x where x: "x \<in> observations keys t" "r = price_of (security_period x) {y \<in> observations keys t. security_period y = security_period x}"
    by (auto simp: implied_prices_def Let_def)
  from x(2) have "ip_key r = security_period x" by simp
  then show "let obs = {x \<in> observations keys t. security_period x = ip_key r} in obs \<noteq> {} \<and> r = price_of (ip_key r) obs"
    using x by (auto simp: Let_def)
next
  assume a: "let obs = {x \<in> observations keys t. security_period x = ip_key r} in obs \<noteq> {} \<and> r = price_of (ip_key r) obs"
  then obtain x where x: "x \<in> observations keys t" "security_period x = ip_key r" by (auto simp: Let_def)
  have "r = price_of (ip_key r) {x \<in> observations keys t. security_period x = ip_key r}" using a by (simp add: Let_def)
  moreover have "ip_key r \<in> security_period ` observations keys t" using x by force
  ultimately show "r \<in> implied_prices keys t" unfolding implied_prices_def Let_def by (rule image_eqI)
qed

lemma observations_at: "{x \<in> observations keys t. security_period x = k} = (if covers keys k then {x \<in> observations None t. security_period x = k} else {})"
  by (auto simp: observations_def)

lemma implied_scoped: "implied_prices (Some ks) t = {r \<in> implied_prices None t. ip_key r \<in> ks}"
  by (rule set_eqI) (simp add: implied_mem observations_at[of "Some ks"] Let_def)

interpretation price: derived_table implied_prices ip_key
  by unfold_locales (rule implied_scoped)

lemma implied_keyed: "inj_on ip_key (implied_prices keys t)"
  by (auto simp: inj_on_def implied_mem Let_def)

text \<open>A key with the same rows has the same price.\<close>

lemma implied_same:
  assumes "{x \<in> t. security_period x = ip_key r} = {x \<in> t'. security_period x = ip_key r}"
  shows "r \<in> implied_prices None t \<longleftrightarrow> r \<in> implied_prices None t'"
proof -
  have "{x \<in> observations None t. security_period x = ip_key r} = {x \<in> observations None t'. security_period x = ip_key r}"
    using assms by (auto simp: observations_def)
  then show ?thesis by (simp add: implied_mem)
qed

lemma held_in_covers: "k \<in> held_in s t \<longleftrightarrow> (\<exists>r\<in>t. covers s (sn_pair r) \<and> security_period r = k)"
  by (auto simp: held_in_def)

lemma recompute_price_fst: "fst (recompute_implied_price keys t old) = rebuild ip_key keys old (implied_prices keys t)"
proof (cases "keys = Some {}")
  case True
  then show ?thesis by (auto simp: recompute_implied_price_def rebuild_def implied_prices_def observations_def)
qed (simp add: recompute_implied_price_def Let_def)

section \<open>What a price is\<close>

lemma median_of_priced:
  assumes "finite obs" "obs_median obs = Some m"
  shows "\<exists>r\<in>priced obs. obs_price r = m"
  using median_disc_mem[of "(\<lambda>r. (obs_price r, sn_filer r)) ` priced obs" m] assms by (auto simp: obs_median_def priced_def)

lemma obs_median_None: "finite obs \<Longrightarrow> obs_median obs = None \<longleftrightarrow> priced obs = {}"
  by (auto simp: obs_median_def median_disc_def)

text \<open>No minority moves a price. When more than half of the priced observations of a key lie between two
  prices, in whatever units and of whatever size the rest are, so does the median, and the price
  stored is one of the observations, rounded to eight places.\<close>

theorem minority_cannot_move_price:
  assumes "finite obs" "inj_on sn_filer obs"
    and "card (priced obs) < 2 * card {r \<in> priced obs. lo \<le> obs_price r \<and> obs_price r \<le> hi}"
  shows "\<exists>r\<in>priced obs. obs_median obs = Some (obs_price r) \<and> lo \<le> obs_price r \<and> obs_price r \<le> hi
    \<and> (rounded_price obs = None \<or> rounded_price obs = Some (sql_round 8 (obs_price r)))"
proof -
  let ?f = "\<lambda>r. (obs_price r, sn_filer r)"
  let ?B = "{r \<in> priced obs. lo \<le> obs_price r \<and> obs_price r \<le> hi}"
  have inj: "inj_on ?f A" if "A \<subseteq> obs" for A using assms(2) that by (auto simp: inj_on_def)
  have p: "priced obs \<subseteq> obs" by (auto simp: priced_def)
  then have fin: "finite (priced obs)" using assms(1) finite_subset by blast
  have c: "card (?f ` priced obs) = card (priced obs)" "card (?f ` ?B) = card ?B" using p by (auto intro!: card_image inj)
  have "{x \<in> ?f ` priced obs. lo \<le> fst x \<and> fst x \<le> hi} = ?f ` ?B" by auto
  then have maj: "card (?f ` priced obs) < 2 * card {x \<in> ?f ` priced obs. lo \<le> fst x \<and> fst x \<le> hi}" using assms(3) c by simp
  obtain m where m: "obs_median obs = Some m" "lo \<le> m" "m \<le> hi"
    using median_disc_between[OF _ maj] fin unfolding obs_median_def by auto
  then obtain r where "r \<in> priced obs" "obs_price r = m" using median_of_priced[OF assms(1)] by blast
  then show ?thesis using m by (auto simp: rounded_price_def price_places_def)
qed

definition price_checks :: "price_row \<Rightarrow> bool" where
  "price_checks r = ((ip_price r = None \<longleftrightarrow> ip_confidence r = None) \<and> (case ip_price r of None \<Rightarrow> True | Some p \<Rightarrow> p > 0)
     \<and> ip_observations r > 0 \<and> ip_unpriced r \<le> ip_observations r \<and> ip_agreeing r \<le> ip_observations r - ip_unpriced r)"

lemma sql_round_nonneg: "0 \<le> x \<Longrightarrow> 0 \<le> sql_round n x"
  by (simp add: sql_round_def)

text \<open>Every row the query makes is one the table accepts: its counts agree with each other, it has a
  price exactly when it has a confidence, and the price is positive; and with a price at least one
  observation, the median itself, agrees.\<close>

theorem prices_pass_checks:
  assumes "finite t" "r \<in> implied_prices keys t"
  shows "price_checks r \<and> (ip_price r \<noteq> None \<longrightarrow> 1 \<le> ip_agreeing r)"
proof -
  let ?obs = "{x \<in> observations keys t. security_period x = ip_key r}"
  have ne: "?obs \<noteq> {}" and r: "r = price_of (ip_key r) ?obs" using assms(2) by (auto simp: implied_mem Let_def)
  obtain obs where o: "obs = ?obs" by blast
  have fin: "finite obs" using assms(1) by (simp add: o observations_def)
  have r': "r = price_of (ip_key r) obs" using r o by simp
  have pos: "obs_price x > 0" if "x \<in> priced obs" for x
    using that by (auto simp: o priced_def obs_price_def observations_def)
  have fp: "finite (priced obs)" using fin by (simp add: priced_def)
  have part: "card (priced obs) + unpriced_count obs \<le> card obs"
  proof -
    have "card (priced obs \<union> {r \<in> obs. sn_value r = 0}) = card (priced obs) + unpriced_count obs"
      unfolding unpriced_count_def using fin fp by (intro card_Un_disjoint) (auto simp: priced_def)
    moreover have "card (priced obs \<union> {r \<in> obs. sn_value r = 0}) \<le> card obs" using fin by (intro card_mono) (auto simp: priced_def)
    ultimately show ?thesis by simp
  qed
  have ag: "agreeing obs \<le> card (priced obs)"
    using fp by (auto simp: agreeing_def intro!: card_mono split: option.split)
  have one: "1 \<le> agreeing obs" if m: "obs_median obs = Some m" for m
  proof -
    obtain x where x: "x \<in> priced obs" "obs_price x = m" using median_of_priced[OF fin m] by blast
    then have "x \<in> {r \<in> priced obs. \<bar>obs_price r - m\<bar> * 100 \<le> m * agreement_pct}" using pos[OF x(1)] by (simp add: agreement_pct_def)
    then show ?thesis using fp by (simp add: agreeing_def m Suc_le_eq card_gt_0_iff) blast
  qed
  have price: "p > 0" if rp: "rounded_price obs = Some p" for p
  proof -
    obtain m where m: "obs_median obs = Some m" "p = sql_round price_places m" "p \<noteq> 0"
      using rp by (auto simp: rounded_price_def split: option.splits if_splits)
    obtain x where "x \<in> priced obs" "obs_price x = m" using median_of_priced[OF fin m(1)] by blast
    then have "0 \<le> p" using pos[of x] m(2) sql_round_nonneg[of m] by simp
    then show ?thesis using m(3) by simp
  qed
  have conf: "rounded_price obs = None \<longleftrightarrow> price_confidence obs = None" by (simp add: price_confidence_def Let_def)
  have "0 < card obs" using ne fin o by (simp add: card_gt_0_iff)
  moreover have "unpriced_count obs \<le> card obs" "agreeing obs \<le> card obs - unpriced_count obs" using part ag by simp_all
  ultimately have "price_checks (price_of (ip_key r) obs)"
    using conf price by (simp add: price_checks_def price_of_def split: option.split)
  moreover have "ip_price r \<noteq> None \<longrightarrow> 1 \<le> ip_agreeing r"
    using one by (subst (1 2) r') (auto simp: price_of_def rounded_price_def split: option.splits)
  ultimately show ?thesis using r' by simp
qed

section \<open>A sample of three holders\<close>

text \<open>Two holders agree on ten dollars, and a third reports in thousands.\<close>

definition sample_holder :: "int \<Rightarrow> rat \<Rightarrow> snapshot" where
  "sample_holder f v = \<lparr>sn_filer = f, sn_period = Date 2024 3 31, sn_security = 9, sn_shares = 100, sn_value = v,
     sn_weight = None, sn_source = 0, sn_suspect = False\<rparr>"

definition sample_holders :: "snapshot set" where
  "sample_holders = {sample_holder 1 1000, sample_holder 2 1010, sample_holder 3 1}"

lemma sample_holder_simps [simp]:
  "sn_filer (sample_holder f v) = f" "sn_value (sample_holder f v) = v" "sn_shares (sample_holder f v) = 100"
  "obs_price (sample_holder f v) = v / 100" "security_period (sample_holder f v) = (9, Date 2024 3 31)"
  "sample_holder f v = sample_holder g w \<longleftrightarrow> f = g \<and> v = w"
  by (auto simp: sample_holder_def obs_price_def security_period_def)

lemma sample_holders_priced: "priced sample_holders = sample_holders"
  by (auto simp: priced_def sample_holders_def)

theorem minority_cannot_move_price_witness:
  "\<exists>r\<in>sample_holders. obs_median sample_holders = Some (obs_price r) \<and> 10 \<le> obs_price r \<and> obs_price r \<le> 11"
proof -
  have "{r \<in> sample_holders. 10 \<le> obs_price r \<and> obs_price r \<le> 11} = {sample_holder 1 1000, sample_holder 2 1010}"
    by (auto simp: sample_holders_def)
  then have c: "card {r \<in> priced sample_holders. 10 \<le> obs_price r \<and> obs_price r \<le> 11} = 2" by (simp add: sample_holders_priced)
  have n: "card (priced sample_holders) = 3" unfolding sample_holders_priced by (simp add: sample_holders_def)
  have i: "finite sample_holders" "inj_on sn_filer sample_holders" by (auto simp: sample_holders_def inj_on_def)
  have "card (priced sample_holders) < 2 * card {r \<in> priced sample_holders. 10 \<le> obs_price r \<and> obs_price r \<le> 11}" using c n by simp
  from minority_cannot_move_price[OF i this] show ?thesis unfolding sample_holders_priced by blast
qed

theorem prices_pass_checks_witness:
  "price_checks (price_of (9, Date 2024 3 31) sample_holders)"
proof -
  have "{x \<in> observations None sample_holders. security_period x = (9, Date 2024 3 31)} = sample_holders"
    by (auto simp: observations_def sample_holders_def)
  then have "price_of (9, Date 2024 3 31) sample_holders \<in> implied_prices None sample_holders"
    by (auto simp: implied_mem sample_holders_def Let_def)
  then show ?thesis using prices_pass_checks[of sample_holders] by (simp add: sample_holders_def)
qed

end
