(* ===== verification/Splits.thy ===== *)
theory Splits
  imports Prices Periods
begin

text \<open>
  \<open>app/derived/security_split.py\<close>: stock splits, detected from what the holders of a security filed.
  A fraction is its numerator and denominator, in lowest terms, as the table keeps it. Ratios are
  exact; the two a row keeps are rounded as their columns store them. The verdicts of a run are a
  set: their order in the code is that of a report.
\<close>

section \<open>The rule\<close>

type_synonym fraction = "int \<times> int"

definition frac :: "fraction \<Rightarrow> rat" where "frac f = of_int (fst f) / of_int (snd f)"

definition split_fractions :: "fraction list" where
  "split_fractions = [(1, 50), (1, 25), (1, 20), (1, 10), (1, 5), (1, 4), (1, 3), (1, 2), (2, 3),
     (3, 2), (2, 1), (3, 1), (4, 1), (5, 1), (10, 1), (20, 1), (25, 1), (50, 1)]"

definition agreement_tolerance :: rat where "agreement_tolerance = 5 / 4"
definition min_agreeing :: nat where "min_agreeing = 2"
definition min_agreeing_share :: rat where "min_agreeing_share = 1 / 3"
definition exact_shares :: rat where "exact_shares = 1"
definition product_low :: rat where "product_low = 2 / 5"
definition product_high :: rat where "product_high = 8 / 5"
definition exact_not_required_from :: rat where "exact_not_required_from = 4"
definition majority_enough_from :: rat where "majority_enough_from = 3"
definition outlier_factor :: rat where "outlier_factor = 5 / 2"

lemmas split_constants = agreement_tolerance_def min_agreeing_def min_agreeing_share_def exact_shares_def product_low_def
  product_high_def exact_not_required_from_def majority_enough_from_def outlier_factor_def

datatype split_confidence = Split_high | Split_medium | Split_low

datatype reason =
    No_common_ratio
  | Too_few_agree nat nat
  | No_price_on_one_side
  | Price_moved "rat option"
  | No_exact_holder
  | No_exact_and_no_majority
  | Exact_and_three
  | Exact_or_three
  | Two_agree

record candidate =
  cd_security :: int
  cd_period :: date
  cd_holders :: nat
  cd_shares_ratio :: rat
  cd_fraction :: "fraction option"
  cd_agreeing :: nat
  cd_exact :: nat
  cd_price_ratio :: "rat option"

definition cd_key :: "candidate \<Rightarrow> security_period" where "cd_key c = (cd_security c, cd_period c)"

definition cd_product :: "candidate \<Rightarrow> rat option" where
  "cd_product c =
     (case (cd_fraction c, cd_price_ratio c) of
        (Some f, Some p) \<Rightarrow> Some (p * of_int (fst f) / of_int (snd f))
      | _ \<Rightarrow> None)"

record verdict =
  vd_candidate :: candidate
  vd_confidence :: "split_confidence option"
  vd_reason :: reason

definition vd_split :: "verdict \<Rightarrow> bool" where "vd_split v = (vd_confidence v \<noteq> None)"

definition price_corroborates :: "fraction \<Rightarrow> rat \<Rightarrow> bool" where
  "price_corroborates f product =
     (product_low \<le> product \<and> product \<le> product_high
      \<and> (if frac f > 1 then product ^ 2 < frac f else product ^ 2 > frac f))"

definition verdict_no :: "candidate \<Rightarrow> reason \<Rightarrow> verdict" where
  "verdict_no c r = \<lparr>vd_candidate = c, vd_confidence = None, vd_reason = r\<rparr>"

definition judge :: "candidate \<Rightarrow> verdict" where
  "judge c =
     (case cd_fraction c of None \<Rightarrow> verdict_no c No_common_ratio
      | Some f \<Rightarrow>
          (let least = max (of_nat min_agreeing) (of_nat (cd_holders c) * min_agreeing_share);
               size = max (frac f) (1 / frac f);
               majority = cd_agreeing c \<ge> 3 \<and> cd_agreeing c * 2 > cd_holders c
           in if of_nat (cd_agreeing c) < least then verdict_no c (Too_few_agree (cd_agreeing c) (cd_holders c))
              else (case cd_product c of None \<Rightarrow> verdict_no c No_price_on_one_side
                | Some product \<Rightarrow>
                    if \<not> price_corroborates f product then verdict_no c (Price_moved (cd_price_ratio c))
                    else if size < exact_not_required_from \<and> cd_exact c = 0 \<and> size < majority_enough_from
                    then verdict_no c No_exact_holder
                    else if size < exact_not_required_from \<and> cd_exact c = 0 \<and> \<not> majority
                    then verdict_no c No_exact_and_no_majority
                    else if cd_exact c > 0 \<and> cd_agreeing c \<ge> 3
                    then \<lparr>vd_candidate = c, vd_confidence = Some Split_high, vd_reason = Exact_and_three\<rparr>
                    else if cd_exact c > 0 \<or> cd_agreeing c \<ge> 3
                    then \<lparr>vd_candidate = c, vd_confidence = Some Split_medium, vd_reason = Exact_or_three\<rparr>
                    else \<lparr>vd_candidate = c, vd_confidence = Some Split_low, vd_reason = Two_agree\<rparr>)))"

text \<open>How far two positive numbers are apart, as a factor of one or more.\<close>

definition factor :: "rat \<Rightarrow> rat \<Rightarrow> rat" where "factor r f = max (r / f) (f / r)"

definition nearest_fraction :: "rat \<Rightarrow> fraction option" where
  "nearest_fraction r =
     (if r \<le> 0 then None
      else (case min_by (\<lambda>f. factor r (frac f)) split_fractions of
              None \<Rightarrow> None
            | Some f \<Rightarrow> if factor r (frac f) \<le> agreement_tolerance then Some f else None))"

definition looks_like_split :: "rat \<Rightarrow> rat \<Rightarrow> rat option \<Rightarrow> bool" where
  "looks_like_split prev_shares shares price_ratio =
     (if prev_shares \<le> 0 \<or> shares \<le> 0 then False
      else (let rest =
              (case nearest_fraction (shares / prev_shares) of None \<Rightarrow> False
               | Some f \<Rightarrow>
                   (let exact = \<bar>shares - prev_shares * of_int (fst f) / of_int (snd f)\<bar> \<le> exact_shares in
                    case price_ratio of None \<Rightarrow> exact
                    | Some p \<Rightarrow>
                        price_corroborates f (p * of_int (fst f) / of_int (snd f))
                        \<and> (exact \<or> max (frac f) (1 / frac f) \<ge> majority_enough_from)))
            in case price_ratio of None \<Rightarrow> rest
               | Some p \<Rightarrow> if \<not> (1 / outlier_factor < p \<and> p < outlier_factor) then p > 0 else rest))"

definition is_outlier :: "verdict \<Rightarrow> bool" where
  "is_outlier v =
     (let c = vd_candidate v in
      case cd_price_ratio c of None \<Rightarrow> False
      | Some p \<Rightarrow>
          if vd_split v \<or> cd_holders c < min_agreeing then False
          else (let (shares, price) = (if cd_shares_ratio c < 1 then (1 / cd_shares_ratio c, 1 / p) else (cd_shares_ratio c, p))
                in shares \<ge> outlier_factor \<and> price * outlier_factor \<le> 1))"

text \<open>The held keys and each one's quarter after; an error is that of the last quarter of all.\<close>

definition split_keys :: "security_period set \<Rightarrow> period_error + security_period set" where
  "split_keys held =
     (let ends = {k \<in> held. is_quarter_end (snd k)} in
      if \<exists>k\<in>ends. \<exists>e. next_quarter_end (snd k) = Inl e then Inl (Year_out_of_range 10000)
      else Inr (held \<union> {(fst k, q) | k q. k \<in> ends \<and> next_quarter_end (snd k) = Inr q}))"

section \<open>The query\<close>

text \<open>\<open>date_trunc('quarter', period) - 1\<close>.\<close>

definition quarter_before :: "date \<Rightarrow> date" where
  "quarter_before p = prev_day (Date (year p) (3 * ((month p - 1) div 3) + 1) 1)"

text \<open>\<open>ratios\<close>: the two rows of each holder across the quarter.\<close>

definition ratios :: "security_period set option \<Rightarrow> snapshot set \<Rightarrow> (snapshot \<times> snapshot) set" where
  "ratios keys t =
     {(now, before) \<in> t \<times> t. sn_filer before = sn_filer now \<and> sn_security before = sn_security now
        \<and> sn_period before = quarter_before (sn_period now) \<and> sn_shares now > 0 \<and> sn_shares before > 0
        \<and> covers keys (security_period now)}"

definition ratio_of :: "snapshot \<times> snapshot \<Rightarrow> rat" where
  "ratio_of x = sn_shares (fst x) / sn_shares (snd x)"

definition ratios_at :: "security_period set option \<Rightarrow> snapshot set \<Rightarrow> security_period \<Rightarrow> (snapshot \<times> snapshot) set" where
  "ratios_at keys t k = {x \<in> ratios keys t. security_period (fst x) = k}"

definition median_ratio :: "(snapshot \<times> snapshot) set \<Rightarrow> rat" where
  "median_ratio A = the (median_disc ((\<lambda>x. (ratio_of x, sn_filer (fst x))) ` A))"

text \<open>\<open>snapped\<close>: the nearest of the fractions within the tolerance, if there is one.\<close>

definition snapped :: "rat \<Rightarrow> fraction option" where
  "snapped r =
     (let distance = (\<lambda>f. let scaled = r * of_int (snd f) / of_int (fst f) in max scaled (1 / scaled))
      in min_by distance (filter (\<lambda>f. distance f \<le> agreement_tolerance) split_fractions))"

definition agrees :: "fraction \<Rightarrow> rat \<Rightarrow> bool" where
  "agrees f r = (r * of_int (snd f) * agreement_tolerance \<ge> of_int (fst f)
     \<and> r * of_int (snd f) \<le> of_int (fst f) * agreement_tolerance)"

definition exact_to_share :: "fraction \<Rightarrow> rat \<Rightarrow> rat \<Rightarrow> bool" where
  "exact_to_share f shares before = (\<bar>shares * of_int (snd f) - before * of_int (fst f)\<bar> \<le> of_int (snd f) * exact_shares)"

definition price_at :: "price_row set \<Rightarrow> security_period \<Rightarrow> rat option" where
  "price_at ps k = Option.bind (row_at ip_key ps k) ip_price"

definition candidate_of :: "(snapshot \<times> snapshot) set \<Rightarrow> price_row set \<Rightarrow> security_period \<Rightarrow> candidate" where
  "candidate_of A ps k =
     (let f = snapped (median_ratio A) in
      \<lparr>cd_security = fst k, cd_period = snd k, cd_holders = card A, cd_shares_ratio = median_ratio A, cd_fraction = f,
       cd_agreeing = (case f of None \<Rightarrow> 0 | Some f \<Rightarrow> card {x \<in> A. agrees f (ratio_of x)}),
       cd_exact = (case f of None \<Rightarrow> 0
         | Some f \<Rightarrow> card {x \<in> A. exact_to_share f (sn_shares (fst x)) (sn_shares (snd x))}),
       cd_price_ratio = (case (price_at ps k, price_at ps (fst k, quarter_before (snd k))) of
           (Some now, Some before) \<Rightarrow> Some (now / before)
         | _ \<Rightarrow> None)\<rparr>)"

definition reported :: "candidate \<Rightarrow> bool" where
  "reported c = (cd_agreeing c \<ge> min_agreeing \<or> cd_shares_ratio c \<ge> outlier_factor \<or> cd_shares_ratio c * outlier_factor \<le> 1)"

definition split_candidates :: "security_period set option \<Rightarrow> snapshot set \<Rightarrow> price_row set \<Rightarrow> candidate set" where
  "split_candidates keys t ps =
     {c \<in> (\<lambda>k. candidate_of (ratios_at keys t k) ps k) `
            {k \<in> (\<lambda>x. security_period (fst x)) ` ratios keys t. card (ratios_at keys t k) \<ge> min_agreeing}. reported c}"

definition judge_candidates :: "security_period set option \<Rightarrow> snapshot set \<Rightarrow> price_row set \<Rightarrow> verdict set" where
  "judge_candidates keys t ps = judge ` split_candidates keys t ps"

section \<open>The rebuild\<close>

record split_row =
  sp_security :: int
  sp_period :: date
  sp_numerator :: int
  sp_denominator :: int
  sp_confidence :: split_confidence
  sp_holders :: nat
  sp_agreeing :: nat
  sp_exact :: nat
  sp_shares_ratio :: rat
  sp_price_ratio :: rat

definition sp_key :: "split_row \<Rightarrow> security_period" where "sp_key r = (sp_security r, sp_period r)"
definition sp_fraction :: "split_row \<Rightarrow> fraction" where "sp_fraction r = (sp_numerator r, sp_denominator r)"

definition row_of_verdict :: "verdict \<Rightarrow> split_row" where
  "row_of_verdict v =
     (let c = vd_candidate v in
      \<lparr>sp_security = cd_security c, sp_period = cd_period c, sp_numerator = fst (the (cd_fraction c)),
       sp_denominator = snd (the (cd_fraction c)), sp_confidence = the (vd_confidence v), sp_holders = cd_holders c,
       sp_agreeing = cd_agreeing c, sp_exact = cd_exact c, sp_shares_ratio = sql_round 6 (cd_shares_ratio c),
       sp_price_ratio = sql_round 10 (the (cd_price_ratio c))\<rparr>)"

definition security_splits :: "security_period set option \<Rightarrow> snapshot set \<times> price_row set \<Rightarrow> split_row set" where
  "security_splits keys tp = row_of_verdict ` {v \<in> judge_candidates keys (fst tp) (snd tp). vd_split v}"

record split_rebuild =
  sb_splits :: "verdict set"
  sb_outliers :: "verdict set"
  sb_added :: "security_period set"
  sb_removed :: "security_period set"
  sb_rerated :: "security_period set"

definition moved :: "split_rebuild \<Rightarrow> security_period set" where
  "moved b = sb_added b \<union> sb_removed b \<union> sb_rerated b"

definition recompute_security_split ::
  "security_period set option \<Rightarrow> snapshot set \<Rightarrow> price_row set \<Rightarrow> split_row set \<Rightarrow> split_row set \<times> split_rebuild" where
  "recompute_security_split keys t ps old =
     (if keys = Some {} then (old, \<lparr>sb_splits = {}, sb_outliers = {}, sb_added = {}, sb_removed = {}, sb_rerated = {}\<rparr>)
      else (let stored = {r \<in> old. covers keys (sp_key r)};
                verdicts = judge_candidates keys t ps;
                splits = {v \<in> verdicts. vd_split v};
                rows = row_of_verdict ` splits;
                both = sp_key ` stored \<inter> sp_key ` rows
            in (rebuild sp_key keys old rows,
                \<lparr>sb_splits = splits, sb_outliers = {v \<in> verdicts. is_outlier v}, sb_added = sp_key ` rows - sp_key ` stored,
                 sb_removed = sp_key ` stored - sp_key ` rows,
                 sb_rerated = {k \<in> both. map_option sp_fraction (row_at sp_key stored k) \<noteq> map_option sp_fraction (row_at sp_key rows k)}\<rparr>)))"

definition ratio_label :: "fraction \<Rightarrow> string" where
  "ratio_label f = show_nat (nat (fst f)) @ '':'' @ show_nat (nat (snd f))"

section \<open>A split depends on its quarter and the one before\<close>

lemma ratios_at_covered: "ratios_at keys t k = (if covers keys k then ratios_at None t k else {})"
  by (auto simp: ratios_at_def ratios_def)

lemma ratios_at_mem:
  "x \<in> ratios_at None t k \<longleftrightarrow> fst x \<in> {r \<in> t. security_period r = k}
     \<and> snd x \<in> {r \<in> t. security_period r = (fst k, quarter_before (snd k))}
     \<and> sn_filer (snd x) = sn_filer (fst x) \<and> sn_shares (fst x) > 0 \<and> sn_shares (snd x) > 0"
  by (cases x; cases k) (auto simp: ratios_at_def ratios_def security_period_def)

lemma ratios_at_finite: "finite t \<Longrightarrow> finite (ratios_at keys t k)"
  by (rule finite_subset[of _ "t \<times> t"]) (auto simp: ratios_at_def ratios_def)

lemma cd_key_candidate [simp]: "cd_key (candidate_of A ps k) = k"
  by (simp add: candidate_of_def Let_def cd_key_def)

lemma judge_candidate [simp]: "vd_candidate (judge c) = c"
  by (auto simp: judge_def verdict_no_def Let_def split: option.split)

lemma sp_key_row [simp]: "sp_key (row_of_verdict v) = cd_key (vd_candidate v)"
  by (simp add: row_of_verdict_def sp_key_def cd_key_def Let_def)

text \<open>The candidate of a key, where the query reports one.\<close>

definition candidate_at :: "security_period set option \<Rightarrow> snapshot set \<Rightarrow> price_row set \<Rightarrow> security_period \<Rightarrow> candidate option" where
  "candidate_at keys t ps k =
     (let A = ratios_at keys t k; c = candidate_of A ps k in if min_agreeing \<le> card A \<and> reported c then Some c else None)"

lemma candidate_at_key: "candidate_at keys t ps k = Some c \<Longrightarrow> cd_key c = k"
  by (auto simp: candidate_at_def Let_def split: if_splits)

lemma candidates_mem: "c \<in> split_candidates keys t ps \<longleftrightarrow> candidate_at keys t ps (cd_key c) = Some c"
proof
  assume "c \<in> split_candidates keys t ps"
  then obtain k where "c = candidate_of (ratios_at keys t k) ps k" "min_agreeing \<le> card (ratios_at keys t k)" "reported c"
    by (auto simp: split_candidates_def)
  then show "candidate_at keys t ps (cd_key c) = Some c" by (simp add: candidate_at_def Let_def)
next
  assume a: "candidate_at keys t ps (cd_key c) = Some c"
  then have c: "c = candidate_of (ratios_at keys t (cd_key c)) ps (cd_key c)" "min_agreeing \<le> card (ratios_at keys t (cd_key c))" "reported c"
    by (auto simp: candidate_at_def Let_def split: if_splits)
  from c(2) have "ratios_at keys t (cd_key c) \<noteq> {}" by (auto simp: min_agreeing_def)
  then have "cd_key c \<in> (\<lambda>x. security_period (fst x)) ` ratios keys t" by (force simp: ratios_at_def)
  then show "c \<in> split_candidates keys t ps" using c unfolding split_candidates_def by blast
qed

lemma splits_mem:
  "r \<in> security_splits keys tp \<longleftrightarrow> (\<exists>c. candidate_at keys (fst tp) (snd tp) (sp_key r) = Some c
     \<and> vd_split (judge c) \<and> r = row_of_verdict (judge c))"
proof
  assume "r \<in> security_splits keys tp"
  then obtain c where c: "c \<in> split_candidates keys (fst tp) (snd tp)" "vd_split (judge c)" "r = row_of_verdict (judge c)"
    by (auto simp: security_splits_def judge_candidates_def)
  then have "sp_key r = cd_key c" by simp
  then show "\<exists>c. candidate_at keys (fst tp) (snd tp) (sp_key r) = Some c \<and> vd_split (judge c) \<and> r = row_of_verdict (judge c)"
    using c candidates_mem by metis
next
  assume "\<exists>c. candidate_at keys (fst tp) (snd tp) (sp_key r) = Some c \<and> vd_split (judge c) \<and> r = row_of_verdict (judge c)"
  then obtain c where c: "candidate_at keys (fst tp) (snd tp) (sp_key r) = Some c" "vd_split (judge c)" "r = row_of_verdict (judge c)" by blast
  then have "c \<in> split_candidates keys (fst tp) (snd tp)" using candidates_mem candidate_at_key by metis
  then show "r \<in> security_splits keys tp" using c(2,3) unfolding security_splits_def judge_candidates_def by blast
qed

lemma candidate_at_covered: "candidate_at keys t ps k = (if covers keys k then candidate_at None t ps k else None)"
  by (simp add: candidate_at_def ratios_at_covered[of keys] min_agreeing_def)

interpretation splits: derived_table security_splits sp_key
proof unfold_locales
  fix ks s
  show "security_splits (Some ks) s = {r \<in> security_splits None s. sp_key r \<in> ks}"
    by (rule set_eqI) (auto simp: splits_mem candidate_at_covered[of "Some ks"])
qed

lemma splits_keyed: "inj_on sp_key (security_splits keys tp)"
  by (auto simp: inj_on_def splits_mem)

lemma rows_within: "j \<in> K \<Longrightarrow> {r \<in> {r \<in> A. key r \<in> K}. key r = j} = {r \<in> A. key r = j}"
  by auto

lemma splits_uncovered: "r \<in> security_splits keys tp \<Longrightarrow> covers keys (sp_key r)"
  using splits.scoped_covers[of keys tp] by blast

lemma splits_nowhere: "security_splits (Some {}) tp = {}"
  by (simp add: splits.scoped)

text \<open>Rows and prices that are the same at a key and a quarter before it give it the same split.\<close>

lemma splits_same:
  assumes now: "{x \<in> t. security_period x = k} = {x \<in> t'. security_period x = k}"
    and before: "{x \<in> t. security_period x = (fst k, quarter_before (snd k))} = {x \<in> t'. security_period x = (fst k, quarter_before (snd k))}"
    and prices: "{r \<in> ps. ip_key r \<in> {k, (fst k, quarter_before (snd k))}} = {r \<in> ps'. ip_key r \<in> {k, (fst k, quarter_before (snd k))}}"
  shows "candidate_at None t ps k = candidate_at None t' ps' k"
proof -
  have "x \<in> ratios_at None t k \<longleftrightarrow> x \<in> ratios_at None t' k" for x
    unfolding ratios_at_mem now before ..
  then have A: "ratios_at None t k = ratios_at None t' k" by blast
  have "price_at ps j = price_at ps' j" if "j \<in> {k, (fst k, quarter_before (snd k))}" for j
  proof -
    have "{r \<in> ps. ip_key r = j} = {r \<in> ps'. ip_key r = j}"
      using arg_cong[OF prices, of "\<lambda>A. {r \<in> A. ip_key r = j}"] unfolding rows_within[OF that] .
    from row_at_same[OF this] show ?thesis by (simp only: price_at_def)
  qed
  then have "candidate_of B ps k = candidate_of B ps' k" for B by (simp add: candidate_of_def Let_def)
  then show ?thesis unfolding candidate_at_def A by (simp only:)
qed

lemma recompute_split_fst: "fst (recompute_security_split keys t ps old) = rebuild sp_key keys old (security_splits keys (t, ps))"
proof (cases "keys = Some {}")
  case True
  then show ?thesis by (simp add: recompute_security_split_def rebuild_def splits_nowhere)
qed (simp add: recompute_security_split_def security_splits_def Let_def)

text \<open>A key whose split did not move has the same fraction before the rebuild and after it, or none.\<close>

lemma not_moved:
  assumes old: "inj_on sp_key old" and k: "k \<notin> moved (snd (recompute_security_split keys t ps old))"
  defines "new \<equiv> fst (recompute_security_split keys t ps old)"
  shows "sp_fraction ` {r \<in> old. sp_key r = k} = sp_fraction ` {r \<in> new. sp_key r = k}"
proof (cases "covers keys k \<and> keys \<noteq> Some {}")
  case False
  then have n: "\<not> covers keys k" by (cases keys) auto
  then have "{r \<in> old. sp_key r = k} = {r \<in> new. sp_key r = k}"
    unfolding new_def recompute_split_fst rebuild_def using n splits_uncovered by blast
  then show ?thesis by (simp only:)
next
  case True
  let ?stored = "{r \<in> old. covers keys (sp_key r)}" and ?rows = "security_splits keys (t, ps)"
  have k': "k \<notin> sp_key ` ?rows - sp_key ` ?stored" "k \<notin> sp_key ` ?stored - sp_key ` ?rows"
    "k \<in> sp_key ` ?stored \<inter> sp_key ` ?rows \<Longrightarrow> map_option sp_fraction (row_at sp_key ?stored k) = map_option sp_fraction (row_at sp_key ?rows k)"
    using k True by (auto simp: recompute_security_split_def Let_def moved_def security_splits_def)
  have new: "{r \<in> new. sp_key r = k} = {r \<in> ?rows. sp_key r = k}" "{r \<in> old. sp_key r = k} = {r \<in> ?stored. sp_key r = k}"
    unfolding new_def recompute_split_fst using True by (auto simp: rebuild_def)
  show ?thesis
  proof (cases "k \<in> sp_key ` ?rows")
    case in_rows: True
    then have in_stored: "k \<in> sp_key ` ?stored" using k'(1) by blast
    obtain a where a: "k = sp_key a" "a \<in> ?stored" using in_stored by (rule imageE)
    obtain b where b: "k = sp_key b" "b \<in> ?rows" using in_rows by (rule imageE)
    note ab = a(2) a(1)[symmetric] b(2) b(1)[symmetric]
    have st: "inj_on sp_key ?stored" by (rule inj_on_subset[OF old]) blast
    have "row_at sp_key ?stored k = Some a" using row_at_Some[OF st] ab(1,2) by simp
    moreover have "row_at sp_key ?rows k = Some b" using row_at_Some[OF splits_keyed] ab(3,4) by simp
    ultimately have "sp_fraction a = sp_fraction b" using k'(3) in_rows in_stored by simp
    moreover have "{r \<in> ?stored. sp_key r = k} = {a}" using st ab(1,2) by (auto simp: inj_on_def)
    moreover have "{r \<in> ?rows. sp_key r = k} = {b}" using splits_keyed[of keys "(t, ps)"] ab(3,4) by (auto simp: inj_on_def)
    ultimately show ?thesis unfolding new by simp
  next
    case False
    then have "k \<notin> sp_key ` ?stored" using k'(2) by blast
    then have e: "{r \<in> ?stored. sp_key r = k} = {}" "{r \<in> ?rows. sp_key r = k} = {}" using False by blast+
    show ?thesis unfolding new e by (rule refl)
  qed
qed

section \<open>What makes a split\<close>

lemma judge_split:
  assumes "vd_split (judge c)"
  shows "\<exists>f p. cd_fraction c = Some f \<and> cd_product c = Some p \<and> price_corroborates f p \<and> 2 \<le> cd_agreeing c
    \<and> cd_holders c \<le> 3 * cd_agreeing c
    \<and> (max (frac f) (1 / frac f) < 4 \<longrightarrow> 0 < cd_exact c \<or> 3 \<le> max (frac f) (1 / frac f) \<and> cd_holders c < 2 * cd_agreeing c)"
proof -
  obtain f where f: "cd_fraction c = Some f" using assms by (cases "cd_fraction c") (auto simp: judge_def vd_split_def verdict_no_def)
  let ?least = "max (of_nat min_agreeing) (of_nat (cd_holders c) * min_agreeing_share) :: rat"
  have least: "\<not> of_nat (cd_agreeing c) < ?least"
    using assms f by (auto simp: judge_def vd_split_def verdict_no_def Let_def)
  obtain p where p: "cd_product c = Some p"
    using assms f least by (cases "cd_product c") (auto simp: judge_def vd_split_def verdict_no_def Let_def)
  have r: "price_corroborates f p" "\<not> (max (frac f) (1 / frac f) < exact_not_required_from \<and> cd_exact c = 0 \<and> max (frac f) (1 / frac f) < majority_enough_from)"
    "\<not> (max (frac f) (1 / frac f) < exact_not_required_from \<and> cd_exact c = 0 \<and> \<not> (cd_agreeing c \<ge> 3 \<and> cd_agreeing c * 2 > cd_holders c))"
    using assms f p least by (auto simp: judge_def vd_split_def verdict_no_def Let_def split: if_splits)
  have least': "(of_nat 2 :: rat) \<le> of_nat (cd_agreeing c)" "of_nat (cd_holders c) / 3 \<le> (of_nat (cd_agreeing c) :: rat)"
    using least by (simp_all add: split_constants not_less)
  then have "(of_nat (cd_holders c) :: rat) \<le> of_nat (3 * cd_agreeing c)" by simp
  then have "2 \<le> cd_agreeing c" "cd_holders c \<le> 3 * cd_agreeing c" using least'(1) by (simp_all only: of_nat_le_iff)
  then show ?thesis using f p r by (auto simp: split_constants)
qed

lemma snapped_mem: "snapped r = Some f \<Longrightarrow> f \<in> set split_fractions"
  using min_by_mem by (fastforce simp: snapped_def Let_def)

lemma two_of_card:
  assumes "2 \<le> card A"
  shows "\<exists>x\<in>A. \<exists>y\<in>A. x \<noteq> y"
proof (rule ccontr)
  assume "\<not> ?thesis"
  then have "A = {} \<or> (\<exists>x. A = {x})" by blast
  then show False using assms by auto
qed

lemma ratios_at_filers:
  assumes "inj_on sn_key t" "x \<in> ratios_at keys t k" "y \<in> ratios_at keys t k" "sn_filer (fst x) = sn_filer (fst y)"
  shows "x = y"
proof -
  have m: "x \<in> ratios_at None t k" "y \<in> ratios_at None t k" using assms(2,3) by (simp_all add: ratios_at_covered[of keys] split: if_splits)
  then have "fst x \<in> t" "fst y \<in> t" "snd x \<in> t" "snd y \<in> t" "sn_key (fst x) = sn_key (fst y)" "sn_key (snd x) = sn_key (snd y)"
    using assms(4) unfolding ratios_at_mem by (auto simp: sn_key_def security_period_def)
  then have "fst x = fst y" "snd x = snd y" using assms(1) by (auto simp: inj_on_def)
  then show ?thesis by (simp add: prod_eq_iff)
qed

text \<open>C18. What is called a split has the evidence. Its ratio is one of the common ones; at least two filers,
  and a third of all who held the security across the quarter, had their shares move by within a
  quarter of it; the implied price moved the other way, so that the two multiply to near one, nearer
  than the ratio itself is; and a ratio below four either way needs a holder exact to the share, or
  for three a majority. One filer can never make a split, whatever it files.\<close>

theorem split_has_evidence:
  assumes "inj_on sn_key t" "r \<in> security_splits keys (t, ps)"
  shows "sp_fraction r \<in> set split_fractions
    \<and> (\<exists>x\<in>ratios_at keys t (sp_key r). \<exists>y\<in>ratios_at keys t (sp_key r). sn_filer (fst x) \<noteq> sn_filer (fst y)
        \<and> agrees (sp_fraction r) (ratio_of x) \<and> agrees (sp_fraction r) (ratio_of y))
    \<and> sp_holders r = card (ratios_at keys t (sp_key r)) \<and> 2 \<le> sp_agreeing r \<and> sp_holders r \<le> 3 * sp_agreeing r
    \<and> (\<exists>now before. price_at ps (sp_key r) = Some now \<and> price_at ps (sp_security r, quarter_before (sp_period r)) = Some before
        \<and> price_corroborates (sp_fraction r) (now / before * of_int (sp_numerator r) / of_int (sp_denominator r)))
    \<and> (max (frac (sp_fraction r)) (1 / frac (sp_fraction r)) < 4
        \<longrightarrow> 0 < sp_exact r \<or> 3 \<le> max (frac (sp_fraction r)) (1 / frac (sp_fraction r)) \<and> sp_holders r < 2 * sp_agreeing r)"
proof -
  obtain c where c: "candidate_at keys t ps (sp_key r) = Some c" "vd_split (judge c)" "r = row_of_verdict (judge c)"
    using assms(2) by (auto simp: splits_mem)
  let ?A = "ratios_at keys t (sp_key r)"
  have cA: "c = candidate_of ?A ps (sp_key r)" using c(1) by (auto simp: candidate_at_def Let_def split: if_splits)
  obtain f p where fp: "cd_fraction c = Some f" "cd_product c = Some p" "price_corroborates f p" "2 \<le> cd_agreeing c"
    "cd_holders c \<le> 3 * cd_agreeing c"
    "max (frac f) (1 / frac f) < 4 \<longrightarrow> 0 < cd_exact c \<or> 3 \<le> max (frac f) (1 / frac f) \<and> cd_holders c < 2 * cd_agreeing c"
    using judge_split[OF c(2)] by blast
  have row: "sp_numerator r = fst f" "sp_denominator r = snd f" "sp_agreeing r = cd_agreeing c" "sp_exact r = cd_exact c" "sp_holders r = cd_holders c"
    using fp(1) by (subst c(3), simp add: row_of_verdict_def Let_def)+
  then have rf: "sp_fraction r = f" by (simp add: sp_fraction_def)
  have snap: "snapped (median_ratio ?A) = Some f" using fp(1) by (subst (asm) cA) (simp add: candidate_of_def Let_def)
  have ag: "cd_agreeing c = card {x \<in> ?A. agrees f (ratio_of x)}" using snap by (subst cA) (simp add: candidate_of_def Let_def)
  have hold: "cd_holders c = card ?A" by (subst cA) (simp add: candidate_of_def Let_def)
  obtain x y where xy: "x \<in> ?A" "y \<in> ?A" "agrees f (ratio_of x)" "agrees f (ratio_of y)" "x \<noteq> y"
    using two_of_card[of "{x \<in> ?A. agrees f (ratio_of x)}"] fp(4) ag by auto
  then have filers: "sn_filer (fst x) \<noteq> sn_filer (fst y)" using ratios_at_filers[OF assms(1)] by blast
  obtain pr where pr: "cd_price_ratio c = Some pr" "p = pr * of_int (fst f) / of_int (snd f)"
    using fp(1,2) by (auto simp: cd_product_def split: option.splits)
  obtain now before where nb: "price_at ps (sp_key r) = Some now" "price_at ps (sp_security r, quarter_before (sp_period r)) = Some before" "pr = now / before"
    using pr(1) by (subst (asm) cA) (auto simp: candidate_of_def Let_def sp_key_def split: option.splits)
  show ?thesis
  proof (intro conjI)
    show "sp_fraction r \<in> set split_fractions" using snapped_mem[OF snap] rf by simp
    show "\<exists>x\<in>?A. \<exists>y\<in>?A. sn_filer (fst x) \<noteq> sn_filer (fst y) \<and> agrees (sp_fraction r) (ratio_of x) \<and> agrees (sp_fraction r) (ratio_of y)"
      using xy filers rf by blast
    show "\<exists>now before. price_at ps (sp_key r) = Some now \<and> price_at ps (sp_security r, quarter_before (sp_period r)) = Some before
        \<and> price_corroborates (sp_fraction r) (now / before * of_int (sp_numerator r) / of_int (sp_denominator r))"
      using nb fp(3) pr(2) rf row(1,2) by auto
  qed (use row hold fp(4-6) rf in simp_all)
qed

section \<open>One nearest fraction\<close>

lemma rat_square_int:
  assumes "x * x = (of_int n :: rat)"
  shows "\<exists>m. n = m * m"
proof -
  obtain a b where ab: "x = Fract a b" "0 < b" "coprime a b" by (cases x rule: Rat_cases) blast
  have x: "x = of_int a / of_int b" using ab by (simp add: Fract_of_int_quotient)
  have "(of_int (a * a) :: rat) = of_int (n * (b * b))" using assms ab(2) by (simp add: x field_simps)
  then have e: "a * a = n * (b * b)" by (simp only: of_int_eq_iff)
  then have "b dvd a * a" by (metis dvd_mult dvd_triv_left)
  moreover have "coprime b (a * a)" using ab(3) by (simp add: coprime_commute)
  ultimately have "is_unit b" using coprime_absorb_left by blast
  then have "b = 1" using ab(2) by simp
  then show ?thesis using e by auto
qed

text \<open>Two fractions near enough for one ratio to be near both multiply to no square.\<close>

definition never_midway :: "fraction \<Rightarrow> fraction \<Rightarrow> bool" where
  "never_midway f g =
     (if f = g \<or> 16 * (fst f * snd g) > 25 * (fst g * snd f) \<or> 16 * (fst g * snd f) > 25 * (fst f * snd g) then True
      else fst f * snd f * (fst g * snd g) \<in> {6, 12, 20, 500})"

lemma fractions_never_midway: "list_all (\<lambda>f. list_all (never_midway f) split_fractions) split_fractions"
  by code_simp

lemma fractions_positive: "list_all (\<lambda>f. 0 < fst f \<and> 0 < snd f) split_fractions"
  by (simp add: split_fractions_def)

lemma between_squares:
  assumes "(k::int) * k < m * m" "m * m < (k + 1) * (k + 1)" "0 \<le> k"
  shows False
proof -
  have "\<not> \<bar>m\<bar> \<le> k" using mult_mono[of "\<bar>m\<bar>" k "\<bar>m\<bar>" k] assms(1,3) by auto
  moreover have "\<not> k + 1 \<le> \<bar>m\<bar>" using mult_mono[of "k + 1" "\<bar>m\<bar>" "k + 1" "\<bar>m\<bar>"] assms(2,3) by auto
  ultimately show False by simp
qed

text \<open>No ratio is as near to two of the fractions: the order of the query's \<open>LIMIT 1\<close> decides nothing.\<close>

lemma frac_pos: "f \<in> set split_fractions \<Longrightarrow> 0 < frac f"
  using fractions_positive by (auto simp: list_all_iff frac_def)

lemma factor_frac: "factor r (frac f) = max (r * of_int (snd f) / of_int (fst f)) (of_int (fst f) / (r * of_int (snd f)))"
  by (simp add: factor_def frac_def mult.commute)

lemma nearest_is_one:
  assumes f: "f \<in> set split_fractions" and g: "g \<in> set split_fractions" and ne: "f \<noteq> g" and r: "0 < r"
    and near: "factor r (frac f) \<le> 5 / 4" and tie: "factor r (frac f) = factor r (frac g)"
  shows False
proof -
  let ?a = "of_int (fst f) :: rat" and ?b = "of_int (snd f) :: rat" and ?c = "of_int (fst g) :: rat" and ?d = "of_int (snd g) :: rat"
  have p: "0 < fst f" "0 < snd f" "0 < fst g" "0 < snd g" using fractions_positive f g by (auto simp: list_all_iff)
  have pos: "0 < ?a" "0 < ?b" "0 < ?c" "0 < ?d" using p by simp_all
  have nm: "never_midway f g" using fractions_never_midway f g by (auto simp: list_all_iff)
  have F: "r * ?b / ?a \<le> 5 / 4" "?a / (r * ?b) \<le> 5 / 4" "r * ?d / ?c \<le> 5 / 4" "?c / (r * ?d) \<le> 5 / 4"
    using near near[unfolded tie] unfolding factor_frac max.bounded_iff by blast+
  then have G: "4 * (r * ?b) \<le> 5 * ?a" "4 * ?a \<le> 5 * (r * ?b)" "4 * (r * ?d) \<le> 5 * ?c" "4 * ?c \<le> 5 * (r * ?d)"
    using pos r by (simp_all add: field_simps)
  have "16 * (?a * ?d) \<le> 25 * (?c * ?b)" "16 * (?c * ?b) \<le> 25 * (?a * ?d)"
  proof -
    have "16 * (?a * ?d) * r = (4 * ?a) * (4 * (r * ?d))" by simp
    also have "\<dots> \<le> (5 * (r * ?b)) * (5 * ?c)" by (rule mult_mono) (use G pos r in simp_all)
    finally have "16 * (?a * ?d) * r \<le> 25 * (?c * ?b) * r" by (simp add: mult_ac)
    then show "16 * (?a * ?d) \<le> 25 * (?c * ?b)" using r by (simp only: mult_le_cancel_right_pos)
    have "16 * (?c * ?b) * r = (4 * ?c) * (4 * (r * ?b))" by simp
    also have "\<dots> \<le> (5 * (r * ?d)) * (5 * ?a)" by (rule mult_mono) (use G pos r in simp_all)
    finally have "16 * (?c * ?b) * r \<le> 25 * (?a * ?d) * r" by (simp add: mult_ac)
    then show "16 * (?c * ?b) \<le> 25 * (?a * ?d)" using r by (simp only: mult_le_cancel_right_pos)
  qed
  then have "\<not> 16 * (fst f * snd g) > 25 * (fst g * snd f)" "\<not> 16 * (fst g * snd f) > 25 * (fst f * snd g)"
    by (simp_all add: not_less flip: of_int_le_iff[where 'a = rat])
  then have N: "fst f * snd f * (fst g * snd g) \<in> {6, 12, 20, 500}" using nm ne by (simp add: never_midway_def)
  have cross: "r * r * ?b * ?d = ?a * ?c" if "r * ?b / ?a = ?c / (r * ?d)"
    using that pos r by (simp add: field_simps)
  have same: "?a * ?d = ?c * ?b" if "r * ?b / ?a = r * ?d / ?c \<or> ?a / (r * ?b) = ?c / (r * ?d)"
    using that pos r by (auto simp: field_simps)
  have ways: "(r * ?b / ?a = r * ?d / ?c \<or> ?a / (r * ?b) = ?c / (r * ?d)) \<or> r * ?b / ?a = ?c / (r * ?d) \<or> r * ?d / ?c = ?a / (r * ?b)"
    using tie unfolding factor_frac max_def by (simp split: if_splits)
  have no_same: "?a * ?d \<noteq> ?c * ?b"
  proof
    assume "?a * ?d = ?c * ?b"
    then have "fst f * snd g = fst g * snd f" by (simp flip: of_int_mult)
    moreover have "list_all (\<lambda>f. list_all (\<lambda>g. fst f * snd g = fst g * snd f \<longrightarrow> f = g) split_fractions) split_fractions" by code_simp
    ultimately show False using f g ne by (auto simp: list_all_iff)
  qed
  then have "r * ?b / ?a = ?c / (r * ?d) \<or> r * ?d / ?c = ?a / (r * ?b)" using ways same by blast
  then have sq: "r * r * ?b * ?d = ?a * ?c" using cross pos r by (auto simp: field_simps)
  have "(r * ?b * ?d) * (r * ?b * ?d) = (r * r * ?b * ?d) * (?b * ?d)" by (simp add: mult_ac)
  also have "\<dots> = of_int (fst f * snd f * (fst g * snd g))" unfolding sq by (simp add: mult_ac)
  finally obtain m where "fst f * snd f * (fst g * snd g) = m * m" using rat_square_int by blast
  then have "m * m \<in> {6, 12, 20, 500}" using N by simp
  then show False using between_squares[of 2 m] between_squares[of 3 m] between_squares[of 4 m] between_squares[of 22 m] by auto
qed

lemma min_by_filter:
  "min_by f (filter (\<lambda>x. f x \<le> c) xs) = (case min_by f xs of None \<Rightarrow> None | Some y \<Rightarrow> if f y \<le> c then Some y else None)"
  by (induction xs) (auto split: option.splits if_splits)

lemma min_by_cong: "(\<And>x. x \<in> set xs \<Longrightarrow> f x = g x) \<Longrightarrow> min_by f xs = min_by g xs"
  by (induction xs) (auto split: option.splits dest: min_by_mem)

text \<open>The query and the code snap a ratio to the same fraction: the \<open>LATERAL\<close> of \<open>split_candidates\<close>, which
  filters and then takes the nearest, and \<open>nearest_fraction\<close>, which takes the nearest and then
  checks it, agree on every positive ratio, and there is never a second fraction as near.\<close>

theorem snapping_agrees:
  assumes "0 < r"
  shows "snapped r = nearest_fraction r
    \<and> (\<forall>f. nearest_fraction r = Some f \<longrightarrow> f \<in> set split_fractions \<and> factor r (frac f) \<le> agreement_tolerance
        \<and> (\<forall>g\<in>set split_fractions. g \<noteq> f \<longrightarrow> factor r (frac f) < factor r (frac g)))"
proof (intro conjI allI impI ballI)
  let ?d = "\<lambda>f. let scaled = r * of_int (snd f) / of_int (fst f) in max scaled (1 / scaled)"
  have d: "?d f = factor r (frac f)" for f by (simp add: factor_frac Let_def)
  have "snapped r = min_by (\<lambda>f. factor r (frac f)) (filter (\<lambda>f. factor r (frac f) \<le> agreement_tolerance) split_fractions)"
    unfolding snapped_def d by (simp add: Let_def)
  then show "snapped r = nearest_fraction r" using assms by (simp add: nearest_fraction_def min_by_filter)
next
  fix f assume n: "nearest_fraction r = Some f"
  then have m: "min_by (\<lambda>f. factor r (frac f)) split_fractions = Some f" "factor r (frac f) \<le> agreement_tolerance"
    using assms by (auto simp: nearest_fraction_def split: option.splits if_splits)
  show f: "f \<in> set split_fractions" by (rule min_by_mem[OF m(1)])
  show "factor r (frac f) \<le> agreement_tolerance" by (rule m(2))
  fix g assume g: "g \<in> set split_fractions" "g \<noteq> f"
  have "factor r (frac f) \<le> factor r (frac g)" by (rule min_by_least[OF m(1) g(1)])
  moreover have "factor r (frac f) \<noteq> factor r (frac g)"
    using nearest_is_one[OF f g(1) g(2)[symmetric] assms] m(2) by (auto simp: agreement_tolerance_def)
  ultimately show "factor r (frac f) < factor r (frac g)" by simp
qed

section \<open>A sample quarter\<close>

text \<open>
  Two filers go from 100 shares to 200 as the price halves, and a third holds one share throughout:
  a 2-for-1 with two of three agreeing. The third is within a share of exact all the same, though it
  does not agree.
\<close>

definition q1 :: date where "q1 = Date 2024 3 31"
definition q2 :: date where "q2 = Date 2024 6 30"

definition sample_position :: "int \<Rightarrow> date \<Rightarrow> rat \<Rightarrow> rat \<Rightarrow> snapshot" where
  "sample_position f p shares v = \<lparr>sn_filer = f, sn_period = p, sn_security = 9, sn_shares = shares, sn_value = v,
     sn_weight = None, sn_source = 0, sn_suspect = False\<rparr>"

definition sample_positions :: "snapshot set" where
  "sample_positions = {sample_position 1 q1 100 1000, sample_position 2 q1 100 1000, sample_position 3 q1 1 10,
     sample_position 1 q2 200 1000, sample_position 2 q2 200 1000, sample_position 3 q2 1 5}"

definition sample_price :: "date \<Rightarrow> rat \<Rightarrow> price_row" where
  "sample_price p x = \<lparr>ip_security = 9, ip_period = p, ip_price = Some x, ip_observations = 3, ip_unpriced = 0, ip_agreeing = 3,
     ip_confidence = Some High, ip_suspect = False\<rparr>"

definition sample_prices :: "price_row set" where "sample_prices = {sample_price q1 10, sample_price q2 5}"

definition sample_candidate :: candidate where
  "sample_candidate = \<lparr>cd_security = 9, cd_period = q2, cd_holders = 3, cd_shares_ratio = 2, cd_fraction = Some (2, 1),
     cd_agreeing = 2, cd_exact = 3, cd_price_ratio = Some (1 / 2)\<rparr>"

lemmas sample_defs = sample_position_def sample_positions_def sample_price_def sample_prices_def q1_def q2_def

lemma sample_position_simps [simp]:
  "sn_filer (sample_position f p s v) = f" "sn_shares (sample_position f p s v) = s" "sn_value (sample_position f p s v) = v"
  "sn_period (sample_position f p s v) = p" "sn_security (sample_position f p s v) = 9"
  "sn_key (sample_position f p s v) = (f, p, 9)"
  "security_period (sample_position f p s v) = (9, p)"
  "sample_position f p s v = sample_position f' p' s' v' \<longleftrightarrow> f = f' \<and> p = p' \<and> s = s' \<and> v = v'"
  by (auto simp: sample_position_def security_period_def sn_key_def)

lemma q1_q2 [simp]: "q1 \<noteq> q2" "q2 \<noteq> q1"
  by (simp_all add: q1_def q2_def)

lemma sample_keyed: "inj_on sn_key sample_positions"
  by (auto simp: sample_positions_def inj_on_def)

lemma quarter_before_q2: "quarter_before q2 = q1"
  by (simp add: quarter_before_def prev_day_def month_days_def q1_def q2_def)

lemma sample_ratios: "ratios_at None sample_positions (9, q2) =
   {(sample_position 1 q2 200 1000, sample_position 1 q1 100 1000), (sample_position 2 q2 200 1000, sample_position 2 q1 100 1000),
    (sample_position 3 q2 1 5, sample_position 3 q1 1 10)}" (is "?A = ?B")
proof -
  have now: "{r \<in> sample_positions. security_period r = (9, q2)} = {sample_position 1 q2 200 1000, sample_position 2 q2 200 1000, sample_position 3 q2 1 5}"
    by (auto simp: sample_positions_def)
  have before: "{r \<in> sample_positions. security_period r = (9, q1)} = {sample_position 1 q1 100 1000, sample_position 2 q1 100 1000, sample_position 3 q1 1 10}"
    by (auto simp: sample_positions_def)
  have "(a, b) \<in> ?A \<longleftrightarrow> (a, b) \<in> ?B" for a b
    unfolding ratios_at_mem fst_conv snd_conv quarter_before_q2 now before by auto
  then show ?thesis by (simp only: set_eq_iff split_paired_All) simp
qed

lemma sample_median: "median_ratio (ratios_at None sample_positions (9, q2)) = 2"
proof -
  have "(\<lambda>x. (ratio_of x, sn_filer (fst x))) ` ratios_at None sample_positions (9, q2) = set [(1, 3), (2, 1), (2, 2)]"
    unfolding sample_ratios by (simp add: ratio_of_def insert_commute)
  moreover have "sorted_list_of_set (set [(1, 3), (2, 1), (2, 2 :: int)]) = [(1 :: rat, 3), (2, 1), (2, 2)]"
    by (rule sorted_list_of_set.idem_if_sorted_distinct) (simp_all add: less_eq_prod_def)
  ultimately show ?thesis unfolding median_ratio_def median_disc_def by simp
qed

lemma sample_snapped: "snapped 2 = Some (2, 1)"
  by (simp add: snapped_def split_fractions_def agreement_tolerance_def max_def)

lemma sample_price_at: "price_at sample_prices (9, q2) = Some 5" "price_at sample_prices (9, q1) = Some 10"
proof -
  have k: "ip_key (sample_price p x) = (9, p)" "ip_price (sample_price p x) = Some x" for p x by (simp_all add: sample_price_def ip_key_def)
  have i: "inj_on ip_key sample_prices" by (auto simp: sample_prices_def inj_on_def k)
  have "row_at ip_key sample_prices (9, q2) = Some (sample_price q2 5)" "row_at ip_key sample_prices (9, q1) = Some (sample_price q1 10)"
    unfolding row_at_Some[OF i] by (simp_all add: sample_prices_def k)
  then show "price_at sample_prices (9, q2) = Some 5" "price_at sample_prices (9, q1) = Some 10" by (simp_all add: price_at_def k)
qed

lemma sample_candidate_of: "candidate_of (ratios_at None sample_positions (9, q2)) sample_prices (9, q2) = sample_candidate"
proof -
  have "{x \<in> ratios_at None sample_positions (9, q2). agrees (2, 1) (ratio_of x)}
      = {(sample_position 1 q2 200 1000, sample_position 1 q1 100 1000), (sample_position 2 q2 200 1000, sample_position 2 q1 100 1000)}"
    unfolding sample_ratios by (auto simp: agrees_def ratio_of_def agreement_tolerance_def)
  moreover have "{x \<in> ratios_at None sample_positions (9, q2). exact_to_share (2, 1) (sn_shares (fst x)) (sn_shares (snd x))}
      = ratios_at None sample_positions (9, q2)"
    unfolding sample_ratios by (auto simp: exact_to_share_def exact_shares_def)
  moreover have "card (ratios_at None sample_positions (9, q2)) = 3" unfolding sample_ratios by simp
  ultimately show ?thesis
    by (simp add: candidate_of_def sample_median sample_snapped quarter_before_q2 sample_candidate_def sample_price_at Let_def)
qed

lemma sample_split: "row_of_verdict (judge sample_candidate) \<in> security_splits None (sample_positions, sample_prices)"
proof -
  have "card (ratios_at None sample_positions (9, q2)) = 3" unfolding sample_ratios by simp
  then have "candidate_at None sample_positions sample_prices (9, q2) = Some sample_candidate"
    by (simp add: candidate_at_def sample_candidate_of min_agreeing_def reported_def) (simp add: sample_candidate_def)
  moreover have "sp_key (row_of_verdict (judge sample_candidate)) = (9, q2)" by (simp add: sample_candidate_def cd_key_def)
  moreover have "vd_split (judge sample_candidate)"
    by (simp add: judge_def sample_candidate_def vd_split_def split_constants cd_product_def price_corroborates_def frac_def power2_eq_square)
  ultimately show ?thesis by (auto simp: splits_mem)
qed

theorem split_has_evidence_witness:
  "(2, 1) \<in> set split_fractions \<and> sp_fraction (row_of_verdict (judge sample_candidate)) \<in> set split_fractions
     \<and> 2 \<le> sp_agreeing (row_of_verdict (judge sample_candidate))"
  using split_has_evidence[OF sample_keyed sample_split] by (simp add: split_fractions_def)

theorem snapping_agrees_witness: "nearest_fraction (27 / 5) = Some (5, 1) \<and> snapped (27 / 5) = Some (5, 1)"
proof -
  have "nearest_fraction (27 / 5) = Some (5, 1)"
    by (simp add: nearest_fraction_def split_fractions_def frac_def factor_def agreement_tolerance_def max_def)
  then show ?thesis using snapping_agrees[of "27 / 5"] by simp
qed

text \<open>
  The table's check that a split's exact holders are at most its agreeing ones does not follow from
  how they are counted: the sample's split has three exact and two agreeing.
\<close>

lemma exact_can_exceed_agreeing:
  "\<exists>r\<in>security_splits None (sample_positions, sample_prices). sp_agreeing r < sp_exact r"
  by (rule bexI[OF _ sample_split]) (simp add: row_of_verdict_def sample_candidate_def Let_def)

end
