(* ===== verification/Changes.thy ===== *)
theory Changes
  imports Splits
begin

text \<open>
  \<open>app/derived/position_change.py\<close>, and \<open>crossing_pairs\<close> of \<open>app/derived/security_split.py\<close>, which
  reads its table: what each filer did to each position between two periods it published. The
  product of split ratios, \<open>exp(sum(ln(...)))\<close> rounded to the whole number it is, is the product.
\<close>

section \<open>Rows\<close>

datatype action = New | Add | Trim | Hold | Exit

record change =
  ch_filer :: int
  ch_period :: date
  ch_security :: int
  ch_action :: action
  ch_shares :: rat
  ch_value :: rat
  ch_weight :: "rat option"
  ch_prev_period :: "date option"
  ch_prev_shares :: "rat option"
  ch_prev_value :: "rat option"
  ch_prev_weight :: "rat option"
  ch_shares_delta :: rat
  ch_shares_delta_pct :: "rat option"
  ch_value_delta :: rat
  ch_weight_delta :: "rat option"
  ch_is_split :: bool
  ch_split_ratio :: "rat option"
  ch_suspect :: bool

definition ch_pair :: "change \<Rightarrow> pair" where "ch_pair c = (ch_filer c, ch_period c)"
definition ch_key :: "change \<Rightarrow> int \<times> date \<times> int" where "ch_key c = (ch_filer c, ch_period c, ch_security c)"

definition hold_band_pct :: rat where "hold_band_pct = 1 / 100"

text \<open>\<open>compared\<close>: a position, or the absence of one, beside the previous one if there was one.\<close>

record compared =
  cm_filer :: int
  cm_period :: date
  cm_security :: int
  cm_shares :: rat
  cm_value :: rat
  cm_weight :: "rat option"
  cm_prev_period :: "date option"
  cm_prev :: "snapshot option"
  cm_suspect :: bool
  cm_exited :: bool
  cm_split :: "(int \<times> int) option"

section \<open>The query\<close>

text \<open>\<open>held\<close>: the positions of the filers in scope, and a row's \<open>LAG\<close> in its filer's history of its security.\<close>

definition held :: "scope \<Rightarrow> snapshot set \<Rightarrow> snapshot set" where
  "held s t = {r \<in> t. of_filers s (sn_filer r)}"

definition lag_row :: "snapshot set \<Rightarrow> snapshot \<Rightarrow> snapshot option" where
  "lag_row h r =
     (case before_in (sn_period ` {x \<in> h. sn_filer x = sn_filer r \<and> sn_security x = sn_security r}) (sn_period r) of
        None \<Rightarrow> None
      | Some q \<Rightarrow> row_at sn_key h (sn_filer r, q, sn_security r))"

text \<open>\<open>split_between\<close>: the numerators and the denominators of the splits between, multiplied; null of none.\<close>

definition splits_in :: "split_row set \<Rightarrow> int \<Rightarrow> date option \<Rightarrow> date \<Rightarrow> split_row set" where
  "splits_in sps sec after until =
     (case after of None \<Rightarrow> {} | Some a \<Rightarrow> {x \<in> sps. sp_security x = sec \<and> sp_period x > a \<and> sp_period x \<le> until})"

definition split_between :: "split_row set \<Rightarrow> int \<Rightarrow> date option \<Rightarrow> date \<Rightarrow> (int \<times> int) option" where
  "split_between sps sec after until =
     (let S = splits_in sps sec after until in if S = {} then None else Some (\<Prod>x\<in>S. sp_numerator x, \<Prod>x\<in>S. sp_denominator x))"

text \<open>The lagged row, when it is from the filer's previous period.\<close>

definition then_row :: "scope \<Rightarrow> snapshot set \<Rightarrow> snapshot \<Rightarrow> snapshot option" where
  "then_row s t r =
     (case (lag_row (held s t) r, before_in (published t (sn_filer r)) (sn_period r)) of
        (Some l, Some q) \<Rightarrow> if sn_period l = q then Some l else None
      | _ \<Rightarrow> None)"

definition compared_row :: "scope \<Rightarrow> snapshot set \<Rightarrow> split_row set \<Rightarrow> snapshot \<Rightarrow> compared" where
  "compared_row s t sps r =
     (let prev = before_in (published t (sn_filer r)) (sn_period r) in
      \<lparr>cm_filer = sn_filer r, cm_period = sn_period r, cm_security = sn_security r, cm_shares = sn_shares r,
       cm_value = sn_value r, cm_weight = sn_weight r, cm_prev_period = prev, cm_prev = then_row s t r,
       cm_suspect = (sn_suspect r \<or> (case prev of None \<Rightarrow> False | Some q \<Rightarrow> period_suspect t (sn_filer r) q)),
       cm_exited = False, cm_split = split_between sps (sn_security r) prev (sn_period r)\<rparr>)"

text \<open>\<open>_exited\<close>: a position gone from its filer's next period, which is \<open>q\<close>, as a position of nothing in it.\<close>

definition exited_row :: "snapshot set \<Rightarrow> snapshot \<Rightarrow> date \<Rightarrow> compared" where
  "exited_row t r q =
     \<lparr>cm_filer = sn_filer r, cm_period = q, cm_security = sn_security r, cm_shares = 0, cm_value = 0, cm_weight = Some 0,
      cm_prev_period = Some (sn_period r), cm_prev = Some r,
      cm_suspect = (sn_suspect r \<or> period_suspect t (sn_filer r) q), cm_exited = True, cm_split = None\<rparr>"

definition gone_from :: "snapshot set \<Rightarrow> snapshot \<Rightarrow> date option" where
  "gone_from t r =
     (case after_in (published t (sn_filer r)) (sn_period r) of None \<Rightarrow> None
      | Some q \<Rightarrow> if (sn_filer r, q, sn_security r) \<in> sn_key ` t then None else Some q)"

definition compared_rows :: "scope \<Rightarrow> snapshot set \<Rightarrow> split_row set \<Rightarrow> compared set" where
  "compared_rows s t sps =
     compared_row s t sps ` held s t \<union> {exited_row t r (the (gone_from t r)) | r. r \<in> held s t \<and> gone_from t r \<noteq> None}"

text \<open>The previous shares in today's shares: times the split's ratio, rounded to the column's places, or as filed.\<close>

definition cm_is_split :: "compared \<Rightarrow> bool" where
  "cm_is_split m = (cm_prev m \<noteq> None \<and> cm_split m \<noteq> None)"

definition previous_shares :: "compared \<Rightarrow> rat option" where
  "previous_shares m =
     (case cm_prev m of None \<Rightarrow> None
      | Some l \<Rightarrow>
          (case cm_split m of None \<Rightarrow> Some (sn_shares l)
           | Some (n, d) \<Rightarrow> Some (sql_round 4 (sn_shares l * of_int n / of_int d))))"

definition action_of :: "compared \<Rightarrow> action" where
  "action_of m =
     (if cm_exited m then Exit
      else (case previous_shares m of None \<Rightarrow> New
        | Some prev \<Rightarrow>
            if \<bar>cm_shares m - prev\<bar> * 100 \<le> prev * hold_band_pct then Hold
            else if cm_shares m > prev then Add else Trim))"

definition minus_opt :: "rat option \<Rightarrow> rat option \<Rightarrow> rat option" where
  "minus_opt a b = (case (a, b) of (Some x, Some y) \<Rightarrow> Some (x - y) | _ \<Rightarrow> None)"

definition change_row :: "compared \<Rightarrow> change" where
  "change_row m =
     (let prev = previous_shares m in
      \<lparr>ch_filer = cm_filer m, ch_period = cm_period m, ch_security = cm_security m, ch_action = action_of m,
       ch_shares = cm_shares m, ch_value = cm_value m, ch_weight = cm_weight m, ch_prev_period = cm_prev_period m,
       ch_prev_shares = map_option sn_shares (cm_prev m), ch_prev_value = map_option sn_value (cm_prev m),
       ch_prev_weight = Option.bind (cm_prev m) sn_weight,
       ch_shares_delta = cm_shares m - (case prev of None \<Rightarrow> 0 | Some x \<Rightarrow> x),
       ch_shares_delta_pct = (case prev of None \<Rightarrow> None
         | Some x \<Rightarrow> if x = 0 then None else Some (sql_round 6 ((cm_shares m - x) * 100 / x))),
       ch_value_delta = cm_value m - (case cm_prev m of None \<Rightarrow> 0 | Some l \<Rightarrow> sn_value l),
       ch_weight_delta = minus_opt (cm_weight m) (case cm_prev m of None \<Rightarrow> Some 0 | Some l \<Rightarrow> sn_weight l),
       ch_is_split = cm_is_split m,
       ch_split_ratio = (if cm_is_split m
         then (case cm_split m of None \<Rightarrow> None | Some (n, d) \<Rightarrow> Some (sql_round 10 (of_int n / of_int d))) else None),
       ch_suspect = cm_suspect m\<rparr>)"

definition position_changes :: "scope \<Rightarrow> snapshot set \<times> split_row set \<Rightarrow> change set" where
  "position_changes s ts = {c \<in> change_row ` compared_rows s (fst ts) (snd ts). covers s (ch_pair c)}"

section \<open>The rebuild\<close>

record change_rebuild =
  cr_new :: nat
  cr_add :: nat
  cr_trim :: nat
  cr_hold :: nat
  cr_exit :: nat
  cr_split :: nat

definition recompute_position_change :: "scope \<Rightarrow> snapshot set \<Rightarrow> split_row set \<Rightarrow> change set \<Rightarrow> change set \<times> change_rebuild" where
  "recompute_position_change s t sps old =
     (let new = rebuild ch_pair s old (position_changes s (t, sps));
          rows = {c \<in> new. covers s (ch_pair c)};
          counts = (\<lambda>a. card {c \<in> rows. ch_action c = a})
      in (new, \<lparr>cr_new = counts New, cr_add = counts Add, cr_trim = counts Trim, cr_hold = counts Hold, cr_exit = counts Exit,
                cr_split = card {c \<in> rows. ch_is_split c}\<rparr>))"

text \<open>\<open>crossing_pairs\<close>: the pairs with a change across a split at one of the keys.\<close>

definition crosses :: "change \<Rightarrow> security_period \<Rightarrow> bool" where
  "crosses c k = (ch_security c = fst k \<and> (case ch_prev_period c of None \<Rightarrow> False | Some q \<Rightarrow> q < snd k) \<and> ch_period c \<ge> snd k)"

definition crossing_pairs :: "change set \<Rightarrow> security_period set \<Rightarrow> pair set" where
  "crossing_pairs cs keys = ch_pair ` {c \<in> cs. \<exists>k\<in>keys. crosses c k}"

section \<open>What a change is read from\<close>

lemma published_mem: "r \<in> t \<Longrightarrow> sn_period r \<in> published t (sn_filer r)"
  by (auto simp: published_def)

lemma published_finite: "finite t \<Longrightarrow> finite (published t f)"
  by (simp add: published_def)

lemma published_iff: "p \<in> published t f \<longleftrightarrow> (\<exists>r\<in>t. sn_filer r = f \<and> sn_period r = p)"
  by (auto simp: published_def)

text \<open>The lagged row stands exactly when the filer held the security in its previous period.\<close>

lemma lag_row_held: "of_filers s (sn_filer r) \<Longrightarrow> lag_row (held s t) r = lag_row t r"
proof -
  assume f: "of_filers s (sn_filer r)"
  have "{x \<in> held s t. sn_filer x = sn_filer r \<and> sn_security x = sn_security r} = {x \<in> t. sn_filer x = sn_filer r \<and> sn_security x = sn_security r}"
    using f by (auto simp: held_def)
  moreover have "row_at sn_key (held s t) (sn_filer r, q, sn_security r) = row_at sn_key t (sn_filer r, q, sn_security r)" for q
    using f by (intro row_at_same) (auto simp: held_def sn_key_def)
  ultimately show ?thesis by (simp add: lag_row_def split: option.split)
qed

lemma then_row_eq:
  assumes "finite t" "inj_on sn_key t" "r \<in> t" "of_filers s (sn_filer r)"
  shows "then_row s t r = (case before_in (published t (sn_filer r)) (sn_period r) of None \<Rightarrow> None
    | Some q \<Rightarrow> row_at sn_key t (sn_filer r, q, sn_security r))"
proof (cases "before_in (published t (sn_filer r)) (sn_period r)")
  case None
  then show ?thesis by (simp add: then_row_def split: option.split)
next
  case (Some q)
  let ?H = "sn_period ` {x \<in> t. sn_filer x = sn_filer r \<and> sn_security x = sn_security r}"
  have q: "q \<in> published t (sn_filer r)" "q < sn_period r" "\<And>p. p \<in> published t (sn_filer r) \<Longrightarrow> p < sn_period r \<Longrightarrow> p \<le> q"
    using Some unfolding before_in_Some[OF published_finite[OF assms(1)]] by blast+
  have sub: "?H \<subseteq> published t (sn_filer r)" by (auto simp: published_def)
  have finH: "finite ?H" using assms(1) by simp
  show ?thesis
  proof (cases "row_at sn_key t (sn_filer r, q, sn_security r)")
    case None
    then have "q \<notin> ?H" by (auto simp: row_at_None sn_key_def image_iff)
    then have "\<not> (case lag_row t r of None \<Rightarrow> False | Some l \<Rightarrow> sn_period l = q)"
      by (auto simp: lag_row_def row_at_Some[OF assms(2)] sn_key_def before_in_Some[OF finH] split: option.splits)
    then have "then_row s t r = None" using Some assms(4) by (auto simp: then_row_def lag_row_held split: option.splits)
    then show ?thesis using Some None by simp
  next
    case row: (Some l)
    then have l: "l \<in> t" "sn_key l = (sn_filer r, q, sn_security r)" using row_at_Some[OF assms(2)] by blast+
    then have "q \<in> ?H" by (force simp: sn_key_def)
    then have "before_in ?H (sn_period r) = Some q"
      unfolding before_in_Some[OF finH] using q sub by blast
    then have "lag_row t r = Some l" using row by (simp add: lag_row_def)
    then have "then_row s t r = Some l" using Some l(2) assms(4) by (simp add: then_row_def lag_row_held sn_key_def)
    then show ?thesis using Some row by simp
  qed
qed

lemma of_filers_everything [simp]: "of_filers None f"
  by (simp add: of_filers_def filer_ids_def)

lemma compared_row_scope: "of_filers s (sn_filer r) \<Longrightarrow> compared_row s t sps r = compared_row None t sps r"
  by (simp add: compared_row_def then_row_def lag_row_held)

lemma change_row_fields [simp]:
  "ch_filer (change_row m) = cm_filer m" "ch_period (change_row m) = cm_period m" "ch_security (change_row m) = cm_security m"
  "ch_action (change_row m) = action_of m" "ch_prev_period (change_row m) = cm_prev_period m"
  "ch_pair (change_row m) = (cm_filer m, cm_period m)" "ch_key (change_row m) = (cm_filer m, cm_period m, cm_security m)"
  by (simp_all add: change_row_def Let_def ch_pair_def ch_key_def)

lemma compared_row_fields [simp]:
  "cm_filer (compared_row s t sps r) = sn_filer r" "cm_period (compared_row s t sps r) = sn_period r"
  "cm_security (compared_row s t sps r) = sn_security r" "cm_exited (compared_row s t sps r) = False"
  "cm_prev (compared_row s t sps r) = then_row s t r" "cm_shares (compared_row s t sps r) = sn_shares r"
  "cm_prev_period (compared_row s t sps r) = before_in (published t (sn_filer r)) (sn_period r)"
  by (simp_all add: compared_row_def Let_def)

lemma exited_row_fields [simp]:
  "cm_filer (exited_row t r q) = sn_filer r" "cm_period (exited_row t r q) = q" "cm_security (exited_row t r q) = sn_security r"
  "cm_exited (exited_row t r q) = True" "cm_prev (exited_row t r q) = Some r" "cm_shares (exited_row t r q) = 0"
  "cm_prev_period (exited_row t r q) = Some (sn_period r)" "cm_split (exited_row t r q) = None"
  by (simp_all add: exited_row_def)

text \<open>A change is of a position, or of one gone.\<close>

lemma changes_mem:
  "c \<in> position_changes s (t, sps) \<longleftrightarrow> covers s (ch_pair c) \<and>
     ((\<exists>r\<in>t. c = change_row (compared_row None t sps r)) \<or> (\<exists>r\<in>t. \<exists>q. gone_from t r = Some q \<and> c = change_row (exited_row t r q)))"
proof
  assume "c \<in> position_changes s (t, sps)"
  then have cov: "covers s (ch_pair c)" and m: "c \<in> change_row ` compared_rows s t sps" by (auto simp: position_changes_def)
  from m consider r where "r \<in> held s t" "c = change_row (compared_row s t sps r)"
    | r where "r \<in> held s t" "gone_from t r \<noteq> None" "c = change_row (exited_row t r (the (gone_from t r)))"
    unfolding compared_rows_def by blast
  then show "covers s (ch_pair c) \<and>
     ((\<exists>r\<in>t. c = change_row (compared_row None t sps r)) \<or> (\<exists>r\<in>t. \<exists>q. gone_from t r = Some q \<and> c = change_row (exited_row t r q)))"
  proof cases
    case 1
    then have r: "r \<in> t" "of_filers s (sn_filer r)" by (auto simp: held_def)
    have "c = change_row (compared_row None t sps r)" using 1(2) compared_row_scope[OF r(2)] by (simp only:)
    then show ?thesis using cov r(1) by blast
  next
    case 2
    then have r: "r \<in> t" by (simp add: held_def)
    obtain q where "gone_from t r = Some q" using 2(2) by blast
    then have "gone_from t r = Some q" "c = change_row (exited_row t r q)" using 2(3) by simp_all
    then show ?thesis using cov r by blast
  qed
next
  assume a: "covers s (ch_pair c) \<and>
     ((\<exists>r\<in>t. c = change_row (compared_row None t sps r)) \<or> (\<exists>r\<in>t. \<exists>q. gone_from t r = Some q \<and> c = change_row (exited_row t r q)))"
  then consider r where "r \<in> t" "c = change_row (compared_row None t sps r)"
    | r q where "r \<in> t" "gone_from t r = Some q" "c = change_row (exited_row t r q)" by blast
  then show "c \<in> position_changes s (t, sps)"
  proof cases
    case 1
    have o: "of_filers s (sn_filer r)" using conjunct1[OF a] 1(2) of_filers_covers[of s "sn_filer r" "sn_period r"] by simp
    then have "compared_row s t sps r \<in> compared_rows s t sps" using 1(1) by (auto simp: compared_rows_def held_def)
    then have "c \<in> change_row ` compared_rows s t sps" using 1(2) compared_row_scope[OF o] by force
    then show ?thesis using a by (simp add: position_changes_def)
  next
    case 2
    have o: "of_filers s (sn_filer r)" using conjunct1[OF a] 2(3) of_filers_covers[of s "sn_filer r" q] by simp
    then have "exited_row t r q \<in> compared_rows s t sps" using 2(1,2) by (force simp: compared_rows_def held_def)
    then have "c \<in> change_row ` compared_rows s t sps" using 2(3) by blast
    then show ?thesis using a by (simp add: position_changes_def)
  qed
qed

interpretation changes: derived_table position_changes ch_pair
proof unfold_locales
  fix ks s
  show "position_changes (Some ks) s = {c \<in> position_changes None s. ch_pair c \<in> ks}"
  proof (cases s)
    case (Pair t sps)
    have "c \<in> position_changes (Some ks) (t, sps) \<longleftrightarrow> c \<in> position_changes None (t, sps) \<and> ch_pair c \<in> ks" for c
      unfolding changes_mem by (cases "ch_pair c \<in> ks") simp_all
    then show ?thesis unfolding Pair by blast
  qed
qed

lemma gone_from_Some: "finite t \<Longrightarrow> gone_from t r = Some q \<longleftrightarrow> after_in (published t (sn_filer r)) (sn_period r) = Some q \<and> (sn_filer r, q, sn_security r) \<notin> sn_key ` t"
  by (auto simp: gone_from_def split: option.split)

lemma key_fields: "sn_key r = (sn_filer r, sn_period r, sn_security r)"
  by (simp add: sn_key_def)

lemma gone_key:
  assumes "finite t" "r \<in> t" "gone_from t r = Some q"
  shows "q \<in> published t (sn_filer r)" "before_in (published t (sn_filer r)) q = Some (sn_period r)" "(sn_filer r, q, sn_security r) \<notin> sn_key ` t"
proof -
  have a: "after_in (published t (sn_filer r)) (sn_period r) = Some q" "(sn_filer r, q, sn_security r) \<notin> sn_key ` t"
    using assms(3) gone_from_Some[OF assms(1)] by blast+
  show q: "q \<in> published t (sn_filer r)" using a(1) after_in_Some[OF published_finite[OF assms(1)]] by blast
  show "before_in (published t (sn_filer r)) q = Some (sn_period r)"
    using before_after[OF published_finite[OF assms(1)] q published_mem[OF assms(2)]] a(1) by simp
  show "(sn_filer r, q, sn_security r) \<notin> sn_key ` t" by (rule a(2))
qed

lemma changes_keyed:
  assumes "finite t" "inj_on sn_key t"
  shows "inj_on ch_key (position_changes s (t, sps))"
proof (rule inj_onI)
  fix c d assume c: "c \<in> position_changes s (t, sps)" and d: "d \<in> position_changes s (t, sps)" and k: "ch_key c = ch_key d"
  from c consider (held) r where "r \<in> t" "c = change_row (compared_row None t sps r)"
    | (gone) r q where "r \<in> t" "gone_from t r = Some q" "c = change_row (exited_row t r q)" unfolding changes_mem by blast
  note c_cases = this
  from d consider (held) r where "r \<in> t" "d = change_row (compared_row None t sps r)"
    | (gone) r q where "r \<in> t" "gone_from t r = Some q" "d = change_row (exited_row t r q)" unfolding changes_mem by blast
  note d_cases = this
  have in_t: "ch_key (change_row (compared_row None t sps r)) \<in> sn_key ` t" if "r \<in> t" for r using that by (force simp: key_fields)
  show "c = d"
  proof (cases rule: c_cases)
    case c: held
    show ?thesis
    proof (cases rule: d_cases)
      case (held r')
      then show ?thesis using c k assms(2) by (auto simp: key_fields inj_on_def)
    next
      case (gone r' q)
      then show ?thesis using gone_key(3)[OF assms(1) gone(1,2)] k in_t[OF c(1)] c(2) by simp
    qed
  next
    case c: (gone r q)
    show ?thesis
    proof (cases rule: d_cases)
      case held
      then show ?thesis using gone_key(3)[OF assms(1) c(1,2)] k in_t[OF held(1)] c(3) by simp
    next
      case (gone r' q')
      have e: "sn_filer r' = sn_filer r" "q' = q" "sn_security r' = sn_security r" using k c(3) gone(3) by simp_all
      then have "sn_period r' = sn_period r" using gone_key(2)[OF assms(1) c(1,2)] gone_key(2)[OF assms(1) gone(1,2)] by simp
      then have "r' = r" using e assms(2) c(1) gone(1) by (auto simp: key_fields inj_on_def)
      then show ?thesis using c(3) gone(3) e(2) by simp
    qed
  qed
qed

section \<open>A change is between two periods\<close>

lemma keys_of_pair:
  assumes "{r \<in> t. sn_pair r = (f, p)} = {r \<in> t'. sn_pair r = (f, p)}"
  shows "r \<in> t \<Longrightarrow> sn_filer r = f \<Longrightarrow> sn_period r = p \<Longrightarrow> r \<in> t'"
    and "{r \<in> t. sn_key r = (f, p, s)} = {r \<in> t'. sn_key r = (f, p, s)}"
    and "p \<in> published t f \<longleftrightarrow> p \<in> published t' f"
    and "period_suspect t f p = period_suspect t' f p"
proof -
  have m: "r \<in> t \<longleftrightarrow> r \<in> t'" if "sn_filer r = f" "sn_period r = p" for r
    using assms that by (auto simp: sn_pair_def set_eq_iff)
  then show "r \<in> t \<Longrightarrow> sn_filer r = f \<Longrightarrow> sn_period r = p \<Longrightarrow> r \<in> t'" by simp
  show "{r \<in> t. sn_key r = (f, p, s)} = {r \<in> t'. sn_key r = (f, p, s)}" using m by (auto simp: key_fields)
  show "p \<in> published t f \<longleftrightarrow> p \<in> published t' f" using m unfolding published_iff by blast
  show "period_suspect t f p = period_suspect t' f p" using m unfolding period_suspect_def by blast
qed

lemma changes_same_sub:
  assumes t: "finite t" "inj_on sn_key t" and t': "finite t'" "inj_on sn_key t'"
    and now: "{r \<in> t. sn_pair r = (f, p)} = {r \<in> t'. sn_pair r = (f, p)}"
    and prev: "before_in (published t f) p = before_in (published t' f) p"
    and before: "\<And>q. before_in (published t f) p = Some q \<Longrightarrow> {r \<in> t. sn_pair r = (f, q)} = {r \<in> t'. sn_pair r = (f, q)}"
    and sps: "\<And>r. r \<in> t \<Longrightarrow> sn_pair r = (f, p)
      \<Longrightarrow> split_between sps (sn_security r) (before_in (published t f) p) p = split_between sps' (sn_security r) (before_in (published t f) p) p"
    and c: "c \<in> position_changes None (t, sps)" "ch_pair c = (f, p)"
  shows "c \<in> position_changes None (t', sps')"
proof -
  from c(1) consider (held) r where "r \<in> t" "c = change_row (compared_row None t sps r)"
    | (gone) r q where "r \<in> t" "gone_from t r = Some q" "c = change_row (exited_row t r q)" unfolding changes_mem by blast
  then show ?thesis
  proof cases
    case held
    have r: "sn_filer r = f" "sn_period r = p" using c(2) held(2) by simp_all
    have r': "r \<in> t'" by (rule keys_of_pair(1)[OF now held(1) r])
    have "then_row None t r = then_row None t' r"
    proof (cases "before_in (published t f) p")
      case None
      then show ?thesis using then_row_eq[OF t held(1), of None] then_row_eq[OF t' r', of None] r prev by simp
    next
      case (Some q)
      have "row_at sn_key t (f, q, sn_security r) = row_at sn_key t' (f, q, sn_security r)"
        by (rule row_at_same, rule keys_of_pair(2)[OF before[OF Some]])
      moreover have "before_in (published t' f) p = Some q" using Some prev by simp
      ultimately show ?thesis using then_row_eq[OF t held(1), of None] then_row_eq[OF t' r', of None] r Some by simp
    qed
    moreover have "period_suspect t f q = period_suspect t' f q" if "before_in (published t f) p = Some q" for q
      by (rule keys_of_pair(4)[OF before[OF that]])
    moreover have "split_between sps (sn_security r) (before_in (published t f) p) p = split_between sps' (sn_security r) (before_in (published t f) p) p"
      by (rule sps) (use held(1) r in \<open>simp_all add: sn_pair_def\<close>)
    ultimately have "compared_row None t sps r = compared_row None t' sps' r"
      using r prev by (simp add: compared_row_def Let_def split: option.split)
    then have "c = change_row (compared_row None t' sps' r)" using held(2) by (simp only:)
    then show ?thesis using r' unfolding changes_mem by auto
  next
    case (gone r q)
    have r: "sn_filer r = f" "q = p" using c(2) gone(3) by simp_all
    note g = gone_key[OF t(1) gone(1,2), unfolded r]
    have r': "r \<in> t'" by (rule keys_of_pair(1)[OF before[OF g(2)] gone(1) r(1) refl])
    have p': "p \<in> published t' f" using g(1) keys_of_pair(3)[OF now] by blast
    have pub: "sn_period r \<in> published t' f" using published_mem[OF r'] r(1) by simp
    have "after_in (published t' f) (sn_period r) = Some p"
      using before_after[OF published_finite[OF t'(1)] p' pub] g(2) prev by simp
    moreover have "(f, p, sn_security r) \<notin> sn_key ` t'"
    proof
      assume "(f, p, sn_security r) \<in> sn_key ` t'"
      then have "{x \<in> t'. sn_key x = (f, p, sn_security r)} \<noteq> {}" by force
      then have "{x \<in> t. sn_key x = (f, p, sn_security r)} \<noteq> {}" unfolding keys_of_pair(2)[OF now] .
      then show False using g(3) by force
    qed
    ultimately have "gone_from t' r = Some p" unfolding gone_from_Some[OF t'(1)] r(1) by blast
    moreover have "exited_row t r p = exited_row t' r p" using keys_of_pair(4)[OF now] r(1) by (simp add: exited_row_def)
    then have "c = change_row (exited_row t' r p)" using gone(3) r(2) by (simp only:)
    ultimately show ?thesis using r' unfolding changes_mem by auto
  qed
qed

text \<open>The changes of a pair are the same when its positions, its previous period, that period's positions
  and the splits between the two are.\<close>

lemma changes_same:
  assumes t: "finite t" "inj_on sn_key t" and t': "finite t'" "inj_on sn_key t'"
    and now: "{r \<in> t. sn_pair r = (f, p)} = {r \<in> t'. sn_pair r = (f, p)}"
    and prev: "before_in (published t f) p = before_in (published t' f) p"
    and before: "\<And>q. before_in (published t f) p = Some q \<Longrightarrow> {r \<in> t. sn_pair r = (f, q)} = {r \<in> t'. sn_pair r = (f, q)}"
    and sps: "\<And>r. r \<in> t \<Longrightarrow> sn_pair r = (f, p)
      \<Longrightarrow> split_between sps (sn_security r) (before_in (published t f) p) p = split_between sps' (sn_security r) (before_in (published t f) p) p"
    and c: "ch_pair c = (f, p)"
  shows "c \<in> position_changes None (t, sps) \<longleftrightarrow> c \<in> position_changes None (t', sps')"
proof
  assume c': "c \<in> position_changes None (t, sps)"
  show "c \<in> position_changes None (t', sps')"
    by (rule changes_same_sub[OF t t' now prev _ _ c' c]) (rule before sps, assumption+)+
next
  assume c': "c \<in> position_changes None (t', sps')"
  show "c \<in> position_changes None (t, sps)"
  proof (rule changes_same_sub[OF t' t now[symmetric] prev[symmetric] _ _ c' c])
    show "{r \<in> t'. sn_pair r = (f, q)} = {r \<in> t. sn_pair r = (f, q)}" if "before_in (published t' f) p = Some q" for q
      using before[of q] that prev by simp
    show "split_between sps' (sn_security r) (before_in (published t' f) p) p = split_between sps (sn_security r) (before_in (published t' f) p) p"
      if "r \<in> t'" "sn_pair r = (f, p)" for r
    proof -
      have "r \<in> t" using keys_of_pair(1)[OF now[symmetric] that(1)] that(2) by (simp add: sn_pair_def)
      then show ?thesis using sps[of r] that(2) prev by simp
    qed
  qed
qed

section \<open>One change for each position, and one for each exit\<close>

lemma previous_shares_None: "previous_shares m = None \<longleftrightarrow> cm_prev m = None"
  by (auto simp: previous_shares_def split: option.split)

text \<open>The keys of the changes: those of the positions, and of the positions of the period before.\<close>

lemma change_keys:
  assumes "finite t" "inj_on sn_key t"
  shows "ch_key ` position_changes None (t, sps)
        = sn_key ` t \<union> {(sn_filer r, q, sn_security r) | r q. r \<in> t \<and> before_in (published t (sn_filer r)) q = Some (sn_period r) \<and> q \<in> published t (sn_filer r)}"
proof -
  let ?G = "{(sn_filer r, q, sn_security r) | r q. r \<in> t \<and> before_in (published t (sn_filer r)) q = Some (sn_period r) \<and> q \<in> published t (sn_filer r)}"
  show ?thesis
  proof (intro equalityI subsetI)
    fix k assume "k \<in> ch_key ` position_changes None (t, sps)"
    then obtain c where c: "c \<in> position_changes None (t, sps)" "k = ch_key c" by blast
    from c(1) consider r where "r \<in> t" "c = change_row (compared_row None t sps r)"
      | r q where "r \<in> t" "gone_from t r = Some q" "c = change_row (exited_row t r q)" unfolding changes_mem by blast
    then show "k \<in> sn_key ` t \<union> ?G"
    proof cases
      case 1
      then show ?thesis using c(2) by (force simp: key_fields)
    next
      case 2
      then have "k = (sn_filer r, q, sn_security r)" using c(2) by simp
      then show ?thesis using gone_key[OF assms(1) 2(1,2)] 2(1) by blast
    qed
  next
    fix k assume "k \<in> sn_key ` t \<union> ?G"
    then consider r where "r \<in> t" "k = sn_key r"
      | r q where "k \<notin> sn_key ` t" "r \<in> t" "k = (sn_filer r, q, sn_security r)" "before_in (published t (sn_filer r)) q = Some (sn_period r)" "q \<in> published t (sn_filer r)"
      by blast
    then show "k \<in> ch_key ` position_changes None (t, sps)"
    proof cases
      case 1
      have "change_row (compared_row None t sps r) \<in> position_changes None (t, sps)" unfolding changes_mem using 1(1) by auto
      then show ?thesis using 1(2) by (force simp: key_fields)
    next
      case 2
      have "after_in (published t (sn_filer r)) (sn_period r) = Some q"
        using before_after[OF published_finite[OF assms(1)] 2(5) published_mem[OF 2(2)]] 2(4) by simp
      then have "gone_from t r = Some q" using 2(1,3) unfolding gone_from_Some[OF assms(1)] by blast
      then have "change_row (exited_row t r q) \<in> position_changes None (t, sps)" unfolding changes_mem using 2(2) by auto
      then show ?thesis using 2(3) by force
    qed
  qed
qed

text \<open>C17. Every change is of a position the filer held at the end of the period or of the one before, there is
  exactly one of each, and its action says which: an exit is held before and not now, a new position
  now and not before, in the filer's previous published period, however long before it was held.\<close>

theorem one_change_per_position:
  assumes "finite t" "inj_on sn_key t"
  shows "inj_on ch_key (position_changes None (t, sps))
    \<and> ch_key ` position_changes None (t, sps)
        = sn_key ` t \<union> {(sn_filer r, q, sn_security r) | r q. r \<in> t \<and> before_in (published t (sn_filer r)) q = Some (sn_period r) \<and> q \<in> published t (sn_filer r)}
    \<and> (\<forall>c\<in>position_changes None (t, sps).
        (ch_action c = Exit \<longleftrightarrow> ch_key c \<notin> sn_key ` t)
        \<and> (ch_action c = New \<longleftrightarrow> ch_prev_shares c = None)
        \<and> (ch_action c = New \<longleftrightarrow> (case before_in (published t (ch_filer c)) (ch_period c) of None \<Rightarrow> True
             | Some q \<Rightarrow> (ch_filer c, q, ch_security c) \<notin> sn_key ` t)))"
proof (intro conjI)
  show "inj_on ch_key (position_changes None (t, sps))" by (rule changes_keyed[OF assms])
  show "ch_key ` position_changes None (t, sps)
        = sn_key ` t \<union> {(sn_filer r, q, sn_security r) | r q. r \<in> t \<and> before_in (published t (sn_filer r)) q = Some (sn_period r) \<and> q \<in> published t (sn_filer r)}"
    by (rule change_keys[OF assms])
  show "\<forall>c\<in>position_changes None (t, sps).
        (ch_action c = Exit \<longleftrightarrow> ch_key c \<notin> sn_key ` t)
        \<and> (ch_action c = New \<longleftrightarrow> ch_prev_shares c = None)
        \<and> (ch_action c = New \<longleftrightarrow> (case before_in (published t (ch_filer c)) (ch_period c) of None \<Rightarrow> True
             | Some q \<Rightarrow> (ch_filer c, q, ch_security c) \<notin> sn_key ` t))"
  proof
    fix c assume c: "c \<in> position_changes None (t, sps)"
    then consider r where "r \<in> t" "c = change_row (compared_row None t sps r)"
      | r q where "r \<in> t" "gone_from t r = Some q" "c = change_row (exited_row t r q)" unfolding changes_mem by blast
    then show "(ch_action c = Exit \<longleftrightarrow> ch_key c \<notin> sn_key ` t)
        \<and> (ch_action c = New \<longleftrightarrow> ch_prev_shares c = None)
        \<and> (ch_action c = New \<longleftrightarrow> (case before_in (published t (ch_filer c)) (ch_period c) of None \<Rightarrow> True
             | Some q \<Rightarrow> (ch_filer c, q, ch_security c) \<notin> sn_key ` t))"
    proof cases
      case 1
      let ?m = "compared_row None t sps r"
      have k: "ch_key c \<in> sn_key ` t" using 1 by (force simp: key_fields)
      have a: "ch_action c = New \<longleftrightarrow> then_row None t r = None" "ch_action c \<noteq> Exit"
        using 1(2) previous_shares_None[of ?m] by (auto simp: action_of_def split: option.split)
      have n: "ch_prev_shares c = None \<longleftrightarrow> then_row None t r = None" using 1(2) by (simp add: change_row_def Let_def)
      have "then_row None t r = None \<longleftrightarrow> (case before_in (published t (sn_filer r)) (sn_period r) of None \<Rightarrow> True
             | Some q \<Rightarrow> (sn_filer r, q, sn_security r) \<notin> sn_key ` t)"
        using then_row_eq[OF assms 1(1), of None] by (simp add: row_at_None split: option.split)
      then show ?thesis using k a n 1(2) by (simp split: option.split)
    next
      case 2
      note g = gone_key[OF assms(1) 2(1,2)]
      have "ch_action c = Exit" using 2(3) by (simp add: action_of_def)
      moreover have "ch_prev_shares c \<noteq> None" using 2(3) by (simp add: change_row_def Let_def)
      moreover have "(sn_filer r, sn_period r, sn_security r) \<in> sn_key ` t" using 2(1) by (force simp: key_fields)
      ultimately show ?thesis using g 2(3) by simp
    qed
  qed
qed

section \<open>Deltas add up to the position\<close>

text \<open>The differences of a figure over a filer's periods up to one add up to the figure at it.\<close>

lemma telescope:
  fixes g :: "'a::linorder \<Rightarrow> rat"
  assumes "finite A" "p \<in> A"
  shows "(\<Sum>q\<in>{q \<in> A. q \<le> p}. g q - (case before_in A q of None \<Rightarrow> 0 | Some q' \<Rightarrow> g q')) = g p"
  using assms(2)
proof (induction "card {q \<in> A. q \<le> p}" arbitrary: p rule: less_induct)
  case less
  have fin: "finite {q \<in> A. q \<le> p}" for p using assms(1) by simp
  let ?d = "\<lambda>q. g q - (case before_in A q of None \<Rightarrow> 0 | Some q' \<Rightarrow> g q')"
  show ?case
  proof (cases "before_in A p")
    case None
    then have "{q \<in> A. q \<le> p} = {p}" using less.prems by (auto simp: before_in_None not_less)
    then show ?thesis using None by simp
  next
    case (Some q)
    then have q: "q \<in> A" "q < p" "\<And>r. r \<in> A \<Longrightarrow> r < p \<Longrightarrow> r \<le> q" unfolding before_in_Some[OF assms(1)] by blast+
    have s: "{r \<in> A. r \<le> p} = insert p {r \<in> A. r \<le> q}" "p \<notin> {r \<in> A. r \<le> q}"
      using q less.prems by (auto simp: le_less dest: order.strict_trans)
    then have "card {r \<in> A. r \<le> q} < card {r \<in> A. r \<le> p}" using fin by simp
    from less.hyps[OF this q(1)] have "(\<Sum>r\<in>{r \<in> A. r \<le> q}. ?d r) = g q" .
    then show ?thesis unfolding s(1) using s(2) fin[of q] Some by simp
  qed
qed

definition shares_at :: "snapshot set \<Rightarrow> int \<Rightarrow> int \<Rightarrow> date \<Rightarrow> rat" where
  "shares_at t f s p = (case row_at sn_key t (f, p, s) of None \<Rightarrow> 0 | Some r \<Rightarrow> sn_shares r)"

text \<open>The change at a key, when there is one: of the position, or of one gone from the period before.\<close>

lemma changes_at:
  assumes t: "finite t" "inj_on sn_key t" and p: "p \<in> published t f"
  shows "{c \<in> position_changes None (t, sps). ch_key c = (f, p, s)} =
    (case (row_at sn_key t (f, p, s), before_in (published t f) p) of
       (Some r, _) \<Rightarrow> {change_row (compared_row None t sps r)}
     | (None, None) \<Rightarrow> {}
     | (None, Some q) \<Rightarrow> (case row_at sn_key t (f, q, s) of None \<Rightarrow> {} | Some r \<Rightarrow> {change_row (exited_row t r p)}))"
proof -
  let ?C = "{c \<in> position_changes None (t, sps). ch_key c = (f, p, s)}"
  have one: "?C = {c}" if "c \<in> ?C" for c using that changes_keyed[OF t, of None sps] by (auto simp: inj_on_def)
  have key: "(f, p, s) \<in> ch_key ` position_changes None (t, sps)" if "?C \<noteq> {}" using that by force
  show ?thesis
  proof (cases "row_at sn_key t (f, p, s)")
    case (Some r)
    then have r: "r \<in> t" "sn_filer r = f" "sn_period r = p" "sn_security r = s"
      using row_at_Some[OF t(2)] by (auto simp: key_fields)
    have "change_row (compared_row None t sps r) \<in> ?C" unfolding mem_Collect_eq changes_mem using r by auto
    from one[OF this] show ?thesis using Some by simp
  next
    case None
    then have nk: "(f, p, s) \<notin> sn_key ` t" by (simp add: row_at_None)
    show ?thesis
    proof (cases "before_in (published t f) p")
      case np: None
      have "?C = {}" by (rule ccontr, drule key) (use change_keys[OF t, of sps] nk np in auto)
      then show ?thesis using None np by simp
    next
      case (Some q)
      show ?thesis
      proof (cases "row_at sn_key t (f, q, s)")
        case nq: None
        have "?C = {}"
        proof (rule ccontr)
          assume "?C \<noteq> {}"
          then obtain r where "r \<in> t" "sn_filer r = f" "sn_security r = s" "sn_period r = q"
            using key change_keys[OF t, of sps] nk Some by auto
          then show False using nq by (force simp: row_at_None key_fields)
        qed
        then show ?thesis using None Some nq by simp
      next
        case row: (Some r)
        then have r: "r \<in> t" "sn_filer r = f" "sn_period r = q" "sn_security r = s"
          using row_at_Some[OF t(2)] by (auto simp: key_fields)
        have "after_in (published t f) q = Some p"
          using before_after[OF published_finite[OF t(1)] p, of q] Some published_mem[OF r(1)] r(2,3) by simp
        then have "gone_from t r = Some p" unfolding gone_from_Some[OF t(1)] using r nk by simp
        then have "change_row (exited_row t r p) \<in> ?C" unfolding mem_Collect_eq changes_mem using r by auto
        from one[OF this] show ?thesis using None Some row by simp
      qed
    qed
  qed
qed

text \<open>The changes of a filer in one security, in one period: what they add up to without splits.\<close>

lemma deltas_at:
  assumes t: "finite t" "inj_on sn_key t" and sps: "s \<notin> sp_security ` sps" and p: "p \<in> published t f"
  shows "(\<Sum>c\<in>{c \<in> position_changes None (t, sps). ch_key c = (f, p, s)}. ch_shares_delta c)
    = shares_at t f s p - (case before_in (published t f) p of None \<Rightarrow> 0 | Some q \<Rightarrow> shares_at t f s q)"
proof -
  have none: "split_between sps s a p = None" for a
    using sps by (auto simp: split_between_def splits_in_def Let_def split: option.split)
  show ?thesis
  proof (cases "row_at sn_key t (f, p, s)")
    case (Some r)
    then have r: "r \<in> t" "sn_filer r = f" "sn_period r = p" "sn_security r = s"
      using row_at_Some[OF t(2)] by (auto simp: key_fields)
    have "then_row None t r = (case before_in (published t f) p of None \<Rightarrow> None | Some q \<Rightarrow> row_at sn_key t (f, q, s))"
      using then_row_eq[OF t r(1), of None] r by (simp split: option.split)
    then have "ch_shares_delta (change_row (compared_row None t sps r))
        = sn_shares r - (case before_in (published t f) p of None \<Rightarrow> 0 | Some q \<Rightarrow> shares_at t f s q)"
      using r none by (simp add: change_row_def previous_shares_def compared_row_def shares_at_def Let_def split: option.split)
    then show ?thesis unfolding changes_at[OF t p] using Some by (simp add: shares_at_def)
  next
    case None
    have "ch_shares_delta (change_row (exited_row t r p)) = - sn_shares r" for r by (simp add: change_row_def previous_shares_def Let_def)
    then show ?thesis unfolding changes_at[OF t p] using None by (simp add: shares_at_def split: option.split)
  qed
qed

text \<open>C16. The deltas sum to the position. For a security with no split, what a filer's changes in it add up to
  over every period up to one it published is what it holds at the end of that one: nothing, when it
  has exited.\<close>

theorem deltas_sum_to_position:
  assumes "finite t" "inj_on sn_key t" "s \<notin> sp_security ` sps" "p \<in> published t f"
  shows "(\<Sum>c\<in>{c \<in> position_changes None (t, sps). ch_filer c = f \<and> ch_security c = s \<and> ch_period c \<le> p}. ch_shares_delta c)
    = shares_at t f s p"
proof -
  let ?P = "{q \<in> published t f. q \<le> p}" and ?C = "\<lambda>q. {c \<in> position_changes None (t, sps). ch_key c = (f, q, s)}"
  have per: "ch_period c \<in> published t (ch_filer c)" if "c \<in> position_changes None (t, sps)" for c
    using that published_mem gone_key(1)[OF assms(1)] unfolding changes_mem by fastforce
  have fin: "finite (?C q)" for q
  proof -
    have "inj_on ch_key (?C q)" by (rule inj_on_subset[OF changes_keyed[OF assms(1,2), of None sps]]) blast
    moreover have "ch_key ` ?C q \<subseteq> {(f, q, s)}" by auto
    ultimately show ?thesis using finite_imageD finite_subset by blast
  qed
  have "{c \<in> position_changes None (t, sps). ch_filer c = f \<and> ch_security c = s \<and> ch_period c \<le> p} = (\<Union>q\<in>?P. ?C q)"
    using per by (auto simp: ch_key_def)
  moreover have "(\<Sum>c\<in>(\<Union>q\<in>?P. ?C q). ch_shares_delta c) = (\<Sum>q\<in>?P. \<Sum>c\<in>?C q. ch_shares_delta c)"
    using fin published_finite[OF assms(1), of f] by (intro sum.UNION_disjoint) auto
  moreover have "\<dots> = (\<Sum>q\<in>?P. shares_at t f s q - (case before_in (published t f) q of None \<Rightarrow> 0 | Some q' \<Rightarrow> shares_at t f s q'))"
    by (rule sum.cong[OF refl]) (rule deltas_at[OF assms(1-3)], simp)
  moreover have "\<dots> = shares_at t f s p" by (rule telescope[OF published_finite[OF assms(1)] assms(4)])
  ultimately show ?thesis by simp
qed

section \<open>Across a split\<close>

text \<open>A filer that held through a split did nothing. When the splits between the previous period and this
  one multiply to a ratio, a position of exactly the previous shares times it is a hold with no
  change in shares, however far the counts as filed are apart; and a position further from it than
  the hold band is an add or a trim of the difference, in today's shares.\<close>

theorem held_through_split:
  assumes "finite t" "inj_on sn_key t" "r \<in> t" "l \<in> t" "sn_filer l = sn_filer r" "sn_security l = sn_security r"
    and "before_in (published t (sn_filer r)) (sn_period r) = Some (sn_period l)"
    and "split_between sps (sn_security r) (Some (sn_period l)) (sn_period r) = Some (n, d)"
    and "now = sql_round 4 (sn_shares l * of_int n / of_int d)"
  shows "\<exists>c\<in>position_changes None (t, sps). ch_key c = sn_key r \<and> ch_is_split c \<and> ch_prev_shares c = Some (sn_shares l)
    \<and> ch_shares_delta c = sn_shares r - now
    \<and> ch_action c = (if \<bar>sn_shares r - now\<bar> * 100 \<le> now / 100 then Hold else if sn_shares r > now then Add else Trim)
    \<and> (sn_shares r = now \<and> 0 \<le> now \<longrightarrow> ch_action c = Hold)"
proof -
  have "row_at sn_key t (sn_filer r, sn_period l, sn_security r) = Some l"
    using row_at_Some[OF assms(2)] assms(4-6) by (auto simp: key_fields)
  then have th: "then_row None t r = Some l" using then_row_eq[OF assms(1-3), of None] assms(7) by simp
  let ?m = "compared_row None t sps r"
  have m: "cm_prev ?m = Some l" "cm_split ?m = Some (n, d)" "cm_shares ?m = sn_shares r" "\<not> cm_exited ?m"
    using th assms(7,8) by (simp_all add: compared_row_def Let_def)
  have p: "previous_shares ?m = Some now" using m assms(9) by (simp add: previous_shares_def)
  have a: "action_of ?m = (if \<bar>sn_shares r - now\<bar> * 100 \<le> now / 100 then Hold else if sn_shares r > now then Add else Trim)"
    using m p by (simp add: action_of_def hold_band_pct_def)
  show ?thesis
  proof (rule bexI[of _ "change_row ?m"])
    show "change_row ?m \<in> position_changes None (t, sps)" unfolding changes_mem using assms(3) by auto
    show "ch_key (change_row ?m) = sn_key r \<and> ch_is_split (change_row ?m) \<and> ch_prev_shares (change_row ?m) = Some (sn_shares l)
      \<and> ch_shares_delta (change_row ?m) = sn_shares r - now
      \<and> ch_action (change_row ?m) = (if \<bar>sn_shares r - now\<bar> * 100 \<le> now / 100 then Hold else if sn_shares r > now then Add else Trim)
      \<and> (sn_shares r = now \<and> 0 \<le> now \<longrightarrow> ch_action (change_row ?m) = Hold)"
      using m p a by (simp add: key_fields) (simp add: change_row_def cm_is_split_def Let_def)
  qed
qed

section \<open>The sample quarter's changes\<close>

lemma sample_finite: "finite sample_positions"
  by (simp add: sample_positions_def)

lemma sample_published: "published sample_positions 1 = {q1, q2}"
  by (rule set_eqI) (auto simp: published_iff sample_positions_def)

lemma q1_less_q2 [simp]: "q1 < q2" "\<not> q2 < q1" "q1 \<le> q2" "\<not> q2 \<le> q1"
  by (simp_all add: q1_def q2_def date_order)

lemma sample_before: "before_in (published sample_positions 1) q2 = Some q1"
  by (subst before_in_Some) (auto simp: sample_published)

definition sample_split_row :: split_row where
  "sample_split_row = \<lparr>sp_security = 9, sp_period = q2, sp_numerator = 2, sp_denominator = 1, sp_confidence = Split_medium,
     sp_holders = 3, sp_agreeing = 2, sp_exact = 3, sp_shares_ratio = 2, sp_price_ratio = 1 / 2\<rparr>"

theorem one_change_per_position_witness:
  "(1, q2, 9) \<in> ch_key ` position_changes None (sample_positions, {sample_split_row})"
  using one_change_per_position[OF sample_finite sample_keyed, of "{sample_split_row}"]
  by (auto simp: sample_positions_def)

theorem deltas_sum_to_position_witness:
  "(\<Sum>c\<in>{c \<in> position_changes None (sample_positions, {}). ch_filer c = 1 \<and> ch_security c = 9 \<and> ch_period c \<le> q2}. ch_shares_delta c) = 200"
proof -
  have "row_at sn_key sample_positions (1, q2, 9) = Some (sample_position 1 q2 200 1000)"
    unfolding row_at_Some[OF sample_keyed] by (simp add: sample_positions_def)
  then show ?thesis
    using deltas_sum_to_position[OF sample_finite sample_keyed, of 9 "{}" q2 1] by (simp add: sample_published shares_at_def)
qed

theorem held_through_split_witness:
  "\<exists>c\<in>position_changes None (sample_positions, {sample_split_row}). ch_key c = (1, q2, 9) \<and> ch_action c = Hold \<and> ch_shares_delta c = 0"
proof -
  have "splits_in {sample_split_row} 9 (Some q1) q2 = {sample_split_row}"
    by (auto simp: splits_in_def sample_split_row_def)
  then have s: "split_between {sample_split_row} 9 (Some q1) q2 = Some (2, 1)"
    by (simp add: split_between_def sample_split_row_def)
  have "\<lfloor>4000001 / 2 :: rat\<rfloor> = 2000000" by (rule floor_unique) simp_all
  then have r: "(200 :: rat) = sql_round 4 200" by (simp add: sql_round_def)
  have "\<exists>c\<in>position_changes None (sample_positions, {sample_split_row}). ch_key c = sn_key (sample_position 1 q2 200 1000)
      \<and> ch_is_split c \<and> ch_prev_shares c = Some (sn_shares (sample_position 1 q1 100 1000))
      \<and> ch_shares_delta c = sn_shares (sample_position 1 q2 200 1000) - 200
      \<and> ch_action c = (if \<bar>sn_shares (sample_position 1 q2 200 1000) - 200\<bar> * 100 \<le> 200 / 100 then Hold
          else if sn_shares (sample_position 1 q2 200 1000) > 200 then Add else Trim)
      \<and> (sn_shares (sample_position 1 q2 200 1000) = 200 \<and> 0 \<le> (200 :: rat) \<longrightarrow> ch_action c = Hold)"
    by (rule held_through_split[OF sample_finite sample_keyed, where n = 2 and d = 1])
      (use sample_before s r in \<open>simp_all add: sample_positions_def\<close>)
  then obtain c where "c \<in> position_changes None (sample_positions, {sample_split_row})" "ch_key c = (1, q2, 9)" "ch_action c = Hold" "ch_shares_delta c = 0"
    by auto
  then show ?thesis by blast
qed

end
