(* ===== verification/Recompute.thy ===== *)
theory Recompute
  imports Changes
begin

text \<open>
  \<open>app/derived/recompute.py\<close>: the rebuild of the derived tables for a scope, in the order one is read
  from another. The advisory lock is what makes a rebuild one step; the names of the pairs it
  touched, which \<open>after_commit\<close> hands to the alerts task, are in what it returns.
\<close>

section \<open>The operations\<close>

record derived =
  dv_snapshot :: "snapshot set"
  dv_prices :: "price_row set"
  dv_splits :: "split_row set"
  dv_changes :: "change set"

record recomputed =
  rc_scope :: scope
  rc_snapshot :: snapshot_rebuild
  rc_changes :: change_rebuild
  rc_following :: "pair set"
  rc_prices :: price_rebuild
  rc_splits :: split_rebuild
  rc_crossing :: "pair set"

definition touched :: "recomputed \<Rightarrow> pair set option" where
  "touched r = (case rc_scope r of None \<Rightarrow> None | Some ps \<Rightarrow> Some (ps \<union> rc_following r \<union> rc_crossing r))"

text \<open>\<open>_following\<close>: each filer's next published period after each of its periods in scope.\<close>

definition following :: "scope \<Rightarrow> snapshot set \<Rightarrow> pair set" where
  "following s t =
     (case s of None \<Rightarrow> {}
      | Some ps \<Rightarrow> {(f, q) | f p q. (f, p) \<in> ps \<and> after_in (published t f) p = Some q} - ps)"

definition recompute :: "bool \<Rightarrow> scope \<Rightarrow> base \<Rightarrow> derived \<Rightarrow> period_error + derived \<times> recomputed" where
  "recompute include_suspect s b d =
     (let held_before = map_option (\<lambda>_. held_in s (dv_snapshot d)) s;
          (t, snapshot) = recompute_position_snapshot include_suspect s b (dv_snapshot d);
          fol = following s t;
          held = map_option (\<lambda>h. h \<union> held_in s t) held_before;
          (ps, prices) = recompute_implied_price held t (dv_prices d)
      in bind_res (case held of None \<Rightarrow> Inr None | Some h \<Rightarrow> map_res Some (split_keys h)) (\<lambda>keys.
           let (sps, splits) = recompute_security_split keys t ps (dv_splits d);
               crossing = (case s of None \<Rightarrow> {} | Some pairs \<Rightarrow> crossing_pairs (dv_changes d) (moved splits) - pairs - fol);
               (cs, changes) = recompute_position_change (scope_or (scope_or s (scope_of fol)) (scope_of crossing)) t sps (dv_changes d)
           in Inr (\<lparr>dv_snapshot = t, dv_prices = ps, dv_splits = sps, dv_changes = cs\<rparr>,
                   \<lparr>rc_scope = s, rc_snapshot = snapshot, rc_changes = changes, rc_following = fol, rc_prices = prices,
                    rc_splits = splits, rc_crossing = crossing\<rparr>)))"

record redetected =
  rd_splits :: split_rebuild
  rd_crossing :: "pair set"
  rd_changes :: change_rebuild

definition no_changes :: change_rebuild where
  "no_changes = \<lparr>cr_new = 0, cr_add = 0, cr_trim = 0, cr_hold = 0, cr_exit = 0, cr_split = 0\<rparr>"

definition detect_splits :: "date option \<Rightarrow> derived \<Rightarrow> derived \<times> redetected" where
  "detect_splits period d =
     (let keys = map_option (\<lambda>p. security_period ` {r \<in> dv_snapshot d. sn_period r = p}) period;
          (sps, splits) = recompute_security_split keys (dv_snapshot d) (dv_prices d) (dv_splits d);
          crossing = crossing_pairs (dv_changes d) (moved splits);
          (cs, changes) = (if crossing \<noteq> {} then recompute_position_change (scope_of crossing) (dv_snapshot d) sps (dv_changes d)
                           else (dv_changes d, no_changes))
      in (d\<lparr>dv_splits := sps, dv_changes := cs\<rparr>, \<lparr>rd_splits = splits, rd_crossing = crossing, rd_changes = changes\<rparr>))"

section \<open>The tables in full\<close>

text \<open>What every table is when it is built from nothing: the specification of a rebuild.\<close>

definition full :: "bool \<Rightarrow> base \<Rightarrow> derived" where
  "full i b =
     (let t = snapshot_positions i None b; ps = implied_prices None t; sps = security_splits None (t, ps)
      in \<lparr>dv_snapshot = t, dv_prices = ps, dv_splits = sps, dv_changes = position_changes None (t, sps)\<rparr>)"

lemma rebuild_all: "rebuild key None old new = new"
  by (simp add: rebuild_def)

lemma recompute_snapshot_fst: "fst (recompute_position_snapshot i s b old) = rebuild sn_pair s old (snapshot_positions i s b)"
  by (simp add: recompute_position_snapshot_def Let_def)

lemma recompute_change_fst: "fst (recompute_position_change s t sps old) = rebuild ch_pair s old (position_changes s (t, sps))"
  by (simp add: recompute_position_change_def Let_def)

lemmas rebuild_fsts = recompute_snapshot_fst recompute_price_fst recompute_split_fst recompute_change_fst

text \<open>Rebuilding everything forgets what was there: whatever the tables held, they are what the filings say.\<close>

theorem recompute_everything:
  "\<exists>r. recompute i everything b d = Inr (full i b, r) \<and> touched r = None"
proof -
  obtain t sr where t: "recompute_position_snapshot i None b (dv_snapshot d) = (t, sr)" by fastforce
  obtain ps pr where ps: "recompute_implied_price None t (dv_prices d) = (ps, pr)" by fastforce
  obtain sps sb where sps: "recompute_security_split None t ps (dv_splits d) = (sps, sb)" by fastforce
  obtain cs cr where cs: "recompute_position_change None t sps (dv_changes d) = (cs, cr)" by fastforce
  have e1: "t = snapshot_positions i None b" using rebuild_fsts(1)[of i None b "dv_snapshot d"] by (simp add: t rebuild_all)
  have e2: "ps = implied_prices None t" using rebuild_fsts(2)[of None t "dv_prices d"] by (simp add: ps rebuild_all)
  have e3: "sps = security_splits None (t, ps)" using rebuild_fsts(3)[of None t ps "dv_splits d"] by (simp add: sps rebuild_all)
  have e4: "cs = position_changes None (t, sps)" using rebuild_fsts(4)[of None t sps "dv_changes d"] by (simp add: cs rebuild_all)
  have full: "full i b = \<lparr>dv_snapshot = t, dv_prices = ps, dv_splits = sps, dv_changes = cs\<rparr>"
    unfolding full_def Let_def e1[symmetric] e2[symmetric] e3[symmetric] e4[symmetric] ..
  have "scope_or (scope_or None (scope_of x)) (scope_of y) = None" for x y by (simp add: scope_or_def everything_def)
  then show ?thesis
    by (simp add: recompute_def everything_def t ps sps cs following_def full touched_def Let_def)
qed

section \<open>What moved\<close>

text \<open>Splits with the same fractions between two periods multiply to the same.\<close>

lemma split_between_unmoved:
  assumes old: "inj_on sp_key old" and new: "inj_on sp_key new"
    and same: "\<And>k. fst k = sec \<Longrightarrow> a < snd k \<Longrightarrow> snd k \<le> u \<Longrightarrow> sp_fraction ` {r \<in> old. sp_key r = k} = sp_fraction ` {r \<in> new. sp_key r = k}"
  shows "split_between old sec (Some a) u = split_between new sec (Some a) u"
proof -
  let ?S = "\<lambda>A. splits_in A sec (Some a) u" and ?g = "\<lambda>x. (sp_key x, sp_fraction x)"
  have in_K: "(k, fr) \<in> ?g ` ?S A \<longleftrightarrow> fst k = sec \<and> a < snd k \<and> snd k \<le> u \<and> fr \<in> sp_fraction ` {r \<in> A. sp_key r = k}" for A k fr
    by (auto simp: splits_in_def sp_key_def image_iff)
  have "y \<in> ?g ` ?S old \<longleftrightarrow> y \<in> ?g ` ?S new" for y
  proof -
    obtain k fr where y: "y = (k, fr)" by (rule prod.exhaust)
    show ?thesis unfolding y in_K using same[of k] by blast
  qed
  then have K: "?g ` ?S old = ?g ` ?S new" by blast
  have inj: "inj_on ?g (?S A)" if "inj_on sp_key A" for A
    using that by (auto simp: inj_on_def splits_in_def)
  have prods: "(\<Prod>x\<in>?S A. sp_numerator x) = (\<Prod>y\<in>?g ` ?S A. fst (snd y))" "(\<Prod>x\<in>?S A. sp_denominator x) = (\<Prod>y\<in>?g ` ?S A. snd (snd y))"
    if "inj_on sp_key A" for A
    by (subst prod.reindex[OF inj[OF that]], simp add: sp_fraction_def o_def)+
  have "?S old = {} \<longleftrightarrow> ?S new = {}" using arg_cong[OF K, of "\<lambda>A. A = {}"] unfolding image_is_empty .
  then show ?thesis unfolding split_between_def Let_def prods[OF old] prods[OF new] K by simp
qed

text \<open>A pair with no change across a split that moved has the same ratios between its periods.\<close>

lemma no_crossing:
  assumes r: "r \<in> t" and old: "inj_on sp_key sps" and new: "inj_on sp_key sps'"
    and un: "\<And>k. k \<notin> M \<Longrightarrow> sp_fraction ` {x \<in> sps. sp_key x = k} = sp_fraction ` {x \<in> sps'. sp_key x = k}"
    and no: "sn_pair r \<notin> crossing_pairs (position_changes None (t, sps)) M"
  shows "split_between sps (sn_security r) (before_in (published t (sn_filer r)) (sn_period r)) (sn_period r)
    = split_between sps' (sn_security r) (before_in (published t (sn_filer r)) (sn_period r)) (sn_period r)"
proof (cases "before_in (published t (sn_filer r)) (sn_period r)")
  case None
  then show ?thesis by (simp add: split_between_def splits_in_def)
next
  case (Some a)
  let ?c = "change_row (compared_row None t sps r)"
  have c: "?c \<in> position_changes None (t, sps)" unfolding changes_mem using r by auto
  show ?thesis unfolding Some
  proof (rule split_between_unmoved[OF old new])
    fix k assume k: "fst k = sn_security r" "a < snd k" "snd k \<le> sn_period r"
    then have "crosses ?c k" using Some by (simp add: crosses_def)
    then have "k \<notin> M" using no c by (auto simp: crossing_pairs_def sn_pair_def image_iff)
    then show "sp_fraction ` {r \<in> sps. sp_key r = k} = sp_fraction ` {r \<in> sps'. sp_key r = k}" by (rule un)
  qed
qed

section \<open>An incremental rebuild is a full one\<close>

text \<open>A pair that an ingest left alone: the same filings count toward it, with the same common stock lines.\<close>

definition untouched :: "base \<Rightarrow> base \<Rightarrow> pair \<Rightarrow> bool" where
  "untouched b b' p = ({f \<in> winning None b. fl_pair f = p} = {f \<in> winning None b'. fl_pair f = p}
     \<and> stock_lines (winning None b) (bs_holdings b) p = stock_lines (winning None b') (bs_holdings b') p)"

lemma lines_of_stock: "lines_of w hs p sec = {x \<in> stock_lines w hs p. ho_security (snd x) = sec}"
  by (auto simp: lines_of_def stock_lines_def)

lemma untouched_rows:
  assumes "untouched b b' (sn_pair r)"
  shows "r \<in> snapshot_positions i None b \<longleftrightarrow> r \<in> snapshot_positions i None b'"
proof -
  let ?p = "sn_pair r"
  have w: "{f \<in> winning None b. fl_pair f = ?p} = {f \<in> winning None b'. fl_pair f = ?p}"
    and l: "stock_lines (winning None b) (bs_holdings b) ?p = stock_lines (winning None b') (bs_holdings b') ?p"
    using assms by (simp_all add: untouched_def)
  have lines: "lines_of (winning None b) (bs_holdings b) ?p sec = lines_of (winning None b') (bs_holdings b') ?p sec" for sec
    unfolding lines_of_stock l ..
  have sus: "suspect_pair (winning None b) ?p = suspect_pair (winning None b') ?p" by (rule suspect_pair_same[OF w])
  have keys: "(?p, sec) \<in> agg_keys i (winning None b) (bs_holdings b) \<longleftrightarrow> (?p, sec) \<in> agg_keys i (winning None b') (bs_holdings b')" for sec
    by (simp only: agg_keys_iff lines sus)
  have row: "snapshot_row i (winning None b) (bs_holdings b) (?p, sec) = snapshot_row i (winning None b') (bs_holdings b') (?p, sec)" for sec
    by (simp add: snapshot_row_def agg_shares_def agg_value_def agg_source_def period_total_def lines sus keys)
  have m: "r \<in> snapshot_positions i None x \<longleftrightarrow> (\<exists>sec. (?p, sec) \<in> agg_keys i (winning None x) (bs_holdings x)
      \<and> r = snapshot_row i (winning None x) (bs_holdings x) (?p, sec))" for x
    unfolding snapshot_mem by (metis sn_pair_row)
  show ?thesis unfolding m keys row ..
qed

lemma snapshot_finite: "finite (bs_filings b) \<Longrightarrow> finite (bs_holdings b) \<Longrightarrow> finite (snapshot_positions i s b)"
proof -
  assume a: "finite (bs_filings b)" "finite (bs_holdings b)"
  have "finite (agg_keys i (winning s b) (bs_holdings b))"
    by (rule finite_subset[of _ "fl_pair ` winning s b \<times> ho_security ` bs_holdings b"])
      (auto simp: agg_keys_def intro: a winning_finite)
  then show ?thesis by (simp add: snapshot_positions_def Let_def)
qed

text \<open>Periods that are quarter ends, with one after them.\<close>

definition quarter_periods :: "snapshot set \<Rightarrow> bool" where
  "quarter_periods t = (\<forall>r\<in>t. \<exists>i. index_ok i \<and> index_ok (i + 1) \<and> sn_period r = quarter_of_index i)"

lemma quarter_before_index: "quarter_before (quarter_of_index j) = quarter_of_index (j - 1)"
proof -
  have d: "(j - 1) div 4 = (if j mod 4 = 0 then j div 4 - 1 else j div 4)" "(j - 1) mod 4 = (if j mod 4 = 0 then 3 else j mod 4 - 1)"
    by presburger+
  consider "j mod 4 = 0" | "j mod 4 = 1" | "j mod 4 = 2" | "j mod 4 = 3" using mod4_cases by blast
  then show ?thesis
    by cases (simp_all add: quarter_of_index_def quarter_before_def prev_day_def month_days_def d)
qed

lemma next_quarter_end_index: "index_ok (i + 1) \<Longrightarrow> next_quarter_end (quarter_of_index i) = Inr (quarter_of_index (i + 1))"
  by (simp add: next_quarter_end_def period_index_quarter from_index_ok)

lemma quarter_of_index_inj: "quarter_of_index i = quarter_of_index j \<Longrightarrow> i = j"
  using quarter_of_index_mono[of i j] quarter_of_index_mono[of j i] by (metis less_irrefl linorder_less_linear)

lemma split_keys_ok:
  assumes "\<And>k. k \<in> h \<Longrightarrow> \<exists>i. index_ok i \<and> index_ok (i + 1) \<and> snd k = quarter_of_index i"
  shows "\<exists>ks. split_keys h = Inr ks \<and> h \<subseteq> ks \<and> (\<forall>s i. (s, quarter_of_index i) \<in> h \<longrightarrow> (s, quarter_of_index (i + 1)) \<in> ks)"
proof -
  have n: "next_quarter_end (snd k) \<noteq> Inl e" if "k \<in> h" for k e
    using assms[OF that] next_quarter_end_index by fastforce
  let ?ends = "{k \<in> h. is_quarter_end (snd k)}"
  let ?ks = "h \<union> {(fst k, q) | k q. k \<in> ?ends \<and> next_quarter_end (snd k) = Inr q}"
  have "split_keys h = Inr ?ks" unfolding split_keys_def Let_def using n by auto
  moreover have "(s, quarter_of_index (i + 1)) \<in> ?ks" if m: "(s, quarter_of_index i) \<in> h" for s i
  proof -
    obtain j where "index_ok (j + 1)" "quarter_of_index i = quarter_of_index j" using assms[OF m] by auto
    then have "index_ok (i + 1)" using quarter_of_index_inj by blast
    then have "next_quarter_end (quarter_of_index i) = Inr (quarter_of_index (i + 1))" by (rule next_quarter_end_index)
    then show ?thesis using m quarter_of_index_end[of i] by force
  qed
  ultimately show ?thesis by blast
qed

text \<open>The periods before one, when a rebuild has changed only pairs it steps over.\<close>

lemma before_same:
  assumes fin: "finite t" "finite t'"
    and out: "\<And>r. \<not> covers s (sn_pair r) \<Longrightarrow> r \<in> t \<longleftrightarrow> r \<in> t'"
    and p: "\<not> covers s (f, p)" "(f, p) \<notin> following s t'" "p \<in> published t' f"
  shows "before_in (published t f) p = before_in (published t' f) p
    \<and> (\<forall>q. before_in (published t' f) p = Some q \<longrightarrow> \<not> covers s (f, q))"
proof -
  have pub: "q \<in> published t f \<longleftrightarrow> q \<in> published t' f" if "\<not> covers s (f, q)" for q
    using out that unfolding published_iff sn_pair_def by blast
  obtain ps where s: "s = Some ps" using p(1) by (cases s) auto
  note F = published_finite[OF fin(1), of f] published_finite[OF fin(2), of f]
  have step: "\<exists>r\<in>published t' f. q < r \<and> r < p" if c: "covers s (f, q)" "q < p" for q
  proof (rule ccontr)
    assume "\<not> ?thesis"
    then have "after_in (published t' f) q = Some p" unfolding after_in_Some[OF F(2)] using p(3) c(2) by (auto simp: not_less)
    then have "(f, p) \<in> following s t'" using c(1) p(1) s by (auto simp: following_def)
    then show False using p(2) by simp
  qed
  have unc: "\<not> covers s (f, q)" if b: "before_in (published t' f) p = Some q" for q
  proof
    have q: "q < p" "\<And>r. r \<in> published t' f \<Longrightarrow> r < p \<Longrightarrow> r \<le> q" using b unfolding before_in_Some[OF F(2)] by blast+
    assume "covers s (f, q)"
    then obtain r where "r \<in> published t' f" "q < r" "r < p" using step q(1) by blast
    then show False using q(2)[of r] by simp
  qed
  have top: "r < q \<or> \<not> covers s (f, r)" if b: "before_in (published t' f) p = Some q" and r: "r < p" for q r
  proof (rule ccontr)
    assume "\<not> (r < q \<or> \<not> covers s (f, r))"
    then have "q \<le> r" "covers s (f, r)" by auto
    then obtain x where "x \<in> published t' f" "r < x" "x < p" using step r by blast
    then show False using b \<open>q \<le> r\<close> unfolding before_in_Some[OF F(2)] by force
  qed
  have "before_in (published t f) p = before_in (published t' f) p"
  proof (cases "before_in (published t' f) p")
    case None
    then have none: "\<And>r. r \<in> published t' f \<Longrightarrow> \<not> r < p" by (auto simp: before_in_None)
    have "\<not> r < p" if "r \<in> published t f" for r
    proof
      assume "r < p"
      then have "\<not> covers s (f, r)" using step none by blast
      then show False using pub that none \<open>r < p\<close> by blast
    qed
    then show ?thesis using None by (simp add: before_in_None[THEN iffD2])
  next
    case (Some q)
    then have q: "q \<in> published t' f" "q < p" "\<And>r. r \<in> published t' f \<Longrightarrow> r < p \<Longrightarrow> r \<le> q" unfolding before_in_Some[OF F(2)] by blast+
    have "q \<in> published t f" using pub[OF unc[OF Some]] q(1) by blast
    moreover have "r \<le> q" if r: "r \<in> published t f" "r < p" for r
    proof (cases "covers s (f, r)")
      case True
      then show ?thesis using top[OF Some r(2)] by auto
    next
      case False
      then show ?thesis using pub r q(3) by blast
    qed
    ultimately have "before_in (published t f) p = Some q" unfolding before_in_Some[OF F(1)] using q(2) by blast
    then show ?thesis using Some by simp
  qed
  then show ?thesis using unc by blast
qed

lemma rows_unheld:
  assumes out: "\<And>r. \<not> covers s (sn_pair r) \<Longrightarrow> r \<in> t \<longleftrightarrow> r \<in> t'" and k: "k \<notin> held_in s t \<union> held_in s t'"
  shows "{x \<in> t. security_period x = k} = {x \<in> t'. security_period x = k}"
proof -
  have "x \<in> t \<longleftrightarrow> x \<in> t'" if "security_period x = k" for x
  proof (cases "covers s (sn_pair x)")
    case True
    then show ?thesis using k that unfolding Un_iff held_in_covers by blast
  qed (rule out)
  then show ?thesis by blast
qed

lemma prices_rebuilt:
  assumes out: "\<And>r. \<not> covers s (sn_pair r) \<Longrightarrow> r \<in> t \<longleftrightarrow> r \<in> t'"
  defines "h \<equiv> held_in s t \<union> held_in s t'"
  shows "rebuild ip_key (Some h) (implied_prices None t) (implied_prices (Some h) t') = implied_prices None t'"
proof (rule price.rebuild_eq)
  fix r assume "\<not> covers (Some h) (ip_key r)"
  then have "ip_key r \<notin> held_in s t \<union> held_in s t'" by (simp add: h_def)
  from implied_same[OF rows_unheld[OF out this]]
  show "r \<in> implied_prices None t \<longleftrightarrow> r \<in> implied_prices None t'" .
qed

lemma prices_unheld:
  assumes out: "\<And>r. \<not> covers s (sn_pair r) \<Longrightarrow> r \<in> t \<longleftrightarrow> r \<in> t'" and k: "k \<notin> held_in s t \<union> held_in s t'"
  shows "{r \<in> implied_prices None t. ip_key r = k} = {r \<in> implied_prices None t'. ip_key r = k}"
proof -
  have "r \<in> implied_prices None t \<longleftrightarrow> r \<in> implied_prices None t'" if "ip_key r = k" for r
    by (rule implied_same) (use rows_unheld[OF out k] that in simp)
  then show ?thesis by blast
qed

lemma no_rows_no_ratios: "k \<notin> security_period ` t \<Longrightarrow> ratios_at None t k = {}"
proof -
  assume "k \<notin> security_period ` t"
  then have "x \<notin> ratios_at None t k" for x unfolding ratios_at_mem by blast
  then show ?thesis by blast
qed

lemma splits_rebuilt:
  assumes out: "\<And>r. \<not> covers s (sn_pair r) \<Longrightarrow> r \<in> t \<longleftrightarrow> r \<in> t'"
    and q: "quarter_periods t" "quarter_periods t'"
    and ks: "held_in s t \<union> held_in s t' \<subseteq> ks"
      "\<And>x i. (x, quarter_of_index i) \<in> held_in s t \<union> held_in s t' \<Longrightarrow> (x, quarter_of_index (i + 1)) \<in> ks"
  shows "rebuild sp_key (Some ks) (security_splits None (t, implied_prices None t)) (security_splits (Some ks) (t', implied_prices None t'))
    = security_splits None (t', implied_prices None t')"
proof (rule splits.rebuild_eq)
  fix r :: split_row assume nr: "\<not> covers (Some ks) (sp_key r)"
  obtain k where k: "k = sp_key r" by blast
  have kn: "k \<notin> ks" using nr k by simp
  then have h: "k \<notin> held_in s t \<union> held_in s t'" using ks(1) by blast
  have now: "{x \<in> t. security_period x = k} = {x \<in> t'. security_period x = k}" by (rule rows_unheld[OF out h])
  have "candidate_at None t (implied_prices None t) k = candidate_at None t' (implied_prices None t') k"
  proof (cases "k \<in> security_period ` t")
    case False
    then have "k \<notin> security_period ` t'" using now by (auto simp: set_eq_iff image_iff)
    then show ?thesis using no_rows_no_ratios[OF False] no_rows_no_ratios[of k t'] by (simp add: candidate_at_def min_agreeing_def)
  next
    case True
    then obtain x where x: "x \<in> t" "k = security_period x" by blast
    obtain j where j: "snd k = quarter_of_index j" using q(1) x by (auto simp: quarter_periods_def security_period_def)
    let ?b = "(fst k, quarter_before (snd k))"
    have b: "?b \<notin> held_in s t \<union> held_in s t'"
    proof
      assume "?b \<in> held_in s t \<union> held_in s t'"
      then have "(fst k, quarter_of_index (j - 1)) \<in> held_in s t \<union> held_in s t'" unfolding j quarter_before_index .
      from ks(2)[OF this] have "(fst k, snd k) \<in> ks" by (simp add: j)
      then show False using kn by simp
    qed
    have "{r \<in> implied_prices None t. ip_key r \<in> {k, ?b}} = {r \<in> implied_prices None t'. ip_key r \<in> {k, ?b}}"
      using prices_unheld[OF out h] prices_unheld[OF out b] by blast
    from splits_same[OF now rows_unheld[OF out b] this] show ?thesis .
  qed
  then show "r \<in> security_splits None (t, implied_prices None t) \<longleftrightarrow> r \<in> security_splits None (t', implied_prices None t')"
    unfolding splits_mem k fst_conv snd_conv by (simp only:)
qed

lemma changes_rebuilt:
  assumes t: "finite t" "inj_on sn_key t" and t': "finite t'" "inj_on sn_key t'"
    and out: "\<And>r. \<not> covers s (sn_pair r) \<Longrightarrow> r \<in> t \<longleftrightarrow> r \<in> t'"
    and sps: "inj_on sp_key sps" "inj_on sp_key sps'"
    and un: "\<And>k. k \<notin> M \<Longrightarrow> sp_fraction ` {x \<in> sps. sp_key x = k} = sp_fraction ` {x \<in> sps'. sp_key x = k}"
    and sc: "\<And>p. covers sc p \<longleftrightarrow> covers s p \<or> p \<in> following s t' \<or> p \<in> crossing_pairs (position_changes None (t, sps)) M"
  shows "rebuild ch_pair sc (position_changes None (t, sps)) (position_changes sc (t', sps')) = position_changes None (t', sps')"
proof (rule changes.rebuild_eq)
  fix c assume n: "\<not> covers sc (ch_pair c)"
  obtain f p where fp: "ch_pair c = (f, p)" by (cases "ch_pair c")
  have no: "\<not> covers s (f, p)" "(f, p) \<notin> following s t'" "(f, p) \<notin> crossing_pairs (position_changes None (t, sps)) M"
    using n fp sc by auto
  have same: "{r \<in> t. sn_pair r = (f, q)} = {r \<in> t'. sn_pair r = (f, q)}" if "\<not> covers s (f, q)" for q
    using out that by (auto simp: set_eq_iff)
  have pub: "p \<in> published t f \<longleftrightarrow> p \<in> published t' f" by (rule keys_of_pair(3)[OF same[OF no(1)]])
  show "c \<in> position_changes None (t, sps) \<longleftrightarrow> c \<in> position_changes None (t', sps')"
  proof (cases "p \<in> published t' f")
    case True
    note b = before_same[OF t(1) t'(1) out no(1,2) True]
    show ?thesis
    proof (rule changes_same[OF t t' same[OF no(1)] conjunct1[OF b] _ _ fp])
      show "{r \<in> t. sn_pair r = (f, q)} = {r \<in> t'. sn_pair r = (f, q)}" if "before_in (published t f) p = Some q" for q
        using b that same[of q] by simp
      show "split_between sps (sn_security r) (before_in (published t f) p) p = split_between sps' (sn_security r) (before_in (published t f) p) p"
        if "r \<in> t" "sn_pair r = (f, p)" for r
        using no_crossing[OF that(1) sps un] no(3) that(2) by (simp add: sn_pair_def)
    qed
  next
    case False
    have "ch_pair c \<in> {(g, x). x \<in> published u g}" if "finite u" "c \<in> position_changes None (u, v)" for u v
      using that(2) published_mem gone_key(1)[OF that(1)] unfolding changes_mem by fastforce
    then show ?thesis using False pub fp t(1) t'(1) by fastforce
  qed
qed

text \<open>C9. Rebuilding what an ingest changed leaves every table as rebuilding everything would. Whatever
  filings were loaded, amended, moved to another pair or found suspect inside the scope, if nothing
  outside it changed and the tables were right before, then the prices of what the scope holds or
  held, the splits of those and of a quarter after, and the changes of the scope, of the period after
  and across a split that moved are all that can differ.\<close>

theorem incremental_is_full:
  assumes fin: "finite (bs_filings b)" "finite (bs_holdings b)" "finite (bs_filings b')" "finite (bs_holdings b')"
    and outside: "\<And>p. \<not> covers s p \<Longrightarrow> untouched b b' p"
    and quarters: "quarter_periods (snapshot_positions i None b)" "quarter_periods (snapshot_positions i None b')"
  shows "\<exists>r. recompute i s b' (full i b) = Inr (full i b', r)"
proof (cases s)
  case None
  then show ?thesis using recompute_everything[of i b' "full i b"] by (auto simp: everything_def)
next
  case (Some pairs)
  let ?t = "snapshot_positions i None b" and ?t' = "snapshot_positions i None b'"
  let ?ps = "implied_prices None ?t" and ?ps' = "implied_prices None ?t'"
  let ?sps = "security_splits None (?t, ?ps)" and ?sps' = "security_splits None (?t', ?ps')"
  let ?h = "held_in s ?t \<union> held_in s ?t'"
  have out: "\<And>r. \<not> covers s (sn_pair r) \<Longrightarrow> r \<in> ?t \<longleftrightarrow> r \<in> ?t'" using outside untouched_rows by blast
  have f: "finite ?t" "finite ?t'" using snapshot_finite fin by blast+
  have keyed: "inj_on sn_key ?t" "inj_on sn_key ?t'" by (rule snapshot_keyed)+
  have d: "dv_snapshot (full i b) = ?t" "dv_prices (full i b) = ?ps" "dv_splits (full i b) = ?sps" "dv_changes (full i b) = position_changes None (?t, ?sps)"
    by (simp_all add: full_def Let_def)
  obtain t sr where t: "recompute_position_snapshot i s b' ?t = (t, sr)" by fastforce
  have t': "t = ?t'"
    using rebuild_fsts(1)[of i s b' ?t] snap.rebuild_eq[of s i b b'] out by (simp add: t)
  obtain ps pr where ps: "recompute_implied_price (Some ?h) ?t' ?ps = (ps, pr)" by fastforce
  have ps': "ps = ?ps'" using rebuild_fsts(2)[of "Some ?h" ?t' ?ps] prices_rebuilt[OF out] by (simp add: ps)
  have "\<exists>j. index_ok j \<and> index_ok (j + 1) \<and> snd k = quarter_of_index j" if "k \<in> ?h" for k
    using that quarters unfolding quarter_periods_def held_in_def security_period_def by auto
  from split_keys_ok[of ?h, OF this] obtain ks where ks: "split_keys ?h = Inr ks" "?h \<subseteq> ks"
    "\<And>x j. (x, quarter_of_index j) \<in> ?h \<Longrightarrow> (x, quarter_of_index (j + 1)) \<in> ks" by blast
  obtain sps sb where sps: "recompute_security_split (Some ks) ?t' ?ps' ?sps = (sps, sb)" by fastforce
  have sps': "sps = ?sps'"
    using rebuild_fsts(3)[of "Some ks" ?t' ?ps' ?sps] splits_rebuilt[OF out quarters ks(2,3)] by (simp add: sps)
  have un: "sp_fraction ` {x \<in> ?sps. sp_key x = k} = sp_fraction ` {x \<in> ?sps'. sp_key x = k}" if "k \<notin> moved sb" for k
    using not_moved[OF splits_keyed, of k "Some ks" ?t' ?ps' None "(?t, ?ps)"] that by (simp add: sps sps')
  let ?fol = "following s ?t'" and ?cross = "crossing_pairs (position_changes None (?t, ?sps)) (moved sb)"
  let ?sc = "scope_or (scope_or s (scope_of ?fol)) (scope_of (?cross - pairs - ?fol))"
  obtain cs cr where cs: "recompute_position_change ?sc ?t' ?sps' (position_changes None (?t, ?sps)) = (cs, cr)" by fastforce
  have sc: "covers ?sc p \<longleftrightarrow> covers s p \<or> p \<in> ?fol \<or> p \<in> ?cross" for p
    unfolding covers_or by (auto simp: scope_of_def Some)
  have cs': "cs = position_changes None (?t', ?sps')"
    using rebuild_fsts(4)[of ?sc ?t' ?sps' "position_changes None (?t, ?sps)"]
      changes_rebuilt[OF f(1) keyed(1) f(2) keyed(2) out splits_keyed splits_keyed un sc] by (simp add: cs)
  have "full i b' = \<lparr>dv_snapshot = t, dv_prices = ps, dv_splits = sps, dv_changes = cs\<rparr>"
    unfolding full_def Let_def t' ps' sps' cs' ..
  then have new: "\<lparr>dv_snapshot = ?t', dv_prices = ?ps', dv_splits = ?sps', dv_changes = cs\<rparr> = full i b'" by (simp only: t' ps' sps')
  have H: "map_option (\<lambda>h. h \<union> held_in s ?t') (map_option (\<lambda>_. held_in s ?t) s) = Some ?h" by (simp add: Some)
  have C: "(case s of None \<Rightarrow> {} | Some pairs \<Rightarrow> ?cross - pairs - ?fol) = ?cross - pairs - ?fol" by (simp add: Some)
  show ?thesis
    unfolding recompute_def d t Let_def prod.case t' H ps option.case ks(1) map_res_simps bind_res_simps ps' sps sps' C cs new
    by blast
qed

text \<open>C10. Detecting the splits again is enough after the detection has changed. When the tables are right but
  for the splits, and the changes are right for the splits as they were, a run leaves both right,
  having rebuilt only the changes across a split that moved; and a second run moves nothing.\<close>

theorem detect_splits_repairs:
  assumes "finite (dv_snapshot d)" "inj_on sn_key (dv_snapshot d)" "dv_prices d = implied_prices None (dv_snapshot d)"
    and "inj_on sp_key (dv_splits d)" "dv_changes d = position_changes None (dv_snapshot d, dv_splits d)"
    and "d' = fst (detect_splits None d)"
  shows "dv_snapshot d' = dv_snapshot d \<and> dv_prices d' = dv_prices d
    \<and> dv_splits d' = security_splits None (dv_snapshot d, dv_prices d)
    \<and> dv_changes d' = position_changes None (dv_snapshot d, dv_splits d')
    \<and> moved (rd_splits (snd (detect_splits None d'))) = {} \<and> fst (detect_splits None d') = d'"
proof -
  let ?t = "dv_snapshot d" and ?ps = "dv_prices d" and ?old = "dv_splits d"
  let ?sps = "security_splits None (?t, ?ps)"
  obtain sps sb where sps: "recompute_security_split None ?t ?ps ?old = (sps, sb)" by fastforce
  have sps': "sps = ?sps" using rebuild_fsts(3)[of None ?t ?ps ?old] by (simp add: sps rebuild_all)
  have un: "sp_fraction ` {x \<in> ?old. sp_key x = k} = sp_fraction ` {x \<in> ?sps. sp_key x = k}" if "k \<notin> moved sb" for k
    using not_moved[OF assms(4), of k None ?t ?ps] that by (simp add: sps sps')
  let ?cross = "crossing_pairs (dv_changes d) (moved sb)"
  have fol: "following (Some {}) ?t = {}" by (simp add: following_def)
  have sc: "covers (scope_of ?cross) p \<longleftrightarrow> covers (Some {}) p \<or> p \<in> following (Some {}) ?t \<or> p \<in> crossing_pairs (position_changes None (?t, ?old)) (moved sb)" for p
    by (simp add: fol scope_of_def assms(5))
  have all: "rebuild ch_pair (scope_of ?cross) (dv_changes d) (position_changes (scope_of ?cross) (?t, ?sps)) = position_changes None (?t, ?sps)"
    using changes_rebuilt[OF assms(1,2,1,2) refl assms(4) splits_keyed un sc] by (simp add: assms(5))
  let ?new = "if ?cross \<noteq> {} then recompute_position_change (scope_of ?cross) ?t ?sps (dv_changes d) else (dv_changes d, no_changes)"
  have new: "fst ?new = position_changes None (?t, ?sps)"
  proof (cases "?cross = {}")
    case True
    have "rebuild ch_pair (Some {}) (dv_changes d) (position_changes (Some {}) (?t, ?sps)) = dv_changes d"
      by (simp add: rebuild_def changes.scoped)
    then show ?thesis using all True by (simp add: scope_of_def)
  next
    case False
    then show ?thesis using all by (simp add: recompute_change_fst)
  qed
  obtain cs cr where cs: "?new = (cs, cr)" by fastforce
  have d': "d' = d\<lparr>dv_splits := ?sps, dv_changes := position_changes None (?t, ?sps)\<rparr>"
    using new unfolding assms(6) by (simp add: detect_splits_def sps sps' Let_def cs)
  have "moved (snd (recompute_security_split None ?t ?ps ?sps)) = {}"
    by (simp add: recompute_security_split_def moved_def Let_def security_splits_def)
  moreover obtain sps2 sb2 where sps2: "recompute_security_split None ?t ?ps ?sps = (sps2, sb2)" by fastforce
  ultimately have m: "moved sb2 = {}" by simp
  have "sps2 = ?sps" using rebuild_fsts(3)[of None ?t ?ps ?sps] by (simp add: sps2 rebuild_all)
  then have "detect_splits None d' = (d', \<lparr>rd_splits = sb2, rd_crossing = {}, rd_changes = no_changes\<rparr>)"
    unfolding d' by (simp add: detect_splits_def sps2 m crossing_pairs_def Let_def)
  then show ?thesis using m unfolding d' by simp
qed

section \<open>Samples\<close>

lemma quarter_periods_of_filings:
  assumes "\<And>f. f \<in> bs_filings b \<Longrightarrow> \<exists>j. index_ok j \<and> index_ok (j + 1) \<and> fl_period f = quarter_of_index j"
  shows "quarter_periods (snapshot_positions i None b)"
proof -
  have "\<exists>f\<in>bs_filings b. sn_period r = fl_period f" if r: "r \<in> snapshot_positions i None b" for r
  proof -
    obtain p sec where k: "(p, sec) \<in> agg_keys i (winning None b) (bs_holdings b)" "r = snapshot_row i (winning None b) (bs_holdings b) (p, sec)"
      using r unfolding snapshot_mem by blast
    from k(1) obtain f where "f \<in> winning None b" "p = fl_pair f" by (auto simp: agg_keys_def)
    then have "f \<in> bs_filings b" "sn_period r = fl_period f"
      using k(2) by (auto simp: winning_def effective_def effective_by_cik_def snapshot_row_def fl_pair_def)
    then show ?thesis by blast
  qed
  then show ?thesis unfolding quarter_periods_def using assms by metis
qed

lemma sample_q1: "index_ok 8096 \<and> index_ok (8096 + 1) \<and> Date 2024 3 31 = quarter_of_index 8096"
  by (simp add: index_ok_def quarter_of_index_def)

lemma sample_base_quarters: "fs \<subseteq> set sample_filings \<Longrightarrow> quarter_periods (snapshot_positions i None (sample_base fs))"
proof (rule quarter_periods_of_filings)
  fix f assume "fs \<subseteq> set sample_filings" "f \<in> bs_filings (sample_base fs)"
  then have "fl_period f = Date 2024 3 31" by (auto simp: sample_base_def sample_filings_def sample_filing_def)
  then show "\<exists>j. index_ok j \<and> index_ok (j + 1) \<and> fl_period f = quarter_of_index j" using sample_q1 by metis
qed

lemma sample_base_untouched:
  assumes "fs \<subseteq> set sample_filings" "fs' \<subseteq> set sample_filings" "p \<noteq> (7, Date 2024 3 31)"
  shows "untouched (sample_base fs) (sample_base fs') p"
proof -
  have "fl_pair f = (7, Date 2024 3 31)" if "f \<in> winning None (sample_base gs)" "gs \<subseteq> set sample_filings" for f gs
  proof -
    have "f \<in> set sample_filings" using that by (auto simp: winning_def effective_def effective_by_cik_def sample_base_def)
    then show ?thesis by (auto simp: sample_filings_def sample_filing_def fl_pair_def)
  qed
  then have e: "{f \<in> winning None (sample_base gs). fl_pair f = p} = {}" "stock_lines (winning None (sample_base gs)) hs p = {}"
    if "gs \<subseteq> set sample_filings" for gs hs using assms(3) that by (auto simp: stock_lines_def)
  show ?thesis unfolding untouched_def e(1)[OF assms(1)] e(1)[OF assms(2)] e(2)[OF assms(1)] e(2)[OF assms(2)] by simp
qed

theorem incremental_is_full_witness:
  "\<exists>r. recompute False (scope_of {(7, Date 2024 3 31)}) (sample_base (set with_amendment)) (full False (sample_base (set original_only)))
     = Inr (full False (sample_base (set with_amendment)), r)"
proof (rule incremental_is_full)
  show "untouched (sample_base (set original_only)) (sample_base (set with_amendment)) p"
    if "\<not> covers (scope_of {(7, Date 2024 3 31)}) p" for p
    by (rule sample_base_untouched) (use that in \<open>auto simp: scope_of_def original_only_def with_amendment_def sample_filings_def\<close>)
  show "quarter_periods (snapshot_positions False None (sample_base (set original_only)))"
    "quarter_periods (snapshot_positions False None (sample_base (set with_amendment)))"
    by (rule sample_base_quarters, simp add: original_only_def with_amendment_def sample_filings_def)+
qed (simp_all add: sample_base_def)

definition sample_derived :: derived where
  "sample_derived = \<lparr>dv_snapshot = sample_positions, dv_prices = implied_prices None sample_positions, dv_splits = {sample_split_row},
     dv_changes = position_changes None (sample_positions, {sample_split_row})\<rparr>"

theorem detect_splits_repairs_witness:
  "moved (rd_splits (snd (detect_splits None (fst (detect_splits None sample_derived))))) = {}"
  using detect_splits_repairs[of sample_derived, OF _ _ _ _ _ refl] sample_finite sample_keyed by (simp add: sample_derived_def)

text \<open>
  Why the periods have to be quarter ends: a key at a date within the next quarter is compared with
  this quarter too, and \<open>split_keys\<close> does not reach it.
\<close>

lemma split_keys_miss_odd_period:
  "quarter_before (Date 2024 5 15) = Date 2024 3 31 \<and> (\<exists>ks. split_keys {(9, Date 2024 3 31)} = Inr ks \<and> (9, Date 2024 5 15) \<notin> ks)"
proof -
  have n: "next_quarter_end (Date 2024 3 31) = Inr (Date 2024 6 30)"
    using next_quarter_end_index[of 8096] by (simp add: index_ok_def quarter_of_index_def)
  have "split_keys {(9, Date 2024 3 31)} = Inr ({(9, Date 2024 3 31)} \<union> {(fst k, q) | k q. k \<in> {(9, Date 2024 3 31)} \<and> next_quarter_end (snd k) = Inr q})"
    by (simp add: split_keys_def is_quarter_end_def n Let_def)
  then show ?thesis using n by (auto simp: quarter_before_def prev_day_def month_days_def)
qed

end
