(* ===== verification/Decimals.thy ===== *)
theory Decimals
  imports Text
begin

text \<open>
  Python's \<open>decimal.Decimal\<close> as the code uses it: reading one from text, and the default context, whose
  results keep 28 significant digits, half to even, and in which a \<open>quantize\<close> that needs more raises
  \<open>InvalidOperation\<close>. A finite value is an exact rational: the exponent a value is written with, and the
  range of exponents a context allows (a million either way), are not modelled.
\<close>

section \<open>Reading\<close>

datatype decimal = DFin rat | DInf | DNaN

text \<open>Upper and lower case among the first 256 code points. \<open>str.upper\<close> writes the sharp s as two letters and takes
  the micro sign and the y with diaeresis out of that range; those two are left as they are.\<close>

definition lower_char :: "char \<Rightarrow> char" where
  "lower_char c = (let k = code c in if (65 \<le> k \<and> k \<le> 90) \<or> (192 \<le> k \<and> k \<le> 222 \<and> k \<noteq> 215) then char_of (k + 32) else c)"

definition py_lower :: "string \<Rightarrow> string" where "py_lower = map lower_char"

definition upper_chars :: "char \<Rightarrow> string" where
  "upper_chars c =
     (let k = code c in
      if (97 \<le> k \<and> k \<le> 122) \<or> (224 \<le> k \<and> k \<le> 254 \<and> k \<noteq> 247) then [char_of (k - 32)]
      else if k = 223 then ''SS'' else [c])"

definition py_upper :: "string \<Rightarrow> string" where "py_upper s = concat (map upper_chars s)"

definition all_decimal :: "string \<Rightarrow> bool" where "all_decimal s = list_all is_decimal s"

fun digits_from :: "int \<Rightarrow> string \<Rightarrow> int" where
  "digits_from acc [] = acc"
| "digits_from acc (c # cs) = digits_from (10 * acc + (case digit_val c of None \<Rightarrow> 0 | Some d \<Rightarrow> int d)) cs"

definition digits_value :: "string \<Rightarrow> int" where "digits_value = digits_from 0"

lemma digits_from_read: "read_digits a s = Some n \<Longrightarrow> digits_from (int a) s = int n"
  by (induction s arbitrary: a) (fastforce split: option.splits)+

lemma digits_value_read: "read_digits 0 s = Some n \<Longrightarrow> digits_value s = int n"
  using digits_from_read[of 0 s n] by (simp add: digits_value_def)

text \<open>The sign a number starts with, as whether it is a minus.\<close>

fun take_sign :: "string \<Rightarrow> bool \<times> string" where
  "take_sign [] = (False, [])"
| "take_sign (c # cs) =
     (if c = CHR ''-'' then (True, cs) else if c = CHR ''+'' then (False, cs) else (False, c # cs))"

text \<open>\<open>E\<close> and a whole number, or nothing.\<close>

definition read_exponent :: "string \<Rightarrow> int option" where
  "read_exponent s =
     (case s of
        [] \<Rightarrow> Some 0
      | e # cs \<Rightarrow>
          if e \<noteq> CHR ''e'' \<and> e \<noteq> CHR ''E'' then None
          else (case take_sign cs of (neg, ds) \<Rightarrow>
              if ds = [] \<or> \<not> all_decimal ds then None
              else Some (if neg then - digits_value ds else digits_value ds)))"

text \<open>Digits with at most one point among them, at least one digit, and an exponent.\<close>

definition read_numeral :: "string \<Rightarrow> rat option" where
  "read_numeral s =
     (let whole = takeWhile is_decimal s; r = dropWhile is_decimal s;
          pointed = (r \<noteq> [] \<and> hd r = CHR ''.'');
          frac = (if pointed then takeWhile is_decimal (tl r) else []);
          r' = (if pointed then dropWhile is_decimal (tl r) else r)
      in if whole = [] \<and> frac = [] then None
         else map_option (\<lambda>e. of_int (digits_value (whole @ frac)) * 10 powi (e - int (length frac))) (read_exponent r'))"

text \<open>\<open>Decimal(text)\<close>: \<open>None\<close> is \<open>InvalidOperation\<close>. Underscores are removed, wherever they are.\<close>

definition py_decimal :: "string \<Rightarrow> decimal option" where
  "py_decimal s =
     (case take_sign (remove_char CHR ''_'' (py_strip s)) of (neg, u) \<Rightarrow>
        let v = py_lower u in
        if v = ''inf'' \<or> v = ''infinity'' then Some DInf
        else if take 3 v = ''nan'' \<and> all_decimal (drop 3 v) then Some DNaN
        else if take 4 v = ''snan'' \<and> all_decimal (drop 4 v) then Some DNaN
        else map_option (\<lambda>x. DFin (if neg then - x else x)) (read_numeral u))"

section \<open>The default context\<close>

definition half_even :: "rat \<Rightarrow> int" where
  "half_even x =
     (let f = \<lfloor>x\<rfloor>; d = x - of_int f in
      if d < 1 / 2 then f else if d > 1 / 2 then f + 1 else if even f then f else f + 1)"

definition context_digits :: nat where "context_digits = 28"

text \<open>How many decimal digits a number is written with, and the power of ten of the first of a positive number.\<close>

function num_digits :: "int \<Rightarrow> nat" where
  "num_digits n = (if n \<le> 0 then 0 else Suc (num_digits (n div 10)))"
  by auto
termination by (relation "measure nat") auto

declare num_digits.simps [simp del]

definition first_digit :: "rat \<Rightarrow> int" where
  "first_digit x = (if 1 \<le> x then int (num_digits \<lfloor>x\<rfloor>) - 1 else - int (num_digits (\<lceil>1 / x\<rceil> - 1)))"

text \<open>The result of an operation: the exact one, kept to 28 digits.\<close>

definition dec_fix :: "rat \<Rightarrow> rat" where
  "dec_fix x =
     (if x = 0 then 0
      else let e = first_digit \<bar>x\<bar> - (int context_digits - 1) in of_int (half_even (x * 10 powi (- e))) * 10 powi e)"

text \<open>\<open>x.quantize(Decimal("0.01"))\<close>.\<close>

definition quantize_cents :: "rat \<Rightarrow> rat option" where
  "quantize_cents x =
     (let c = half_even (x * 100) in if \<bar>c\<bar> < 10 ^ context_digits then Some (of_int c / 100) else None)"

definition dec_add :: "rat \<Rightarrow> rat \<Rightarrow> rat" where "dec_add x y = dec_fix (x + y)"
definition dec_sub :: "rat \<Rightarrow> rat \<Rightarrow> rat" where "dec_sub x y = dec_fix (x - y)"
definition dec_mul :: "rat \<Rightarrow> rat \<Rightarrow> rat" where "dec_mul x y = dec_fix (x * y)"
definition dec_div :: "rat \<Rightarrow> rat \<Rightarrow> rat" where "dec_div x y = dec_fix (x / y)"

text \<open>\<open>sum(xs, start=Decimal(0))\<close>, one addition at a time.\<close>

definition dec_sum :: "rat list \<Rightarrow> rat" where "dec_sum xs = foldl dec_add 0 xs"

section \<open>What the context changes\<close>

lemma half_even_of_int [simp]: "half_even (of_int n) = n"
  by (simp add: half_even_def)

lemma half_even_near: "of_int (half_even x) \<le> x + 1 / 2" "x - 1 / 2 \<le> of_int (half_even x)"
  using floor_correct[of x] unfolding half_even_def Let_def by (simp_all split: if_splits) linarith+

lemma half_even_mono:
  assumes "x \<le> y"
  shows "half_even x \<le> half_even y"
proof (rule ccontr)
  assume "\<not> half_even x \<le> half_even y"
  then have "of_int (half_even y) + 1 \<le> (of_int (half_even x) :: rat)" by (simp add: not_le flip: of_int_add)
  then have "x = y" using half_even_near(1)[of x] half_even_near(2)[of y] assms by linarith
  then show False using \<open>\<not> half_even x \<le> half_even y\<close> by simp
qed

lemma num_digits_bounds:
  assumes "0 < n"
  shows "0 < num_digits n" "10 ^ (num_digits n - 1) \<le> n" "n < 10 ^ num_digits n"
proof -
  have "0 < num_digits n \<and> 10 ^ (num_digits n - 1) \<le> n \<and> n < 10 ^ num_digits n"
    using assms
  proof (induction n rule: num_digits.induct)
    case (1 n)
    show ?case
    proof (cases "n < 10")
      case True
      then show ?thesis using 1(2) by (simp add: num_digits.simps[of n] num_digits.simps[of 0])
    next
      case False
      then have "0 < n div 10" by simp
      with 1 have "0 < num_digits (n div 10)" "10 ^ (num_digits (n div 10) - 1) \<le> n div 10"
        "n div 10 < 10 ^ num_digits (n div 10)" by auto
      moreover obtain k where "num_digits (n div 10) = Suc k" using calculation(1) gr0_implies_Suc by blast
      ultimately show ?thesis using 1(2) by (simp add: num_digits.simps[of n]) linarith
    qed
  qed
  then show "0 < num_digits n" "10 ^ (num_digits n - 1) \<le> n" "n < 10 ^ num_digits n" by simp_all
qed

lemma first_digit_le:
  assumes "0 < x"
  shows "10 powi first_digit x \<le> x"
proof (cases "1 \<le> x")
  case True
  then have f: "0 < \<lfloor>x\<rfloor>" by simp
  note b = num_digits_bounds[OF f]
  have "(10 :: rat) ^ (num_digits \<lfloor>x\<rfloor> - 1) = of_int (10 ^ (num_digits \<lfloor>x\<rfloor> - 1))" by simp
  also have "\<dots> \<le> of_int \<lfloor>x\<rfloor>" using b(2) by (subst of_int_le_iff)
  also have "\<dots> \<le> x" by simp
  finally have "(10 :: rat) ^ (num_digits \<lfloor>x\<rfloor> - 1) \<le> x" .
  moreover have "10 powi first_digit x = (10 :: rat) ^ (num_digits \<lfloor>x\<rfloor> - 1)"
    using True b(1) unfolding first_digit_def by (simp add: power_int_def nat_diff_distrib')
  ultimately show ?thesis by simp
next
  case False
  let ?y = "1 / x" and ?k = "num_digits (\<lceil>1 / x\<rceil> - 1)"
  have y: "1 < ?y" using False assms by simp
  then have "0 < \<lceil>?y\<rceil> - 1" by (simp add: less_ceiling_iff)
  from num_digits_bounds(3)[OF this] have "\<lceil>?y\<rceil> \<le> 10 ^ ?k" by simp
  then have "?y \<le> of_int (10 ^ ?k)" by (simp only: ceiling_le_iff)
  then have "1 / 10 ^ ?k \<le> x" using assms by (simp add: field_simps)
  then show ?thesis using False unfolding first_digit_def by (simp add: power_int_minus_divide)
qed

text \<open>A number of at most 28 digits is not changed: an amount in cents, whose cents are fewer than \<open>10\<^sup>28\<close>.\<close>

lemma dec_fix_exact:
  assumes c: "x * 10 ^ k = of_int c" "\<bar>c\<bar> < 10 ^ context_digits"
  shows "dec_fix x = x"
proof (cases "x = 0")
  case False
  let ?e = "first_digit \<bar>x\<bar> - (int context_digits - 1)"
  have k: "int k \<le> - ?e"
  proof (rule ccontr)
    assume "\<not> int k \<le> - ?e"
    then have "int context_digits - int k \<le> first_digit \<bar>x\<bar>" by simp
    then have "(10 :: rat) powi (int context_digits - int k) \<le> 10 powi first_digit \<bar>x\<bar>"
      by (intro power_int_increasing) auto
    also have "\<dots> \<le> \<bar>x\<bar>" using False by (intro first_digit_le) simp
    finally have "10 ^ context_digits / 10 ^ k \<le> \<bar>x\<bar>" by (simp add: power_int_diff)
    then have "10 ^ context_digits \<le> \<bar>x\<bar> * 10 ^ k" by (simp only: pos_divide_le_eq zero_less_power zero_less_numeral)
    also have "\<dots> = \<bar>x * 10 ^ k\<bar>" by (simp only: abs_mult power_abs abs_numeral)
    also have "\<dots> = of_int \<bar>c\<bar>" by (simp only: c(1) of_int_abs)
    finally have "of_int (10 ^ context_digits) \<le> (of_int \<bar>c\<bar> :: rat)" by (simp only: of_int_power of_int_numeral)
    then show False using c(2) unfolding of_int_le_iff by simp
  qed
  then obtain n where n: "- ?e = int k + int n" by (metis zle_iff_zadd)
  have "x * 10 powi (- ?e) = of_int (c * 10 ^ n)"
    unfolding n using c(1) by (simp add: power_int_add mult.assoc[symmetric])
  then have "of_int (half_even (x * 10 powi (- ?e))) = x * 10 powi (- ?e)" by (simp only: half_even_of_int)
  then have "of_int (half_even (x * 10 powi (- ?e))) * 10 powi ?e = x * (10 powi (- ?e) * 10 powi ?e)"
    by (simp only: mult.assoc)
  also have "10 powi (- ?e) * 10 powi ?e = (1 :: rat)" using power_int_add[of "10 :: rat" "- ?e" ?e] by simp
  finally have "of_int (half_even (x * 10 powi (- ?e))) * 10 powi ?e = x" by (simp only: mult_1_right)
  then show ?thesis using False by (simp only: dec_fix_def Let_def if_False)
qed (simp add: dec_fix_def)

lemma quantize_cents_exact:
  assumes "x * 100 = of_int c" "\<bar>c\<bar> < 10 ^ context_digits"
  shows "quantize_cents x = Some x"
proof -
  have "half_even (x * 100) = c" unfolding assms(1) by (rule half_even_of_int)
  moreover have "of_int c / 100 = x" unfolding assms(1)[symmetric] by simp
  ultimately show ?thesis using assms(2) by (simp add: quantize_cents_def)
qed

lemma quantize_cents_SomeD: "quantize_cents x = Some y \<Longrightarrow> \<exists>c. y * 100 = of_int c \<and> \<bar>c\<bar> < 10 ^ context_digits"
  unfolding quantize_cents_def Let_def by (rule exI[of _ "half_even (x * 100)"]) (auto split: if_splits)

lemma quantize_cents_nonneg:
  assumes "quantize_cents x = Some y" "0 \<le> x"
  shows "0 \<le> y"
proof -
  have "0 \<le> half_even (x * 100)" using half_even_mono[of 0 "x * 100"] half_even_of_int[of 0] assms(2) by simp
  then show ?thesis using assms(1) by (auto simp: quantize_cents_def Let_def split: if_splits)
qed

lemma dec_fix_nonneg:
  assumes "0 \<le> x"
  shows "0 \<le> dec_fix x"
proof -
  have "0 \<le> x * 10 powi e" for e using assms by (simp add: zero_le_power_int)
  then have "0 \<le> half_even (x * 10 powi e)" for e
    using half_even_mono[of 0 "x * 10 powi e"] half_even_of_int[of 0] by simp
  then show ?thesis by (simp add: dec_fix_def Let_def zero_le_power_int)
qed

end
