(* ===== verification/ThirteenF.thy ===== *)
theory ThirteenF
  imports Effective Decimals
begin

text \<open>
  \<open>app/ingestion/parsers/thirteen_f.py\<close>: the cover page and the information table of a 13F, from the tree
  lxml gives of a document to values, or to the error that names the element. lxml itself is a parameter:
  what \<open>etree.fromstring\<close> gives of the bytes, and the elements \<open>iterparse\<close> yields before it ends or fails.
  The limit Python puts on the digits \<open>int\<close> reads is not modelled.
\<close>

section \<open>Documents\<close>

text \<open>An element with its tag, the text before its first child and its children, or a comment, a processing
  instruction or an entity.\<close>

datatype xml = Element (xml_tag: string) (xml_text: "string option") (xml_kids: "xml list") | Other_node

text \<open>\<open>local-name()\<close>, and \<open>rpartition("}")[2]\<close>: what follows the namespace.\<close>

definition local_name :: "string \<Rightarrow> string" where
  "local_name t = rev (takeWhile (\<lambda>c. c \<noteq> CHR ''}'') (rev t))"

fun node_name :: "xml \<Rightarrow> string" where
  "node_name (Element t x ks) = local_name t"
| "node_name Other_node = []"

text \<open>The elements of a tree in document order, and those below an element of a name.\<close>

fun nodes_of :: "xml \<Rightarrow> xml list" where
  "nodes_of (Element t x ks) = Element t x ks # concat (map nodes_of ks)"
| "nodes_of Other_node = []"

fun nodes_under :: "string \<Rightarrow> bool \<Rightarrow> xml \<Rightarrow> xml list" where
  "nodes_under w below (Element t x ks) =
     (if below then [Element t x ks] else []) @ concat (map (nodes_under w (below \<or> local_name t = w)) ks)"
| "nodes_under w below Other_node = []"

fun stripped_text :: "xml \<Rightarrow> string" where
  "stripped_text (Element t x ks) = (case x of None \<Rightarrow> [] | Some s \<Rightarrow> py_strip s)"
| "stripped_text Other_node = []"

section \<open>Errors\<close>

datatype problem =
    Not_well_formed | Missing_or_empty | Expected_digits | Too_many_digits | Expected_date | Expected_integer
  | Expected_non_negative_integer | Expected_boolean | Expected_amendment | Too_long_cusip | Expected_cusip
  | Expected_figi | Expected_number | Expected_finite | Expected_non_negative | Expected_sh_or_prn | Expected_put_or_call

record parse_error =
  pe_field :: string
  pe_problem :: problem
  pe_value :: "string option"

definition parse_failure :: "string \<Rightarrow> problem \<Rightarrow> string option \<Rightarrow> parse_error" where
  "parse_failure f p v = \<lparr>pe_field = f, pe_problem = p, pe_value = v\<rparr>"

section \<open>Reading the cover page\<close>

fun first_text :: "xml list \<Rightarrow> string option" where
  "first_text [] = None"
| "first_text (n # ns) = (if stripped_text n \<noteq> [] then Some (stripped_text n) else first_text ns)"

definition text_of :: "xml \<Rightarrow> string \<Rightarrow> string option \<Rightarrow> string option" where
  "text_of tree name inside =
     first_text (filter (\<lambda>n. node_name n = name)
       (case inside of None \<Rightarrow> nodes_of tree | Some w \<Rightarrow> nodes_under w False tree))"

definition required :: "xml \<Rightarrow> string \<Rightarrow> string option \<Rightarrow> bool \<Rightarrow> parse_error + string" where
  "required tree name inside fallback =
     (let found = text_of tree name inside;
          value = (if found = None \<and> fallback \<and> inside \<noteq> None then text_of tree name None else found)
      in case value of None \<Rightarrow> Inl (parse_failure name Missing_or_empty None) | Some v \<Rightarrow> Inr v)"

definition cik_width :: nat where "cik_width = 10"

text \<open>\<open>f"{n:010d}"\<close>: padded with zeros after the sign.\<close>

definition zero_padded :: "nat \<Rightarrow> int \<Rightarrow> string" where
  "zero_padded w n =
     (let s = show_nat (nat \<bar>n\<bar>) in
      if n < 0 then CHR ''-'' # replicate (w - 1 - length s) CHR ''0'' @ s
      else replicate (w - length s) CHR ''0'' @ s)"

definition padded_cik :: "string \<Rightarrow> parse_error + string" where
  "padded_cik value =
     (case py_int value of
        None \<Rightarrow> Inl (parse_failure ''cik'' Expected_digits (Some value))
      | Some n \<Rightarrow>
          let digits = zero_padded cik_width n in
          if length digits > cik_width then Inl (parse_failure ''cik'' Too_many_digits (Some value)) else Inr digits)"

text \<open>
  \<open>strptime\<close> with \<open>%m-%d-%Y\<close> and with \<open>%Y-%m-%d\<close>: a month and a day of one or two digits, the day's zero also
  written as a space, a year of four.
\<close>

definition strp_month :: "string \<Rightarrow> int option" where
  "strp_month s =
     (if s \<noteq> [] \<and> length s \<le> 2 \<and> all_decimal s \<and> 1 \<le> digits_value s \<and> digits_value s \<le> 12
      then Some (digits_value s) else None)"

definition strp_day :: "string \<Rightarrow> int option" where
  "strp_day s =
     (let t = (if length s = 2 \<and> hd s = CHR '' '' then tl s else s) in
      if t \<noteq> [] \<and> length t \<le> 2 \<and> all_decimal t \<and> 1 \<le> digits_value t \<and> digits_value t \<le> 31
      then Some (digits_value t) else None)"

definition strp_year :: "string \<Rightarrow> int option" where
  "strp_year s = (if length s = 4 \<and> all_decimal s then Some (digits_value s) else None)"

definition strp_parts :: "string \<Rightarrow> string \<Rightarrow> string \<Rightarrow> date option" where
  "strp_parts y m d =
     (case (strp_year y, strp_month m, strp_day d) of
        (Some yy, Some mm, Some dd) \<Rightarrow> if valid_date (Date yy mm dd) then Some (Date yy mm dd) else None
      | _ \<Rightarrow> None)"

definition as_date :: "string \<Rightarrow> string \<Rightarrow> parse_error + date" where
  "as_date value f =
     (case split_on CHR ''-'' value of
        [a, b, c] \<Rightarrow>
          (case strp_parts c a b of
             Some d \<Rightarrow> Inr d
           | None \<Rightarrow>
               (case strp_parts a b c of
                  Some d \<Rightarrow> Inr d
                | None \<Rightarrow> Inl (parse_failure f Expected_date (Some value))))
      | _ \<Rightarrow> Inl (parse_failure f Expected_date (Some value)))"

definition optional_date :: "xml \<Rightarrow> string \<Rightarrow> string option \<Rightarrow> parse_error + date option" where
  "optional_date tree name inside =
     (case text_of tree name inside of None \<Rightarrow> Inr None | Some v \<Rightarrow> map_res Some (as_date v name))"

definition optional_int :: "xml \<Rightarrow> string \<Rightarrow> parse_error + int option" where
  "optional_int tree name =
     (case text_of tree name None of
        None \<Rightarrow> Inr None
      | Some v \<Rightarrow>
          (case py_int (remove_char CHR '','' v) of
             None \<Rightarrow> Inl (parse_failure name Expected_integer (Some v))
           | Some n \<Rightarrow> if n < 0 then Inl (parse_failure name Expected_non_negative_integer (Some v)) else Inr (Some n)))"

text \<open>\<open>casefold()\<close>; the micro sign, whose folding is past the first 256 code points, is left as it is.\<close>

definition py_casefold :: "string \<Rightarrow> string" where
  "py_casefold s = concat (map (\<lambda>c. if code c = 223 then ''ss'' else [lower_char c]) s)"

definition true_spellings :: "string list" where "true_spellings = [''true'', ''t'', ''y'', ''yes'', ''1'']"
definition false_spellings :: "string list" where "false_spellings = [''false'', ''f'', ''n'', ''no'', ''0'']"

definition optional_bool :: "xml \<Rightarrow> string \<Rightarrow> parse_error + bool" where
  "optional_bool tree name =
     (case text_of tree name None of
        None \<Rightarrow> Inr False
      | Some v \<Rightarrow>
          if py_casefold v \<in> set true_spellings then Inr True
          else if py_casefold v \<in> set false_spellings then Inr False
          else Inl (parse_failure name Expected_boolean (Some v)))"

text \<open>\<open>" ".join(s.split())\<close>.\<close>

fun words :: "string \<Rightarrow> string \<Rightarrow> string list" where
  "words w [] = (if w = [] then [] else [rev w])"
| "words w (c # cs) =
     (if is_space c then (if w = [] then words [] cs else rev w # words [] cs) else words (c # w) cs)"

fun join_words :: "string list \<Rightarrow> string" where
  "join_words [] = []"
| "join_words [w] = w"
| "join_words (w # ws) = w @ CHR '' '' # join_words ws"

definition amendment_kinds :: "(string \<times> amendment_kind) list" where
  "amendment_kinds = [(''RESTATEMENT'', Restatement), (''NEW HOLDINGS'', New_holdings)]"

definition amendment_kind_of :: "xml \<Rightarrow> parse_error + amendment_kind option" where
  "amendment_kind_of tree =
     (case text_of tree ''amendmentType'' None of
        None \<Rightarrow> Inr None
      | Some v \<Rightarrow>
          (case map_of amendment_kinds (join_words (words [] (py_upper v))) of
             Some k \<Rightarrow> Inr (Some k)
           | None \<Rightarrow> Inl (parse_failure ''amendmentType'' Expected_amendment (Some v))))"

record primary_doc =
  pd_cik :: string
  pd_filer_name :: string
  pd_form_type :: string
  pd_period :: date
  pd_signature_date :: "date option"
  pd_amendment_no :: "int option"
  pd_amendment_kind :: "amendment_kind option"
  pd_report_type :: "string option"
  pd_entry_total :: "int option"
  pd_value_total :: "int option"
  pd_other_managers_count :: "int option"
  pd_confidential_omitted :: bool

definition parse_root :: "(string \<Rightarrow> xml option) \<Rightarrow> string \<Rightarrow> parse_error + xml" where
  "parse_root fromstring doc =
     (case fromstring doc of None \<Rightarrow> Inl (parse_failure ''xml'' Not_well_formed None) | Some r \<Rightarrow> Inr r)"

definition read_cover :: "xml \<Rightarrow> parse_error + primary_doc" where
  "read_cover tree =
     bind_res (required tree ''cik'' (Some ''credentials'') True) (\<lambda>cik_text.
     bind_res (padded_cik cik_text) (\<lambda>cik.
     bind_res (required tree ''name'' (Some ''filingManager'') False) (\<lambda>name.
     bind_res (required tree ''submissionType'' None False) (\<lambda>form.
     bind_res (required tree ''periodOfReport'' None False) (\<lambda>period_text.
     bind_res (as_date period_text ''periodOfReport'') (\<lambda>period.
     bind_res (optional_date tree ''signatureDate'' (Some ''signatureBlock'')) (\<lambda>signed.
     bind_res (optional_int tree ''amendmentNo'') (\<lambda>no.
     bind_res (amendment_kind_of tree) (\<lambda>kind.
     bind_res (optional_int tree ''tableEntryTotal'') (\<lambda>entries.
     bind_res (optional_int tree ''tableValueTotal'') (\<lambda>value.
     bind_res (optional_int tree ''otherIncludedManagersCount'') (\<lambda>others.
     bind_res (optional_bool tree ''isConfidentialOmitted'') (\<lambda>omitted.
       Inr \<lparr>pd_cik = cik, pd_filer_name = name, pd_form_type = form, pd_period = period,
         pd_signature_date = signed, pd_amendment_no = no, pd_amendment_kind = kind,
         pd_report_type = text_of tree ''reportType'' None, pd_entry_total = entries, pd_value_total = value,
         pd_other_managers_count = others, pd_confidential_omitted = omitted\<rparr>)))))))))))))"

definition parse_primary_doc :: "(string \<Rightarrow> xml option) \<Rightarrow> string \<Rightarrow> parse_error + primary_doc" where
  "parse_primary_doc fromstring doc = bind_res (parse_root fromstring doc) read_cover"

section \<open>Reading a row\<close>

type_synonym row_fields = "(string \<times> string) list"

text \<open>The texts below an element by their name in lower case, the first of each; the other managers joined.\<close>

definition add_field :: "row_fields \<Rightarrow> xml \<Rightarrow> row_fields" where
  "add_field fs n =
     (let text = stripped_text n; name = py_casefold (node_name n) in
      if text = [] then fs
      else (case map_of fs name of
          None \<Rightarrow> fs @ [(name, text)]
        | Some old \<Rightarrow>
            if name = ''othermanager''
            then map (\<lambda>(k, v). if k = name then (k, old @ '', '' @ text) else (k, v)) fs
            else fs))"

definition row_fields_of :: "xml \<Rightarrow> row_fields" where
  "row_fields_of e = foldl add_field [] (nodes_of e)"

definition get_field :: "row_fields \<Rightarrow> string \<Rightarrow> string option" where
  "get_field fs name = map_of fs (py_casefold name)"

definition required_field :: "row_fields \<Rightarrow> string \<Rightarrow> parse_error + string" where
  "required_field fs name =
     (case get_field fs name of None \<Rightarrow> Inl (parse_failure name Missing_or_empty None) | Some v \<Rightarrow> Inr v)"

definition cusip_width :: nat where "cusip_width = 9"
definition cusip_alphabet :: string where
  "cusip_alphabet = ''0123456789ABCDEFGHIJKLMNOPQRSTUVWXYZ*@#''"

definition cusip_of :: "string \<Rightarrow> parse_error + string" where
  "cusip_of value =
     (let compact = remove_char CHR ''-'' (remove_char CHR '' '' (py_upper value)) in
      if compact = [] then Inl (parse_failure ''cusip'' Missing_or_empty None)
      else if length compact > cusip_width then Inl (parse_failure ''cusip'' Too_long_cusip (Some value))
      else if \<not> set compact \<subseteq> set cusip_alphabet then Inl (parse_failure ''cusip'' Expected_cusip (Some value))
      else Inr (replicate (cusip_width - length compact) CHR ''0'' @ compact))"

text \<open>\<open>str.isalnum()\<close> of one of the first 256 code points: letters, digits, superscripts and fractions.\<close>

definition is_alnum_char :: "char \<Rightarrow> bool" where
  "is_alnum_char c =
     (let k = code c in
      (48 \<le> k \<and> k \<le> 57) \<or> (65 \<le> k \<and> k \<le> 90) \<or> (97 \<le> k \<and> k \<le> 122)
      \<or> k \<in> {170, 178, 179, 181, 185, 186, 188, 189, 190} \<or> (192 \<le> k \<and> k \<noteq> 215 \<and> k \<noteq> 247))"

definition figi_width :: nat where "figi_width = 12"

definition figi_of :: "string option \<Rightarrow> string option \<times> parse_error option" where
  "figi_of value =
     (case value of
        None \<Rightarrow> (None, None)
      | Some v \<Rightarrow>
          let compact = remove_char CHR '' '' (py_upper v) in
          if length compact \<noteq> figi_width \<or> \<not> list_all is_alnum_char compact
          then (None, Some (parse_failure ''figi'' Expected_figi (Some v)))
          else (Some compact, None))"

definition quantity :: "string \<Rightarrow> string \<Rightarrow> parse_error + rat" where
  "quantity value f =
     (case py_decimal (remove_char CHR '','' value) of
        None \<Rightarrow> Inl (parse_failure f Expected_number (Some value))
      | Some (DFin x) \<Rightarrow> if x < 0 then Inl (parse_failure f Expected_non_negative (Some value)) else Inr x
      | Some _ \<Rightarrow> Inl (parse_failure f Expected_finite (Some value)))"

definition optional_quantity :: "string option \<Rightarrow> string \<Rightarrow> parse_error + rat option" where
  "optional_quantity value f = (case value of None \<Rightarrow> Inr None | Some v \<Rightarrow> map_res Some (quantity v f))"

datatype sh_prn = SH | PRN
datatype put_call = Put | Call

definition sh_prn_of :: "string \<Rightarrow> parse_error + sh_prn" where
  "sh_prn_of value =
     (if py_upper value = ''SH'' then Inr SH
      else if py_upper value = ''PRN'' then Inr PRN
      else Inl (parse_failure ''sshPrnamtType'' Expected_sh_or_prn (Some value)))"

definition put_call_of :: "string option \<Rightarrow> parse_error + put_call option" where
  "put_call_of value =
     (case value of
        None \<Rightarrow> Inr None
      | Some v \<Rightarrow>
          if py_upper v = ''PUT'' then Inr (Some Put)
          else if py_upper v = ''CALL'' then Inr (Some Call)
          else Inl (parse_failure ''putCall'' Expected_put_or_call (Some v)))"

record info_row =
  ir_name_of_issuer :: "string option"
  ir_title_of_class :: "string option"
  ir_cusip :: string
  ir_figi :: "string option"
  ir_value :: rat
  ir_shares :: rat
  ir_sh_prn :: sh_prn
  ir_put_call :: "put_call option"
  ir_discretion :: "string option"
  ir_other_managers :: "string option"
  ir_voting_sole :: "rat option"
  ir_voting_shared :: "rat option"
  ir_voting_none :: "rat option"

definition row_of :: "row_fields \<Rightarrow> string option \<Rightarrow> parse_error + info_row" where
  "row_of fs figi =
     bind_res (required_field fs ''cusip'') (\<lambda>cusip_text.
     bind_res (cusip_of cusip_text) (\<lambda>cusip.
     bind_res (required_field fs ''value'') (\<lambda>value_text.
     bind_res (quantity value_text ''value'') (\<lambda>value.
     bind_res (required_field fs ''sshPrnamt'') (\<lambda>amount_text.
     bind_res (quantity amount_text ''sshPrnamt'') (\<lambda>amount.
     bind_res (required_field fs ''sshPrnamtType'') (\<lambda>type_text.
     bind_res (sh_prn_of type_text) (\<lambda>kind.
     bind_res (put_call_of (get_field fs ''putCall'')) (\<lambda>option.
     bind_res (optional_quantity (get_field fs ''Sole'') ''Sole'') (\<lambda>sole.
     bind_res (optional_quantity (get_field fs ''Shared'') ''Shared'') (\<lambda>shared.
     bind_res (optional_quantity (get_field fs ''None'') ''None'') (\<lambda>unvoted.
       Inr \<lparr>ir_name_of_issuer = get_field fs ''nameOfIssuer'', ir_title_of_class = get_field fs ''titleOfClass'',
         ir_cusip = cusip, ir_figi = figi, ir_value = value, ir_shares = amount, ir_sh_prn = kind,
         ir_put_call = option, ir_discretion = get_field fs ''investmentDiscretion'',
         ir_other_managers = get_field fs ''otherManager'',
         ir_voting_sole = sole, ir_voting_shared = shared, ir_voting_none = unvoted\<rparr>))))))))))))"

section \<open>The information table\<close>

record row_warning =
  rw_row :: nat
  rw_field :: string
  rw_problem :: problem
  rw_value :: "string option"
  rw_cusip :: "string option"
  rw_dropped :: bool

definition warning_of :: "nat \<Rightarrow> parse_error \<Rightarrow> string option \<Rightarrow> bool \<Rightarrow> row_warning" where
  "warning_of position p cusip dropped =
     \<lparr>rw_row = position, rw_field = pe_field p, rw_problem = pe_problem p, rw_value = pe_value p,
       rw_cusip = cusip, rw_dropped = dropped\<rparr>"

record info_table =
  it_rows :: "info_row list"
  it_warnings :: "row_warning list"

definition value_total :: "info_table \<Rightarrow> rat" where
  "value_total t = dec_sum (map ir_value (it_rows t))"

text \<open>One element: its row or the failure that drops it, and what is warned of.\<close>

definition row_of_element :: "xml \<Rightarrow> parse_error + info_row" where
  "row_of_element e = (let fs = row_fields_of e in row_of fs (fst (figi_of (get_field fs ''figi''))))"

definition read_element :: "nat \<Rightarrow> xml \<Rightarrow> info_row list \<times> row_warning list" where
  "read_element position e =
     (let fs = row_fields_of e; cusip = get_field fs ''cusip''; (figi, figi_problem) = figi_of (get_field fs ''figi'')
      in (case row_of fs figi of
            Inl p \<Rightarrow> ([], [warning_of position p cusip True])
          | Inr r \<Rightarrow>
              ([r], (case figi_problem of None \<Rightarrow> [] | Some p \<Rightarrow> [warning_of position p (Some (ir_cusip r)) False]))))"

fun read_elements :: "nat \<Rightarrow> xml list \<Rightarrow> info_row list \<times> row_warning list" where
  "read_elements position [] = ([], [])"
| "read_elements position (e # es) =
     (case read_element position e of (rs, ws) \<Rightarrow>
      case read_elements (Suc position) es of (rs', ws') \<Rightarrow> (rs @ rs', ws @ ws'))"

definition parse_information_table :: "(string \<Rightarrow> xml list \<times> bool) \<Rightarrow> string \<Rightarrow> parse_error + info_table" where
  "parse_information_table iterparse doc =
     (case iterparse doc of (elements, well_formed) \<Rightarrow>
      if \<not> well_formed then Inl (parse_failure ''xml'' Not_well_formed None)
      else (case read_elements 1 elements of (rs, ws) \<Rightarrow> Inr \<lparr>it_rows = rs, it_warnings = ws\<rparr>))"

section \<open>What a row that parses holds\<close>

text \<open>What \<open>holding\<close> requires of the columns a row fills, and the width of a FIGI.\<close>

definition non_negative :: "rat option \<Rightarrow> bool" where
  "non_negative x = (case x of None \<Rightarrow> True | Some y \<Rightarrow> 0 \<le> y)"

definition row_fits :: "info_row \<Rightarrow> bool" where
  "row_fits r \<longleftrightarrow> length (ir_cusip r) = cusip_width \<and> set (ir_cusip r) \<subseteq> set cusip_alphabet
     \<and> 0 \<le> ir_value r \<and> 0 \<le> ir_shares r
     \<and> non_negative (ir_voting_sole r) \<and> non_negative (ir_voting_shared r) \<and> non_negative (ir_voting_none r)
     \<and> (case ir_figi r of None \<Rightarrow> True | Some f \<Rightarrow> length f = figi_width)"

lemma cusip_of_InrD: "cusip_of v = Inr c \<Longrightarrow> length c = cusip_width \<and> set c \<subseteq> set cusip_alphabet"
  by (auto simp: cusip_of_def Let_def cusip_alphabet_def split: if_splits)

lemma quantity_InrD: "quantity v f = Inr x \<Longrightarrow> 0 \<le> x"
  by (auto simp: quantity_def split: option.splits decimal.splits if_splits)

lemma optional_quantity_InrD: "optional_quantity v f = Inr x \<Longrightarrow> non_negative x"
  by (cases v) (auto simp: optional_quantity_def non_negative_def map_res_Inr_iff dest: quantity_InrD)

lemma figi_of_SomeD: "fst (figi_of v) = Some f \<Longrightarrow> length f = figi_width"
  by (auto simp: figi_of_def Let_def split: option.splits if_splits)

lemma row_of_fits:
  assumes "row_of fs figi = Inr r" "case figi of None \<Rightarrow> True | Some f \<Rightarrow> length f = figi_width"
  shows "row_fits r"
  using assms unfolding row_of_def bind_res_Inr_iff
  by (auto simp: row_fits_def dest: quantity_InrD optional_quantity_InrD dest!: cusip_of_InrD)

lemma row_of_element_fits: "row_of_element e = Inr r \<Longrightarrow> row_fits r"
  unfolding row_of_element_def Let_def
  by (erule row_of_fits) (auto split: option.splits dest: figi_of_SomeD)

section \<open>Every element is kept or named\<close>

definition positions :: "nat \<Rightarrow> 'a list \<Rightarrow> nat list" where
  "positions k es = [k..<k + length es]"

lemma positions_Cons: "positions k (e # es) = k # positions (Suc k) es"
  by (simp add: positions_def upt_rec del: upt_Suc)

definition is_kept :: "xml \<Rightarrow> bool" where
  "is_kept e = (case row_of_element e of Inl p \<Rightarrow> False | Inr r \<Rightarrow> True)"

lemma read_element_cases:
  obtains r ws where "row_of_element e = Inr r" "read_element k e = ([r], ws)" "filter rw_dropped ws = []"
  | p w where "row_of_element e = Inl p" "read_element k e = ([], [w])" "rw_dropped w" "rw_row w = k"
proof -
  obtain figi problem where f: "figi_of (get_field (row_fields_of e) ''figi'') = (figi, problem)" by (rule prod.exhaust)
  show ?thesis
  proof (cases "row_of (row_fields_of e) figi")
    case (Inl p)
    show ?thesis by (rule that(2)[of p "warning_of k p (get_field (row_fields_of e) ''cusip'') True"])
        (simp_all add: row_of_element_def read_element_def Let_def f Inl warning_of_def)
  next
    case (Inr r)
    show ?thesis
      by (rule that(1)[of r "case problem of None \<Rightarrow> [] | Some p \<Rightarrow> [warning_of k p (Some (ir_cusip r)) False]"])
        (simp_all add: row_of_element_def read_element_def Let_def f Inr warning_of_def split: option.splits)
  qed
qed

lemma read_elements_account:
  assumes "read_elements k es = (rs, ws)"
  shows "map rw_row (filter rw_dropped ws) = filter (\<lambda>p. \<not> is_kept (es ! (p - k))) (positions k es)
    \<and> list_all2 (\<lambda>p r. row_of_element (es ! (p - k)) = Inr r) (filter (\<lambda>p. is_kept (es ! (p - k))) (positions k es)) rs"
  using assms
proof (induction es arbitrary: k rs ws)
  case (Cons e es)
  obtain rs' ws' where rec: "read_elements (Suc k) es = (rs', ws')" by (rule prod.exhaust)
  note ih = Cons.IH[OF rec]
  have shift: "filter (\<lambda>p. P ((e # es) ! (p - k))) (positions (Suc k) es) =
      filter (\<lambda>p. P (es ! (p - Suc k))) (positions (Suc k) es)" for P
    by (rule filter_cong) (auto simp: positions_def Suc_diff_le nth_Cons')
  have eq: "list_all2 (\<lambda>p r. row_of_element ((e # es) ! (p - k)) = Inr r)
        (filter (\<lambda>p. is_kept (es ! (p - Suc k))) (positions (Suc k) es)) rs'"
    using ih by (auto elim!: list.rel_mono_strong simp: positions_def nth_Cons')
  show ?case
  proof (cases rule: read_element_cases[of e k])
    case (1 r w)
    then have k: "is_kept e" by (simp add: is_kept_def)
    have "rs = r # rs'" "ws = w @ ws'" using Cons.prems rec 1(2) by auto
    then show ?thesis using ih eq k 1 unfolding positions_Cons by (simp add: shift[of is_kept] shift[of "\<lambda>e. \<not> is_kept e"])
  next
    case (2 p w)
    then have k: "\<not> is_kept e" by (simp add: is_kept_def)
    have "rs = rs'" "ws = w # ws'" using Cons.prems rec 2(2) by auto
    then show ?thesis using ih eq k 2 unfolding positions_Cons by (simp add: shift[of is_kept] shift[of "\<lambda>e. \<not> is_kept e"])
  qed
qed (simp add: positions_def)

lemma parse_table_read:
  assumes "parse_information_table iterparse doc = Inr t" "iterparse doc = (es, well)"
  shows "well \<and> read_elements 1 es = (it_rows t, it_warnings t)"
  using assms by (auto simp: parse_information_table_def split: if_splits prod.splits)

text \<open>C36. Every element of an information table either is a row, in the order of the document, or is reported
  dropped at its position: nothing disappears between the document and the two lists, and every row kept fits
  the columns it is stored in.\<close>

theorem every_element_kept_or_reported:
  assumes "parse_information_table iterparse doc = Inr t" "iterparse doc = (es, well)"
  shows "length (it_rows t) + length (filter rw_dropped (it_warnings t)) = length es
    \<and> map rw_row (filter rw_dropped (it_warnings t)) = filter (\<lambda>p. \<not> is_kept (es ! (p - 1))) (positions 1 es)
    \<and> list_all2 (\<lambda>p r. row_of_element (es ! (p - 1)) = Inr r) (filter (\<lambda>p. is_kept (es ! (p - 1))) (positions 1 es)) (it_rows t)
    \<and> list_all row_fits (it_rows t)"
proof -
  note a = read_elements_account[OF parse_table_read[OF assms, THEN conjunct2]]
  have "length (filter rw_dropped (it_warnings t)) = length (filter (\<lambda>p. \<not> is_kept (es ! (p - 1))) (positions 1 es))"
    using a[THEN conjunct1] by (metis length_map)
  moreover have "length (it_rows t) = length (filter (\<lambda>p. is_kept (es ! (p - 1))) (positions 1 es))"
    using a[THEN conjunct2] by (simp add: list_all2_lengthD)
  moreover have "list_all row_fits (it_rows t)"
    unfolding list_all_iff
    using a[THEN conjunct2] row_of_element_fits by (fastforce simp: list_all2_conv_all_nth in_set_conv_nth)
  ultimately show ?thesis
    using a sum_length_filter_compl[of "\<lambda>p. is_kept (es ! (p - 1))" "positions 1 es"]
    by (simp add: positions_def del: upt_Suc)
qed

section \<open>Identifiers and dates\<close>

lemma alphabet_plain: "c \<in> set cusip_alphabet \<Longrightarrow> upper_chars c = [c] \<and> c \<noteq> CHR '' '' \<and> c \<noteq> CHR ''-''"
proof -
  have "list_all (\<lambda>c. upper_chars c = [c] \<and> c \<noteq> CHR '' '' \<and> c \<noteq> CHR ''-'') cusip_alphabet" by code_simp
  then show "c \<in> set cusip_alphabet \<Longrightarrow> upper_chars c = [c] \<and> c \<noteq> CHR '' '' \<and> c \<noteq> CHR ''-''"
    by (simp add: list_all_iff)
qed

text \<open>A CUSIP as stored reads back as itself.\<close>

lemma cusip_of_stored:
  assumes "cusip_of v = Inr c"
  shows "cusip_of c = Inr c"
proof -
  have c: "length c = cusip_width" "set c \<subseteq> set cusip_alphabet" using cusip_of_InrD[OF assms] by auto
  have "py_upper s = s" if "set s \<subseteq> set cusip_alphabet" for s
    using that by (induction s) (auto simp: py_upper_def dest!: alphabet_plain)
  moreover have "remove_char CHR ''-'' (remove_char CHR '' '' c) = c"
    using c(2) alphabet_plain by (auto simp: remove_char_def filter_id_conv)
  ultimately show ?thesis using c by (auto simp: cusip_of_def Let_def cusip_width_def)
qed

text \<open>A CIK of up to ten digits is stored as its ten digits, a negative number too.\<close>

lemma length_show_nat: "n < 10 ^ Suc w \<Longrightarrow> length (show_nat n) \<le> Suc w"
proof (induction w arbitrary: n)
  case (Suc w)
  then have "n div 10 < 10 ^ Suc w" by (simp add: less_mult_imp_div_less mult.commute)
  from Suc.IH[OF this] show ?case by (subst show_nat.simps) simp
qed (subst show_nat.simps, simp)

lemma padded_cik_number:
  assumes "py_int v = Some (int n)" "n < 10 ^ 10"
  shows "padded_cik v = Inr (replicate (10 - length (show_nat n)) CHR ''0'' @ show_nat n)"
  using assms(1) length_show_nat[of n 9] assms(2)
  by (simp add: padded_cik_def zero_padded_def Let_def cik_width_def)

lemma negative_number_is_a_cik: "padded_cik ''-5'' = Inr ''-000000005''"
  by code_simp

definition american :: "date \<Rightarrow> string" where
  "american d = pad_digits 2 (nat (month d)) @ ''-'' @ pad_digits 2 (nat (day d)) @ ''-'' @ pad_digits 4 (nat (year d))"

lemma pad_digits_are_decimal: "c \<in> set (pad_digits w n) \<Longrightarrow> is_decimal c"
  by (induction w arbitrary: n) auto

lemma pad_digits_no_dash: "CHR ''-'' \<notin> set (pad_digits w n)"
  using pad_digits_are_decimal[of "CHR ''-''" w n] by (auto simp: digit_val_def)

lemma pad_digits_value: "n < 10 ^ w \<Longrightarrow> digits_value (pad_digits w n) = int n"
  using read_pad_digits_acc[of n w 0] by (simp add: digits_value_read)

lemma pad_digits_all_decimal: "all_decimal (pad_digits w n)"
  unfolding all_decimal_def list_all_iff using pad_digits_are_decimal by blast

lemma split_three: "CHR ''-'' \<notin> set a \<Longrightarrow> CHR ''-'' \<notin> set b \<Longrightarrow> CHR ''-'' \<notin> set c \<Longrightarrow>
    split_on CHR ''-'' (a @ ''-'' @ b @ ''-'' @ c) = [a, b, c]"
  by (simp add: split_on_append split_on_free)

lemma strp_parts_padded:
  assumes "valid_date d"
  shows "strp_parts (pad_digits 4 (nat (year d))) (pad_digits 2 (nat (month d))) (pad_digits 2 (nat (day d))) = Some d"
proof -
  have r: "nat (year d) < 10 ^ 4" "nat (month d) < 10 ^ 2" "nat (day d) < 10 ^ 2"
    "1 \<le> month d" "month d \<le> 12" "1 \<le> day d" "day d \<le> 31" "1 \<le> year d"
    using assms month_days_bounds(2)[of "year d" "month d"] by (auto simp: valid_date_def)
  have n: "pad_digits 2 m \<noteq> []" for m using length_pad_digits[of 2 m] by (metis list.size(3) zero_neq_numeral)
  have h: "hd (pad_digits 2 m) \<noteq> CHR '' ''" for m
    using pad_digits_are_decimal[of "hd (pad_digits 2 m)" 2 m] n[of m] by (auto simp: digit_val_def)
  have "strp_year (pad_digits 4 (nat (year d))) = Some (year d)" "strp_month (pad_digits 2 (nat (month d))) = Some (month d)"
    "strp_day (pad_digits 2 (nat (day d))) = Some (day d)"
    using r n h by (simp_all add: strp_year_def strp_month_def strp_day_def pad_digits_value pad_digits_all_decimal del: pad_digits.simps)
  then show ?thesis using assms by (simp add: strp_parts_def)
qed

text \<open>A day of the cover page reads back from either spelling EDGAR uses, the American one and the ISO one, and
  neither is taken for the other.\<close>

theorem cover_date_roundtrip:
  assumes "valid_date d"
  shows "as_date (american d) f = Inr d \<and> as_date (isoformat d) f = Inr d"
proof
  note no = pad_digits_no_dash
  show "as_date (american d) f = Inr d"
    unfolding as_date_def american_def split_three[OF no no no] using strp_parts_padded[OF assms] by simp
  have "strp_year (pad_digits 2 m) = None" for m by (simp add: strp_year_def)
  then have "strp_parts (pad_digits 2 (nat (day d))) a b = None" for a b
    unfolding strp_parts_def by (simp del: pad_digits.simps)
  then show "as_date (isoformat d) f = Inr d"
    unfolding as_date_def isoformat_def split_three[OF no no no] using strp_parts_padded[OF assms] by simp
qed

section \<open>A table\<close>

abbreviation leaf :: "string \<Rightarrow> string \<Rightarrow> xml" where "leaf t x \<equiv> Element t (Some x) []"

definition sample_info :: "string \<Rightarrow> string \<Rightarrow> string \<Rightarrow> xml" where
  "sample_info cusip value shares =
     Element ''{ns}infoTable'' None
       [leaf ''{ns}cusip'' cusip, Other_node, leaf ''{ns}value'' value, leaf ''{ns}figi'' ''N/A'',
        Element ''{ns}shrsOrPrnAmt'' (Some '' '') [leaf ''{ns}sshPrnamt'' shares, leaf ''{ns}sshPrnamtType'' ''sh'']]"

definition sample_infos :: "xml list" where
  "sample_infos = [sample_info ''37833-10-0'' ''1,200'' ''10'', sample_info ''594918104'' ''-5'' ''1'',
     sample_info ''594918104'' ''77'' ''2.5'']"

definition sample_info_table :: info_table where
  "sample_info_table = (case read_elements 1 sample_infos of (rs, ws) \<Rightarrow> \<lparr>it_rows = rs, it_warnings = ws\<rparr>)"

lemma sample_info_table_read: "parse_information_table (\<lambda>doc. (sample_infos, True)) [] = Inr sample_info_table"
  by (simp add: parse_information_table_def sample_info_table_def split: prod.splits)

definition sample_row :: "string \<Rightarrow> rat \<Rightarrow> rat \<Rightarrow> info_row" where
  "sample_row cusip value shares =
     \<lparr>ir_name_of_issuer = None, ir_title_of_class = None, ir_cusip = cusip, ir_figi = None, ir_value = value,
      ir_shares = shares, ir_sh_prn = SH, ir_put_call = None, ir_discretion = None, ir_other_managers = None,
      ir_voting_sole = None, ir_voting_shared = None, ir_voting_none = None\<rparr>"

definition bad_figi :: "nat \<Rightarrow> string \<Rightarrow> row_warning" where
  "bad_figi p cusip = \<lparr>rw_row = p, rw_field = ''figi'', rw_problem = Expected_figi, rw_value = Some ''N/A'',
     rw_cusip = Some cusip, rw_dropped = False\<rparr>"

lemma sample_info_table_is:
  "sample_info_table =
     \<lparr>it_rows = [sample_row ''037833100'' 1200 10, sample_row ''594918104'' 77 (5 / 2)],
      it_warnings = [bad_figi 1 ''037833100'',
        \<lparr>rw_row = 2, rw_field = ''value'', rw_problem = Expected_non_negative, rw_value = Some ''-5'',
         rw_cusip = Some ''594918104'', rw_dropped = True\<rparr>,
        bad_figi 3 ''594918104'']\<rparr>"
  by code_simp

lemma every_element_kept_or_reported_witness:
  "length (it_rows sample_info_table) + length (filter rw_dropped (it_warnings sample_info_table)) = 3
    \<and> list_all row_fits (it_rows sample_info_table)
    \<and> map ir_cusip (it_rows sample_info_table) = [''037833100'', ''594918104'']
    \<and> map (\<lambda>w. (rw_row w, rw_field w, rw_dropped w)) (it_warnings sample_info_table) =
        [(1, ''figi'', False), (2, ''value'', True), (3, ''figi'', False)]"
proof -
  have "length sample_infos = 3" by (simp add: sample_infos_def)
  then have "length (it_rows sample_info_table) + length (filter rw_dropped (it_warnings sample_info_table)) = 3"
    "list_all row_fits (it_rows sample_info_table)"
    using every_element_kept_or_reported[OF sample_info_table_read refl] by simp_all
  then show ?thesis by (simp add: sample_info_table_is sample_row_def bad_figi_def)
qed

lemma cover_date_roundtrip_witness:
  "as_date ''05-15-2024'' ''periodOfReport'' = Inr (Date 2024 5 15) \<and> as_date ''2024-05-15'' ''periodOfReport'' = Inr (Date 2024 5 15)"
proof -
  have "american (Date 2024 5 15) = ''05-15-2024''" "isoformat (Date 2024 5 15) = ''2024-05-15''" "valid_date (Date 2024 5 15)"
    by code_simp+
  then show ?thesis using cover_date_roundtrip[of "Date 2024 5 15" "''periodOfReport''"] by simp
qed

end
