(* ===== verification/Normalisation.thy ===== *)
theory Normalisation
  imports ThirteenF
begin

text \<open>
  \<open>app/ingestion/normalisation.py\<close>: a parsed 13F in whole dollars and the guards that decide whether it is
  believed. A note is its kind, its row, its CUSIP and its two numbers; the sentence it carries is not modelled.
\<close>

section \<open>Units\<close>

definition dollar_cutover :: date where "dollar_cutover = Date 2023 1 3"

text \<open>Midnight of that day, five hours behind UTC.\<close>

definition cutover_instant :: moment where
  "cutover_instant = midnight_utc dollar_cutover + 5 * (day_us div 24)"

definition min_implied_price :: rat where "min_implied_price = 1 / 100"
definition max_implied_price :: rat where "max_implied_price = 100000"
definition checksum_tolerance :: rat where "checksum_tolerance = 1 / 100"
definition max_noted_rows :: nat where "max_noted_rows = 25"
definition quantity_fields :: "string list" where
  "quantity_fields = [''value'', ''sshPrnamt'', ''Sole'', ''Shared'', ''None'']"

datatype normalise_error = Naive_timestamp | Invalid_operation

text \<open>A time without a zone is \<open>None\<close>.\<close>

definition resolve_value_multiplier :: "moment option \<Rightarrow> normalise_error + int" where
  "resolve_value_multiplier filed_at =
     (case filed_at of None \<Rightarrow> Inl Naive_timestamp | Some t \<Rightarrow> Inr (if cutover_instant \<le> t then 1 else 1000))"

section \<open>Notes\<close>

datatype severity = Error_note | Warning_note

datatype note_kind = Implied_price | Entry_count | Value_total | Negative_quantity | Cusip_format | Dropped_row

definition severity_of :: "note_kind \<Rightarrow> severity" where
  "severity_of k = (if k = Dropped_row then Warning_note else Error_note)"

record parse_note =
  pn_kind :: note_kind
  pn_row :: "nat option"
  pn_cusip :: "string option"
  pn_observed :: "rat option"
  pn_expected :: "rat option"

record normalised_holding =
  nh_row :: info_row
  nh_value_usd :: rat

definition implied_price :: "normalised_holding \<Rightarrow> rat option" where
  "implied_price h =
     (if ir_shares (nh_row h) = 0 \<or> nh_value_usd h = 0 then None
      else Some (dec_div (nh_value_usd h) (ir_shares (nh_row h))))"

record normalised_filing =
  nf_multiplier :: int
  nf_holdings :: "normalised_holding list"
  nf_status :: parse_status
  nf_notes :: "parse_note list"

definition stored_notes :: "normalised_filing \<Rightarrow> parse_note list option" where
  "stored_notes f = (if nf_notes f = [] then None else Some (nf_notes f))"

definition capped :: "note_kind \<Rightarrow> nat \<Rightarrow> parse_note list \<Rightarrow> parse_note list" where
  "capped kind all notes =
     (if length notes \<le> max_noted_rows then notes
      else take max_noted_rows notes @
        [\<lparr>pn_kind = kind, pn_row = None, pn_cusip = None, pn_observed = Some (of_nat (length notes)),
           pn_expected = Some (of_nat all)\<rparr>])"

section \<open>The guards\<close>

type_synonym placed = "nat \<times> normalised_holding"

text \<open>
  The positions of the rows that were kept: as many as there are rows of the numbers that are no dropped row's,
  which are found before as many numbers as there are rows and dropped rows.
\<close>

definition dropped_warnings :: "info_table \<Rightarrow> row_warning list" where
  "dropped_warnings t = filter rw_dropped (it_warnings t)"

definition document_rows :: "info_table \<Rightarrow> nat list" where
  "document_rows t =
     (let gone = set (map rw_row (dropped_warnings t)) in
      take (length (it_rows t))
        (filter (\<lambda>p. p \<notin> gone) [1..<1 + length (it_rows t) + length (dropped_warnings t)]))"

definition implausible :: "normalised_holding \<Rightarrow> bool" where
  "implausible h = (ir_sh_prn (nh_row h) = SH \<and>
     (case implied_price h of None \<Rightarrow> False | Some p \<Rightarrow> \<not> (min_implied_price \<le> p \<and> p \<le> max_implied_price)))"

definition implied_price_notes :: "placed list \<Rightarrow> parse_note list" where
  "implied_price_notes ps =
     capped Implied_price (length ps)
       (map (\<lambda>(p, h). \<lparr>pn_kind = Implied_price, pn_row = Some p, pn_cusip = Some (ir_cusip (nh_row h)),
           pn_observed = implied_price h, pn_expected = None\<rparr>)
         (filter (\<lambda>(p, h). implausible h) ps))"

definition entry_notes :: "primary_doc \<Rightarrow> normalised_holding list \<Rightarrow> parse_note list" where
  "entry_notes cover hs =
     (case pd_entry_total cover of
        None \<Rightarrow> []
      | Some n \<Rightarrow>
          if int (length hs) \<noteq> n
          then [\<lparr>pn_kind = Entry_count, pn_row = None, pn_cusip = None, pn_observed = Some (of_nat (length hs)),
                  pn_expected = Some (of_int n)\<rparr>]
          else [])"

definition off_total :: "rat \<Rightarrow> rat \<Rightarrow> bool" where
  "off_total summed declared = (\<bar>dec_sub summed declared\<bar> > dec_mul declared checksum_tolerance)"

definition value_notes :: "primary_doc \<Rightarrow> normalised_holding list \<Rightarrow> int \<Rightarrow> normalise_error + parse_note list" where
  "value_notes cover hs multiplier =
     (case pd_value_total cover of
        None \<Rightarrow> Inr []
      | Some n \<Rightarrow>
          (case quantize_cents (dec_mul (of_int n) (of_int multiplier)) of
             None \<Rightarrow> Inl Invalid_operation
           | Some declared \<Rightarrow>
               let summed = dec_sum (map nh_value_usd hs) in
               Inr (if off_total summed declared
                    then [\<lparr>pn_kind = Value_total, pn_row = None, pn_cusip = None, pn_observed = Some summed,
                            pn_expected = Some declared\<rparr>]
                    else [])))"

definition checksum_notes :: "primary_doc \<Rightarrow> normalised_holding list \<Rightarrow> int \<Rightarrow> normalise_error + parse_note list" where
  "checksum_notes cover hs multiplier = map_res (\<lambda>vs. entry_notes cover hs @ vs) (value_notes cover hs multiplier)"

definition is_negative :: "string option \<Rightarrow> bool" where
  "is_negative text =
     (case text of
        None \<Rightarrow> False
      | Some s \<Rightarrow> (case py_decimal (remove_char CHR '','' s) of Some (DFin x) \<Rightarrow> x < 0 | _ \<Rightarrow> False))"

definition dropped_row_kind :: "row_warning \<Rightarrow> note_kind" where
  "dropped_row_kind w =
     (if rw_field w = ''cusip'' then Cusip_format
      else if rw_field w \<in> set quantity_fields \<and> is_negative (rw_value w) then Negative_quantity
      else Dropped_row)"

definition dropped_of :: "info_table \<Rightarrow> note_kind \<Rightarrow> row_warning list" where
  "dropped_of t kind = filter (\<lambda>w. rw_dropped w \<and> dropped_row_kind w = kind) (it_warnings t)"

definition dropped_note :: "note_kind \<Rightarrow> row_warning \<Rightarrow> parse_note" where
  "dropped_note kind w =
     \<lparr>pn_kind = kind, pn_row = Some (rw_row w), pn_cusip = rw_cusip w, pn_observed = None, pn_expected = None\<rparr>"

definition row_count :: "info_table \<Rightarrow> nat" where
  "row_count t = length (it_rows t) + length (dropped_warnings t)"

definition is_cusip :: "string \<Rightarrow> bool" where
  "is_cusip s = (length s = 9 \<and> list_all (\<lambda>c. code c < 128 \<and> is_alnum_char c) s)"

definition negative_quantity_notes :: "info_table \<Rightarrow> parse_note list" where
  "negative_quantity_notes t =
     capped Negative_quantity (row_count t) (map (dropped_note Negative_quantity) (dropped_of t Negative_quantity))"

definition note_position :: "parse_note \<Rightarrow> nat" where
  "note_position n = (case pn_row n of None \<Rightarrow> 0 | Some r \<Rightarrow> r)"

definition cusip_notes :: "info_table \<Rightarrow> placed list \<Rightarrow> parse_note list" where
  "cusip_notes t ps =
     (let kept = map (\<lambda>(p, h). \<lparr>pn_kind = Cusip_format, pn_row = Some p, pn_cusip = Some (ir_cusip (nh_row h)),
                       pn_observed = None, pn_expected = None\<rparr>)
                   (filter (\<lambda>(p, h). \<not> is_cusip (ir_cusip (nh_row h))) ps);
          gone = map (dropped_note Cusip_format) (dropped_of t Cusip_format)
      in capped Cusip_format (row_count t) (sort_key note_position (kept @ gone)))"

definition dropped_row_notes :: "info_table \<Rightarrow> parse_note list" where
  "dropped_row_notes t = capped Dropped_row (row_count t) (map (dropped_note Dropped_row) (dropped_of t Dropped_row))"

section \<open>A filing\<close>

definition in_dollars :: "int \<Rightarrow> info_row \<Rightarrow> normalise_error + normalised_holding" where
  "in_dollars multiplier r =
     (case quantize_cents (dec_mul (ir_value r) (of_int multiplier)) of
        None \<Rightarrow> Inl Invalid_operation
      | Some v \<Rightarrow> Inr \<lparr>nh_row = r, nh_value_usd = v\<rparr>)"

definition verdict :: "parse_note list \<Rightarrow> parse_status" where
  "verdict notes = (if \<exists>n \<in> set notes. severity_of (pn_kind n) = Error_note then Suspect else Parsed_ok)"

definition normalise_filing :: "moment option \<Rightarrow> primary_doc \<Rightarrow> info_table \<Rightarrow> normalise_error + normalised_filing" where
  "normalise_filing filed_at cover t =
     bind_res (resolve_value_multiplier filed_at) (\<lambda>multiplier.
     bind_res (mapM_res (in_dollars multiplier) (it_rows t)) (\<lambda>hs.
     bind_res (checksum_notes cover hs multiplier) (\<lambda>checks.
       let ps = zip (document_rows t) hs;
           notes = implied_price_notes ps @ checks @ negative_quantity_notes t @ cusip_notes t ps @ dropped_row_notes t
       in Inr \<lparr>nf_multiplier = multiplier, nf_holdings = hs, nf_status = verdict notes, nf_notes = notes\<rparr>)))"

section \<open>Where the rows are\<close>

lemma length_not_in:
  assumes "finite G" "card G \<le> m"
  shows "n \<le> length (filter (\<lambda>p. p \<notin> G) [k..<k + n + m])"
proof -
  have "n + m = length (filter (\<lambda>p. p \<notin> G) [k..<k + n + m]) + length (filter (\<lambda>p. p \<in> G) [k..<k + n + m])"
    using sum_length_filter_compl[of "\<lambda>p. p \<notin> G" "[k..<k + n + m]"] by simp
  moreover have "length (filter (\<lambda>p. p \<in> G) [k..<k + n + m]) \<le> card G"
    using assms(1) by (subst distinct_card[symmetric]) (auto intro: card_mono)
  ultimately show ?thesis using assms(2) by linarith
qed

lemma length_document_rows: "length (document_rows t) = length (it_rows t)"
  using length_not_in[of "set (map rw_row (dropped_warnings t))" "length (dropped_warnings t)" "length (it_rows t)" 1]
    card_length[of "map rw_row (dropped_warnings t)"]
  by (simp add: document_rows_def Let_def del: upt_Suc)

lemma document_rows_kept:
  assumes "parse_information_table iterparse doc = Inr t" "iterparse doc = (es, well)"
  shows "document_rows t = filter (\<lambda>p. is_kept (es ! (p - 1))) (positions 1 es)"
proof -
  note a = read_elements_account[OF parse_table_read[OF assms, THEN conjunct2]]
  have gone: "map rw_row (dropped_warnings t) = filter (\<lambda>p. \<not> is_kept (es ! (p - 1))) (positions 1 es)"
    using a by (simp add: dropped_warnings_def)
  have rows: "length (it_rows t) = length (filter (\<lambda>p. is_kept (es ! (p - 1))) (positions 1 es))"
    using list_all2_lengthD[OF a[THEN conjunct2]] by simp
  have "length (dropped_warnings t) = length (filter (\<lambda>p. \<not> is_kept (es ! (p - 1))) (positions 1 es))"
    using gone by (metis length_map)
  then have "length (it_rows t) + length (dropped_warnings t) = length es"
    using rows sum_length_filter_compl[of "\<lambda>p. is_kept (es ! (p - 1))" "positions 1 es"]
    by (simp add: positions_def del: upt_Suc)
  then have "[1..<1 + length (it_rows t) + length (dropped_warnings t)] = positions 1 es"
    by (simp add: positions_def add.assoc del: upt_Suc)
  moreover have "filter (\<lambda>p. p \<notin> set (map rw_row (dropped_warnings t))) (positions 1 es) =
      filter (\<lambda>p. is_kept (es ! (p - 1))) (positions 1 es)"
    unfolding gone by (rule filter_cong) auto
  ultimately show ?thesis using rows by (simp add: document_rows_def Let_def del: upt_Suc)
qed

lemma in_dollars_row: "in_dollars m r = Inr h \<Longrightarrow> nh_row h = r"
  by (auto simp: in_dollars_def split: option.splits)

lemma normalise_filing_InrD:
  assumes "normalise_filing filed_at cover t = Inr nf"
  obtains checks where
    "resolve_value_multiplier filed_at = Inr (nf_multiplier nf)"
    "mapM_res (in_dollars (nf_multiplier nf)) (it_rows t) = Inr (nf_holdings nf)"
    "checksum_notes cover (nf_holdings nf) (nf_multiplier nf) = Inr checks"
    "nf_notes nf = implied_price_notes (zip (document_rows t) (nf_holdings nf)) @ checks @ negative_quantity_notes t @
       cusip_notes t (zip (document_rows t) (nf_holdings nf)) @ dropped_row_notes t"
    "nf_status nf = verdict (nf_notes nf)"
proof -
  from assms obtain m hs checks where h: "resolve_value_multiplier filed_at = Inr m"
    "mapM_res (in_dollars m) (it_rows t) = Inr hs" "checksum_notes cover hs m = Inr checks"
    "nf = (let ps = zip (document_rows t) hs;
             notes = implied_price_notes ps @ checks @ negative_quantity_notes t @ cusip_notes t ps @ dropped_row_notes t
           in \<lparr>nf_multiplier = m, nf_holdings = hs, nf_status = verdict notes, nf_notes = notes\<rparr>)"
    unfolding normalise_filing_def bind_res_Inr_iff Let_def by blast
  show ?thesis using that[of checks] h by (simp add: Let_def)
qed

lemma holdings_rows:
  assumes "mapM_res (in_dollars m) rs = Inr hs"
  shows "map nh_row hs = rs"
proof -
  have "list_all2 (\<lambda>r h. nh_row h = r) rs hs"
    using mapM_res_InrD[OF assms] by (rule list.rel_mono_strong) (rule in_dollars_row)
  then show ?thesis by (induction rule: list_all2_induct) auto
qed

lemma holdings_length: "mapM_res (in_dollars m) rs = Inr hs \<Longrightarrow> length hs = length rs"
  using holdings_rows by fastforce

text \<open>From document to notes: the position a note gives for a row is where the element it was read from is in the
  document, however many elements before it were dropped.\<close>

theorem notes_point_at_their_element:
  assumes "parse_information_table iterparse doc = Inr t" "iterparse doc = (es, well)"
    and "normalise_filing filed_at cover t = Inr nf"
  shows "\<forall>(p, h) \<in> set (zip (document_rows t) (nf_holdings nf)). 1 \<le> p \<and> p \<le> length es
      \<and> row_of_element (es ! (p - 1)) = Inr (nh_row h)"
proof -
  obtain checks where r: "mapM_res (in_dollars (nf_multiplier nf)) (it_rows t) = Inr (nf_holdings nf)"
    using normalise_filing_InrD[OF assms(3)] by metis
  have "list_all2 (\<lambda>p r. row_of_element (es ! (p - 1)) = Inr r) (document_rows t) (map nh_row (nf_holdings nf))"
    using read_elements_account[OF parse_table_read[OF assms(1,2), THEN conjunct2]]
    unfolding document_rows_kept[OF assms(1,2)] holdings_rows[OF r] by blast
  then have "row_of_element (es ! (p - 1)) = Inr (nh_row h)" if "(p, h) \<in> set (zip (document_rows t) (nf_holdings nf))" for p h
    using that by (auto simp: list_all2_map2 dest: list_all2_iff[THEN iffD1])
  moreover have "1 \<le> p \<and> p \<le> length es" if "(p, h) \<in> set (zip (document_rows t) (nf_holdings nf))" for p h
    using set_zip_leftD[OF that] by (auto simp: document_rows_kept[OF assms(1,2)] positions_def)
  ultimately show ?thesis by blast
qed

section \<open>The verdict\<close>

lemma capped_kinds:
  assumes "\<forall>n \<in> set ns. pn_kind n = k"
  shows "(\<exists>n \<in> set (capped k all ns). severity_of (pn_kind n) = Error_note) \<longleftrightarrow> k \<noteq> Dropped_row \<and> ns \<noteq> []"
proof (cases "length ns \<le> max_noted_rows")
  case True
  then show ?thesis using assms by (cases ns) (auto simp: capped_def severity_of_def)
next
  case False
  then have "ns \<noteq> []" by (auto simp: max_noted_rows_def)
  moreover have "\<forall>n \<in> set (capped k all ns). pn_kind n = k" "capped k all ns \<noteq> []"
    using assms False by (auto simp: capped_def dest: in_set_takeD)
  ultimately show ?thesis by (cases "capped k all ns") (auto simp: severity_of_def)
qed

lemma verdict_append: "verdict (xs @ ys) = Suspect \<longleftrightarrow> verdict xs = Suspect \<or> verdict ys = Suspect"
  by (auto simp: verdict_def)

lemma verdict_capped:
  "\<forall>n \<in> set ns. pn_kind n = k \<Longrightarrow> verdict (capped k all ns) = Suspect \<longleftrightarrow> k \<noteq> Dropped_row \<and> ns \<noteq> []"
  using capped_kinds[of ns k all] by (simp add: verdict_def)

lemma implied_price_verdict: "verdict (implied_price_notes ps) = Suspect \<longleftrightarrow> (\<exists>(p, h) \<in> set ps. implausible h)"
proof -
  have "verdict (implied_price_notes ps) = Suspect \<longleftrightarrow> filter (\<lambda>(p, h). implausible h) ps \<noteq> []"
    unfolding implied_price_notes_def by (subst verdict_capped) auto
  then show ?thesis by (auto simp: filter_empty_conv)
qed

lemma negative_verdict: "verdict (negative_quantity_notes t) = Suspect \<longleftrightarrow> dropped_of t Negative_quantity \<noteq> []"
  unfolding negative_quantity_notes_def by (subst verdict_capped) (auto simp: dropped_note_def)

lemma dropped_verdict: "verdict (dropped_row_notes t) \<noteq> Suspect"
  unfolding dropped_row_notes_def by (subst verdict_capped) (auto simp: dropped_note_def)

lemma cusip_verdict:
  "verdict (cusip_notes t ps) = Suspect \<longleftrightarrow>
     (\<exists>(p, h) \<in> set ps. \<not> is_cusip (ir_cusip (nh_row h))) \<or> dropped_of t Cusip_format \<noteq> []"
proof -
  have "verdict (cusip_notes t ps) = Suspect \<longleftrightarrow>
      filter (\<lambda>(p, h). \<not> is_cusip (ir_cusip (nh_row h))) ps \<noteq> [] \<or> dropped_of t Cusip_format \<noteq> []"
    unfolding cusip_notes_def Let_def by (subst verdict_capped) (auto simp: dropped_note_def simp flip: set_empty2)
  then show ?thesis by (auto simp: filter_empty_conv)
qed

lemma entry_verdict: "verdict (entry_notes cover hs) = Suspect \<longleftrightarrow> (\<exists>n. pd_entry_total cover = Some n \<and> int (length hs) \<noteq> n)"
  by (cases "pd_entry_total cover") (simp_all add: entry_notes_def verdict_def severity_of_def)

text \<open>The total declared, in dollars.\<close>

definition declared_total :: "primary_doc \<Rightarrow> int \<Rightarrow> rat option" where
  "declared_total cover m =
     Option.bind (pd_value_total cover) (\<lambda>n. quantize_cents (dec_mul (of_int n) (of_int m)))"

lemma value_verdict:
  "value_notes cover hs m = Inr vs \<Longrightarrow> verdict vs = Suspect \<longleftrightarrow>
     (\<exists>d. declared_total cover m = Some d \<and> off_total (dec_sum (map nh_value_usd hs)) d)"
  by (auto simp: value_notes_def declared_total_def verdict_def severity_of_def Let_def split: option.splits if_splits)

text \<open>C37. A filing is suspect exactly when a guard fails: a share price out of range, as many rows as the cover page
  does not declare, a sum away from its total, a row dropped for a negative quantity, or a CUSIP, kept or dropped,
  that is not nine letters and digits. The cap on the notes never hides a failure, and a row dropped for
  another reason never makes one.\<close>

theorem suspect_exactly:
  assumes "normalise_filing filed_at cover t = Inr nf"
  shows "nf_status nf = Suspect \<longleftrightarrow>
      (\<exists>h \<in> set (nf_holdings nf). implausible h)
    \<or> (\<exists>n. pd_entry_total cover = Some n \<and> int (length (it_rows t)) \<noteq> n)
    \<or> (\<exists>d. declared_total cover (nf_multiplier nf) = Some d \<and> off_total (dec_sum (map nh_value_usd (nf_holdings nf))) d)
    \<or> dropped_of t Negative_quantity \<noteq> []
    \<or> (\<exists>r \<in> set (it_rows t). \<not> is_cusip (ir_cusip r)) \<or> dropped_of t Cusip_format \<noteq> []"
proof -
  obtain checks where r: "mapM_res (in_dollars (nf_multiplier nf)) (it_rows t) = Inr (nf_holdings nf)"
    "checksum_notes cover (nf_holdings nf) (nf_multiplier nf) = Inr checks"
    "nf_notes nf = implied_price_notes (zip (document_rows t) (nf_holdings nf)) @ checks @ negative_quantity_notes t @
       cusip_notes t (zip (document_rows t) (nf_holdings nf)) @ dropped_row_notes t"
    "nf_status nf = verdict (nf_notes nf)"
    using normalise_filing_InrD[OF assms] by metis
  let ?hs = "nf_holdings nf" and ?ps = "zip (document_rows t) (nf_holdings nf)"
  obtain vs where v: "checks = entry_notes cover ?hs @ vs" "value_notes cover ?hs (nf_multiplier nf) = Inr vs"
    using r(2) by (auto simp: checksum_notes_def map_res_Inr_iff)
  have len: "length (document_rows t) = length ?hs" "length ?hs = length (it_rows t)"
    using length_document_rows holdings_length[OF r(1)] by simp_all
  have pairs: "(\<exists>(p, h) \<in> set ?ps. P h) \<longleftrightarrow> (\<exists>h \<in> set ?hs. P h)" for P
  proof -
    have "(\<exists>(p, h) \<in> set ?ps. P h) \<longleftrightarrow> (\<exists>h \<in> set (map snd ?ps). P h)" by force
    then show ?thesis unfolding map_snd_zip[OF len(1)] .
  qed
  have rows: "(\<exists>h \<in> set ?hs. P (nh_row h)) \<longleftrightarrow> (\<exists>r \<in> set (it_rows t). P r)" for P
    unfolding holdings_rows[OF r(1), symmetric] by simp
  show ?thesis
    unfolding r(3,4) v(1) verdict_append implied_price_verdict entry_verdict value_verdict[OF v(2)] negative_verdict cusip_verdict
      pairs rows[of "\<lambda>r. \<not> is_cusip (ir_cusip r)"] len(2)
    using dropped_verdict[of t] by blast
qed

section \<open>How much is noted\<close>

lemma length_capped: "length (capped k all ns) \<le> Suc max_noted_rows"
  by (simp add: capped_def)

text \<open>However wrong a filing is its notes are few: for each of the four guards over rows at most 25 and their
  count, and one each for the two totals.\<close>

theorem notes_are_few:
  assumes "normalise_filing filed_at cover t = Inr nf"
  shows "length (nf_notes nf) \<le> 4 * Suc max_noted_rows + 2"
proof -
  obtain checks where r: "checksum_notes cover (nf_holdings nf) (nf_multiplier nf) = Inr checks"
    "nf_notes nf = implied_price_notes (zip (document_rows t) (nf_holdings nf)) @ checks @ negative_quantity_notes t @
       cusip_notes t (zip (document_rows t) (nf_holdings nf)) @ dropped_row_notes t"
    using normalise_filing_InrD[OF assms] by metis
  have "length checks \<le> 2"
    using r(1) by (auto simp: checksum_notes_def map_res_Inr_iff entry_notes_def value_notes_def Let_def split: option.splits if_splits)
  moreover have "length (implied_price_notes ps) \<le> Suc max_noted_rows" "length (cusip_notes t ps) \<le> Suc max_noted_rows" for ps
    unfolding implied_price_notes_def cusip_notes_def Let_def by (rule length_capped)+
  moreover have "length (negative_quantity_notes t) \<le> Suc max_noted_rows" "length (dropped_row_notes t) \<le> Suc max_noted_rows"
    unfolding negative_quantity_notes_def dropped_row_notes_def by (rule length_capped)+
  note bounds = calculation this
  show ?thesis unfolding r(2) length_append
    using bounds(1) bounds(2)[of "zip (document_rows t) (nf_holdings nf)"] bounds(3)[of "zip (document_rows t) (nf_holdings nf)"] bounds(4,5)
    by presburger
qed

section \<open>Every filing loads in dollars\<close>

text \<open>Values in cents that neither the multiplier nor the context can take past 28 digits.\<close>

definition sane_amount :: "rat \<Rightarrow> bool" where
  "sane_amount x \<longleftrightarrow> (\<exists>c. x * 100 = of_int c) \<and> \<bar>x\<bar> < 10 ^ 22"

lemma sane_amount_scaled:
  assumes "sane_amount x" "m = 1 \<or> m = 1000"
  shows "quantize_cents (dec_mul x (of_int m)) = Some (x * of_int m)"
proof -
  obtain c where c: "x * 100 = of_int c" "\<bar>x\<bar> < 10 ^ 22" using assms(1) by (auto simp: sane_amount_def)
  have "of_int \<bar>c\<bar> = \<bar>x\<bar> * 100" using c(1) by (simp flip: c(1) add: abs_mult)
  also have "\<dots> < of_int (10 ^ 24)" using c(2) by simp
  finally have b: "\<bar>c\<bar> < 10 ^ 24" unfolding of_int_less_iff .
  have e: "x * of_int m * 10 ^ 2 = of_int (c * m)" using c(1) by (simp add: mult.commute mult.left_commute)
  have m: "\<bar>c * m\<bar> < 10 ^ context_digits" using b assms(2) by (auto simp: abs_mult context_digits_def)
  have "dec_mul x (of_int m) = x * of_int m" unfolding dec_mul_def by (rule dec_fix_exact[OF e m])
  then show ?thesis using quantize_cents_exact[OF _ m, of "x * of_int m"] e by simp
qed

lemma loads_in_dollars:
  assumes "list_all (\<lambda>r. sane_amount (ir_value r)) (it_rows t)"
    and "pd_value_total cover = None \<or> sane_amount (of_int (the (pd_value_total cover)))"
  shows "\<exists>nf. normalise_filing (Some filed) cover t = Inr nf
    \<and> map nh_row (nf_holdings nf) = it_rows t
    \<and> map nh_value_usd (nf_holdings nf) =
        map (\<lambda>r. ir_value r * (if cutover_instant \<le> filed then 1 else 1000)) (it_rows t)"
proof -
  let ?m = "if cutover_instant \<le> filed then 1 else 1000 :: int"
  let ?h = "\<lambda>r. \<lparr>nh_row = r, nh_value_usd = ir_value r * of_int ?m\<rparr>"
  have m: "?m = 1 \<or> ?m = 1000" by simp
  have hs: "mapM_res (in_dollars ?m) (it_rows t) = Inr (map ?h (it_rows t))"
    by (rule mapM_res_Inr_map)
      (use assms(1) sane_amount_scaled[OF _ m] in \<open>simp add: in_dollars_def list_all_iff\<close>)
  have "\<exists>vs. value_notes cover hs ?m = Inr vs" for hs
    using assms(2) sane_amount_scaled[OF _ m] by (cases "pd_value_total cover") (auto simp: value_notes_def Let_def)
  then obtain vs where v: "value_notes cover (map ?h (it_rows t)) ?m = Inr vs" by blast
  have e: "resolve_value_multiplier (Some filed) = Inr ?m" by (simp add: resolve_value_multiplier_def)
  have "\<exists>nf. normalise_filing (Some filed) cover t = Inr nf \<and> nf_holdings nf = map ?h (it_rows t)"
    unfolding normalise_filing_def e bind_res_simps hs checksum_notes_def v map_res_simps Let_def by simp
  then show ?thesis by (auto simp: comp_def)
qed

text \<open>A filing whose amounts are in cents and under \<open>10\<^sup>22\<close> always comes back, with every row the parser kept in
  its order, and each value exactly the filed one times 1000 before the cutover and times 1 from it on, whatever
  the guards found.\<close>

theorem every_row_loads_in_dollars:
  assumes "list_all (\<lambda>r. sane_amount (ir_value r)) (it_rows t)"
    and "pd_value_total cover = None \<or> sane_amount (of_int (the (pd_value_total cover)))"
  shows "\<exists>nf. normalise_filing (Some filed) cover t = Inr nf
    \<and> map nh_row (nf_holdings nf) = it_rows t
    \<and> map nh_value_usd (nf_holdings nf) =
        map (\<lambda>r. ir_value r * (if cutover_instant \<le> filed then 1 else 1000)) (it_rows t)"
  using loads_in_dollars[OF assms] .

text \<open>\<open>normalise_filing\<close> is said never to raise on a bad filing. A value the parser reads but 28 digits do not hold
  makes \<open>quantize\<close> raise \<open>InvalidOperation\<close>.\<close>

definition empty_cover :: primary_doc where
  "empty_cover = \<lparr>pd_cik = ''0000000001'', pd_filer_name = ''X'', pd_form_type = ''13F-HR'', pd_period = Date 2024 3 31,
     pd_signature_date = None, pd_amendment_no = None, pd_amendment_kind = None, pd_report_type = None,
     pd_entry_total = Some 2, pd_value_total = Some 1300, pd_other_managers_count = None, pd_confidential_omitted = False\<rparr>"

lemma absurd_row_is_read: "row_of_element (sample_info ''037833100'' ''1e27'' ''1'') = Inr (sample_row ''037833100'' (10 ^ 27) 1)"
  by code_simp

lemma absurd_value_raises:
  "normalise_filing (Some cutover_instant) empty_cover \<lparr>it_rows = [sample_row ''037833100'' (10 ^ 27) 1], it_warnings = ws\<rparr> =
   Inl Invalid_operation"
proof -
  have "in_dollars 1 (sample_row ''037833100'' (10 ^ 27) 1) = Inl Invalid_operation" by code_simp
  then show ?thesis by (simp add: normalise_filing_def resolve_value_multiplier_def)
qed

section \<open>A suspect filing\<close>

lemma sane_int: "\<bar>n\<bar> < 10 ^ 22 \<Longrightarrow> sane_amount (of_int n)"
proof -
  assume "\<bar>n\<bar> < 10 ^ 22"
  then have "of_int \<bar>n\<bar> < (of_int (10 ^ 22) :: rat)" unfolding of_int_less_iff .
  then show ?thesis by (auto simp: sane_amount_def intro!: exI[of _ "n * 100"])
qed

lemma sample_values: "map ir_value (it_rows sample_info_table) = [1200, 77]"
  by (simp add: sample_info_table_is sample_row_def)

lemma sample_sane:
  "list_all (\<lambda>r. sane_amount (ir_value r)) (it_rows sample_info_table)"
  "pd_value_total empty_cover = None \<or> sane_amount (of_int (the (pd_value_total empty_cover)))"
proof -
  have "list_all sane_amount (map ir_value (it_rows sample_info_table))"
    unfolding sample_values using sane_int[of 1200] sane_int[of 77] by simp
  then show "list_all (\<lambda>r. sane_amount (ir_value r)) (it_rows sample_info_table)" by (simp add: list.pred_map comp_def)
qed (use sane_int[of 1300] in \<open>simp add: empty_cover_def\<close>)

lemma sample_normalises:
  obtains nf where "normalise_filing (Some 0) empty_cover sample_info_table = Inr nf"
    "map nh_row (nf_holdings nf) = it_rows sample_info_table"
  using loads_in_dollars[OF sample_sane, of 0] by blast

lemma sample_document_rows: "document_rows sample_info_table = [1, 3]"
  unfolding sample_info_table_is by code_simp

lemma notes_point_at_their_element_witness:
  "\<exists>nf. normalise_filing (Some 0) empty_cover sample_info_table = Inr nf
    \<and> row_of_element (sample_infos ! 2) = Inr (nh_row (nf_holdings nf ! 1))"
proof -
  obtain nf where nf: "normalise_filing (Some 0) empty_cover sample_info_table = Inr nf"
    "map nh_row (nf_holdings nf) = it_rows sample_info_table" by (rule sample_normalises)
  have "length (nf_holdings nf) = length (map ir_value (it_rows sample_info_table))"
    using nf(2) by (metis length_map)
  then have "(3, nf_holdings nf ! 1) \<in> set (zip (document_rows sample_info_table) (nf_holdings nf))"
    unfolding sample_document_rows sample_values by (auto simp: in_set_zip intro!: exI[of _ 1])
  then have "row_of_element (sample_infos ! 2) = Inr (nh_row (nf_holdings nf ! 1))"
    using notes_point_at_their_element[OF sample_info_table_read refl nf(1)] by fastforce
  then show ?thesis using nf(1) by blast
qed

lemma suspect_exactly_witness:
  "\<exists>nf. normalise_filing (Some 0) empty_cover sample_info_table = Inr nf \<and> nf_status nf = Suspect"
proof -
  obtain nf where nf: "normalise_filing (Some 0) empty_cover sample_info_table = Inr nf" by (rule sample_normalises)
  have "dropped_of sample_info_table Negative_quantity \<noteq> []" unfolding sample_info_table_is by code_simp
  then have "nf_status nf = Suspect" using suspect_exactly[OF nf] by blast
  then show ?thesis using nf by blast
qed

lemma notes_are_few_witness:
  "\<exists>nf. normalise_filing (Some 0) empty_cover sample_info_table = Inr nf \<and> length (nf_notes nf) \<le> 106"
proof -
  obtain nf where nf: "normalise_filing (Some 0) empty_cover sample_info_table = Inr nf" by (rule sample_normalises)
  have "length (nf_notes nf) \<le> 106" using notes_are_few[OF nf] by (simp add: max_noted_rows_def)
  then show ?thesis using nf by blast
qed

lemma every_row_loads_in_dollars_witness:
  "\<exists>nf. normalise_filing (Some 0) empty_cover sample_info_table = Inr nf
    \<and> map nh_value_usd (nf_holdings nf) = [1200000, 77000]"
proof -
  have "\<not> cutover_instant \<le> 0" by code_simp
  with every_row_loads_in_dollars[OF sample_sane, of 0]
  obtain nf where "normalise_filing (Some 0) empty_cover sample_info_table = Inr nf"
    "map nh_value_usd (nf_holdings nf) = map (\<lambda>x. x * 1000) (map ir_value (it_rows sample_info_table))"
    by (auto simp: comp_def)
  then show ?thesis unfolding sample_values by auto
qed

end
