(* ===== verification/Loader.thy ===== *)
theory Loader
  imports Normalisation Effective "HOL-Library.Multiset"
begin

text \<open>
  \<open>app/ingestion/loaders/filing.py\<close>: writing a parsed and normalised 13F into the tables, as many times as it is
  asked. The tables are lists in the order they were inserted in; the sequences their ids come from are kept,
  since a conflict and a failure use a number up. The savepoint is what makes a load one step, and a failure inside it
  leaves the tables as they were.
\<close>

section \<open>Rows\<close>

record filing_row =
  fg_id :: int
  fg_accession :: string
  fg_cik :: string
  fg_filer :: "int option"
  fg_form :: string
  fg_period :: date
  fg_filed_at :: moment
  fg_multiplier :: int
  fg_amends :: "int option"
  fg_amendment_no :: "int option"
  fg_kind :: "amendment_kind option"
  fg_report_type :: "string option"
  fg_parsed_at :: "moment option"
  fg_parse_error :: "string option"
  fg_status :: parse_status
  fg_notes :: "parse_note list option"
  fg_raw_key :: "string option"
  fg_source_url :: "string option"
  fg_ingested_at :: moment

record security_row =
  se_id :: int
  se_cusip :: string
  se_name :: "string option"
  se_filed_name :: "string option"
  se_ticker :: "string option"

text \<open>One position of a filing, as the loader builds it, and as the row it is inserted as.\<close>

record stock_position =
  po_cusip :: string
  po_value :: rat
  po_shares :: rat
  po_type :: sh_prn
  po_put_call :: "put_call option"
  po_discretion :: "string option"
  po_sole :: "rat option"
  po_shared :: "rat option"
  po_none :: "rat option"

record holding_row =
  hr_id :: int
  hr_filing :: int
  hr_security :: int
  hr_filer :: int
  hr_period :: date
  hr_position :: stock_position

record load_store =
  ls_links :: "string \<Rightarrow> int option"
  ls_filings :: "filing_row list"
  ls_securities :: "security_row list"
  ls_holdings :: "holding_row list"
  ls_next_filing :: int
  ls_next_security :: int
  ls_next_holding :: int

record load_args =
  la_accession :: string
  la_filed_at :: moment
  la_doc :: primary_doc
  la_normalised :: normalised_filing
  la_raw_key :: "string option"
  la_source_url :: "string option"

record load_result =
  lr_filing :: int
  lr_filer :: "int option"
  lr_loaded :: nat
  lr_created :: nat
  lr_collapsed :: nat
  lr_deferred :: bool

text \<open>What makes a load fail: a row its table does not take, or a CUSIP with no security.\<close>

datatype load_error = Row_rejected | No_security

section \<open>One row for each natural key\<close>

type_synonym natural_key = "string \<times> put_call option \<times> sh_prn"

definition natural_key_of :: "normalised_holding \<Rightarrow> natural_key" where
  "natural_key_of h = (ir_cusip (nh_row h), ir_put_call (nh_row h), ir_sh_prn (nh_row h))"

definition position_key :: "stock_position \<Rightarrow> natural_key" where
  "position_key p = (po_cusip p, po_put_call p, po_type p)"

definition add_voting :: "rat option \<Rightarrow> rat option \<Rightarrow> rat option" where
  "add_voting l r = (case (l, r) of (None, _) \<Rightarrow> r | (_, None) \<Rightarrow> l | (Some x, Some y) \<Rightarrow> Some (dec_add x y))"

definition first_line :: "normalised_holding \<Rightarrow> stock_position" where
  "first_line h =
     (let r = nh_row h in
      \<lparr>po_cusip = ir_cusip r, po_value = nh_value_usd h, po_shares = ir_shares r, po_type = ir_sh_prn r,
       po_put_call = ir_put_call r, po_discretion = ir_discretion r,
       po_sole = ir_voting_sole r, po_shared = ir_voting_shared r, po_none = ir_voting_none r\<rparr>)"

definition fold_line :: "stock_position \<Rightarrow> normalised_holding \<Rightarrow> stock_position" where
  "fold_line p h =
     (let r = nh_row h in
      p\<lparr>po_value := dec_add (po_value p) (nh_value_usd h), po_shares := dec_add (po_shares p) (ir_shares r),
        po_sole := add_voting (po_sole p) (ir_voting_sole r), po_shared := add_voting (po_shared p) (ir_voting_shared r),
        po_none := add_voting (po_none p) (ir_voting_none r)\<rparr>)"

definition group_line :: "(natural_key \<times> stock_position) list \<Rightarrow> normalised_holding \<Rightarrow> (natural_key \<times> stock_position) list" where
  "group_line grouped h =
     (let key = natural_key_of h in
      case map_of grouped key of
        None \<Rightarrow> dict_put key (first_line h) grouped
      | Some existing \<Rightarrow> dict_put key (fold_line existing h) grouped)"

definition holding_positions :: "normalised_holding list \<Rightarrow> stock_position list" where
  "holding_positions hs = map snd (foldl group_line [] hs)"

text \<open>\<open>names.setdefault\<close>: the first name a filing uses for a CUSIP.\<close>

definition set_default :: "'k \<Rightarrow> 'v \<Rightarrow> ('k \<times> 'v) list \<Rightarrow> ('k \<times> 'v) list" where
  "set_default k v d = (case map_of d k of None \<Rightarrow> dict_put k v d | Some _ \<Rightarrow> d)"

definition issuer_names :: "normalised_holding list \<Rightarrow> (string \<times> string option) list" where
  "issuer_names hs = foldl (\<lambda>d h. set_default (ir_cusip (nh_row h)) (ir_name_of_issuer (nh_row h)) d) [] hs"

section \<open>The filing's row\<close>

definition coalesce :: "'a option \<Rightarrow> 'a option \<Rightarrow> 'a option" where
  "coalesce a b = (case a of None \<Rightarrow> b | Some _ \<Rightarrow> a)"

text \<open>The row an insert proposes; at a conflict, \<open>EXCLUDED\<close>.\<close>

definition filing_values :: "load_args \<Rightarrow> moment \<Rightarrow> int option \<Rightarrow> int \<Rightarrow> filing_row" where
  "filing_values a now filer i =
     (let doc = la_doc a; nf = la_normalised a in
      \<lparr>fg_id = i, fg_accession = la_accession a, fg_cik = pd_cik doc, fg_filer = filer, fg_form = pd_form_type doc,
       fg_period = pd_period doc, fg_filed_at = la_filed_at a, fg_multiplier = nf_multiplier nf, fg_amends = None,
       fg_amendment_no = pd_amendment_no doc, fg_kind = pd_amendment_kind doc, fg_report_type = pd_report_type doc,
       fg_parsed_at = Some now, fg_parse_error = None, fg_status = nf_status nf, fg_notes = stored_notes nf,
       fg_raw_key = la_raw_key a, fg_source_url = la_source_url a, fg_ingested_at = now\<rparr>)"

text \<open>The row there, with what the update sets: all but its id, accession and what it amends.\<close>

definition updated_row :: "filing_row \<Rightarrow> filing_row \<Rightarrow> filing_row" where
  "updated_row x old =
     x\<lparr>fg_id := fg_id old, fg_accession := fg_accession old, fg_amends := fg_amends old,
       fg_filer := coalesce (fg_filer x) (fg_filer old), fg_raw_key := coalesce (fg_raw_key x) (fg_raw_key old),
       fg_source_url := coalesce (fg_source_url x) (fg_source_url old)\<rparr>"

text \<open>What the columns and checks of the table take.\<close>

definition filing_taken :: "filing_row \<Rightarrow> bool" where
  "filing_taken f \<longleftrightarrow> length (fg_accession f) \<le> 20 \<and> length (fg_cik f) \<le> 10
     \<and> (case fg_amendment_no f of None \<Rightarrow> True | Some n \<Rightarrow> -32768 \<le> n \<and> n \<le> 32767)
     \<and> fg_multiplier f \<in> {1, 1000} \<and> (fg_status f = Suspect \<longrightarrow> fg_notes f \<noteq> None)"

definition find_filing :: "filing_row list \<Rightarrow> string \<Rightarrow> filing_row option" where
  "find_filing fs a = find (\<lambda>f. fg_accession f = a) fs"

text \<open>
  The upsert, and the row as it is after. A period that changes reaches the filing's holdings, by their foreign key.
\<close>

definition upsert_filing :: "load_args \<Rightarrow> moment \<Rightarrow> int option \<Rightarrow> load_store \<Rightarrow> load_error + load_store \<times> filing_row" where
  "upsert_filing a now filer s =
     (let x = filing_values a now filer (ls_next_filing s); s = s\<lparr>ls_next_filing := ls_next_filing s + 1\<rparr> in
      if \<not> filing_taken x then Inl Row_rejected
      else (case find_filing (ls_filings s) (la_accession a) of
          None \<Rightarrow> Inr (s\<lparr>ls_filings := ls_filings s @ [x]\<rparr>, x)
        | Some old \<Rightarrow>
            let row = updated_row x old in
            Inr (s\<lparr>ls_filings := map (\<lambda>f. if fg_id f = fg_id old then row else f) (ls_filings s),
                   ls_holdings := map (\<lambda>h. if hr_filing h = fg_id old then h\<lparr>hr_period := fg_period row\<rparr> else h) (ls_holdings s)\<rparr>,
                 row)))"

section \<open>The securities\<close>

definition security_id :: "security_row list \<Rightarrow> string \<Rightarrow> int option" where
  "security_id ss c = map_option se_id (find (\<lambda>x. se_cusip x = c) ss)"

text \<open>\<open>ON CONFLICT DO NOTHING\<close>, one name at a time, counting those inserted.\<close>

definition insert_security :: "load_store \<times> nat \<Rightarrow> string \<times> string option \<Rightarrow> load_store \<times> nat" where
  "insert_security = (\<lambda>(s, created) (cusip, name).
     (let i = ls_next_security s; s = s\<lparr>ls_next_security := i + 1\<rparr> in
      if security_id (ls_securities s) cusip \<noteq> None then (s, created)
      else (s\<lparr>ls_securities := ls_securities s @
              [\<lparr>se_id = i, se_cusip = cusip, se_name = name, se_filed_name = name, se_ticker = None\<rparr>]\<rparr>, created + 1)))"

definition upsert_securities :: "(string \<times> string option) list \<Rightarrow> load_store \<Rightarrow> load_error + load_store \<times> nat" where
  "upsert_securities names s =
     (if \<exists>(c, n) \<in> set names. length c > 9 then Inl Row_rejected else Inr (foldl insert_security (s, 0) names))"

section \<open>The holdings\<close>

text \<open>\<open>numeric(20, 2)\<close> and \<open>numeric(20, 4)\<close>: rounded to their places, and not too large.\<close>

definition stored_numeric :: "nat \<Rightarrow> rat \<Rightarrow> rat option" where
  "stored_numeric places x = (let y = sql_round places x in if \<bar>y\<bar> < 10 ^ (20 - places) then Some y else None)"

definition stored_optional :: "rat option \<Rightarrow> rat option option" where
  "stored_optional x = (case x of None \<Rightarrow> Some None | Some v \<Rightarrow> map_option Some (stored_numeric 4 v))"

text \<open>The position as its columns keep it, when they take it; neither figure may be negative.\<close>

definition stored_position :: "stock_position \<Rightarrow> stock_position option" where
  "stored_position p =
     (case (stored_numeric 2 (po_value p), stored_numeric 4 (po_shares p),
            stored_optional (po_sole p), stored_optional (po_shared p), stored_optional (po_none p)) of
        (Some v, Some n, Some a, Some b, Some c) \<Rightarrow>
          if 0 \<le> v \<and> 0 \<le> n then Some (p\<lparr>po_value := v, po_shares := n, po_sole := a, po_shared := b, po_none := c\<rparr>) else None
      | _ \<Rightarrow> None)"

definition holding_for :: "security_row list \<Rightarrow> filing_row \<Rightarrow> int \<Rightarrow> date \<Rightarrow> int \<times> stock_position \<Rightarrow> load_error + holding_row" where
  "holding_for ss f filer period = (\<lambda>(i, p).
     (case security_id ss (po_cusip p) of
        None \<Rightarrow> Inl No_security
      | Some sec \<Rightarrow>
          (case stored_position p of
             None \<Rightarrow> Inl Row_rejected
           | Some q \<Rightarrow> Inr \<lparr>hr_id = i, hr_filing = fg_id f, hr_security = sec, hr_filer = filer, hr_period = period, hr_position = q\<rparr>)))"

text \<open>What the unique constraint of the table is on, nulls not distinct: one row a filing and natural key.\<close>

definition holding_key :: "holding_row \<Rightarrow> int \<times> natural_key" where
  "holding_key h = (hr_filing h, position_key (hr_position h))"

definition insert_holdings :: "holding_row list \<Rightarrow> load_store \<Rightarrow> load_error + load_store" where
  "insert_holdings rows s =
     (if distinct (map holding_key (ls_holdings s @ rows)) then Inr (s\<lparr>ls_holdings := ls_holdings s @ rows\<rparr>) else Inl Row_rejected)"

text \<open>The delete, and the insert of a row for each position, with the sequence's next numbers.\<close>

definition replace_holdings :: "filing_row \<Rightarrow> int \<Rightarrow> date \<Rightarrow> stock_position list \<Rightarrow> load_store \<Rightarrow> load_error + load_store" where
  "replace_holdings f filer period ps s =
     (let kept = s\<lparr>ls_holdings := filter (\<lambda>h. hr_filing h \<noteq> fg_id f) (ls_holdings s),
                   ls_next_holding := ls_next_holding s + int (length ps)\<rparr>
      in bind_res (mapM_res (holding_for (ls_securities s) f filer period) (zip (map (\<lambda>k. ls_next_holding s + int k) [0..<length ps]) ps))
           (\<lambda>rows. insert_holdings rows kept))"

section \<open>A load\<close>

definition load_in_savepoint :: "load_args \<Rightarrow> moment \<Rightarrow> load_store \<Rightarrow> load_error + load_store \<times> load_result" where
  "load_in_savepoint a now s =
     bind_res (upsert_filing a now (ls_links s (pd_cik (la_doc a))) s) (\<lambda>(s, f).
       let hs = nf_holdings (la_normalised a); ps = holding_positions hs; collapsed = length hs - length ps in
       case fg_filer f of
         None \<Rightarrow> Inr (s, \<lparr>lr_filing = fg_id f, lr_filer = None, lr_loaded = 0, lr_created = 0, lr_collapsed = collapsed,
                          lr_deferred = True\<rparr>)
       | Some filer \<Rightarrow>
           bind_res (upsert_securities (issuer_names hs) s) (\<lambda>(s, created).
           map_res (\<lambda>s. (s, \<lparr>lr_filing = fg_id f, lr_filer = Some filer, lr_loaded = length ps, lr_created = created,
                             lr_collapsed = collapsed, lr_deferred = False\<rparr>))
             (replace_holdings f filer (pd_period (la_doc a)) ps s)))"

text \<open>A failure rolls the tables back. The numbers a sequence gave out meanwhile are not counted.\<close>

definition load_filing :: "load_args \<Rightarrow> moment \<Rightarrow> load_store \<Rightarrow> load_store \<times> (load_error + load_result)" where
  "load_filing a now s =
     (case load_in_savepoint a now s of Inl e \<Rightarrow> (s, Inl e) | Inr (t, r) \<Rightarrow> (t, Inr r))"

section \<open>What the positions of a filing are\<close>

abbreviation grouped :: "normalised_holding list \<Rightarrow> (natural_key \<times> stock_position) list" where
  "grouped hs \<equiv> foldl group_line [] hs"

abbreviation lines_at :: "normalised_holding list \<Rightarrow> natural_key \<Rightarrow> normalised_holding list" where
  "lines_at hs k \<equiv> filter (\<lambda>h. natural_key_of h = k) hs"

lemma map_of_group_line:
  "map_of (group_line d h) = (map_of d)(natural_key_of h \<mapsto>
     (case map_of d (natural_key_of h) of None \<Rightarrow> first_line h | Some p \<Rightarrow> fold_line p h))"
  by (simp add: group_line_def Let_def split: option.split)

lemma fold_line_key [simp]: "position_key (fold_line p h) = position_key p"
  by (simp add: fold_line_def position_key_def Let_def)

lemma first_line_key [simp]: "position_key (first_line h) = natural_key_of h"
  by (simp add: first_line_def position_key_def natural_key_of_def Let_def)

lemma distinct_grouped: "distinct (map fst (grouped hs))"
  by (induction hs rule: rev_induct) (simp_all add: group_line_def Let_def split: option.split)

lemma grouped_key: "map_of (grouped hs) k = Some p \<Longrightarrow> position_key p = k"
proof (induction hs arbitrary: p rule: rev_induct)
  case (snoc h hs)
  then show ?case by (cases "map_of (grouped hs) (natural_key_of h)") (auto simp: map_of_group_line split: if_splits)
qed simp

lemma grouped_dom: "map_of (grouped hs) k = None \<longleftrightarrow> lines_at hs k = []"
  by (induction hs rule: rev_induct) (auto simp: map_of_group_line)

lemma positions_mem: "p \<in> set (holding_positions hs) \<longleftrightarrow> map_of (grouped hs) (position_key p) = Some p"
proof
  assume "p \<in> set (holding_positions hs)"
  then obtain k where "(k, p) \<in> set (grouped hs)" by (auto simp: holding_positions_def)
  then have "map_of (grouped hs) k = Some p" by (simp add: distinct_grouped)
  then show "map_of (grouped hs) (position_key p) = Some p" using grouped_key by blast
next
  assume "map_of (grouped hs) (position_key p) = Some p"
  from map_of_SomeD[OF this] show "p \<in> set (holding_positions hs)" by (force simp: holding_positions_def)
qed

lemma positions_keys: "distinct (map position_key (holding_positions hs))"
  "position_key ` set (holding_positions hs) = natural_key_of ` set hs"
proof -
  have "position_key (snd x) = fst x" if "x \<in> set (grouped hs)" for x
    using that grouped_key[of hs "fst x" "snd x"] distinct_grouped[of hs] by simp
  then have k: "map position_key (holding_positions hs) = map fst (grouped hs)" by (simp add: holding_positions_def)
  then show "distinct (map position_key (holding_positions hs))" by (simp add: distinct_grouped)
  have im: "(k \<notin> A) = (\<forall>x\<in>S. f x \<noteq> k) \<Longrightarrow> (k \<in> A) = (k \<in> f ` S)" for k A S and f :: "normalised_holding \<Rightarrow> natural_key"
    by blast
  have "k \<in> fst ` set (grouped hs) \<longleftrightarrow> k \<in> natural_key_of ` set hs" for k
    by (rule im) (use grouped_dom[of hs k] in \<open>simp only: map_of_eq_None_iff filter_empty_conv\<close>)
  then have "fst ` set (grouped hs) = natural_key_of ` set hs" by blast
  then show "position_key ` set (holding_positions hs) = natural_key_of ` set hs"
    using arg_cong[OF k, of set] by simp
qed

text \<open>Adding up amounts that 28 digits hold is exact.\<close>

definition places :: "nat \<Rightarrow> rat \<Rightarrow> bool" where
  "places n x \<longleftrightarrow> 0 \<le> x \<and> (\<exists>c. x * 10 ^ n = of_int c)"

lemma places_add: "places n x \<Longrightarrow> places n y \<Longrightarrow> places n (x + y)"
  unfolding places_def by (auto simp: distrib_right simp flip: of_int_add)

lemma dec_add_exact:
  assumes "places n x" "places n y" "x + y < 10 ^ (context_digits - n)" "n \<le> context_digits"
  shows "dec_add x y = x + y"
proof -
  obtain c where c: "(x + y) * 10 ^ n = of_int c" "0 \<le> x + y" using places_add[OF assms(1,2)] by (auto simp: places_def)
  have "of_int c < (10 ^ (context_digits - n) * 10 ^ n :: rat)" unfolding c(1)[symmetric] using assms(3) by simp
  also have "\<dots> = of_int (10 ^ context_digits)" using assms(4) by (simp flip: power_add)
  finally have "c < 10 ^ context_digits" unfolding of_int_less_iff .
  moreover have "0 \<le> c"
  proof -
    have "0 \<le> (of_int c :: rat)" unfolding c(1)[symmetric] using c(2) by simp
    then show ?thesis by simp
  qed
  ultimately show ?thesis unfolding dec_add_def using dec_fix_exact[OF c(1)] by simp
qed

lemma grouped_sums:
  assumes "\<forall>h\<in>set hs. places n (g h)" "sum_list (map g hs) < 10 ^ (context_digits - n)" "n \<le> context_digits"
    and first: "\<And>h. get (first_line h) = g h" and more: "\<And>p h. get (fold_line p h) = dec_add (get p) (g h)"
    and "map_of (grouped hs) k = Some p"
  shows "get p = sum_list (map g (lines_at hs k)) \<and> places n (get p)"
  using assms(1,2,6)
proof (induction hs arbitrary: p rule: rev_induct)
  case (snoc h hs)
  have nn: "0 \<le> g x" if "x \<in> set (hs @ [h])" for x using snoc.prems(1) that by (auto simp: places_def)
  have le: "sum_list (map g (lines_at hs k)) \<le> sum_list (map g hs)" using nn by (induction hs) (simp_all add: add_increasing)
  have b: "sum_list (map g hs) + g h < 10 ^ (context_digits - n)" "0 \<le> g h" using snoc.prems(2) nn by simp_all
  have IH: "get q = sum_list (map g (lines_at hs k)) \<and> places n (get q)" if "map_of (grouped hs) k = Some q" for q
    by (rule snoc.IH[OF _ _ that]) (use snoc.prems(1) b in \<open>simp_all\<close>)
  show ?case
  proof (cases "natural_key_of h = k")
    case True
    show ?thesis
    proof (cases "map_of (grouped hs) k")
      case None
      then have "lines_at hs k = []" unfolding grouped_dom .
      then show ?thesis using snoc.prems(1,3) True None by (auto simp: map_of_group_line first)
    next
      case (Some q)
      have p: "p = fold_line q h" using snoc.prems(3) True Some by (simp add: map_of_group_line)
      have h: "places n (g h)" using snoc.prems(1) by simp
      have "get p = get q + g h" unfolding p more
        using dec_add_exact[OF conjunct2[OF IH[OF Some]] h _ assms(3)] IH[OF Some] le b(1) by simp
      then show ?thesis using IH[OF Some] True places_add[OF conjunct2[OF IH[OF Some]] h] by simp
    qed
  next
    case False
    then have m: "map_of (grouped hs) k = Some p" and l: "lines_at (hs @ [h]) k = lines_at hs k"
      using snoc.prems(3) by (simp_all add: map_of_group_line)
    show ?thesis unfolding l by (rule IH[OF m])
  qed
qed simp

text \<open>C15. Nothing is lost in the collapsing. There is one row for each of the natural keys of the document's lines
  and no two rows share one, and each row's value and shares are the sums of its lines', exactly, as long as the
  filing's totals fit in the digits of the context.\<close>

theorem positions_sum_their_lines:
  assumes "\<forall>h\<in>set hs. places 2 (nh_value_usd h) \<and> places 4 (ir_shares (nh_row h))"
    and "sum_list (map nh_value_usd hs) < 10 ^ 26" "sum_list (map (\<lambda>h. ir_shares (nh_row h)) hs) < 10 ^ 24"
  shows "distinct (map position_key (holding_positions hs))
    \<and> position_key ` set (holding_positions hs) = natural_key_of ` set hs
    \<and> (\<forall>p\<in>set (holding_positions hs).
        po_value p = sum_list (map nh_value_usd (lines_at hs (position_key p)))
        \<and> po_shares p = sum_list (map (\<lambda>h. ir_shares (nh_row h)) (lines_at hs (position_key p))))"
proof (intro conjI ballI positions_keys)
  fix p assume "p \<in> set (holding_positions hs)"
  then have m: "map_of (grouped hs) (position_key p) = Some p" unfolding positions_mem .
  have a: "\<forall>h\<in>set hs. places 2 (nh_value_usd h)" "\<forall>h\<in>set hs. places 4 (ir_shares (nh_row h))" using assms(1) by simp_all
  show "po_value p = sum_list (map nh_value_usd (lines_at hs (position_key p)))"
    by (rule grouped_sums[OF a(1) _ _ _ _ m, THEN conjunct1])
      (use assms(2) in \<open>simp_all add: first_line_def fold_line_def Let_def context_digits_def\<close>)
  show "po_shares p = sum_list (map (\<lambda>h. ir_shares (nh_row h)) (lines_at hs (position_key p)))"
    by (rule grouped_sums[OF a(2) _ _ _ _ m, THEN conjunct1])
      (use assms(3) in \<open>simp_all add: first_line_def fold_line_def Let_def context_digits_def\<close>)
qed

section \<open>What a store holds\<close>

definition filings_ok :: "load_store \<Rightarrow> bool" where
  "filings_ok s \<longleftrightarrow> distinct (map fg_accession (ls_filings s)) \<and> distinct (map fg_id (ls_filings s))
     \<and> (\<forall>f\<in>set (ls_filings s). fg_id f < ls_next_filing s)"

definition securities_ok :: "load_store \<Rightarrow> bool" where
  "securities_ok s \<longleftrightarrow> distinct (map se_cusip (ls_securities s)) \<and> distinct (map se_id (ls_securities s))
     \<and> (\<forall>x\<in>set (ls_securities s). se_id x < ls_next_security s)"

text \<open>A holding is of a filing with its filer and its period, and of the security of its CUSIP; neither figure is negative.\<close>

definition holding_ok :: "load_store \<Rightarrow> holding_row \<Rightarrow> bool" where
  "holding_ok s h \<longleftrightarrow>
     (\<exists>f\<in>set (ls_filings s). fg_id f = hr_filing h \<and> fg_filer f = Some (hr_filer h) \<and> fg_period f = hr_period h)
     \<and> security_id (ls_securities s) (po_cusip (hr_position h)) = Some (hr_security h)
     \<and> 0 \<le> po_value (hr_position h) \<and> 0 \<le> po_shares (hr_position h) \<and> hr_id h < ls_next_holding s"

definition holdings_ok :: "load_store \<Rightarrow> bool" where
  "holdings_ok s \<longleftrightarrow> (\<forall>h\<in>set (ls_holdings s). holding_ok s h) \<and> distinct (map hr_id (ls_holdings s))
     \<and> distinct (map holding_key (ls_holdings s))"

definition store_ok :: "load_store \<Rightarrow> bool" where
  "store_ok s \<longleftrightarrow> filings_ok s \<and> securities_ok s \<and> holdings_ok s"

lemma find_by_key: "distinct (map key xs) \<Longrightarrow> find (\<lambda>x. key x = k) xs = Some y \<longleftrightarrow> y \<in> set xs \<and> key y = k"
  by (induction xs) (auto simp: image_iff)

lemma find_by_key_None: "find (\<lambda>x. key x = k) xs = None \<longleftrightarrow> k \<notin> key ` set xs"
  by (auto simp: find_None_iff)

lemma inj_of_distinct: "distinct (map key xs) \<Longrightarrow> x \<in> set xs \<Longrightarrow> y \<in> set xs \<Longrightarrow> key x = key y \<Longrightarrow> x = y"
  by (induction xs) (auto simp: image_iff)

text \<open>The filing's row after its upsert, and the rest of the table as it was.\<close>

definition row_after :: "load_args \<Rightarrow> moment \<Rightarrow> load_store \<Rightarrow> filing_row" where
  "row_after a now s =
     (let x = filing_values a now (ls_links s (pd_cik (la_doc a))) (ls_next_filing s)
      in case find_filing (ls_filings s) (la_accession a) of None \<Rightarrow> x | Some old \<Rightarrow> updated_row x old)"

lemma filing_values_fields [simp]:
  "fg_id (filing_values a now filer i) = i" "fg_accession (filing_values a now filer i) = la_accession a"
  "fg_period (filing_values a now filer i) = pd_period (la_doc a)" "fg_filer (filing_values a now filer i) = filer"
  by (simp_all add: filing_values_def Let_def)

lemma updated_row_fields [simp]:
  "fg_id (updated_row x old) = fg_id old" "fg_accession (updated_row x old) = fg_accession old"
  "fg_period (updated_row x old) = fg_period x" "fg_filer (updated_row x old) = coalesce (fg_filer x) (fg_filer old)"
  by (simp_all add: updated_row_def)

lemma upsert_filing_Inr:
  assumes ok: "store_ok s" and u: "upsert_filing a now (ls_links s (pd_cik (la_doc a))) s = Inr (s1, f)"
  shows "f = row_after a now s" "fg_accession f = la_accession a" "fg_period f = pd_period (la_doc a)"
    "set (ls_filings s1) = insert f {g \<in> set (ls_filings s). fg_accession g \<noteq> la_accession a}"
    "filings_ok s1"
    "\<forall>g\<in>set (ls_filings s). fg_id g = fg_id f \<longleftrightarrow> fg_accession g = la_accession a"
    "ls_holdings s1 = map (\<lambda>h. if hr_filing h = fg_id f then h\<lparr>hr_period := fg_period f\<rparr> else h) (ls_holdings s)"
    "ls_links s1 = ls_links s \<and> ls_securities s1 = ls_securities s \<and> ls_next_security s1 = ls_next_security s
       \<and> ls_next_holding s1 = ls_next_holding s"
proof -
  let ?x = "filing_values a now (ls_links s (pd_cik (la_doc a))) (ls_next_filing s)"
  have fo: "distinct (map fg_accession (ls_filings s))" "distinct (map fg_id (ls_filings s))" "\<forall>g\<in>set (ls_filings s). fg_id g < ls_next_filing s"
    using ok by (auto simp: store_ok_def filings_ok_def)
  have hf: "\<exists>g\<in>set (ls_filings s). fg_id g = hr_filing h" if "h \<in> set (ls_holdings s)" for h
    using ok that by (auto simp: store_ok_def holdings_ok_def holding_ok_def)
  have find: "find_filing (ls_filings s) (la_accession a) = Some g \<longleftrightarrow> g \<in> set (ls_filings s) \<and> fg_accession g = la_accession a" for g
    unfolding find_filing_def by (rule find_by_key[OF fo(1)])
  show r: "f = row_after a now s" using u by (auto simp: upsert_filing_def row_after_def Let_def split: option.splits if_splits)
  show rest: "ls_links s1 = ls_links s \<and> ls_securities s1 = ls_securities s \<and> ls_next_security s1 = ls_next_security s
       \<and> ls_next_holding s1 = ls_next_holding s"
    using u by (auto simp: upsert_filing_def Let_def split: option.splits if_splits)
  have main: "fg_accession f = la_accession a \<and> fg_period f = pd_period (la_doc a)
    \<and> set (ls_filings s1) = insert f {g \<in> set (ls_filings s). fg_accession g \<noteq> la_accession a} \<and> filings_ok s1
    \<and> (\<forall>g\<in>set (ls_filings s). fg_id g = fg_id f \<longleftrightarrow> fg_accession g = la_accession a)
    \<and> ls_holdings s1 = map (\<lambda>h. if hr_filing h = fg_id f then h\<lparr>hr_period := fg_period f\<rparr> else h) (ls_holdings s)"
  proof (cases "find_filing (ls_filings s) (la_accession a)")
    case None
    then have n: "la_accession a \<notin> fg_accession ` set (ls_filings s)" unfolding find_filing_def find_by_key_None .
    have s1: "s1 = s\<lparr>ls_next_filing := ls_next_filing s + 1, ls_filings := ls_filings s @ [?x]\<rparr>" "f = ?x"
      using u None by (auto simp: upsert_filing_def Let_def split: if_splits)
    have "ls_next_filing s \<notin> fg_id ` set (ls_filings s)" using fo(3) by force
    then have "filings_ok s1" using fo n by (auto simp: s1 filings_ok_def)
    moreover have "(if hr_filing h = fg_id f then h\<lparr>hr_period := fg_period f\<rparr> else h) = h" if "h \<in> set (ls_holdings s)" for h
      using hf[OF that] fo(3) by (auto simp: s1(2))
    then have "ls_holdings s1 = map (\<lambda>h. if hr_filing h = fg_id f then h\<lparr>hr_period := fg_period f\<rparr> else h) (ls_holdings s)"
      by (simp add: s1(1) map_idI)
    moreover have "\<forall>g\<in>set (ls_filings s). fg_id g = fg_id f \<longleftrightarrow> fg_accession g = la_accession a"
      using fo(3) n by (force simp: s1(2))
    moreover have "{g \<in> set (ls_filings s). fg_accession g \<noteq> la_accession a} = set (ls_filings s)" using n by force
    ultimately show ?thesis by (simp add: s1)
  next
    case (Some old)
    then have o: "old \<in> set (ls_filings s)" "fg_accession old = la_accession a" using find by blast+
    have s1: "s1 = s\<lparr>ls_next_filing := ls_next_filing s + 1, ls_filings := map (\<lambda>g. if fg_id g = fg_id old then f else g) (ls_filings s),
        ls_holdings := map (\<lambda>h. if hr_filing h = fg_id old then h\<lparr>hr_period := fg_period f\<rparr> else h) (ls_holdings s)\<rparr>" "f = updated_row ?x old"
      using u Some by (auto simp: upsert_filing_def Let_def split: if_splits)
    have ids: "fg_id g = fg_id old \<longleftrightarrow> fg_accession g = la_accession a" if "g \<in> set (ls_filings s)" for g
      using inj_of_distinct[OF fo(1) that o(1)] inj_of_distinct[OF fo(2) that o(1)] o(2) by metis
    have "set (ls_filings s1) = insert f {g \<in> set (ls_filings s). fg_accession g \<noteq> la_accession a}"
      using o(1) ids by (auto simp: s1(1) image_iff)
    moreover have acc: "fg_accession (if fg_id g = fg_id old then f else g) = fg_accession g \<and> fg_id (if fg_id g = fg_id old then f else g) = fg_id g"
      if "g \<in> set (ls_filings s)" for g using ids[OF that] by (cases "fg_accession g = la_accession a") (simp_all add: s1(2) o(2))
    have m: "map fg_accession (ls_filings s1) = map fg_accession (ls_filings s)" "map fg_id (ls_filings s1) = map fg_id (ls_filings s)"
      using acc by (simp_all add: s1(1))
    have "filings_ok s1" unfolding filings_ok_def m using fo o(1) by (auto simp: s1)
    ultimately show ?thesis using ids by (simp add: s1(1)) (simp add: s1(2) o(2))
  qed
  show "fg_accession f = la_accession a" "fg_period f = pd_period (la_doc a)"
    "set (ls_filings s1) = insert f {g \<in> set (ls_filings s). fg_accession g \<noteq> la_accession a}" "filings_ok s1"
    "\<forall>g\<in>set (ls_filings s). fg_id g = fg_id f \<longleftrightarrow> fg_accession g = la_accession a"
    "ls_holdings s1 = map (\<lambda>h. if hr_filing h = fg_id f then h\<lparr>hr_period := fg_period f\<rparr> else h) (ls_holdings s)"
    using main by blast+
qed

text \<open>Securities are only ever added, one for each name that has none.\<close>

lemma security_id_append:
  "security_id (ss @ [x]) c = (case security_id ss c of Some i \<Rightarrow> Some i | None \<Rightarrow> if se_cusip x = c then Some (se_id x) else None)"
  by (induction ss) (simp_all add: security_id_def)

lemma security_id_None: "security_id ss c = None \<longleftrightarrow> c \<notin> se_cusip ` set ss"
  by (simp add: security_id_def find_by_key_None)

lemma insert_securities:
  assumes "foldl insert_security (s, n) names = (t, m)" "securities_ok s"
  shows "securities_ok t \<and> ls_filings t = ls_filings s \<and> ls_holdings t = ls_holdings s \<and> ls_links t = ls_links s
    \<and> ls_next_filing t = ls_next_filing s \<and> ls_next_holding t = ls_next_holding s
    \<and> (\<forall>c i. security_id (ls_securities s) c = Some i \<longrightarrow> security_id (ls_securities t) c = Some i)
    \<and> (\<forall>(c, x)\<in>set names. security_id (ls_securities t) c \<noteq> None)
    \<and> ((\<forall>(c, x)\<in>set names. security_id (ls_securities s) c \<noteq> None) \<longrightarrow> ls_securities t = ls_securities s \<and> m = n)"
  using assms
proof (induction names arbitrary: s n)
  case (Cons a names)
  obtain c x where a: "a = (c, x)" by (rule prod.exhaust)
  obtain s' n' where s': "insert_security (s, n) a = (s', n')" by (rule prod.exhaust)
  have fresh: "\<forall>x\<in>set (ls_securities s). se_id x < ls_next_security s + 1" "ls_next_security s \<notin> se_id ` set (ls_securities s)"
    using Cons.prems(2) unfolding securities_ok_def by fastforce+
  have ok: "securities_ok s'"
    using s' Cons.prems(2) fresh unfolding a insert_security_def securities_ok_def
    by (auto simp: Let_def security_id_None split: if_splits)
  have step: "ls_filings s' = ls_filings s" "ls_holdings s' = ls_holdings s" "ls_links s' = ls_links s"
    "ls_next_filing s' = ls_next_filing s" "ls_next_holding s' = ls_next_holding s"
    "security_id (ls_securities s) d = Some i \<Longrightarrow> security_id (ls_securities s') d = Some i"
    "security_id (ls_securities s') c \<noteq> None"
    "security_id (ls_securities s) c \<noteq> None \<Longrightarrow> ls_securities s' = ls_securities s \<and> n' = n" for d i
    using s' unfolding a insert_security_def by (auto simp: Let_def security_id_append split: if_splits)
  have f: "foldl insert_security (s', n') names = (t, m)" using Cons.prems(1) s' by simp
  note IH = Cons.IH[OF f ok]
  have "security_id (ls_securities t) c \<noteq> None" using IH step(7) by blast
  then show ?case using IH step(1-6,8) unfolding a by auto
qed simp

lemma issuer_names_keys: "fst ` set (issuer_names hs) = (\<lambda>h. ir_cusip (nh_row h)) ` set hs"
proof (induction hs rule: rev_induct)
  case (snoc h hs)
  have "c \<in> fst ` set d" if "map_of d c = Some v" for c v and d :: "(string \<times> string option) list"
    using map_of_SomeD[OF that] by force
  then show ?case using snoc
    by (auto simp: issuer_names_def set_default_def keys_dict_put split: option.split)
qed (simp add: issuer_names_def)

lemma positions_cusips: "po_cusip ` set (holding_positions hs) = fst ` set (issuer_names hs)"
proof -
  have "po_cusip ` set (holding_positions hs) = fst ` position_key ` set (holding_positions hs)"
    by (simp add: image_image position_key_def)
  then show ?thesis unfolding positions_keys(2) issuer_names_keys by (simp add: image_image natural_key_of_def)
qed

text \<open>The rows of a filing, as the insert makes them.\<close>

lemma holding_for_Inr:
  "holding_for ss f filer period (i, p) = Inr h \<longleftrightarrow>
     (\<exists>sec q. security_id ss (po_cusip p) = Some sec \<and> stored_position p = Some q
       \<and> h = \<lparr>hr_id = i, hr_filing = fg_id f, hr_security = sec, hr_filer = filer, hr_period = period, hr_position = q\<rparr>)"
  by (auto simp: holding_for_def split: option.splits)

lemma stored_position_Some:
  "stored_position p = Some q \<Longrightarrow> position_key q = position_key p \<and> po_cusip q = po_cusip p \<and> 0 \<le> po_value q \<and> 0 \<le> po_shares q"
  by (auto simp: stored_position_def position_key_def split: option.splits if_splits)

lemma replace_holdings_Inr:
  assumes "replace_holdings f filer period ps s = Inr t"
  shows "\<exists>rows. t = s\<lparr>ls_holdings := filter (\<lambda>h. hr_filing h \<noteq> fg_id f) (ls_holdings s) @ rows,
       ls_next_holding := ls_next_holding s + int (length ps)\<rparr>
    \<and> list_all2 (\<lambda>x h. holding_for (ls_securities s) f filer period x = Inr h)
        (zip (map (\<lambda>k. ls_next_holding s + int k) [0..<length ps]) ps) rows"
proof -
  let ?ips = "zip (map (\<lambda>k. ls_next_holding s + int k) [0..<length ps]) ps"
  obtain rows where "mapM_res (holding_for (ls_securities s) f filer period) ?ips = Inr rows"
    "insert_holdings rows (s\<lparr>ls_holdings := filter (\<lambda>h. hr_filing h \<noteq> fg_id f) (ls_holdings s),
       ls_next_holding := ls_next_holding s + int (length ps)\<rparr>) = Inr t"
    using assms unfolding replace_holdings_def Let_def bind_res_Inr_iff by blast
  then show ?thesis by (intro exI[of _ rows]) (auto simp: insert_holdings_def dest: mapM_res_InrD split: if_splits)
qed

lemma inserted_rows:
  assumes "list_all2 (\<lambda>x h. holding_for ss f filer period x = Inr h) (zip ids ps) rows" "length ids = length ps"
  shows "map hr_id rows = ids" "map holding_key rows = map (\<lambda>p. (fg_id f, position_key p)) ps"
    "\<forall>h\<in>set rows. hr_filing h = fg_id f \<and> hr_filer h = filer \<and> hr_period h = period
       \<and> security_id ss (po_cusip (hr_position h)) = Some (hr_security h) \<and> 0 \<le> po_value (hr_position h) \<and> 0 \<le> po_shares (hr_position h)"
    "(\<lambda>h. h\<lparr>hr_id := 0\<rparr>) ` set rows = {h. \<exists>p\<in>set ps. holding_for ss f filer period (0, p) = Inr h}"
    "\<forall>p\<in>set ps. \<exists>h. holding_for ss f filer period (0, p) = Inr h"
proof -
  have "map hr_id rows = ids \<and> map holding_key rows = map (\<lambda>p. (fg_id f, position_key p)) ps
    \<and> (\<forall>h\<in>set rows. hr_filing h = fg_id f \<and> hr_filer h = filer \<and> hr_period h = period
       \<and> security_id ss (po_cusip (hr_position h)) = Some (hr_security h) \<and> 0 \<le> po_value (hr_position h) \<and> 0 \<le> po_shares (hr_position h))
    \<and> (\<lambda>h. h\<lparr>hr_id := 0\<rparr>) ` set rows = {h. \<exists>p\<in>set ps. holding_for ss f filer period (0, p) = Inr h}
    \<and> (\<forall>p\<in>set ps. \<exists>h. holding_for ss f filer period (0, p) = Inr h)"
    using assms(2,1)
  proof (induction ids ps arbitrary: rows rule: list_induct2)
    case (Cons i ids p ps)
    then obtain h rest where r: "rows = h # rest" "holding_for ss f filer period (i, p) = Inr h"
      "list_all2 (\<lambda>x h. holding_for ss f filer period x = Inr h) (zip ids ps) rest" by (auto simp: list_all2_Cons1)
    note IH = Cons.IH[OF r(3)]
    obtain sec q where q: "security_id ss (po_cusip p) = Some sec" "stored_position p = Some q"
      "h = \<lparr>hr_id = i, hr_filing = fg_id f, hr_security = sec, hr_filer = filer, hr_period = period, hr_position = q\<rparr>"
      using r(2) unfolding holding_for_Inr by blast
    have z: "holding_for ss f filer period (0, p) = Inr (h\<lparr>hr_id := 0\<rparr>)" unfolding holding_for_Inr using q by simp
    have "(\<lambda>h. h\<lparr>hr_id := 0\<rparr>) ` set rows = {g. \<exists>p'\<in>set (p # ps). holding_for ss f filer period (0, p') = Inr g}"
      unfolding r(1) using IH z by auto
    then show ?case using IH z q stored_position_Some[OF q(2)] by (simp add: r(1) holding_key_def)
  qed simp
  then show "map hr_id rows = ids" "map holding_key rows = map (\<lambda>p. (fg_id f, position_key p)) ps"
    "\<forall>h\<in>set rows. hr_filing h = fg_id f \<and> hr_filer h = filer \<and> hr_period h = period
       \<and> security_id ss (po_cusip (hr_position h)) = Some (hr_security h) \<and> 0 \<le> po_value (hr_position h) \<and> 0 \<le> po_shares (hr_position h)"
    "(\<lambda>h. h\<lparr>hr_id := 0\<rparr>) ` set rows = {h. \<exists>p\<in>set ps. holding_for ss f filer period (0, p) = Inr h}"
    "\<forall>p\<in>set ps. \<exists>h. holding_for ss f filer period (0, p) = Inr h" by blast+
qed

text \<open>The constraint never stops it: the filing's own rows are gone, and its positions have each a key of their own.\<close>

lemma replace_holdings_succeeds:
  assumes old: "distinct (map holding_key (filter (\<lambda>h. hr_filing h \<noteq> fg_id f) (ls_holdings s)))"
    and ps: "distinct (map position_key ps)"
    and rows: "list_all2 (\<lambda>x h. holding_for (ls_securities s) f filer period x = Inr h)
      (zip (map (\<lambda>k. ls_next_holding s + int k) [0..<length ps]) ps) rows"
  shows "\<exists>t. replace_holdings f filer period ps s = Inr t \<and> ls_securities t = ls_securities s"
proof -
  have m: "mapM_res (holding_for (ls_securities s) f filer period) (zip (map (\<lambda>k. ls_next_holding s + int k) [0..<length ps]) ps) = Inr rows"
    using rows by (induction rule: list_all2_induct) simp_all
  have "map holding_key rows = map (\<lambda>p. (fg_id f, position_key p)) ps" by (rule inserted_rows(2)[OF rows]) simp
  moreover have "distinct (map (\<lambda>p. (fg_id f, position_key p)) ps)" using ps by (simp add: distinct_map inj_on_def)
  moreover have "fst ` set (map holding_key (filter (\<lambda>h. hr_filing h \<noteq> fg_id f) (ls_holdings s))) \<subseteq> - {fg_id f}"
    by (auto simp: holding_key_def)
  ultimately have "distinct (map holding_key (filter (\<lambda>h. hr_filing h \<noteq> fg_id f) (ls_holdings s) @ rows))"
    using old by (force simp: holding_key_def)
  then show ?thesis by (simp add: replace_holdings_def insert_holdings_def Let_def m)
qed

section \<open>What a load does\<close>

definition anonymous :: "holding_row \<Rightarrow> holding_row" where "anonymous h = h\<lparr>hr_id := 0\<rparr>"

text \<open>The rows of a filing, less their ids, are the positions of a document, each with a security.\<close>

definition holds_positions :: "load_store \<Rightarrow> filing_row \<Rightarrow> load_args \<Rightarrow> bool" where
  "holds_positions s f a \<longleftrightarrow>
     (case fg_filer f of
        None \<Rightarrow> {h \<in> set (ls_holdings s). hr_filing h = fg_id f} = {}
      | Some filer \<Rightarrow>
          let rows = holding_for (ls_securities s) f filer (pd_period (la_doc a)); ps = holding_positions (nf_holdings (la_normalised a)) in
          anonymous ` {h \<in> set (ls_holdings s). hr_filing h = fg_id f} = {h. \<exists>p\<in>set ps. rows (0, p) = Inr h}
          \<and> (\<forall>p\<in>set ps. \<exists>h. rows (0, p) = Inr h)
          \<and> (\<forall>(c, x)\<in>set (issuer_names (nf_holdings (la_normalised a))). length c \<le> 9))"

lemma not_other: "store_ok s \<Longrightarrow> h \<in> set (ls_holdings s) \<Longrightarrow> hr_filing h = fg_id f \<Longrightarrow> f \<in> set (ls_filings s) \<Longrightarrow> fg_filer f = Some (hr_filer h)"
  unfolding store_ok_def filings_ok_def holdings_ok_def holding_ok_def using inj_of_distinct[of fg_id "ls_filings s"] by metis

lemma upserted_holdings_else:
  assumes "store_ok s" "upsert_filing a now (ls_links s (pd_cik (la_doc a))) s = Inr (s1, f)"
  shows "filter (\<lambda>h. hr_filing h \<noteq> fg_id f) (ls_holdings s1) = filter (\<lambda>h. hr_filing h \<noteq> fg_id f) (ls_holdings s)"
proof -
  have "filter (\<lambda>h. hr_filing h \<noteq> fg_id f) (map (\<lambda>h. if hr_filing h = fg_id f then h\<lparr>hr_period := fg_period f\<rparr> else h) hs)
    = filter (\<lambda>h. hr_filing h \<noteq> fg_id f) hs" for hs by (induction hs) auto
  then show ?thesis unfolding upsert_filing_Inr(7)[OF assms] .
qed

text \<open>A holding of another filing stays one of it.\<close>

lemma holding_stays:
  assumes ok: "store_ok s" and u: "upsert_filing a now (ls_links s (pd_cik (la_doc a))) s = Inr (s1, f)"
    and h: "h \<in> set (ls_holdings s)" "hr_filing h \<noteq> fg_id f"
    and t: "set (ls_filings t) = set (ls_filings s1)"
      "\<forall>c i. security_id (ls_securities s) c = Some i \<longrightarrow> security_id (ls_securities t) c = Some i"
      "ls_next_holding s \<le> ls_next_holding t"
  shows "holding_ok t h"
proof -
  note U = upsert_filing_Inr[OF ok u]
  obtain g where g: "g \<in> set (ls_filings s)" "fg_id g = hr_filing h" "fg_filer g = Some (hr_filer h)" "fg_period g = hr_period h"
    using ok h(1) by (auto simp: store_ok_def holdings_ok_def holding_ok_def)
  then have "fg_accession g \<noteq> la_accession a" using U(6) h(2) by metis
  then have "g \<in> set (ls_filings t)" unfolding t(1) U(4) using g(1) by simp
  then show ?thesis using ok h(1) g t(2,3) by (auto simp: store_ok_def holdings_ok_def holding_ok_def)
qed

text \<open>A filing with no filer has no holdings, before or after.\<close>

lemma load_unlinked:
  assumes ok: "store_ok s" and u: "upsert_filing a now (ls_links s (pd_cik (la_doc a))) s = Inr (t, f)"
    and none: "fg_filer f = None"
  shows "store_ok t" "holds_positions t f a"
proof -
  note U = upsert_filing_Inr[OF ok u]
  have no: "hr_filing h \<noteq> fg_id f" if h: "h \<in> set (ls_holdings s)" for h
  proof
    assume e: "hr_filing h = fg_id f"
    obtain g where g: "g \<in> set (ls_filings s)" "fg_id g = hr_filing h" "fg_filer g = Some (hr_filer h)"
      using ok h by (auto simp: store_ok_def holdings_ok_def holding_ok_def)
    then have "fg_accession g = la_accession a" using U(6) e by simp
    then have "find_filing (ls_filings s) (la_accession a) = Some g"
      using ok g(1) unfolding find_filing_def store_ok_def filings_ok_def by (subst find_by_key) simp_all
    then show False using none g(3) by (auto simp: U(1) row_after_def coalesce_def Let_def split: option.splits)
  qed
  then have same: "ls_holdings t = ls_holdings s" unfolding U(7) by (simp add: map_idI)
  have "holding_ok t h" if "h \<in> set (ls_holdings s)" for h
    by (rule holding_stays[OF ok u that no[OF that]]) (use U(8) in simp_all)
  then show "store_ok t" using ok U(5,8) same by (simp add: store_ok_def holdings_ok_def securities_ok_def)
  show "holds_positions t f a" using no same by (auto simp: holds_positions_def none)
qed

text \<open>A linked one has its rows replaced.\<close>

lemma load_linked:
  assumes ok: "store_ok s" and u: "upsert_filing a now (ls_links s (pd_cik (la_doc a))) s = Inr (s1, f)"
    and filer: "fg_filer f = Some filer"
    and n: "upsert_securities (issuer_names (nf_holdings (la_normalised a))) s1 = Inr (s2, created)"
    and rep: "replace_holdings f filer (pd_period (la_doc a)) (holding_positions (nf_holdings (la_normalised a))) s2 = Inr t"
  shows "store_ok t" "holds_positions t f a" "ls_filings t = ls_filings s1" "ls_links t = ls_links s"
    "filter (\<lambda>h. hr_filing h \<noteq> fg_id f) (ls_holdings t) = filter (\<lambda>h. hr_filing h \<noteq> fg_id f) (ls_holdings s)"
    "\<forall>c i. security_id (ls_securities s) c = Some i \<longrightarrow> security_id (ls_securities t) c = Some i"
proof -
  let ?hs = "nf_holdings (la_normalised a)"
  let ?ps = "holding_positions ?hs" and ?period = "pd_period (la_doc a)"
  note U = upsert_filing_Inr[OF ok u]
  have sec: "securities_ok s1" using ok U(8) by (simp add: store_ok_def securities_ok_def)
  have len: "\<forall>(c, x)\<in>set (issuer_names ?hs). length c \<le> 9" and fold: "foldl insert_security (s1, 0) (issuer_names ?hs) = (s2, created)"
    using n by (auto simp: upsert_securities_def not_less split: if_splits)
  note S = insert_securities[OF fold sec]
  obtain rows where t: "t = s2\<lparr>ls_holdings := filter (\<lambda>h. hr_filing h \<noteq> fg_id f) (ls_holdings s2) @ rows,
       ls_next_holding := ls_next_holding s2 + int (length ?ps)\<rparr>"
    and rows: "list_all2 (\<lambda>x h. holding_for (ls_securities s2) f filer ?period x = Inr h)
      (zip (map (\<lambda>k. ls_next_holding s2 + int k) [0..<length ?ps]) ?ps) rows"
    using replace_holdings_Inr[OF rep] by blast
  have R: "map hr_id rows = map (\<lambda>k. ls_next_holding s + int k) [0..<length ?ps]"
    "map holding_key rows = map (\<lambda>p. (fg_id f, position_key p)) ?ps"
    "\<forall>h\<in>set rows. hr_filing h = fg_id f \<and> hr_filer h = filer \<and> hr_period h = ?period
       \<and> security_id (ls_securities t) (po_cusip (hr_position h)) = Some (hr_security h) \<and> 0 \<le> po_value (hr_position h) \<and> 0 \<le> po_shares (hr_position h)"
    "anonymous ` set rows = {h. \<exists>p\<in>set ?ps. holding_for (ls_securities t) f filer ?period (0, p) = Inr h}"
    "\<forall>p\<in>set ?ps. \<exists>h. holding_for (ls_securities t) f filer ?period (0, p) = Inr h"
    using inserted_rows[OF rows] S U(8) by (simp_all add: t anonymous_def[abs_def])
  have T: "ls_next_holding t = ls_next_holding s + int (length ?ps)"
    "ls_holdings t = filter (\<lambda>h. hr_filing h \<noteq> fg_id f) (ls_holdings s) @ rows"
    using S U(8) upserted_holdings_else[OF ok u] by (simp_all add: t)
  show fs: "ls_filings t = ls_filings s1" "ls_links t = ls_links s" using S U(8) by (simp_all add: t)
  show ids: "\<forall>c i. security_id (ls_securities s) c = Some i \<longrightarrow> security_id (ls_securities t) c = Some i" using S U(8) by (simp add: t)
  have old: "holding_ok t h" if "h \<in> set (ls_holdings s)" "hr_filing h \<noteq> fg_id f" for h
    by (rule holding_stays[OF ok u that]) (use fs T ids in simp_all)
  have new: "holding_ok t h" if h: "h \<in> set rows" for h
  proof -
    have "f \<in> set (ls_filings t)" unfolding fs U(4) by simp
    moreover have "hr_id h \<in> (\<lambda>k. ls_next_holding s + int k) ` {0..<length ?ps}" using arg_cong[OF R(1), of set] h by auto
    then have "hr_id h < ls_next_holding t" unfolding T(1) by auto
    ultimately show ?thesis using R(3)[rule_format, OF h] filer U(3) by (auto simp: holding_ok_def intro!: bexI[of _ f])
  qed
  have "\<forall>h\<in>set (ls_holdings s). hr_id h < ls_next_holding s" "distinct (map hr_id (ls_holdings s))" "distinct (map holding_key (ls_holdings s))"
    using ok by (auto simp: store_ok_def holdings_ok_def holding_ok_def)
  moreover have "distinct (map (\<lambda>p. (fg_id f, position_key p)) ?ps)"
    using positions_keys(1)[of ?hs] by (simp add: distinct_map inj_on_def)
  ultimately have "distinct (map hr_id (ls_holdings t))" "distinct (map holding_key (ls_holdings t))"
    unfolding T(2) map_append R(1,2) by (fastforce simp: distinct_map inj_on_def, auto simp: distinct_map_filter holding_key_def)
  then have "holdings_ok t" using old new unfolding holdings_ok_def T(2) by auto
  moreover have "filings_ok t" "securities_ok t" using U(5) S by (simp_all add: filings_ok_def securities_ok_def t)
  ultimately show "store_ok t" by (simp add: store_ok_def)
  have "{h \<in> set (ls_holdings t). hr_filing h = fg_id f} = set rows" unfolding T(2) using R(3) by auto
  then show "holds_positions t f a" using R(4,5) len by (simp add: holds_positions_def filer Let_def)
  have "filter (\<lambda>h. hr_filing h \<noteq> fg_id f) rows = []" using R(3) by (simp add: filter_empty_conv)
  then show "filter (\<lambda>h. hr_filing h \<noteq> fg_id f) (ls_holdings t) = filter (\<lambda>h. hr_filing h \<noteq> fg_id f) (ls_holdings s)"
    unfolding T(2) by simp
qed

lemma load_effect:
  assumes ok: "store_ok s" and l: "load_in_savepoint a now s = Inr (t, r)"
  defines "f \<equiv> row_after a now s"
  shows "store_ok t" "ls_links t = ls_links s"
    "set (ls_filings t) = insert f {g \<in> set (ls_filings s). fg_accession g \<noteq> la_accession a}"
    "fg_accession f = la_accession a"
    "\<forall>g\<in>set (ls_filings s). fg_id g = fg_id f \<longleftrightarrow> fg_accession g = la_accession a"
    "filter (\<lambda>h. hr_filing h \<noteq> fg_id f) (ls_holdings t) = filter (\<lambda>h. hr_filing h \<noteq> fg_id f) (ls_holdings s)"
    "\<forall>c i. security_id (ls_securities s) c = Some i \<longrightarrow> security_id (ls_securities t) c = Some i"
    "holds_positions t f a"
proof -
  obtain s1 f' where u': "upsert_filing a now (ls_links s (pd_cik (la_doc a))) s = Inr (s1, f')"
    using l unfolding load_in_savepoint_def bind_res_Inr_iff by (metis prod.exhaust)
  then have u: "upsert_filing a now (ls_links s (pd_cik (la_doc a))) s = Inr (s1, f)"
    using upsert_filing_Inr(1)[OF ok u'] by (simp add: f_def)
  note U = upsert_filing_Inr[OF ok u]
  have all: "store_ok t \<and> holds_positions t f a \<and> set (ls_filings t) = set (ls_filings s1) \<and> ls_links t = ls_links s
    \<and> filter (\<lambda>h. hr_filing h \<noteq> fg_id f) (ls_holdings t) = filter (\<lambda>h. hr_filing h \<noteq> fg_id f) (ls_holdings s)
    \<and> (\<forall>c i. security_id (ls_securities s) c = Some i \<longrightarrow> security_id (ls_securities t) c = Some i)"
  proof (cases "fg_filer f")
    case None
    then have "t = s1" using l u by (simp add: load_in_savepoint_def Let_def)
    then show ?thesis using load_unlinked[OF ok u None] upserted_holdings_else[OF ok u] U(8) by simp
  next
    case (Some filer)
    have "bind_res (upsert_securities (issuer_names (nf_holdings (la_normalised a))) s1) (\<lambda>(s2, created).
        map_res (\<lambda>t. (t, \<lparr>lr_filing = fg_id f, lr_filer = Some filer,
            lr_loaded = length (holding_positions (nf_holdings (la_normalised a))), lr_created = created,
            lr_collapsed = length (nf_holdings (la_normalised a)) - length (holding_positions (nf_holdings (la_normalised a))),
            lr_deferred = False\<rparr>))
          (replace_holdings f filer (pd_period (la_doc a)) (holding_positions (nf_holdings (la_normalised a))) s2)) = Inr (t, r)"
      using l unfolding load_in_savepoint_def u bind_res_simps Let_def prod.case Some option.case .
    then obtain x where x: "upsert_securities (issuer_names (nf_holdings (la_normalised a))) s1 = Inr x"
      "map_res (\<lambda>t. (t, \<lparr>lr_filing = fg_id f, lr_filer = Some filer,
            lr_loaded = length (holding_positions (nf_holdings (la_normalised a))), lr_created = snd x,
            lr_collapsed = length (nf_holdings (la_normalised a)) - length (holding_positions (nf_holdings (la_normalised a))),
            lr_deferred = False\<rparr>))
          (replace_holdings f filer (pd_period (la_doc a)) (holding_positions (nf_holdings (la_normalised a))) (fst x)) = Inr (t, r)"
      unfolding bind_res_Inr_iff case_prod_beta by blast
    have n: "upsert_securities (issuer_names (nf_holdings (la_normalised a))) s1 = Inr (fst x, snd x)" using x(1) by simp
    have rep: "replace_holdings f filer (pd_period (la_doc a)) (holding_positions (nf_holdings (la_normalised a))) (fst x) = Inr t"
      using x(2) unfolding map_res_Inr_iff by blast
    note L = load_linked[OF ok u Some n rep]
    show ?thesis using L(1,2,4,5,6) by (simp add: L(3))
  qed
  show "fg_accession f = la_accession a" "\<forall>g\<in>set (ls_filings s). fg_id g = fg_id f \<longleftrightarrow> fg_accession g = la_accession a"
    by (rule U(2), rule U(6))
  show "set (ls_filings t) = insert f {g \<in> set (ls_filings s). fg_accession g \<noteq> la_accession a}" using all U(4) by simp
  show "store_ok t" "ls_links t = ls_links s" 
    "filter (\<lambda>h. hr_filing h \<noteq> fg_id f) (ls_holdings t) = filter (\<lambda>h. hr_filing h \<noteq> fg_id f) (ls_holdings s)"
    "\<forall>c i. security_id (ls_securities s) c = Some i \<longrightarrow> security_id (ls_securities t) c = Some i"
    "holds_positions t f a"
    using all by simp_all
qed

section \<open>Whatever is loaded, in whatever order\<close>

datatype load_event = Load load_args moment | Link string "int option"

definition load_step :: "load_store \<Rightarrow> load_event \<Rightarrow> load_store" where
  "load_step s e =
     (case e of Load a now \<Rightarrow> fst (load_filing a now s) | Link cik filer \<Rightarrow> s\<lparr>ls_links := (ls_links s)(cik := filer)\<rparr>)"

lemma load_filing_cases:
  obtains (failed) e where "load_in_savepoint a now s = Inl e" "load_filing a now s = (s, Inl e)"
  | (loaded) t r where "load_in_savepoint a now s = Inr (t, r)" "load_filing a now s = (t, Inr r)"
  by (cases "load_in_savepoint a now s") (auto simp: load_filing_def)

lemma load_keeps_ok: "store_ok s \<Longrightarrow> store_ok (fst (load_filing a now s))"
  by (cases rule: load_filing_cases[of a now s]) (auto dest: load_effect(1))

lemma relink_keeps_ok: "store_ok s \<Longrightarrow> store_ok (s\<lparr>ls_links := l\<rparr>)"
  by (simp add: store_ok_def filings_ok_def securities_ok_def holdings_ok_def holding_ok_def)

interpretation loader: total_machine load_step store_ok
  by unfold_locales (auto simp: load_step_def load_keeps_ok relink_keeps_ok split: load_event.split)

text \<open>What a filing keeps through a later load of it: its id, what it amends, a filer and an archived document.\<close>

definition outlived :: "filing_row \<Rightarrow> filing_row \<Rightarrow> bool" where
  "outlived f g \<longleftrightarrow> fg_accession g = fg_accession f \<and> fg_id g = fg_id f \<and> fg_amends g = fg_amends f
     \<and> (fg_filer f \<noteq> None \<longrightarrow> fg_filer g \<noteq> None) \<and> (fg_raw_key f \<noteq> None \<longrightarrow> fg_raw_key g \<noteq> None)"

lemma outlived_trans: "outlived f g \<Longrightarrow> outlived g h \<Longrightarrow> outlived f h"
  by (simp add: outlived_def)

lemma row_after_outlives:
  assumes ok: "store_ok s" and f: "f \<in> set (ls_filings s)" "fg_accession f = la_accession a"
  shows "outlived f (row_after a now s)"
proof -
  have "find_filing (ls_filings s) (la_accession a) = Some f"
    using ok f unfolding find_filing_def store_ok_def filings_ok_def by (subst find_by_key) simp_all
  then have "row_after a now s = updated_row (filing_values a now (ls_links s (pd_cik (la_doc a))) (ls_next_filing s)) f"
    by (simp add: row_after_def Let_def)
  then show ?thesis by (simp add: outlived_def updated_row_def coalesce_def split: option.split)
qed

lemma step_outlives:
  assumes ok: "store_ok s" and f: "f \<in> set (ls_filings s)"
  shows "\<exists>g\<in>set (ls_filings (load_step s e)). outlived f g"
proof (cases e)
  case (Load a now)
  show ?thesis
  proof (cases rule: load_filing_cases[of a now s])
    case (loaded t r)
    note E = load_effect[OF ok loaded(1)]
    show ?thesis
    proof (cases "fg_accession f = la_accession a")
      case True
      then show ?thesis using row_after_outlives[OF ok f] E(3) loaded(2) by (auto simp: load_step_def Load)
    next
      case False
      then have "f \<in> set (ls_filings t)" using E(3) f by simp
      then show ?thesis using loaded(2) by (force simp: load_step_def Load outlived_def)
    qed
  qed (use f in \<open>force simp: load_step_def Load outlived_def\<close>)
next
  case (Link c l)
  then show ?thesis using f by (force simp: load_step_def outlived_def)
qed

text \<open>C14. However filings are loaded, reloaded and linked, in whatever order and whether each succeeds or not: there is one
  filing for each accession, every holding is of a filing that has its filer and its period and of the
  security of its CUSIP, no filing has two rows with one natural key and no figure is negative; and a
  filing once there keeps its id, what it amends, a filer and an archived document.\<close>

theorem loads_keep_store:
  assumes "store_ok s"
  shows "store_ok (foldl load_step s es)
    \<and> (\<forall>f\<in>set (ls_filings s). \<exists>g\<in>set (ls_filings (foldl load_step s es)). outlived f g)"
  using assms
proof (induction es arbitrary: s)
  case (Cons e es)
  note IH = Cons.IH[OF loader.total_step_inv[OF Cons.prems, of e]]
  have "\<exists>h\<in>set (ls_filings (foldl load_step s (e # es))). outlived f h" if f: "f \<in> set (ls_filings s)" for f
  proof -
    obtain g where g: "g \<in> set (ls_filings (load_step s e))" "outlived f g" using step_outlives[OF Cons.prems f] by blast
    then obtain h where "h \<in> set (ls_filings (foldl load_step (load_step s e) es))" "outlived g h" using IH by blast
    then show ?thesis using outlived_trans[OF g(2)] by auto
  qed
  then show ?case using IH by simp
qed (auto simp: outlived_def)

section \<open>Loading again\<close>

text \<open>What the tables say, less the times of the last run, the ids of holdings, which nothing refers to, and the order of the rows.\<close>

definition untimed :: "filing_row \<Rightarrow> filing_row" where "untimed f = f\<lparr>fg_parsed_at := None, fg_ingested_at := 0\<rparr>"

definition contents :: "load_store \<Rightarrow> (string \<Rightarrow> int option) \<times> filing_row multiset \<times> security_row list \<times> holding_row multiset" where
  "contents s = (ls_links s, image_mset untimed (mset (ls_filings s)), ls_securities s, image_mset anonymous (mset (ls_holdings s)))"

text \<open>Tables that hold the same rows hold each as often, since no two of a table have one key.\<close>

lemma same_rows_mset:
  assumes "f ` set xs = f ` set ys" "\<And>x. key (f x) = key x" "distinct (map key xs)" "distinct (map key ys)"
  shows "image_mset f (mset xs) = image_mset f (mset ys)"
proof -
  have "distinct (map f zs)" if "distinct (map key zs)" for zs
    using that assms(2) by (metis distinct_map list.map_comp map_cong o_apply)
  then have "distinct (map f xs)" "distinct (map f ys)" using assms(3,4) by blast+
  then have "mset (map f xs) = mset (map f ys)" using assms(1) set_eq_iff_mset_eq_distinct[of "map f xs" "map f ys"] by simp
  then show ?thesis by simp
qed

text \<open>A filing is settled when loading it again would write what is there.\<close>

definition settled :: "load_store \<Rightarrow> load_args \<Rightarrow> bool" where
  "settled s a \<longleftrightarrow> (\<exists>f\<in>set (ls_filings s). fg_accession f = la_accession a
     \<and> untimed (updated_row (filing_values a 0 (ls_links s (pd_cik (la_doc a))) 0) f) = untimed f
     \<and> filing_taken (filing_values a 0 None 0) \<and> holds_positions s f a)"

lemma updated_again:
  "untimed (updated_row (filing_values a t l i) (updated_row (filing_values a t' l i') f)) = untimed (updated_row (filing_values a t' l i') f)"
  "untimed (updated_row (filing_values a t l i) (filing_values a t' l i')) = untimed (filing_values a t' l i')"
  by (simp_all add: untimed_def updated_row_def filing_values_def coalesce_def Let_def split: option.split)

lemma untimed_updated: "untimed (updated_row (filing_values a t l i) f) = untimed (updated_row (filing_values a t' l i') f)"
  by (simp add: untimed_def updated_row_def filing_values_def Let_def)

lemma taken_again: "filing_taken (filing_values a t l i) = filing_taken (filing_values a t' l' i')"
  by (simp add: filing_taken_def filing_values_def Let_def)

lemma load_settles:
  assumes ok: "store_ok s" and l: "load_in_savepoint a now s = Inr (t, r)"
  shows "settled t a"
proof -
  note E = load_effect[OF ok l]
  let ?f = "row_after a now s"
  have "filing_taken (filing_values a now (ls_links s (pd_cik (la_doc a))) (ls_next_filing s))"
    using l by (auto simp: load_in_savepoint_def upsert_filing_def Let_def split: if_splits)
  then have "filing_taken (filing_values a 0 None 0)" unfolding taken_again[of a 0 None 0 now "ls_links s (pd_cik (la_doc a))" "ls_next_filing s"] .
  moreover have "untimed (updated_row (filing_values a 0 (ls_links t (pd_cik (la_doc a))) 0) ?f) = untimed ?f"
    unfolding E(2) row_after_def Let_def by (simp add: updated_again split: option.split)
  moreover have "?f \<in> set (ls_filings t)" unfolding E(3) by simp
  ultimately show ?thesis using E(4,8) unfolding settled_def by blast
qed

text \<open>Securities that stay keep the rows a filing has.\<close>

lemma holds_positions_stay:
  assumes h: "holds_positions s f a"
    and rows: "{h \<in> set (ls_holdings t). hr_filing h = fg_id f} = {h \<in> set (ls_holdings s). hr_filing h = fg_id f}"
    and ids: "\<forall>c i. security_id (ls_securities s) c = Some i \<longrightarrow> security_id (ls_securities t) c = Some i"
  shows "holds_positions t f a"
proof (cases "fg_filer f")
  case None
  then show ?thesis using h rows by (simp add: holds_positions_def)
next
  case (Some filer)
  let ?ps = "holding_positions (nf_holdings (la_normalised a))"
  let ?row = "\<lambda>s p. holding_for (ls_securities s) f filer (pd_period (la_doc a)) (0, p)"
  have all: "\<forall>p\<in>set ?ps. \<exists>h. ?row s p = Inr h" and names: "\<forall>(c, x)\<in>set (issuer_names (nf_holdings (la_normalised a))). length c \<le> 9"
    and eq: "anonymous ` {h \<in> set (ls_holdings s). hr_filing h = fg_id f} = {h. \<exists>p\<in>set ?ps. ?row s p = Inr h}"
    using h by (simp_all add: holds_positions_def Some Let_def)
  have same: "?row t p = ?row s p" if p: "p \<in> set ?ps" for p
  proof -
    obtain h where h: "?row s p = Inr h" using all p by blast
    then have "?row t p = Inr h" using ids unfolding holding_for_Inr by blast
    then show ?thesis using h by simp
  qed
  have "{h. \<exists>p\<in>set ?ps. ?row t p = Inr h} = {h. \<exists>p\<in>set ?ps. ?row s p = Inr h}" using same by auto
  moreover have "\<forall>p\<in>set ?ps. \<exists>h. ?row t p = Inr h" using same all by simp
  ultimately show ?thesis using eq names unfolding holds_positions_def Some option.case Let_def rows by simp
qed

lemma other_stays_settled:
  assumes ok: "store_ok s" and l: "load_in_savepoint b now s = Inr (t, r)" and a: "settled s a" "la_accession a \<noteq> la_accession b"
  shows "settled t a"
proof -
  note E = load_effect[OF ok l]
  let ?g = "row_after b now s"
  obtain f where f: "f \<in> set (ls_filings s)" "fg_accession f = la_accession a"
    "untimed (updated_row (filing_values a 0 (ls_links s (pd_cik (la_doc a))) 0) f) = untimed f"
    "filing_taken (filing_values a 0 None 0)" "holds_positions s f a" using a(1) unfolding settled_def by blast
  have id: "fg_id f \<noteq> fg_id ?g" using E(5) f(1,2) a(2) by auto
  have ft: "f \<in> set (ls_filings t)" unfolding E(3) using f(1,2) a(2) by simp
  have part: "{h \<in> set hs. hr_filing h = fg_id f} = set (filter (\<lambda>h. hr_filing h = fg_id f) (filter (\<lambda>h. hr_filing h \<noteq> fg_id ?g) hs))" for hs
    using id by auto
  have "{h \<in> set (ls_holdings t). hr_filing h = fg_id f} = {h \<in> set (ls_holdings s). hr_filing h = fg_id f}"
    unfolding part E(6) ..
  then have "holds_positions t f a" by (rule holds_positions_stay[OF f(5) _ E(7)])
  then show ?thesis unfolding settled_def E(2) using f(2-4) by (intro bexI[OF _ ft] conjI)
qed

text \<open>Loading what is settled succeeds and changes nothing.\<close>

lemma holding_for_id: "fg_id f = fg_id g \<Longrightarrow> holding_for ss f = holding_for ss g"
  by (intro ext) (auto simp: holding_for_def split: option.splits)

lemma settled_positions:
  assumes h: "holds_positions s f a" and filer: "fg_filer f = Some filer"
  shows "\<forall>(c, x)\<in>set (issuer_names (nf_holdings (la_normalised a))). security_id (ls_securities s) c \<noteq> None"
    "\<not> (\<exists>(c, x)\<in>set (issuer_names (nf_holdings (la_normalised a))). length c > 9)"
    "p \<in> set (holding_positions (nf_holdings (la_normalised a))) \<Longrightarrow>
       \<exists>h. holding_for (ls_securities s) f filer (pd_period (la_doc a)) (i, p) = Inr h"
proof -
  let ?hs = "nf_holdings (la_normalised a)"
  have all: "\<forall>p\<in>set (holding_positions ?hs). \<exists>h. holding_for (ls_securities s) f filer (pd_period (la_doc a)) (0, p) = Inr h"
    and len: "\<forall>(c, x)\<in>set (issuer_names ?hs). length c \<le> 9" using h by (simp_all add: holds_positions_def filer Let_def)
  show "\<not> (\<exists>(c, x)\<in>set (issuer_names ?hs). length c > 9)" using len by (auto simp: not_less)
  show "\<exists>h. holding_for (ls_securities s) f filer (pd_period (la_doc a)) (i, p) = Inr h" if "p \<in> set (holding_positions ?hs)" for p i
    using all that unfolding holding_for_Inr by blast

  have "security_id (ls_securities s) c \<noteq> None" if "(c, x) \<in> set (issuer_names ?hs)" for c x
  proof -
    have "c \<in> po_cusip ` set (holding_positions ?hs)" unfolding positions_cusips using that by force
    then obtain p where "p \<in> set (holding_positions ?hs)" "po_cusip p = c" by blast
    then show ?thesis using all unfolding holding_for_Inr by fastforce
  qed
  then show "\<forall>(c, x)\<in>set (issuer_names ?hs). security_id (ls_securities s) c \<noteq> None" by blast
qed

text \<open>The rows of a store agree with another's when they differ in the times of a run and the ids of holdings at most.\<close>

lemma contents_again:
  assumes ok: "store_ok s" "store_ok t" and f: "f \<in> set (ls_filings s)" "fg_accession f = la_accession a" "untimed g = untimed f"
    and fs: "set (ls_filings t) = insert g {x \<in> set (ls_filings s). fg_accession x \<noteq> la_accession a}"
    and hs: "filter (\<lambda>h. hr_filing h \<noteq> fg_id f) (ls_holdings t) = filter (\<lambda>h. hr_filing h \<noteq> fg_id f) (ls_holdings s)"
    and p: "holds_positions s f a" "holds_positions t g a" and rest: "ls_links t = ls_links s" "ls_securities t = ls_securities s"
  shows "contents t = contents s"
proof -
  have d: "distinct (map fg_accession (ls_filings s))" using ok(1) by (simp add: store_ok_def filings_ok_def)
  have "x = f" if "x \<in> set (ls_filings s)" "fg_accession x = la_accession a" for x
    by (rule inj_of_distinct[OF d that(1) f(1)]) (simp add: that(2) f(2))
  then have "set (ls_filings s) = insert f {x \<in> set (ls_filings s). fg_accession x \<noteq> la_accession a}" using f(1) by blast
  then have "untimed ` set (ls_filings s) = insert (untimed f) (untimed ` {x \<in> set (ls_filings s). fg_accession x \<noteq> la_accession a})"
    by (metis image_insert)
  then have filings: "untimed ` set (ls_filings t) = untimed ` set (ls_filings s)" unfolding fs image_insert f(3) by simp
  have g: "fg_id g = fg_id f" "fg_filer g = fg_filer f" using f(3) by (cases f, cases g, simp add: untimed_def)+
  have mine: "anonymous ` {h \<in> set (ls_holdings t). hr_filing h = fg_id f} = anonymous ` {h \<in> set (ls_holdings s). hr_filing h = fg_id f}"
  proof (cases "fg_filer f")
    case None
    then show ?thesis using p by (simp only: holds_positions_def g option.case)
  next
    case (Some filer)
    then show ?thesis using p by (simp add: holds_positions_def Let_def g rest holding_for_id[OF g(1)])
  qed
  have all: "set hs = {h \<in> set hs. hr_filing h = i} \<union> set (filter (\<lambda>h. hr_filing h \<noteq> i) hs)" for hs i by auto
  have "anonymous ` set (ls_holdings t) = anonymous ` set (ls_holdings s)"
    by (subst (1 2) all[of _ "fg_id f"]) (simp only: image_Un mine hs)
  moreover have "distinct (map holding_key (ls_holdings u))" "distinct (map fg_accession (ls_filings u))" if "u = s \<or> u = t" for u
    using ok that by (auto simp: store_ok_def filings_ok_def holdings_ok_def)
  ultimately have "image_mset anonymous (mset (ls_holdings t)) = image_mset anonymous (mset (ls_holdings s))"
    "image_mset untimed (mset (ls_filings t)) = image_mset untimed (mset (ls_filings s))"
    using filings by (intro same_rows_mset[where key = holding_key] same_rows_mset[where key = fg_accession];
      simp add: anonymous_def holding_key_def untimed_def)+
  then show ?thesis by (simp add: contents_def rest)
qed

lemma load_again:
  assumes ok: "store_ok s" and a: "settled s a"
  obtains t r where "load_in_savepoint a now s = Inr (t, r)" "contents t = contents s"
proof -
  let ?hs = "nf_holdings (la_normalised a)" and ?link = "ls_links s (pd_cik (la_doc a))"
  let ?x = "filing_values a now ?link (ls_next_filing s)"
  obtain f where f: "f \<in> set (ls_filings s)" "fg_accession f = la_accession a"
    "untimed (updated_row (filing_values a 0 ?link 0) f) = untimed f"
    "filing_taken (filing_values a 0 None 0)" "holds_positions s f a" using a unfolding settled_def by blast
  have find: "find_filing (ls_filings s) (la_accession a) = Some f"
    using ok f(1,2) unfolding find_filing_def store_ok_def filings_ok_def by (subst find_by_key) simp_all
  define g where "g = updated_row ?x f"
  have g: "untimed g = untimed f" unfolding g_def using f(3) untimed_updated by metis
  have gf: "fg_id g = fg_id f" "fg_filer g = fg_filer f" using g by (cases f, cases g, simp add: untimed_def)+
  have row: "row_after a now s = g" unfolding row_after_def find Let_def g_def by simp
  have "filing_taken ?x" using f(4) taken_again by blast
  then obtain s1 where u: "upsert_filing a now ?link s = Inr (s1, g)" by (simp add: upsert_filing_def find Let_def g_def)
  note U = upsert_filing_Inr[OF ok u]
  note goal = that
  have finish: "thesis" if l: "load_in_savepoint a now s = Inr (t, r)" and sec: "ls_securities t = ls_securities s" for t r
  proof -
    note E = load_effect[OF ok l, unfolded row]
    have "contents t = contents s"
      by (rule contents_again[OF ok E(1) f(1,2) g E(3) _ f(5) E(8) E(2) sec]) (use E(6) gf in simp)
    then show thesis by (rule goal[OF l])
  qed
  show thesis
  proof (cases "fg_filer f")
    case None
    then show thesis using finish[of s1] u gf U(8) by (simp add: load_in_savepoint_def Let_def)
  next
    case (Some filer)
    note P = settled_positions[OF f(5) Some]
    obtain s2 n where n: "foldl insert_security (s1, 0) (issuer_names ?hs) = (s2, n)" by (rule prod.exhaust)
    have "securities_ok s1" using ok U(8) by (simp add: store_ok_def securities_ok_def)
    note S = insert_securities[OF n this]
    have same: "ls_securities s2 = ls_securities s" using S P(1) U(8) by simp
    have up: "upsert_securities (issuer_names ?hs) s1 = Inr (s2, n)" using P(2) n by (simp add: upsert_securities_def)
    let ?row = "holding_for (ls_securities s2) g filer (pd_period (la_doc a))"
    let ?ips = "zip (map (\<lambda>k. ls_next_holding s2 + int k) [0..<length (holding_positions ?hs)]) (holding_positions ?hs)"
    have "\<exists>h. ?row x = Inr h" if x: "x \<in> set ?ips" for x
    proof -
      have "snd x \<in> set (holding_positions ?hs)" using x set_zip_rightD[of "fst x" "snd x"] by (metis prod.collapse)
      then show ?thesis using P(3)[of "snd x" "fst x"] by (simp add: same holding_for_id[OF gf(1)])
    qed
    then have "mapM_res ?row ?ips = Inr (map (\<lambda>x. SOME h. ?row x = Inr h) ?ips)"
      by (intro mapM_res_Inr_map) (rule someI_ex)
    from mapM_res_InrD[OF this] have rows: "list_all2 (\<lambda>x h. ?row x = Inr h) ?ips (map (\<lambda>x. SOME h. ?row x = Inr h) ?ips)" .
    have "filter (\<lambda>h. hr_filing h \<noteq> fg_id g) (ls_holdings s2) = filter (\<lambda>h. hr_filing h \<noteq> fg_id g) (ls_holdings s)"
      using S upserted_holdings_else[OF ok u] by simp
    then have "distinct (map holding_key (filter (\<lambda>h. hr_filing h \<noteq> fg_id g) (ls_holdings s2)))"
      using ok by (simp add: store_ok_def holdings_ok_def distinct_map_filter)
    then obtain t where t: "replace_holdings g filer (pd_period (la_doc a)) (holding_positions ?hs) s2 = Inr t"
      "ls_securities t = ls_securities s2" using replace_holdings_succeeds[OF _ positions_keys(1) rows] by blast
    have "\<exists>r. load_in_savepoint a now s = Inr (t, r)"
      unfolding load_in_savepoint_def u bind_res_simps prod.case Let_def gf(2) Some option.case up t(1) by simp
    then show thesis using finish t(2) same by auto
  qed
qed

text \<open>Loads that must all succeed, as a backfill makes them.\<close>

fun load_each :: "(load_args \<times> moment) list \<Rightarrow> load_store \<Rightarrow> load_error + load_store" where
  "load_each [] s = Inr s"
| "load_each ((a, now) # runs) s = bind_res (load_in_savepoint a now s) (\<lambda>(t, r). load_each runs t)"

definition one_document :: "load_args set \<Rightarrow> bool" where
  "one_document A \<longleftrightarrow> (\<forall>a\<in>A. \<forall>b\<in>A. la_accession a = la_accession b \<longrightarrow> a = b)"

lemma load_keeps_settled:
  assumes ok: "store_ok s" and l: "load_in_savepoint b now s = Inr (t, r)" and A: "one_document (insert b A)" "\<forall>a\<in>A. settled s a"
  shows "store_ok t" "\<forall>a\<in>insert b A. settled t a"
proof -
  have "settled t a" if "a \<in> A" for a
  proof (cases "la_accession a = la_accession b")
    case True
    then have "a = b" using A(1) that unfolding one_document_def by blast
    then show ?thesis using load_settles[OF ok l] by simp
  qed (rule other_stays_settled[OF ok l A(2)[rule_format, OF that]])
  then show "\<forall>a\<in>insert b A. settled t a" using load_settles[OF ok l] by blast
qed (rule load_effect(1)[OF ok l])

lemma loads_settle:
  assumes "load_each runs s = Inr t" "store_ok s" "one_document (fst ` set runs \<union> A)" "\<forall>a\<in>A. settled s a"
  shows "store_ok t \<and> (\<forall>a\<in>fst ` set runs \<union> A. settled t a)"
  using assms
proof (induction runs arbitrary: s A)
  case (Cons x runs)
  obtain b now where x: "x = (b, now)" by (rule prod.exhaust)
  obtain y where y: "load_in_savepoint b now s = Inr y" "(\<lambda>(t, r). load_each runs t) y = Inr t"
    using Cons.prems(1) unfolding x load_each.simps bind_res_Inr_iff by blast
  obtain u r where yu: "y = (u, r)" by (rule prod.exhaust)
  have l: "load_in_savepoint b now s = Inr (u, r)" and rest: "load_each runs u = Inr t" using y yu by simp_all
  have "one_document (insert b A)" using Cons.prems(3) unfolding x one_document_def by auto
  note K = load_keeps_settled[OF Cons.prems(2) l this Cons.prems(4)]
  have "fst ` set (x # runs) \<union> A = fst ` set runs \<union> insert b A" by (simp add: x)
  then show ?case using Cons.IH[OF rest K(1) _ K(2)] Cons.prems(3) by simp
qed simp

lemma loads_again:
  assumes "store_ok t" "one_document A" "\<forall>a\<in>A. settled t a" "fst ` set again \<subseteq> A"
  shows "\<exists>u. load_each again t = Inr u \<and> contents u = contents t"
  using assms
proof (induction again arbitrary: t)
  case (Cons x again)
  obtain b now where x: "x = (b, now)" by (rule prod.exhaust)
  have b: "b \<in> A" using Cons.prems(4) by (simp add: x)
  obtain u r where u: "load_in_savepoint b now t = Inr (u, r)" "contents u = contents t"
    using load_again[OF Cons.prems(1) Cons.prems(3)[rule_format, OF b]] by blast
  have ins: "insert b A = A" using b by blast
  note K = load_keeps_settled[OF Cons.prems(1) u(1) _ Cons.prems(3), unfolded ins, OF Cons.prems(2)]
  have "fst ` set again \<subseteq> A" using Cons.prems(4) by simp
  then obtain v where "load_each again u = Inr v" "contents v = contents u" using Cons.IH[OF K(1) Cons.prems(2) K(2)] by blast
  then show ?case using u by (simp add: x)
qed simp

text \<open>C13. Loading filings again, all or some of them, in any order, however many times and at any later time, succeeds
  and changes nothing but the times of the run and the ids of the holdings, which are inserted anew: the tables hold
  the same rows, each as often as before, so a backfill can be stopped and started over. What it takes is that an accession's document and what is read
  from it do not change between the runs, and that no filer is linked meanwhile.\<close>

theorem reloading_changes_nothing:
  assumes "store_ok s" "load_each runs s = Inr t" "one_document (fst ` set runs)" "fst ` set again \<subseteq> fst ` set runs"
  shows "\<exists>u. load_each again t = Inr u \<and> contents u = contents t"
proof -
  have "store_ok t" "\<forall>a\<in>fst ` set runs. settled t a" using loads_settle[OF assms(2,1), of "{}"] assms(3) by auto
  then show ?thesis by (rule loads_again[OF _ assms(3) _ assms(4)])
qed

section \<open>A filing loaded\<close>

abbreviation a_line :: "string \<Rightarrow> rat \<Rightarrow> normalised_holding" where
  "a_line c v \<equiv> \<lparr>nh_row = \<lparr>ir_name_of_issuer = Some ''APPLE INC'', ir_title_of_class = None, ir_cusip = c, ir_figi = None, ir_value = v,
      ir_shares = 2, ir_sh_prn = SH, ir_put_call = None, ir_discretion = None, ir_other_managers = None,
      ir_voting_sole = None, ir_voting_shared = None, ir_voting_none = None\<rparr>, nh_value_usd = v\<rparr>"

abbreviation a_load :: "string \<Rightarrow> rat \<Rightarrow> load_args" where
  "a_load acc v \<equiv> \<lparr>la_accession = acc, la_filed_at = 5,
     la_doc = \<lparr>pd_cik = ''0000000007'', pd_filer_name = ''ACME'', pd_form_type = ''13F-HR'', pd_period = Date 2024 3 31, pd_signature_date = None,
       pd_amendment_no = None, pd_amendment_kind = None, pd_report_type = None, pd_entry_total = None, pd_value_total = None,
       pd_other_managers_count = None, pd_confidential_omitted = False\<rparr>,
     la_normalised = \<lparr>nf_multiplier = 1, nf_holdings = [a_line ''037833100'' v, a_line ''594918104'' 3], nf_status = Parsed_ok, nf_notes = []\<rparr>,
     la_raw_key = None, la_source_url = None\<rparr>"

abbreviation linked_store :: load_store where
  "linked_store \<equiv> \<lparr>ls_links = (\<lambda>_. Some 4), ls_filings = [], ls_securities = [], ls_holdings = [], ls_next_filing = 1,
     ls_next_security = 1, ls_next_holding = 1\<rparr>"

abbreviation a_filing :: filing_row where
  "a_filing \<equiv> filing_values (a_load ''a'' 9) 0 None 0"

lemma linked_store_ok: "store_ok (linked_store\<lparr>ls_filings := fs\<rparr>) \<longleftrightarrow>
    distinct (map fg_accession fs) \<and> distinct (map fg_id fs) \<and> (\<forall>f\<in>set fs. fg_id f < 1)"
  by (simp add: store_ok_def filings_ok_def securities_ok_def holdings_ok_def)

lemma positions_sum_their_lines_witness:
  "\<exists>p\<in>set (holding_positions [a_line ''037833100'' 7, a_line ''594918104'' 3, a_line ''037833100'' 5]).
     po_cusip p = ''037833100'' \<and> po_value p = 12 \<and> po_shares p = 4"
proof -
  have int: "places n (numeral k)" for n k
    by (simp add: places_def) (metis of_int_mult of_int_numeral of_int_power)
  let ?hs = "[a_line ''037833100'' 7, a_line ''594918104'' 3, a_line ''037833100'' 5]"
  have sums: "distinct (map position_key (holding_positions ?hs)) \<and> position_key ` set (holding_positions ?hs) = natural_key_of ` set ?hs
    \<and> (\<forall>p\<in>set (holding_positions ?hs). po_value p = sum_list (map nh_value_usd (lines_at ?hs (position_key p)))
        \<and> po_shares p = sum_list (map (\<lambda>h. ir_shares (nh_row h)) (lines_at ?hs (position_key p))))"
    by (rule positions_sum_their_lines) (simp_all add: int)
  then have "natural_key_of (a_line ''037833100'' 7) \<in> position_key ` set (holding_positions ?hs)" by simp
  then obtain p where p: "p \<in> set (holding_positions ?hs)" "position_key p = natural_key_of (a_line ''037833100'' 7)" by force
  have "po_value p = 12 \<and> po_shares p = 4" using conjunct2[OF conjunct2[OF sums], rule_format, OF p(1)] unfolding p(2)
    by (simp add: natural_key_of_def)
  moreover have "po_cusip p = ''037833100''" using p(2) by (simp add: position_key_def natural_key_of_def)
  ultimately show ?thesis using p(1) by blast
qed

lemma loads_keep_store_witness:
  "store_ok (foldl load_step (linked_store\<lparr>ls_filings := [a_filing]\<rparr>) [Load (a_load ''a'' 8) 1, Link ''0000000007'' None, Load (a_load ''b'' 7) 2])
   \<and> (\<exists>g\<in>set (ls_filings (foldl load_step (linked_store\<lparr>ls_filings := [a_filing]\<rparr>)
         [Load (a_load ''a'' 8) 1, Link ''0000000007'' None, Load (a_load ''b'' 7) 2])). outlived a_filing g)"
  using loads_keep_store[of "linked_store\<lparr>ls_filings := [a_filing]\<rparr>" "[Load (a_load ''a'' 8) 1, Link ''0000000007'' None, Load (a_load ''b'' 7) 2]"]
  unfolding linked_store_ok by (simp del: foldl.simps)

lemma a_run_succeeds: "\<not> isl (load_each [(a_load ''a'' 9, 1), (a_load ''b'' 7, 2)] linked_store)"
  by code_simp

lemma contents_length: "contents u = contents t \<Longrightarrow> length (ls_holdings u) = length (ls_holdings t)"
  unfolding contents_def prod.inject by (metis size_image_mset size_mset)

lemma reloading_changes_nothing_witness:
  "\<exists>t u. load_each [(a_load ''a'' 9, 1), (a_load ''b'' 7, 2)] linked_store = Inr t
     \<and> load_each [(a_load ''b'' 7, 5), (a_load ''a'' 9, 6), (a_load ''b'' 7, 7)] t = Inr u \<and> contents u = contents t
     \<and> length (ls_holdings u) = length (ls_holdings t)"
proof -
  obtain t where t: "load_each [(a_load ''a'' 9, 1), (a_load ''b'' 7, 2)] linked_store = Inr t"
    using a_run_succeeds by (auto simp del: load_each.simps simp: isl_def split: sum.splits) (metis obj_sumE)
  have "store_ok linked_store" using linked_store_ok[of "[]"] by simp
  moreover have "one_document (fst ` set [(a_load ''a'' 9, 1), (a_load ''b'' 7, 2)])" by (simp add: one_document_def)
  moreover have "fst ` set [(a_load ''b'' 7, 5), (a_load ''a'' 9, 6), (a_load ''b'' 7, 7)] \<subseteq> fst ` set [(a_load ''a'' 9, 1), (a_load ''b'' 7, 2)]"
    by simp
  ultimately obtain u where u: "load_each [(a_load ''b'' 7, 5), (a_load ''a'' 9, 6), (a_load ''b'' 7, 7)] t = Inr u" "contents u = contents t"
    using reloading_changes_nothing[OF _ t] by blast
  show ?thesis by (rule exI[of _ t], rule exI[of _ u], intro conjI t u contents_length[OF u(2)])
qed

end
