(* ===== verification/Reconcile.thy ===== *)
theory Reconcile
  imports Recompute
begin

text \<open>
  \<open>app/derived/reconcile.py\<close>: the invariants of the published tables, each as the rows that break it, and the
  reconciliation that checks them all. A violation keeps its keys and its problem; the sentence of its detail,
  the names of its filer and security and the few rows of a sample are not modelled.
\<close>

section \<open>Violations\<close>

datatype breach =
    Weights_in_worthless_period | Position_without_weight | Weights_off
  | Source_not_counted | Source_without_stock | Source_suspect | Other_filing_suspect | Suspect_flag_wrong
  | Exit_still_held | Change_without_row | Change_figures_differ | Row_without_change
  | Period_not_published | Not_previous_period | New_but_held | Previous_without_row | Previous_figures_differ
  | Gone_without_exit
  | New_with_previous | No_previous_not_new | Exit_with_shares | Exit_with_value
  | Deltas_not_published | Period_without_changes | Deltas_off
  | Adjusted_without_split | Split_not_adjusted | Wrong_ratio | Wrong_shares_delta
  | Split_not_borne_out
  | Negative_shares | Negative_value
  | Observations_without_price | Price_without_observations | Observations_miscounted | Unpriced_miscounted | Price_suspect_wrong
  | Price_negative | Price_zero
  | Price_missing | Price_not_reported | Price_not_median
  | View_not_populated string | View_row_differs string | View_row_extra string | View_row_missing string

record violation =
  vi_filer :: "int option"
  vi_period :: "date option"
  vi_security :: "int option"
  vi_problem :: breach

type_synonym violation_key = "int option \<times> date option \<times> int option"

definition violation_of :: "violation_key \<Rightarrow> breach \<Rightarrow> violation" where
  "violation_of k b = \<lparr>vi_filer = fst k, vi_period = fst (snd k), vi_security = snd (snd k), vi_problem = b\<rparr>"

text \<open>The rows a \<open>CASE\<close> finds something wrong with.\<close>

definition found_in :: "('a \<Rightarrow> violation_key) \<Rightarrow> ('a \<Rightarrow> breach option) \<Rightarrow> 'a set \<Rightarrow> violation set" where
  "found_in key problem A = (\<lambda>x. violation_of (key x) (the (problem x))) ` {x \<in> A. problem x \<noteq> None}"

lemma found_in_empty: "found_in key problem A = {} \<longleftrightarrow> (\<forall>x\<in>A. problem x = None)"
  by (auto simp: found_in_def)

definition row_key :: "int \<times> date \<times> int \<Rightarrow> violation_key" where
  "row_key k = (Some (fst k), Some (fst (snd k)), Some (snd (snd k)))"

definition pair_key :: "pair \<Rightarrow> violation_key" where "pair_key p = (Some (fst p), Some (snd p), None)"
definition price_key :: "security_period \<Rightarrow> violation_key" where "price_key k = (None, Some (snd k), Some (fst k))"

section \<open>The invariants\<close>

definition weight_tolerance_pct :: rat where "weight_tolerance_pct = 1 / 100"

definition weights_problem :: "snapshot set \<Rightarrow> breach option" where
  "weights_problem rows =
     (let worth = (\<Sum>r\<in>rows. sn_value r);
          weighed = {r \<in> rows. sn_weight r \<noteq> None};
          weight = (\<Sum>r\<in>weighed. the (sn_weight r))
      in if worth = 0 then (if weighed \<noteq> {} then Some Weights_in_worthless_period else None)
         else if card weighed < card rows then Some Position_without_weight
         else if \<bar>weight - 100\<bar> > weight_tolerance_pct then Some Weights_off
         else None)"

definition weights_sum_to_100 :: "snapshot set \<Rightarrow> violation set" where
  "weights_sum_to_100 t = found_in pair_key (\<lambda>p. weights_problem (rows_at t p)) (sn_pair ` t)"

text \<open>The filings that count toward a pair, and whether one is suspect; null of none.\<close>

definition behind :: "base \<Rightarrow> pair \<Rightarrow> filing set" where
  "behind b p = {f \<in> effective (bs_filings b) (bs_filers b) (bs_ciks b). fl_pair f = p}"

definition behind_suspect :: "base \<Rightarrow> pair \<Rightarrow> bool option" where
  "behind_suspect b p =
     (if behind b p = {} then None else Some (\<exists>f\<in>behind b p. fl_status f = Suspect))"

definition source_problem :: "bool \<Rightarrow> base \<Rightarrow> snapshot \<Rightarrow> breach option" where
  "source_problem include_suspect b r =
     (case row_at fl_id (bs_filings b) (sn_source r) of
        None \<Rightarrow> None
      | Some source \<Rightarrow>
          if \<not> (\<exists>f\<in>behind b (sn_pair r). fl_id f = sn_source r) then Some Source_not_counted
          else if \<not> (\<exists>h\<in>bs_holdings b. ho_filing h = sn_source r \<and> ho_security h = sn_security r \<and> common_stock h)
          then Some Source_without_stock
          else if \<not> include_suspect \<and> fl_status source = Suspect then Some Source_suspect
          else if \<not> include_suspect \<and> behind_suspect b (sn_pair r) = Some True then Some Other_filing_suspect
          else if behind_suspect b (sn_pair r) \<noteq> Some (sn_suspect r) then Some Suspect_flag_wrong
          else None)"

definition snapshot_traces_to_filing :: "bool \<Rightarrow> base \<Rightarrow> snapshot set \<Rightarrow> violation set" where
  "snapshot_traces_to_filing include_suspect b t =
     found_in (\<lambda>r. row_key (sn_key r)) (source_problem include_suspect b) t"

definition change_problem :: "snapshot set \<Rightarrow> change \<Rightarrow> breach option" where
  "change_problem t c =
     (case row_at sn_key t (ch_key c) of
        None \<Rightarrow> if ch_action c \<noteq> Exit then Some Change_without_row else None
      | Some r \<Rightarrow>
          if ch_action c = Exit then Some Exit_still_held
          else if \<not> (sn_shares r = ch_shares c \<and> sn_value r = ch_value c \<and> sn_weight r = ch_weight c)
          then Some Change_figures_differ
          else None)"

definition unchanged_problem :: "change set \<Rightarrow> snapshot \<Rightarrow> breach option" where
  "unchanged_problem cs r = (if sn_key r \<in> ch_key ` cs then None else Some Row_without_change)"

definition changes_match_snapshot :: "snapshot set \<Rightarrow> change set \<Rightarrow> violation set" where
  "changes_match_snapshot t cs =
     found_in (\<lambda>c. row_key (ch_key c)) (change_problem t) cs
     \<union> found_in (\<lambda>r. row_key (sn_key r)) (unchanged_problem cs) t"

text \<open>A figure that is not the snapshot's; a previous value that is null is not compared.\<close>

definition figures_differ :: "snapshot \<Rightarrow> change \<Rightarrow> bool" where
  "figures_differ l c \<longleftrightarrow> ch_prev_shares c \<noteq> Some (sn_shares l)
     \<or> (case ch_prev_value c of None \<Rightarrow> False | Some v \<Rightarrow> v \<noteq> sn_value l) \<or> sn_weight l \<noteq> ch_prev_weight c"

definition previous_problem :: "snapshot set \<Rightarrow> change \<Rightarrow> breach option" where
  "previous_problem t c =
     (let prev = before_in (published t (ch_filer c)) (ch_period c);
          l = (case ch_prev_period c of None \<Rightarrow> None | Some q \<Rightarrow> row_at sn_key t (ch_filer c, q, ch_security c))
      in if ch_period c \<notin> published t (ch_filer c) then Some Period_not_published
         else if ch_prev_period c \<noteq> prev then Some Not_previous_period
         else (case (ch_prev_shares c, l) of
             (None, Some _) \<Rightarrow> Some New_but_held
           | (Some _, None) \<Rightarrow> Some Previous_without_row
           | (Some _, Some row) \<Rightarrow> if figures_differ row c then Some Previous_figures_differ else None
           | (None, None) \<Rightarrow> None))"

text \<open>The key of the exit a row should have, were it not held in its filer's next period.\<close>

definition next_key :: "snapshot set \<Rightarrow> snapshot \<Rightarrow> (int \<times> date \<times> int) option" where
  "next_key t r =
     map_option (\<lambda>q. (sn_filer r, q, sn_security r)) (after_in (published t (sn_filer r)) (sn_period r))"

definition exit_problem :: "snapshot set \<Rightarrow> change set \<Rightarrow> snapshot \<Rightarrow> breach option" where
  "exit_problem t cs r =
     (case next_key t r of
        None \<Rightarrow> None
      | Some k \<Rightarrow> if k \<notin> sn_key ` t \<and> k \<notin> ch_key ` cs then Some Gone_without_exit else None)"

definition changes_follow_previous_period :: "snapshot set \<Rightarrow> change set \<Rightarrow> violation set" where
  "changes_follow_previous_period t cs =
     found_in (\<lambda>c. row_key (ch_key c)) (previous_problem t) cs
     \<union> found_in (\<lambda>r. row_key (the (next_key t r))) (exit_problem t cs) t"

definition new_exit_problem :: "change \<Rightarrow> breach option" where
  "new_exit_problem c =
     (if ch_action c = New \<and> ch_prev_shares c \<noteq> None then Some New_with_previous
      else if ch_action c \<noteq> New \<and> ch_prev_shares c = None then Some No_previous_not_new
      else if ch_action c = Exit \<and> ch_shares c \<noteq> 0 then Some Exit_with_shares
      else if ch_action c = Exit \<and> (ch_value c \<noteq> 0 \<or> ch_weight c \<noteq> Some 0) then Some Exit_with_value
      else None)"

definition new_and_exit_rows :: "change set \<Rightarrow> violation set" where
  "new_and_exit_rows cs = found_in (\<lambda>c. row_key (ch_key c)) new_exit_problem cs"

text \<open>A pair's portfolio and how far it moved since the filer's period before; what its changes say it did.\<close>

definition book_value :: "snapshot set \<Rightarrow> pair \<Rightarrow> rat" where
  "book_value t p = (\<Sum>r\<in>rows_at t p. sn_value r)"

definition value_moved :: "snapshot set \<Rightarrow> pair \<Rightarrow> rat option" where
  "value_moved t p =
     (if p \<in> sn_pair ` t
      then Some (book_value t p - (case before_in (published t (fst p)) (snd p) of None \<Rightarrow> 0 | Some q \<Rightarrow> book_value t (fst p, q)))
      else None)"

definition value_deltas :: "change set \<Rightarrow> pair \<Rightarrow> rat option" where
  "value_deltas cs p =
     (if p \<in> ch_pair ` cs then Some (\<Sum>c\<in>{c \<in> cs. ch_pair c = p}. ch_value_delta c) else None)"

definition delta_problem :: "snapshot set \<Rightarrow> change set \<Rightarrow> pair \<Rightarrow> breach option" where
  "delta_problem t cs p =
     (if value_deltas cs p = value_moved t p then None
      else if value_moved t p = None then Some Deltas_not_published
      else if value_deltas cs p = None then Some Period_without_changes
      else Some Deltas_off)"

definition value_deltas_add_up :: "snapshot set \<Rightarrow> change set \<Rightarrow> violation set" where
  "value_deltas_add_up t cs = found_in pair_key (delta_problem t cs) (sn_pair ` t \<union> ch_pair ` cs)"

definition split_problem :: "split_row set \<Rightarrow> change \<Rightarrow> breach option" where
  "split_problem sps c =
     (let crossed = split_between sps (ch_security c) (ch_prev_period c) (ch_period c);
          adjusted = (ch_prev_shares c \<noteq> None \<and> ch_action c \<noteq> Exit \<and> crossed \<noteq> None);
          previous = (if adjusted
            then (case crossed of None \<Rightarrow> 0 | Some (up, down) \<Rightarrow> sql_round 4 (the (ch_prev_shares c) * of_int up / of_int down))
            else (case ch_prev_shares c of None \<Rightarrow> 0 | Some x \<Rightarrow> x))
      in if \<not> ch_is_split c \<and> crossed = None then None
         else if ch_is_split c \<and> \<not> adjusted then Some Adjusted_without_split
         else if \<not> ch_is_split c \<and> adjusted then Some Split_not_adjusted
         else if (case (ch_split_ratio c, crossed) of
               (Some r, Some (up, down)) \<Rightarrow> r \<noteq> sql_round 10 (of_int up / of_int down)
             | _ \<Rightarrow> False) then Some Wrong_ratio
         else if ch_shares_delta c \<noteq> ch_shares c - previous then Some Wrong_shares_delta
         else None)"

definition changes_adjust_for_splits :: "change set \<Rightarrow> split_row set \<Rightarrow> violation set" where
  "changes_adjust_for_splits cs sps = found_in (\<lambda>c. row_key (ch_key c)) (split_problem sps) cs"

text \<open>The changes across a split's own quarter, and how far each moved, adjusted.\<close>

definition changes_across :: "change set \<Rightarrow> split_row \<Rightarrow> change set" where
  "changes_across cs s =
     {c \<in> cs. ch_security c = sp_security s \<and> ch_period c = sp_period s
        \<and> ch_prev_period c = Some (quarter_before (sp_period s)) \<and> ch_is_split c
        \<and> (case ch_prev_shares c of None \<Rightarrow> False | Some x \<Rightarrow> x > 0) \<and> ch_shares c > 0}"

definition adjusted_move :: "change \<Rightarrow> rat" where
  "adjusted_move c = ch_shares c / (the (ch_prev_shares c) * the (ch_split_ratio c))"

definition median_move :: "change set \<Rightarrow> rat option" where
  "median_move C = median_disc ((\<lambda>c. (adjusted_move c, ch_filer c)) ` C)"

definition plausible_problem :: "change set \<Rightarrow> split_row \<Rightarrow> breach option" where
  "plausible_problem cs s =
     (case median_move (changes_across cs s) of
        None \<Rightarrow> None
      | Some m \<Rightarrow> if m > agreement_tolerance \<or> m * agreement_tolerance < 1 then Some Split_not_borne_out else None)"

definition split_changes_are_plausible :: "change set \<Rightarrow> split_row set \<Rightarrow> violation set" where
  "split_changes_are_plausible cs sps = found_in (\<lambda>s. price_key (sp_key s)) (plausible_problem cs) sps"

definition negative_problem :: "snapshot \<Rightarrow> breach option" where
  "negative_problem r =
     (if sn_shares r < 0 then Some Negative_shares else if sn_value r < 0 then Some Negative_value else None)"

definition nothing_negative :: "snapshot set \<Rightarrow> violation set" where
  "nothing_negative t = found_in (\<lambda>r. row_key (sn_key r)) negative_problem t"

definition observed_at :: "snapshot set \<Rightarrow> security_period \<Rightarrow> snapshot set" where
  "observed_at t k = {r \<in> t. sn_shares r > 0 \<and> security_period r = k}"

definition count_problem :: "snapshot set \<Rightarrow> price_row set \<Rightarrow> security_period \<Rightarrow> breach option" where
  "count_problem t ps k =
     (let obs = observed_at t k in
      case row_at ip_key ps k of
        None \<Rightarrow> Some Observations_without_price
      | Some p \<Rightarrow>
          if obs = {} then Some Price_without_observations
          else if ip_observations p \<noteq> card obs then Some Observations_miscounted
          else if ip_unpriced p \<noteq> card {r \<in> obs. sn_value r = 0} then Some Unpriced_miscounted
          else if ip_suspect p \<noteq> (\<exists>r\<in>obs. sn_suspect r) then Some Price_suspect_wrong
          else None)"

definition prices_count_every_observation :: "snapshot set \<Rightarrow> price_row set \<Rightarrow> violation set" where
  "prices_count_every_observation t ps =
     found_in price_key (count_problem t ps) (security_period ` {r \<in> t. sn_shares r > 0} \<union> ip_key ` ps)"

definition positive_problem :: "price_row \<Rightarrow> breach option" where
  "positive_problem p =
     (case ip_price p of None \<Rightarrow> None
      | Some x \<Rightarrow> if x < 0 then Some Price_negative else if x = 0 then Some Price_zero else None)"

definition prices_are_positive :: "price_row set \<Rightarrow> violation set" where
  "prices_are_positive ps = found_in (\<lambda>p. price_key (ip_key p)) positive_problem ps"

definition stored_price :: "snapshot \<Rightarrow> rat" where "stored_price r = sql_round price_places (obs_price r)"

definition median_problem :: "snapshot set \<Rightarrow> price_row \<Rightarrow> breach option" where
  "median_problem t p =
     (let obs = observed_at t (ip_key p); weighed = priced obs in
      if obs = {} then None
      else (case ip_price p of
          None \<Rightarrow> if weighed \<noteq> {} then Some Price_missing else None
        | Some x \<Rightarrow>
            if x \<le> 0 then None
            else if {r \<in> weighed. stored_price r = x} = {} then Some Price_not_reported
            else if card {r \<in> weighed. stored_price r \<le> x} * 2 < card weighed
              \<or> card {r \<in> weighed. stored_price r \<ge> x} * 2 < card weighed then Some Price_not_median
            else None))"

definition prices_are_medians :: "snapshot set \<Rightarrow> price_row set \<Rightarrow> violation set" where
  "prices_are_medians t ps = found_in (\<lambda>p. price_key (ip_key p)) (median_problem t) ps"

text \<open>A materialised view: what it holds and what its live query returns, rows with the key they are reported by.\<close>

record 'row view =
  vw_name :: string
  vw_populated :: bool
  vw_stored :: "'row set"
  vw_live :: "'row set"
  vw_key :: "'row \<Rightarrow> violation_key"

definition view_problem :: "'row view \<Rightarrow> violation_key \<Rightarrow> breach option" where
  "view_problem v k =
     (let extra = {r \<in> vw_stored v - vw_live v. vw_key v r = k}; missing = {r \<in> vw_live v - vw_stored v. vw_key v r = k} in
      if card extra + card missing > 1 then Some (View_row_differs (vw_name v))
      else if extra \<noteq> {} then Some (View_row_extra (vw_name v))
      else if missing \<noteq> {} then Some (View_row_missing (vw_name v))
      else None)"

definition view_disagreements :: "'row view \<Rightarrow> violation set" where
  "view_disagreements v =
     (if \<not> vw_populated v then {violation_of (None, None, None) (View_not_populated (vw_name v))}
      else found_in id (view_problem v) (vw_key v ` ((vw_stored v - vw_live v) \<union> (vw_live v - vw_stored v))))"

definition views_match_live :: "'row view list \<Rightarrow> violation set" where
  "views_match_live vs = (\<Union>v\<in>set vs. view_disagreements v)"

section \<open>The reconciliation\<close>

datatype invariant =
    Weights_sum | Traces_to_filing | Match_snapshot | Follow_previous | New_and_exit | Deltas_add_up | Adjust_for_splits
  | Splits_plausible | Not_negative | Prices_count | Prices_positive | Prices_medians | Views_live

definition invariants :: "invariant list" where
  "invariants = [Weights_sum, Traces_to_filing, Match_snapshot, Follow_previous, New_and_exit, Deltas_add_up,
     Adjust_for_splits, Splits_plausible, Not_negative, Prices_count, Prices_positive, Prices_medians, Views_live]"

fun violations :: "bool \<Rightarrow> base \<Rightarrow> derived \<Rightarrow> 'row view list \<Rightarrow> invariant \<Rightarrow> violation set" where
  "violations i b d vs Weights_sum = weights_sum_to_100 (dv_snapshot d)"
| "violations i b d vs Traces_to_filing = snapshot_traces_to_filing i b (dv_snapshot d)"
| "violations i b d vs Match_snapshot = changes_match_snapshot (dv_snapshot d) (dv_changes d)"
| "violations i b d vs Follow_previous = changes_follow_previous_period (dv_snapshot d) (dv_changes d)"
| "violations i b d vs New_and_exit = new_and_exit_rows (dv_changes d)"
| "violations i b d vs Deltas_add_up = value_deltas_add_up (dv_snapshot d) (dv_changes d)"
| "violations i b d vs Adjust_for_splits = changes_adjust_for_splits (dv_changes d) (dv_splits d)"
| "violations i b d vs Splits_plausible = split_changes_are_plausible (dv_changes d) (dv_splits d)"
| "violations i b d vs Not_negative = nothing_negative (dv_snapshot d)"
| "violations i b d vs Prices_count = prices_count_every_observation (dv_snapshot d) (dv_prices d)"
| "violations i b d vs Prices_positive = prices_are_positive (dv_prices d)"
| "violations i b d vs Prices_medians = prices_are_medians (dv_snapshot d) (dv_prices d)"
| "violations i b d vs Views_live = views_match_live vs"

record reconciliation =
  rn_checked :: "(invariant \<times> nat) list"
  rn_positions :: nat
  rn_changes :: nat
  rn_periods :: nat
  rn_include_suspect :: bool

definition reconcile :: "bool \<Rightarrow> base \<Rightarrow> derived \<Rightarrow> 'row view list \<Rightarrow> reconciliation" where
  "reconcile i b d vs =
     \<lparr>rn_checked = map (\<lambda>v. (v, card (violations i b d vs v))) invariants,
      rn_positions = card (dv_snapshot d), rn_changes = card (dv_changes d),
      rn_periods = card (sn_pair ` dv_snapshot d), rn_include_suspect = i\<rparr>"

definition rn_failed :: "reconciliation \<Rightarrow> (invariant \<times> nat) list" where
  "rn_failed r = filter (\<lambda>c. snd c \<noteq> 0) (rn_checked r)"

definition rn_clean :: "reconciliation \<Rightarrow> bool" where "rn_clean r = (rn_failed r = [])"

definition rn_violations :: "reconciliation \<Rightarrow> nat" where "rn_violations r = sum_list (map snd (rn_checked r))"

section \<open>The changes of a rebuild\<close>

text \<open>A change is of a row that is there, or of one gone from the period its own comes before.\<close>

lemma change_cases:
  assumes "c \<in> position_changes None (t, sps)"
  obtains (held) r where "r \<in> t" "c = change_row (compared_row None t sps r)"
  | (gone) r q where "r \<in> t" "gone_from t r = Some q" "c = change_row (exited_row t r q)"
  using assms unfolding changes_mem by blast

lemma change_row_figures [simp]:
  "ch_shares (change_row m) = cm_shares m" "ch_value (change_row m) = cm_value m" "ch_weight (change_row m) = cm_weight m"
  "ch_prev_shares (change_row m) = map_option sn_shares (cm_prev m)" "ch_prev_value (change_row m) = map_option sn_value (cm_prev m)"
  "ch_prev_weight (change_row m) = Option.bind (cm_prev m) sn_weight" "ch_is_split (change_row m) = cm_is_split m"
  "ch_value_delta (change_row m) = cm_value m - (case cm_prev m of None \<Rightarrow> 0 | Some l \<Rightarrow> sn_value l)"
  by (simp_all add: change_row_def Let_def)

lemma compared_row_figures [simp]:
  "cm_value (compared_row s t sps r) = sn_value r" "cm_weight (compared_row s t sps r) = sn_weight r"
  "cm_split (compared_row s t sps r) = split_between sps (sn_security r) (before_in (published t (sn_filer r)) (sn_period r)) (sn_period r)"
  "cm_value (exited_row t r q) = 0" "cm_weight (exited_row t r q) = Some 0"
  by (simp_all add: compared_row_def exited_row_def Let_def)

lemma action_held: "action_of (compared_row s t sps r) \<noteq> Exit"
  by (simp add: action_of_def split: option.split)

lemma action_gone: "action_of (exited_row t r q) = Exit"
  by (simp add: action_of_def)

lemma row_at_own: "inj_on sn_key t \<Longrightarrow> r \<in> t \<Longrightarrow> row_at sn_key t (sn_filer r, sn_period r, sn_security r) = Some r"
  by (simp add: row_at_Some sn_key_def)

lemma held_change: "r \<in> t \<Longrightarrow> change_row (compared_row None t sps r) \<in> position_changes None (t, sps)"
  unfolding changes_mem by auto

lemma gone_change: "r \<in> t \<Longrightarrow> gone_from t r = Some q \<Longrightarrow> change_row (exited_row t r q) \<in> position_changes None (t, sps)"
  unfolding changes_mem by auto

lemma rebuilt_match:
  assumes "finite t" "inj_on sn_key t"
  shows "changes_match_snapshot t (position_changes None (t, sps)) = {}"
proof -
  have "change_problem t c = None" if "c \<in> position_changes None (t, sps)" for c
    using that
  proof (cases rule: change_cases)
    case (held r)
    then show ?thesis by (simp add: change_problem_def row_at_own[OF assms(2)] action_held)
  next
    case (gone r q)
    then have "row_at sn_key t (sn_filer r, q, sn_security r) = None"
      unfolding row_at_None using gone_key(3)[OF assms(1)] by simp
    then show ?thesis using gone by (simp add: change_problem_def action_gone)
  qed
  moreover have "unchanged_problem (position_changes None (t, sps)) r = None" if "r \<in> t" for r
  proof -
    have "sn_key r \<in> ch_key ` position_changes None (t, sps)"
      using imageI[OF held_change[OF that, of sps], of ch_key] by (simp add: sn_key_def)
    then show ?thesis by (simp add: unchanged_problem_def)
  qed
  ultimately show ?thesis by (simp add: changes_match_snapshot_def found_in_empty)
qed

lemma rebuilt_follows:
  assumes "finite t" "inj_on sn_key t"
  shows "changes_follow_previous_period t (position_changes None (t, sps)) = {}"
proof -
  have "previous_problem t c = None" if "c \<in> position_changes None (t, sps)" for c
    using that
  proof (cases rule: change_cases)
    case (held r)
    then show ?thesis
      by (auto simp: previous_problem_def Let_def published_mem then_row_eq[OF assms] figures_differ_def split: option.splits)
  next
    case (gone r q)
    note k = gone_key[OF assms(1) gone(1,2)]
    show ?thesis using gone(1) k(1,2)
      by (simp add: gone(3) previous_problem_def row_at_own[OF assms(2)] figures_differ_def)
  qed
  moreover have "exit_problem t (position_changes None (t, sps)) r = None" if "r \<in> t" for r
  proof (cases "gone_from t r")
    case None
    then show ?thesis by (auto simp: exit_problem_def next_key_def gone_from_def split: option.splits if_splits)
  next
    case (Some q)
    have "(sn_filer r, q, sn_security r) \<in> ch_key ` position_changes None (t, sps)"
      using imageI[OF gone_change[OF that Some, of sps], of ch_key] by simp
    then show ?thesis using Some by (auto simp: exit_problem_def next_key_def gone_from_Some[OF assms(1)])
  qed
  ultimately show ?thesis by (simp add: changes_follow_previous_period_def found_in_empty)
qed

lemma rebuilt_new_and_exit:
  assumes "finite t" "inj_on sn_key t"
  shows "new_and_exit_rows (position_changes None (t, sps)) = {}"
proof -
  have "new_exit_problem c = None" if "c \<in> position_changes None (t, sps)" for c
    using that
  proof (cases rule: change_cases)
    case (held r)
    have "action_of (compared_row None t sps r) = New \<longleftrightarrow> then_row None t r = None"
      using previous_shares_None[of "compared_row None t sps r"] by (auto simp: action_of_def split: option.split)
    then show ?thesis by (simp add: held(2) new_exit_problem_def action_held)
  qed (simp add: new_exit_problem_def action_gone)
  then show ?thesis by (simp add: new_and_exit_rows_def found_in_empty)
qed

text \<open>A change across splits is taken against the previous shares in today's; an exit is across none.\<close>

lemma rebuilt_adjusts: "changes_adjust_for_splits (position_changes None (t, sps)) sps = {}"
proof -
  have "split_problem sps c = None" if "c \<in> position_changes None (t, sps)" for c
    using that
  proof (cases rule: change_cases)
    case (held r)
    then show ?thesis
      by (auto simp: split_problem_def Let_def action_held cm_is_split_def change_row_def previous_shares_def split: option.splits)
  next
    case (gone r q)
    then show ?thesis
      by (auto simp: split_problem_def Let_def action_gone cm_is_split_def change_row_def previous_shares_def split: option.splits)
  qed
  then show ?thesis by (simp add: changes_adjust_for_splits_def found_in_empty)
qed

text \<open>The value of a position, a portfolio as the sum of its positions, and what a change adds to one.\<close>

definition value_at :: "snapshot set \<Rightarrow> int \<Rightarrow> int \<Rightarrow> date \<Rightarrow> rat" where
  "value_at t f s p = (case row_at sn_key t (f, p, s) of None \<Rightarrow> 0 | Some r \<Rightarrow> sn_value r)"

lemma value_delta_at:
  assumes t: "finite t" "inj_on sn_key t" and p: "p \<in> published t f"
  shows "(\<Sum>c\<in>{c \<in> position_changes None (t, sps). ch_key c = (f, p, s)}. ch_value_delta c)
    = value_at t f s p - (case before_in (published t f) p of None \<Rightarrow> 0 | Some q \<Rightarrow> value_at t f s q)"
proof (cases "row_at sn_key t (f, p, s)")
  case (Some r)
  then have r: "r \<in> t" "sn_filer r = f" "sn_period r = p" "sn_security r = s"
    using row_at_Some[OF t(2)] by (auto simp: key_fields)
  have "then_row None t r = (case before_in (published t f) p of None \<Rightarrow> None | Some q \<Rightarrow> row_at sn_key t (f, q, s))"
    using then_row_eq[OF t r(1), of None] r by (simp split: option.split)
  then show ?thesis unfolding changes_at[OF t p] using Some r by (simp add: value_at_def split: option.split)
next
  case None
  then show ?thesis unfolding changes_at[OF t p] by (simp add: value_at_def split: option.split)
qed

lemma book_value_sum:
  assumes t: "finite t" "inj_on sn_key t"
  shows "book_value t (f, p) = (\<Sum>s\<in>sn_security ` t. value_at t f s p)"
proof -
  let ?R = "rows_at t (f, p)"
  have inj: "inj_on sn_security ?R" using t(2) by (auto simp: inj_on_def rows_at_def sn_pair_def sn_key_def)
  have at: "value_at t f s p = 0" if "s \<notin> sn_security ` ?R" for s
  proof -
    have "(f, p, s) \<notin> sn_key ` t" using that by (force simp: rows_at_def sn_pair_def sn_key_def)
    then show ?thesis by (simp add: value_at_def row_at_None[THEN iffD2])
  qed
  have "(\<Sum>s\<in>sn_security ` t. value_at t f s p) = (\<Sum>s\<in>sn_security ` ?R. value_at t f s p)"
    using t(1) at by (intro sum.mono_neutral_right) (auto simp: rows_at_def)
  also have "\<dots> = (\<Sum>r\<in>?R. value_at t f (sn_security r) p)" by (rule sum.reindex[OF inj, unfolded o_def])
  also have "\<dots> = book_value t (f, p)" unfolding book_value_def
    by (rule sum.cong[OF refl]) (use row_at_own[OF t(2)] in \<open>force simp: rows_at_def sn_pair_def value_at_def\<close>)
  finally show ?thesis by simp
qed

lemma change_published:
  assumes "finite t" "c \<in> position_changes None (t, sps)"
  shows "ch_period c \<in> published t (ch_filer c)" "ch_security c \<in> sn_security ` t"
  using assms(2) by (cases rule: change_cases; use published_mem gone_key(1)[OF assms(1)] in auto)+

lemma rebuilt_pairs:
  assumes "finite t" "inj_on sn_key t"
  shows "ch_pair ` position_changes None (t, sps) = sn_pair ` t"
proof (intro equalityI subsetI)
  fix p assume "p \<in> ch_pair ` position_changes None (t, sps)"
  then obtain c where "c \<in> position_changes None (t, sps)" "p = ch_pair c" by blast
  then show "p \<in> sn_pair ` t" using change_published(1)[OF assms(1)] by (force simp: published_iff ch_pair_def sn_pair_def)
next
  fix p assume "p \<in> sn_pair ` t"
  then obtain r where "r \<in> t" "p = sn_pair r" by blast
  then show "p \<in> ch_pair ` position_changes None (t, sps)" using imageI[OF held_change, of r t ch_pair sps] by (simp add: sn_pair_def)
qed

lemma rebuilt_deltas:
  assumes t: "finite t" "inj_on sn_key t"
  shows "value_deltas_add_up t (position_changes None (t, sps)) = {}"
proof -
  let ?C = "position_changes None (t, sps)"
  have "value_deltas ?C (f, p) = value_moved t (f, p)" if pr: "(f, p) \<in> sn_pair ` t" for f p
  proof -
    let ?K = "\<lambda>s. {c \<in> ?C. ch_key c = (f, p, s)}"
    have p: "p \<in> published t f" using pr by (auto simp: published_iff sn_pair_def)
    have fin: "finite (?K s)" for s unfolding changes_at[OF t p] by (simp split: option.split)
    have "{c \<in> ?C. ch_pair c = (f, p)} = (\<Union>s\<in>sn_security ` t. ?K s)"
      using change_published(2)[OF t(1)] by (auto simp: ch_pair_def ch_key_def)
    moreover have "(\<Sum>c\<in>(\<Union>s\<in>sn_security ` t. ?K s). ch_value_delta c) = (\<Sum>s\<in>sn_security ` t. \<Sum>c\<in>?K s. ch_value_delta c)"
      using t(1) fin by (intro sum.UNION_disjoint) auto
    moreover have "\<dots> = (\<Sum>s\<in>sn_security ` t. value_at t f s p - (case before_in (published t f) p of None \<Rightarrow> 0 | Some q \<Rightarrow> value_at t f s q))"
      by (rule sum.cong[OF refl]) (rule value_delta_at[OF t p])
    moreover have "\<dots> = book_value t (f, p) - (case before_in (published t f) p of None \<Rightarrow> 0 | Some q \<Rightarrow> book_value t (f, q))"
      by (simp add: sum_subtractf book_value_sum[OF t] split: option.split)
    ultimately have "(\<Sum>c\<in>{c \<in> ?C. ch_pair c = (f, p)}. ch_value_delta c)
        = book_value t (f, p) - (case before_in (published t f) p of None \<Rightarrow> 0 | Some q \<Rightarrow> book_value t (f, q))" by simp
    then show ?thesis using pr by (simp add: value_deltas_def value_moved_def rebuilt_pairs[OF t] split: option.split)
  qed
  then have "value_deltas ?C x = value_moved t x" if "x \<in> sn_pair ` t" for x using that by (cases x) simp
  then show ?thesis unfolding value_deltas_add_up_def found_in_empty rebuilt_pairs[OF t] by (simp add: delta_problem_def)
qed

section \<open>The snapshot and the prices of a rebuild\<close>

lemma behind_winning: "behind b p = {f \<in> winning None b. fl_pair f = p}"
  by (simp add: behind_def winning_def)

lemma rebuilt_weights:
  assumes "finite (bs_holdings b)" "\<And>p. card (rows_at (snapshot_positions i None b) p) \<le> 20000"
  shows "weights_sum_to_100 (snapshot_positions i None b) = {}"
proof -
  have "weights_problem rows = None" if rows: "rows = rows_at (snapshot_positions i None b) p" for rows p
  proof -
    note w = weights_add_to_100[OF assms(1) rows]
    show ?thesis
    proof (cases "(\<Sum>r\<in>rows. sn_value r) = 0")
      case True
      then have "{r \<in> rows. sn_weight r \<noteq> None} = {}" using w by auto
      then show ?thesis using True unfolding weights_problem_def Let_def by simp
    next
      case False
      then have s: "sn_weight ` rows \<subseteq> range Some" and e: "\<bar>(\<Sum>r\<in>rows. the (sn_weight r)) - 100\<bar> \<le> of_nat (card rows) / 2000000"
        using w by simp_all
      have a: "{r \<in> rows. sn_weight r \<noteq> None} = rows" using s by auto
      have "(of_nat (card rows) :: rat) \<le> of_nat 20000" unfolding of_nat_le_iff using assms(2) rows by blast
      then have "\<bar>(\<Sum>r\<in>rows. the (sn_weight r)) - 100\<bar> \<le> 1 / 100" using e by simp
      then show ?thesis using False unfolding weights_problem_def Let_def a weight_tolerance_pct_def by simp
    qed
  qed
  then show ?thesis by (auto simp: weights_sum_to_100_def found_in_empty)
qed

lemma agg_source_mem:
  assumes "finite w" "finite hs" "lines_of w hs p sec \<noteq> {}"
  shows "\<exists>(f, h)\<in>lines_of w hs p sec. agg_source w hs p sec = fl_id f"
proof -
  have "Max ((\<lambda>x. (filing_order (fst x), fl_id (fst x))) ` lines_of w hs p sec)
      \<in> (\<lambda>x. (filing_order (fst x), fl_id (fst x))) ` lines_of w hs p sec"
    using lines_of_finite[OF assms(1,2)] assms(3) by (intro Max_in) simp_all
  then show ?thesis by (auto simp: agg_source_def intro!: bexI)
qed

lemma rebuilt_traces:
  assumes fin: "finite (bs_filings b)" "finite (bs_holdings b)" and ids: "inj_on fl_id (bs_filings b)"
  shows "snapshot_traces_to_filing i b (snapshot_positions i None b) = {}"
proof -
  have "source_problem i b r = None" if r: "r \<in> snapshot_positions i None b" for r
  proof -
    obtain p sec where k: "(p, sec) \<in> agg_keys i (winning None b) (bs_holdings b)"
      and r': "r = snapshot_row i (winning None b) (bs_holdings b) (p, sec)" using r unfolding snapshot_mem by blast
    have pr: "sn_pair r = p" by (simp add: r')
    have lines: "lines_of (winning None b) (bs_holdings b) p sec \<noteq> {}" and ok: "i \<or> \<not> suspect_pair (winning None b) p"
      using k by (simp_all add: agg_keys_iff)
    obtain f h where f: "(f, h) \<in> lines_of (winning None b) (bs_holdings b) p sec" "sn_source r = fl_id f"
      using agg_source_mem[OF winning_finite[OF fin(1)] fin(2) lines] by (auto simp: r' snapshot_row_def)
    then have m: "f \<in> behind b p" "h \<in> bs_holdings b" "ho_filing h = fl_id f" "common_stock h" "ho_security h = sn_security r"
      by (auto simp: lines_of_def behind_winning r' snapshot_row_def)
    have "f \<in> bs_filings b" using m(1) by (auto simp: behind_def effective_def effective_by_cik_def)
    then have src: "row_at fl_id (bs_filings b) (sn_source r) = Some f" using row_at_Some[OF ids] f(2) by simp
    have sus: "behind_suspect b p = Some (suspect_pair (winning None b) p)"
      using m(1) by (auto simp: behind_suspect_def suspect_pair_def behind_winning)
    have "\<not> (\<not> i \<and> fl_status f = Suspect)" using ok m(1) by (auto simp: suspect_pair_def behind_winning)
    moreover have "sn_suspect r = suspect_pair (winning None b) p" by (simp add: r' snapshot_row_def)
    moreover have "\<exists>g\<in>behind b p. fl_id g = sn_source r" using m(1) f(2) by auto
    moreover have "\<exists>x\<in>bs_holdings b. ho_filing x = sn_source r \<and> ho_security x = sn_security r \<and> common_stock x" using m f(2) by auto
    ultimately show ?thesis using ok unfolding source_problem_def src pr sus by simp
  qed
  then show ?thesis by (simp add: snapshot_traces_to_filing_def found_in_empty)
qed

lemma rebuilt_not_negative:
  assumes "\<forall>h\<in>bs_holdings b. 0 \<le> ho_shares h \<and> 0 \<le> ho_value h"
  shows "nothing_negative (snapshot_positions i None b) = {}"
proof -
  have "0 \<le> sn_shares r \<and> 0 \<le> sn_value r" if "r \<in> snapshot_positions i None b" for r
    using that assms unfolding snapshot_mem
    by (auto simp: snapshot_row_def agg_shares_def agg_value_def lines_of_def intro!: sum_nonneg)
  then show ?thesis by (auto simp: nothing_negative_def found_in_empty negative_problem_def not_less)
qed

lemma observed_observations: "observed_at t k = {x \<in> observations None t. security_period x = k}"
  by (auto simp: observed_at_def observations_def)

lemma rebuilt_counts: "prices_count_every_observation t (implied_prices None t) = {}"
proof -
  have "count_problem t (implied_prices None t) k = None"
    if "k \<in> security_period ` {r \<in> t. sn_shares r > 0} \<union> ip_key ` implied_prices None t" for k
  proof -
    have ne: "observed_at t k \<noteq> {}" using that
    proof
      assume "k \<in> ip_key ` implied_prices None t"
      then show ?thesis by (auto simp: implied_mem Let_def observed_observations)
    qed (auto simp: observed_at_def)
    then have "price_of k (observed_at t k) \<in> implied_prices None t" by (simp add: implied_mem observed_observations Let_def)
    then have "row_at ip_key (implied_prices None t) k = Some (price_of k (observed_at t k))"
      by (simp add: row_at_Some[OF implied_keyed])
    then show ?thesis using ne by (simp add: count_problem_def Let_def price_of_def unpriced_count_def)
  qed
  then show ?thesis by (auto simp: prices_count_every_observation_def found_in_empty)
qed

lemma rebuilt_positive:
  assumes "finite t"
  shows "prices_are_positive (implied_prices None t) = {}"
proof -
  have "positive_problem p = None" if "p \<in> implied_prices None t" for p
    using prices_pass_checks[OF assms that] by (auto simp: positive_problem_def price_checks_def split: option.splits)
  then show ?thesis by (simp add: prices_are_positive_def found_in_empty)
qed

section \<open>Medians\<close>

lemma sql_round_mono: "x \<le> y \<Longrightarrow> sql_round n x \<le> sql_round n y"
proof -
  assume xy: "x \<le> y"
  have p: "(0::rat) < 10 ^ n" by simp
  have s: "x * 10 ^ n \<le> y * 10 ^ n" using xy by (simp add: mult_right_mono)
  consider "0 \<le> x" | "x < 0" "0 \<le> y" | "y < 0" using xy by linarith
  then have "(if 0 \<le> x then of_int \<lfloor>x * 10 ^ n + 1 / 2\<rfloor> else - of_int \<lfloor>- x * 10 ^ n + 1 / 2\<rfloor>)
      \<le> (if 0 \<le> y then of_int \<lfloor>y * 10 ^ n + 1 / 2\<rfloor> else - of_int \<lfloor>- y * 10 ^ n + 1 / 2\<rfloor> :: rat)"
  proof cases
    case 1
    then show ?thesis using xy s by (simp add: floor_mono)
  next
    case 2
    then have "x * 10 ^ n \<le> 0" "0 \<le> y * 10 ^ n" by (simp_all add: mult_nonpos_nonneg)
    then have "0 \<le> \<lfloor>- x * 10 ^ n + 1 / 2\<rfloor>" "0 \<le> \<lfloor>y * 10 ^ n + 1 / 2\<rfloor>" unfolding zero_le_floor by linarith+
    then have "(0::rat) \<le> of_int \<lfloor>- x * 10 ^ n + 1 / 2\<rfloor>" "(0::rat) \<le> of_int \<lfloor>y * 10 ^ n + 1 / 2\<rfloor>"
      unfolding of_int_0_le_iff .
    then show ?thesis using 2 by (simp only: not_le[symmetric] if_False if_True)
  next
    case 3
    then have "\<lfloor>- y * 10 ^ n + 1 / 2\<rfloor> \<le> \<lfloor>- x * 10 ^ n + 1 / 2\<rfloor>" using s by (intro floor_mono) simp
    then have "(of_int \<lfloor>- y * 10 ^ n + 1 / 2\<rfloor> :: rat) \<le> of_int \<lfloor>- x * 10 ^ n + 1 / 2\<rfloor>" by (simp only: of_int_le_iff)
    then show ?thesis using 3 xy by simp
  qed
  then show ?thesis unfolding sql_round_def by (rule divide_right_mono) simp
qed

text \<open>At least half are at or below a median, and at least half at or above.\<close>

lemma median_disc_halves:
  fixes A :: "('a::linorder \<times> 'b::linorder) set"
  assumes f: "finite A" and m: "median_disc A = Some m"
  shows "card A \<le> 2 * card {x \<in> A. fst x \<le> m}" "card A \<le> 2 * card {x \<in> A. m \<le> fst x}"
proof -
  let ?xs = "sorted_list_of_set A" and ?n = "card A" and ?m = "(card A + 1) div 2 - 1"
  have n: "length ?xs = ?n" "0 < ?n" using m f by (auto simp: median_disc_def card_gt_0_iff split: if_splits)
  have mid: "m = fst (?xs ! ?m)" using m by (auto simp: median_disc_def split: if_splits)
  have mono: "fst (?xs ! i) \<le> fst (?xs ! j)" if "i \<le> j" "j < ?n" for i j
    using sorted_nth_mono[OF sorted_sorted_list_of_set, of i j A] that by (auto simp: less_eq_prod_def)
  have cnt: "card {x \<in> A. P x} = card {i. i < ?n \<and> P (?xs ! i)}" for P
  proof -
    have "{x \<in> A. P x} = set (filter P ?xs)" using f by auto
    then have "card {x \<in> A. P x} = length (filter P ?xs)" using distinct_card[of "filter P ?xs"] by simp
    then show ?thesis by (simp add: length_filter_conv_card)
  qed
  have "{..?m} \<subseteq> {i. i < ?n \<and> fst (?xs ! i) \<le> m}" unfolding mid using n(2) mono[of _ ?m] by auto
  then have "card {..?m} \<le> card {x \<in> A. fst x \<le> m}" unfolding cnt by (intro card_mono) auto
  then show "card A \<le> 2 * card {x \<in> A. fst x \<le> m}" using n(2) by simp
  have "{?m..<?n} \<subseteq> {i. i < ?n \<and> m \<le> fst (?xs ! i)}" unfolding mid using mono[of ?m] by auto
  then have "card {?m..<?n} \<le> card {x \<in> A. m \<le> fst x}" unfolding cnt by (intro card_mono) auto
  then show "card A \<le> 2 * card {x \<in> A. m \<le> fst x}" using n(2) by simp
qed

text \<open>Scaling by something positive scales the median.\<close>

lemma median_disc_scale:
  fixes c :: rat and A :: "(rat \<times> 'b::linorder) set"
  assumes f: "finite A" and c: "0 < c"
  shows "median_disc ((\<lambda>x. (fst x * c, snd x)) ` A) = map_option (\<lambda>m. m * c) (median_disc A)"
proof -
  let ?g = "\<lambda>x. (fst x * c, snd x)" and ?xs = "sorted_list_of_set A"
  have inj: "inj_on ?g B" for B using c by (auto simp: inj_on_def prod_eq_iff)
  have "sorted (map ?g ?xs)" unfolding sorted_map
    by (rule sorted_wrt_mono_rel[OF _ sorted_sorted_list_of_set]) (use c in \<open>auto simp: less_eq_prod_def\<close>)
  moreover have "distinct (map ?g ?xs)" using inj by (simp add: distinct_map)
  ultimately have "sorted_list_of_set (set (map ?g ?xs)) = map ?g ?xs" by (rule sorted_list_of_set.idem_if_sorted_distinct)
  then have l: "sorted_list_of_set (?g ` A) = map ?g ?xs" using f by simp
  show ?thesis
  proof (cases "A = {}")
    case False
    then have "0 < card A" using f by (simp add: card_gt_0_iff)
    then have "(card A + 1) div 2 - 1 < length ?xs" by simp
    then show ?thesis using False by (simp add: median_disc_def l card_image[OF inj])
  qed (simp add: median_disc_def)
qed

lemma card_key_filter:
  assumes "finite P" "inj_on g P"
  shows "card {x \<in> (\<lambda>r. (h r, g r)) ` P. Q (fst x)} = card {r \<in> P. Q (h r)}"
proof -
  have "{x \<in> (\<lambda>r. (h r, g r)) ` P. Q (fst x)} = (\<lambda>r. (h r, g r)) ` {r \<in> P. Q (h r)}" by auto
  moreover have "inj_on (\<lambda>r. (h r, g r)) {r \<in> P. Q (h r)}" using assms(2) by (auto simp: inj_on_def)
  ultimately show ?thesis by (simp add: card_image)
qed

text \<open>A price is a median of its observations, unless the median is too small for its eight places.\<close>

lemma rebuilt_medians:
  assumes t: "finite t" "inj_on sn_key t"
    and big: "\<forall>r\<in>t. 0 < sn_shares r \<and> 0 < sn_value r \<longrightarrow> stored_price r \<noteq> 0"
  shows "prices_are_medians t (implied_prices None t) = {}"
proof -
  have "median_problem t p = None" if p: "p \<in> implied_prices None t" for p
  proof -
    let ?obs = "observed_at t (ip_key p)"
    let ?A = "(\<lambda>r. (obs_price r, sn_filer r)) ` priced ?obs"
    have pr: "ip_price p = rounded_price ?obs"
    proof -
      have "p = price_of (ip_key p) ?obs" using p unfolding implied_mem Let_def observed_observations by blast
      from arg_cong[OF this, of ip_price] show ?thesis by (simp add: price_of_def)
    qed
    have fin: "finite ?obs" "finite (priced ?obs)" using t(1) by (simp_all add: observed_at_def priced_def)
    have inj: "inj_on sn_filer (priced ?obs)"
    proof (rule inj_onI)
      fix x y assume "x \<in> priced ?obs" "y \<in> priced ?obs" "sn_filer x = sn_filer y"
      then have xy: "x \<in> t" "y \<in> t" "sn_filer x = sn_filer y" "security_period x = security_period y"
        by (auto simp: priced_def observed_at_def)
      then have "sn_key x = sn_key y" by (simp add: sn_key_def security_period_def)
      then show "x = y" using t(2) xy(1,2) by (simp add: inj_on_def)
    qed
    have fA: "finite ?A" using fin(2) by simp
    show ?thesis
    proof (cases "obs_median ?obs")
      case None
      then have "priced ?obs = {}" using obs_median_None[OF fin(1)] by blast
      then show ?thesis using None pr by (simp add: median_problem_def Let_def rounded_price_def)
    next
      case (Some m)
      obtain r where r: "r \<in> priced ?obs" "obs_price r = m" using median_of_priced[OF fin(1) Some] by blast
      then have rt: "r \<in> t" "0 < sn_shares r" "0 < sn_value r" by (auto simp: priced_def observed_at_def)
      define x where "x = sql_round price_places m"
      have x: "stored_price r = x" "x \<noteq> 0" using r(2) big rt by (auto simp: stored_price_def x_def)
      have "0 \<le> m" using rt r(2) by (auto simp: obs_price_def)
      then have pos: "\<not> x \<le> 0" using x(2) sql_round_nonneg[of m price_places] by (simp add: x_def)
      have price: "ip_price p = Some x" using pr Some x(2) by (simp add: rounded_price_def x_def)
      note halves = median_disc_halves[OF fA Some[unfolded obs_median_def]]
      have n: "card ?A = card (priced ?obs)" using inj by (intro card_image) (auto simp: inj_on_def)
      have lo: "card {r \<in> priced ?obs. obs_price r \<le> m} \<le> card {r \<in> priced ?obs. stored_price r \<le> x}"
        using fin(2) by (intro card_mono) (auto simp: stored_price_def x_def intro: sql_round_mono)
      have hi: "card {r \<in> priced ?obs. m \<le> obs_price r} \<le> card {r \<in> priced ?obs. x \<le> stored_price r}"
        using fin(2) by (intro card_mono) (auto simp: stored_price_def x_def intro: sql_round_mono)
      have "card (priced ?obs) \<le> card {r \<in> priced ?obs. stored_price r \<le> x} * 2"
        using halves(1) lo unfolding n card_key_filter[OF fin(2) inj, of obs_price "\<lambda>y. y \<le> m"] by linarith
      moreover have "card (priced ?obs) \<le> card {r \<in> priced ?obs. x \<le> stored_price r} * 2"
        using halves(2) hi unfolding n card_key_filter[OF fin(2) inj, of obs_price "\<lambda>y. m \<le> y"] by linarith
      moreover have "{r \<in> priced ?obs. stored_price r = x} \<noteq> {}" using r(1) x(1) by blast
      moreover have "stored_price r \<in> {x}" "?obs \<noteq> {}" using x(1) r(1) by (auto simp: priced_def)
      ultimately show ?thesis using price pos r(1) by (auto simp: median_problem_def Let_def not_less)
    qed
  qed
  then show ?thesis by (simp add: prices_are_medians_def found_in_empty)
qed

section \<open>Splits the holders bear out\<close>

text \<open>
  The column keeps ten places of a ratio, and two of the fractions need more. A median that far from
  one of them is nearer to 1:2, so the tolerance holds of the stored ratio too.
\<close>

lemma stored_ratios:
  "list_all (\<lambda>f. f = (1, 3) \<or> f = (2, 3) \<or> sql_round 10 (frac f) = frac f) split_fractions"
  "sql_round 10 (frac (1, 3)) = 3333333333 / 10 ^ 10" "sql_round 10 (frac (2, 3)) = 6666666667 / 10 ^ 10"
  by code_simp+

definition fraction_distance :: "rat \<Rightarrow> fraction \<Rightarrow> rat" where
  "fraction_distance r f = max (r * of_int (snd f) / of_int (fst f)) (1 / (r * of_int (snd f) / of_int (fst f)))"

lemma snapped_nearest:
  assumes "snapped r = Some f"
  shows "f \<in> set split_fractions" "fraction_distance r f \<le> agreement_tolerance"
    "g \<in> set split_fractions \<Longrightarrow> fraction_distance r g \<le> agreement_tolerance \<Longrightarrow> fraction_distance r f \<le> fraction_distance r g"
proof -
  have s: "min_by (fraction_distance r) (filter (\<lambda>f. fraction_distance r f \<le> agreement_tolerance) split_fractions) = Some f"
    using assms by (simp add: snapped_def Let_def fraction_distance_def[abs_def])
  show "f \<in> set split_fractions" "fraction_distance r f \<le> agreement_tolerance" using min_by_mem[OF s] by simp_all
  show "fraction_distance r f \<le> fraction_distance r g" if "g \<in> set split_fractions" "fraction_distance r g \<le> agreement_tolerance"
    using min_by_least[OF s, of g] that by simp
qed

lemma snapped_stored:
  assumes "snapped r = Some f" "0 < r"
  shows "0 < sql_round 10 (frac f)" "r / sql_round 10 (frac f) \<le> agreement_tolerance" "1 \<le> r / sql_round 10 (frac f) * agreement_tolerance"
proof -
  note s = snapped_nearest[OF assms(1)]
  have half: "(1, 2) \<in> set split_fractions" by (simp add: split_fractions_def)
  have "f = (1, 3) \<or> f = (2, 3) \<or> sql_round 10 (frac f) = frac f" using stored_ratios(1) s(1) unfolding list_all_iff by blast
  then consider "f = (1, 3)" | "f = (2, 3)" | "sql_round 10 (frac f) = frac f" by blast
  then have "0 < sql_round 10 (frac f) \<and> r / sql_round 10 (frac f) \<le> agreement_tolerance \<and> 1 \<le> r / sql_round 10 (frac f) * agreement_tolerance"
  proof cases
    case 1
    have "r * 3 \<le> 5 / 4" "1 / (r * 3) \<le> 5 / 4"
      using s(2)[unfolded fraction_distance_def max.bounded_iff] by (simp_all add: 1 agreement_tolerance_def)
    then have d: "r * 3 \<le> 5 / 4" "1 \<le> 5 / 4 * (r * 3)" using assms(2) by (simp_all add: divide_le_eq)
    have "r \<le> 41 / 100"
    proof (rule ccontr)
      assume "\<not> r \<le> 41 / 100"
      then have r: "41 / 100 < r" by simp
      then have "1 / (r * 2) \<le> 61 / 50" by (simp add: divide_le_eq)
      then have "fraction_distance r (1, 2) \<le> 61 / 50" using d(1) by (simp add: fraction_distance_def)
      then show False using s(3)[OF half] r by (simp add: 1 fraction_distance_def agreement_tolerance_def)
    qed
    then show ?thesis using d(2) by (simp add: 1 stored_ratios(2) agreement_tolerance_def)
  next
    case 2
    have "r * 3 / 2 \<le> 5 / 4" "2 / (r * 3) \<le> 5 / 4"
      using s(2)[unfolded fraction_distance_def max.bounded_iff] by (simp_all add: 2 agreement_tolerance_def)
    then have d: "r * 3 / 2 \<le> 5 / 4" "1 \<le> 5 / 4 * (r * 3 / 2)" using assms(2) by (simp_all add: divide_le_eq)
    have "57 / 100 \<le> r"
    proof (rule ccontr)
      assume "\<not> 57 / 100 \<le> r"
      then have r: "r < 57 / 100" by simp
      have "1 / (r * 2) \<le> 1" using d(2) by (simp add: divide_le_eq)
      then have "fraction_distance r (1, 2) \<le> 57 / 50" using r by (simp add: fraction_distance_def)
      then have "2 / (r * 3) \<le> 57 / 50" using s(3)[OF half] by (simp add: 2 fraction_distance_def agreement_tolerance_def)
      then show False using r assms(2) by (simp add: divide_le_eq)
    qed
    then show ?thesis using d(1) by (simp add: 2 stored_ratios(3) agreement_tolerance_def)
  next
    case 3
    have "0 < frac f" by (rule frac_pos[OF s(1)])
    have "r / frac f \<le> agreement_tolerance" "1 / (r / frac f) \<le> agreement_tolerance" using s(2) by (simp_all add: fraction_distance_def frac_def)
    then show ?thesis using 3 assms(2) \<open>0 < frac f\<close> by (simp add: divide_le_eq mult.commute agreement_tolerance_def)
  qed
  then show "0 < sql_round 10 (frac f)" "r / sql_round 10 (frac f) \<le> agreement_tolerance" "1 \<le> r / sql_round 10 (frac f) * agreement_tolerance" by blast+
qed
text \<open>Between consecutive quarter ends lies one, so what crosses the quarter crosses its own split only.\<close>

lemma quarter_step:
  assumes "quarter_periods t" "r \<in> t" "l \<in> t" "quarter_before (sn_period r) < sn_period l" "sn_period l \<le> sn_period r"
  shows "sn_period l = sn_period r"
proof -
  obtain i j where p: "sn_period r = quarter_of_index i" "sn_period l = quarter_of_index j"
    using assms(1-3) unfolding quarter_periods_def by blast
  have "i - 1 < j" using assms(4) p quarter_of_index_mono[of j "i - 1"] quarter_before_index
    by (metis leD linorder_not_less order.strict_implies_order order_le_less)
  moreover have "j \<le> i" using assms(5) p quarter_of_index_mono[of i j] by (metis leD not_le)
  ultimately have "j = i" by simp
  then show ?thesis using p by simp
qed

lemma quarter_before_less:
  assumes "quarter_periods t" "r \<in> t"
  shows "quarter_before (sn_period r) < sn_period r"
proof -
  obtain i where "sn_period r = quarter_of_index i" using assms unfolding quarter_periods_def by blast
  then show ?thesis using quarter_of_index_mono[of "i - 1" i] by (simp add: quarter_before_index)
qed

lemma split_row_of:
  assumes "s \<in> security_splits None (t, ps)"
  shows "snapped (median_ratio (ratios_at None t (sp_key s))) = Some (sp_fraction s)" "2 \<le> card (ratios_at None t (sp_key s))"
proof -
  obtain c where c: "candidate_at None t ps (sp_key s) = Some c" "vd_split (judge c)" "s = row_of_verdict (judge c)"
    using assms unfolding splits_mem by auto
  then have c': "c = candidate_of (ratios_at None t (sp_key s)) ps (sp_key s)" "min_agreeing \<le> card (ratios_at None t (sp_key s))"
    by (auto simp: candidate_at_def Let_def split: if_splits)
  obtain f where f: "cd_fraction c = Some f" using judge_split[OF c(2)] by blast
  have "sp_fraction s = f" using arg_cong[OF c(3), of sp_fraction] by (simp add: row_of_verdict_def sp_fraction_def Let_def f)
  moreover have "cd_fraction c = snapped (median_ratio (ratios_at None t (sp_key s)))"
    using arg_cong[OF c'(1), of cd_fraction] by (simp add: candidate_of_def Let_def)
  ultimately show "snapped (median_ratio (ratios_at None t (sp_key s))) = Some (sp_fraction s)" using f by simp
  show "2 \<le> card (ratios_at None t (sp_key s))" using c'(2) by (simp add: min_agreeing_def)
qed

lemma splits_at_key:
  assumes "quarter_periods t" "r \<in> t" "s \<in> security_splits None (t, ps)" "security_period r = sp_key s"
  shows "splits_in (security_splits None (t, ps)) (sn_security r) (Some (quarter_before (sn_period r))) (sn_period r) = {s}"
proof -
  have "x = s" if x: "x \<in> security_splits None (t, ps)" "sp_security x = sn_security r"
      "quarter_before (sn_period r) < sp_period x" "sp_period x \<le> sn_period r" for x
  proof -
    have "ratios_at None t (sp_key x) \<noteq> {}" using split_row_of(2)[OF x(1)] by auto
    then obtain y where "y \<in> ratios_at None t (sp_key x)" by blast
    then have "fst y \<in> t" "security_period (fst y) = sp_key x" unfolding ratios_at_mem by simp_all
    then have "sp_period x = sn_period r"
      using quarter_step[OF assms(1,2), of "fst y"] x(3,4) by (simp add: security_period_def sp_key_def)
    then have "sp_key x = sp_key s" using assms(4) x(2) by (simp add: security_period_def sp_key_def)
    from inj_onD[OF splits_keyed this x(1) assms(3)] show ?thesis .
  qed
  then have "splits_in (security_splits None (t, ps)) (sn_security r) (Some (quarter_before (sn_period r))) (sn_period r) \<subseteq> {s}"
    unfolding splits_in_def option.case by blast
  moreover have "sp_security s = sn_security r" "sp_period s = sn_period r"
    using assms(4) by (simp_all add: security_period_def sp_key_def)
  ultimately show ?thesis using assms(3) quarter_before_less[OF assms(1,2)] by (auto simp: splits_in_def)
qed

text \<open>The changes across a split are those of the holders it was detected from.\<close>

lemma changes_across_split:
  assumes t: "finite t" "inj_on sn_key t" and q: "quarter_periods t" and s: "s \<in> security_splits None (t, ps)"
  defines "sps \<equiv> security_splits None (t, ps)"
  shows "changes_across (position_changes None (t, sps)) s = (\<lambda>x. change_row (compared_row None t sps (fst x))) ` ratios_at None t (sp_key s)"
    "x \<in> ratios_at None t (sp_key s) \<Longrightarrow>
       adjusted_move (change_row (compared_row None t sps (fst x))) = ratio_of x / sql_round 10 (frac (sp_fraction s))"
proof -
  have crossed: "split_between sps (sn_security r) (Some (quarter_before (sn_period r))) (sn_period r) = Some (sp_fraction s)"
    if "r \<in> t" "security_period r = sp_key s" for r
    using splits_at_key[OF q that(1) s that(2)] by (simp add: split_between_def sps_def sp_fraction_def)
  have pair: "before_in (published t (sn_filer (fst x))) (sn_period (fst x)) = Some (quarter_before (sn_period (fst x)))
      \<and> then_row None t (fst x) = Some (snd x)" if x: "x \<in> ratios_at None t (sp_key s)" for x
  proof -
    have m: "fst x \<in> t" "snd x \<in> t" "sn_filer (snd x) = sn_filer (fst x)" "sn_security (snd x) = sn_security (fst x)"
      "sn_period (snd x) = quarter_before (sn_period (fst x))"
      using x unfolding ratios_at_mem by (simp_all add: security_period_def prod_eq_iff)
    have "p \<le> quarter_before (sn_period (fst x))" if p: "p \<in> published t (sn_filer (fst x))" "p < sn_period (fst x)" for p
    proof -
      obtain l where l: "l \<in> t" "sn_period l = p" using p(1) unfolding published_iff by blast
      show ?thesis
      proof (rule ccontr)
        assume "\<not> ?thesis"
        then have "sn_period l = sn_period (fst x)" using quarter_step[OF q m(1) l(1)] l(2) p(2) by simp
        then show False using l(2) p(2) by simp
      qed
    qed
    moreover have "quarter_before (sn_period (fst x)) \<in> published t (sn_filer (fst x))"
      using published_mem[OF m(2)] m(3,5) by simp
    ultimately have "before_in (published t (sn_filer (fst x))) (sn_period (fst x)) = Some (quarter_before (sn_period (fst x)))"
      unfolding before_in_Some[OF published_finite[OF t(1)]] using quarter_before_less[OF q m(1)] by blast
    moreover have "row_at sn_key t (sn_filer (fst x), quarter_before (sn_period (fst x)), sn_security (fst x)) = Some (snd x)"
      unfolding row_at_Some[OF t(2)] using m by (simp add: sn_key_def)
    ultimately show ?thesis using then_row_eq[OF t m(1), of None] by simp
  qed
  have in_t: "fst x \<in> t" "security_period (fst x) = sp_key s" "0 < sn_shares (fst x)" "0 < sn_shares (snd x)"
    if "x \<in> ratios_at None t (sp_key s)" for x using that unfolding ratios_at_mem by simp_all
  have across: "change_row (compared_row None t sps (fst x)) \<in> changes_across (position_changes None (t, sps)) s"
    if x: "x \<in> ratios_at None t (sp_key s)" for x
    using held_change[OF in_t(1)[OF x], of sps] pair[OF x] in_t[OF x] crossed[OF in_t(1,2)[OF x]]
    by (simp add: changes_across_def cm_is_split_def security_period_def sp_key_def)
  show "adjusted_move (change_row (compared_row None t sps (fst x))) = ratio_of x / sql_round 10 (frac (sp_fraction s))"
    if x: "x \<in> ratios_at None t (sp_key s)" for x
  proof -
    have "ch_split_ratio (change_row (compared_row None t sps (fst x))) = Some (sql_round 10 (frac (sp_fraction s)))"
      using pair[OF x] crossed[OF in_t(1,2)[OF x]] by (simp add: change_row_def cm_is_split_def Let_def frac_def split: prod.split)
    then show ?thesis using pair[OF x] by (simp add: adjusted_move_def ratio_of_def)
  qed
  show "changes_across (position_changes None (t, sps)) s = (\<lambda>x. change_row (compared_row None t sps (fst x))) ` ratios_at None t (sp_key s)"
  proof (intro equalityI subsetI)
    fix c assume c: "c \<in> changes_across (position_changes None (t, sps)) s"
    then have mem: "c \<in> position_changes None (t, sps)" and cs: "ch_is_split c" "ch_security c = sp_security s" "ch_period c = sp_period s"
      "ch_prev_period c = Some (quarter_before (sp_period s))" "0 < ch_shares c" "\<exists>v. ch_prev_shares c = Some v \<and> 0 < v"
      by (auto simp: changes_across_def split: option.splits)
    from mem obtain r where r: "r \<in> t" "c = change_row (compared_row None t sps r)"
      by (cases rule: change_cases) (use cs(1) in \<open>auto simp: cm_is_split_def\<close>)
    have b: "before_in (published t (sn_filer r)) (sn_period r) = Some (quarter_before (sn_period r))"
      using cs(3,4) r(2) by simp
    obtain l where l: "then_row None t r = Some l" "0 < sn_shares l" using cs(6) r(2) by auto
    then have "row_at sn_key t (sn_filer r, quarter_before (sn_period r), sn_security r) = Some l"
      using then_row_eq[OF t r(1), of None] b by simp
    then have "l \<in> t" "sn_key l = (sn_filer r, quarter_before (sn_period r), sn_security r)" using row_at_Some[OF t(2)] by blast+
    then have "(r, l) \<in> ratios_at None t (sp_key s)"
      unfolding ratios_at_mem using r cs(2,3,5) l(2) by (simp add: security_period_def sp_key_def sn_key_def)
    then show "c \<in> (\<lambda>x. change_row (compared_row None t sps (fst x))) ` ratios_at None t (sp_key s)" using r(2) by force
  qed (use across in blast)
qed

text \<open>The median of its holders, adjusted by the stored ratio, is within the tolerance.\<close>

lemma rebuilt_plausible:
  assumes t: "finite t" "inj_on sn_key t" and q: "quarter_periods t"
  shows "split_changes_are_plausible (position_changes None (t, security_splits None (t, ps))) (security_splits None (t, ps)) = {}"
proof -
  let ?sps = "security_splits None (t, ps)"
  have "plausible_problem (position_changes None (t, ?sps)) s = None" if s: "s \<in> ?sps" for s
  proof -
    let ?A = "ratios_at None t (sp_key s)" and ?f = "sql_round 10 (frac (sp_fraction s))"
    let ?B = "(\<lambda>x. (ratio_of x, sn_filer (fst x))) ` ?A"
    note sr = split_row_of[OF s]
    have fA: "finite ?A" by (rule ratios_at_finite[OF t(1)])
    have ne: "?A \<noteq> {}" using sr(2) by auto
    have m: "median_disc ?B = Some (median_ratio ?A)" using ne by (simp add: median_ratio_def median_disc_def)
    have pos: "0 < median_ratio ?A"
    proof -
      obtain b where "(median_ratio ?A, b) \<in> ?B" using median_disc_mem[OF _ m] fA by blast
      then obtain x where "x \<in> ?A" "median_ratio ?A = ratio_of x" by auto
      then show ?thesis using ratios_at_mem[of x t "sp_key s"] by (simp add: ratio_of_def)
    qed
    note w = snapped_stored[OF sr(1) pos]
    note ac = changes_across_split[OF t q s]
    have "(\<lambda>c. (adjusted_move c, ch_filer c)) ` changes_across (position_changes None (t, ?sps)) s
        = (\<lambda>x. (fst x * (1 / ?f), snd x)) ` ?B"
      unfolding ac(1) image_image by (rule image_cong[OF refl]) (use ac(2) in simp)
    then have move: "median_move (changes_across (position_changes None (t, ?sps)) s) = Some (median_ratio ?A / ?f)"
      using median_disc_scale[of ?B "1 / ?f"] fA w(1) m unfolding median_move_def by simp
    show ?thesis using w(2,3) by (simp add: plausible_problem_def move)
  qed
  then show ?thesis by (simp add: split_changes_are_plausible_def found_in_empty)
qed

section \<open>What a reconciliation shows\<close>

lemma view_agrees: "vw_populated v \<Longrightarrow> vw_stored v = vw_live v \<Longrightarrow> view_disagreements v = {}"
  by (simp add: view_disagreements_def found_in_def)

lemma rebuild_clean:
  assumes "finite (bs_filings b)" "finite (bs_holdings b)" "inj_on fl_id (bs_filings b)"
    and "\<forall>h\<in>bs_holdings b. 0 \<le> ho_shares h \<and> 0 \<le> ho_value h"
    and "\<forall>p. card (rows_at (dv_snapshot (full i b)) p) \<le> 20000"
    and "quarter_periods (dv_snapshot (full i b))"
    and "\<forall>r\<in>dv_snapshot (full i b). 0 < sn_shares r \<and> 0 < sn_value r \<longrightarrow> stored_price r \<noteq> 0"
  shows "(\<forall>v. v \<noteq> Views_live \<longrightarrow> violations i b (full i b) vs v = {})
    \<and> rn_failed (reconcile i b (full i b) vs) = filter (\<lambda>c. snd c \<noteq> 0) [(Views_live, card (views_match_live vs))]
    \<and> rn_violations (reconcile i b (full i b) vs) = card (views_match_live vs)"
proof -
  define t where "t = snapshot_positions i None b"
  define ps where "ps = implied_prices None t"
  have d: "dv_snapshot (full i b) = t" "dv_prices (full i b) = ps" "dv_splits (full i b) = security_splits None (t, ps)"
    "dv_changes (full i b) = position_changes None (t, security_splits None (t, ps))"
    by (simp_all add: full_def Let_def t_def ps_def)
  note a = assms[unfolded d]
  have t: "finite t" "inj_on sn_key t" unfolding t_def by (rule snapshot_finite[OF assms(1,2)], rule snapshot_keyed)
  have none: "violations i b (full i b) vs v = {}" if "v \<noteq> Views_live" for v
    using that
  proof (cases v)
    case Weights_sum
    show ?thesis unfolding Weights_sum violations.simps d t_def
      by (rule rebuilt_weights[OF assms(2)]) (use a(5) in \<open>simp only: t_def\<close>)
  next
    case Traces_to_filing
    show ?thesis using rebuilt_traces[OF assms(1-3)] by (simp add: Traces_to_filing d t_def)
  next
    case Splits_plausible
    show ?thesis using rebuilt_plausible[OF t a(6)] by (simp add: Splits_plausible d)
  next
    case Not_negative
    show ?thesis using rebuilt_not_negative[OF assms(4)] by (simp add: Not_negative d t_def)
  next
    case Prices_medians
    show ?thesis using rebuilt_medians[OF t a(7)] by (simp add: Prices_medians d ps_def)
  qed (simp_all add: d ps_def rebuilt_match[OF t] rebuilt_follows[OF t] rebuilt_new_and_exit[OF t] rebuilt_deltas[OF t]
        rebuilt_adjusts rebuilt_counts rebuilt_positive[OF t(1)])
  then have n: "card (violations i b (full i b) vs v) = (if v = Views_live then card (views_match_live vs) else 0)" for v by simp
  have "rn_failed (reconcile i b (full i b) vs) = filter (\<lambda>c. snd c \<noteq> 0) [(Views_live, card (views_match_live vs))]"
    "rn_violations (reconcile i b (full i b) vs) = card (views_match_live vs)"
    unfolding rn_failed_def rn_violations_def reconcile_def reconciliation.select_convs n invariants_def by simp_all
  then show ?thesis using none by blast
qed

lemma rebuild_refreshed_clean:
  assumes "finite (bs_filings b)" "finite (bs_holdings b)" "inj_on fl_id (bs_filings b)"
    and "\<forall>h\<in>bs_holdings b. 0 \<le> ho_shares h \<and> 0 \<le> ho_value h"
    and "\<forall>p. card (rows_at (dv_snapshot (full i b)) p) \<le> 20000"
    and "quarter_periods (dv_snapshot (full i b))"
    and "\<forall>r\<in>dv_snapshot (full i b). 0 < sn_shares r \<and> 0 < sn_value r \<longrightarrow> stored_price r \<noteq> 0"
  shows "(\<forall>v\<in>set vs. vw_populated v \<and> vw_stored v = vw_live v) \<longrightarrow> rn_clean (reconcile i b (full i b) vs)"
proof
  assume "\<forall>v\<in>set vs. vw_populated v \<and> vw_stored v = vw_live v"
  then have "views_match_live vs = {}" by (simp add: views_match_live_def view_agrees)
  then show "rn_clean (reconcile i b (full i b) vs)" using rebuild_clean[OF assms, of vs] by (simp add: rn_clean_def)
qed

text \<open>C11. A full rebuild leaves nothing of its own to find. Whatever was filed, the tables built from it break none
  of the twelve invariants of the tables, when no figure is negative, every period is a quarter end, no
  period has more rows than the weights' tolerance allows for and no price is too small for eight
  places. All a reconciliation counts is then what the thirteenth finds, of views not refreshed since;
  once every view is populated and holds what its live query returns, the reconciliation is clean.\<close>

theorem rebuild_reconciles_clean:
  assumes "finite (bs_filings b)" "finite (bs_holdings b)" "inj_on fl_id (bs_filings b)"
    and "\<forall>h\<in>bs_holdings b. 0 \<le> ho_shares h \<and> 0 \<le> ho_value h"
    and "\<forall>p. card (rows_at (dv_snapshot (full i b)) p) \<le> 20000"
    and "quarter_periods (dv_snapshot (full i b))"
    and "\<forall>r\<in>dv_snapshot (full i b). 0 < sn_shares r \<and> 0 < sn_value r \<longrightarrow> stored_price r \<noteq> 0"
  shows "(\<forall>v. v \<noteq> Views_live \<longrightarrow> violations i b (full i b) vs v = {})
    \<and> rn_failed (reconcile i b (full i b) vs) = filter (\<lambda>c. snd c \<noteq> 0) [(Views_live, card (views_match_live vs))]
    \<and> rn_violations (reconcile i b (full i b) vs) = card (views_match_live vs)
    \<and> ((\<forall>v\<in>set vs. vw_populated v \<and> vw_stored v = vw_live v) \<longrightarrow> rn_clean (reconcile i b (full i b) vs))"
  using rebuild_clean[OF assms] rebuild_refreshed_clean[OF assms] by blast


text \<open>A previous value that is null is compared with nothing: a change that lost it still passes.\<close>

lemma null_previous_value_unseen: "previous_problem t c = None \<Longrightarrow> previous_problem t (c\<lparr>ch_prev_value := None\<rparr>) = None"
  by (cases "before_in (published t (ch_filer c)) (ch_period c)")
    (auto simp: previous_problem_def figures_differ_def Let_def split: option.splits if_splits)









section \<open>A sample\<close>

definition sample_view :: "int view" where
  "sample_view = \<lparr>vw_name = ''manager_stats'', vw_populated = True, vw_stored = {7}, vw_live = {7}, vw_key = (\<lambda>f. (Some f, None, None))\<rparr>"

lemma sample_snapshot: "dv_snapshot (full False (sample_base (set original_only))) =
   {\<lparr>sn_filer = 7, sn_period = Date 2024 3 31, sn_security = 9, sn_shares = 10, sn_value = 100, sn_weight = Some 100,
     sn_source = 1, sn_suspect = False\<rparr>}"
proof -
  let ?b = "sample_base (set original_only)"
  have "sn_pair r = (7, Date 2024 3 31)" if r: "r \<in> snapshot_positions False None ?b" for r
  proof -
    obtain p sec where k: "(p, sec) \<in> agg_keys False (winning None ?b) (bs_holdings ?b)"
      and r': "r = snapshot_row False (winning None ?b) (bs_holdings ?b) (p, sec)" using r unfolding snapshot_mem by blast
    from k have "p \<in> fl_pair ` winning None ?b" by (auto simp: agg_keys_def)
    then show ?thesis using r' by (simp add: sample_winning sample_pair)
  qed
  then have "snapshot_positions False None ?b = rows_at (snapshot_positions False None ?b) (7, Date 2024 3 31)"
    by (auto simp: rows_at_def)
  then show ?thesis by (simp add: full_def Let_def sample_rows)
qed

lemma sample_reconcilable:
  defines "d \<equiv> full False (sample_base (set original_only))"
  shows "\<forall>p. card (rows_at (dv_snapshot d) p) \<le> 20000" "quarter_periods (dv_snapshot d)"
    "\<forall>r\<in>dv_snapshot d. 0 < sn_shares r \<and> 0 < sn_value r \<longrightarrow> stored_price r \<noteq> 0"
proof -
  note t = sample_snapshot[folded d_def]
  show "\<forall>p. card (rows_at (dv_snapshot d) p) \<le> 20000"
  proof
    fix p
    have "card (rows_at (dv_snapshot d) p) \<le> card (dv_snapshot d)"
      unfolding t by (intro card_mono) (auto simp: rows_at_def)
    then show "card (rows_at (dv_snapshot d) p) \<le> 20000" unfolding t by simp
  qed
  show "quarter_periods (dv_snapshot d)" using sample_q1 unfolding quarter_periods_def t by auto
  have "\<lfloor>2000000001 / 2 :: rat\<rfloor> = 1000000000" by (rule floor_unique) simp_all
  then show "\<forall>r\<in>dv_snapshot d. 0 < sn_shares r \<and> 0 < sn_value r \<longrightarrow> stored_price r \<noteq> 0"
    unfolding t by (simp add: stored_price_def obs_price_def sql_round_def price_places_def)
qed

lemma sample_tables:
  "finite (bs_filings (sample_base (set original_only)))" "finite (bs_holdings (sample_base (set original_only)))"
  "inj_on fl_id (bs_filings (sample_base (set original_only)))"
  "\<forall>h\<in>bs_holdings (sample_base (set original_only)). 0 \<le> ho_shares h \<and> 0 \<le> ho_value h"
  "(\<forall>v\<in>set [sample_view]. vw_populated v \<and> vw_stored v = vw_live v)"
  by (simp_all add: sample_base_def original_only_def sample_view_def)

lemma rebuild_reconciles_clean_witness:
  "rn_clean (reconcile False (sample_base (set original_only)) (full False (sample_base (set original_only))) [sample_view])"
  using rebuild_reconciles_clean[OF sample_tables(1-4) sample_reconcilable] sample_tables(5) by blast



end
