(* ===== verification/Paddle.thy ===== *)
theory Paddle
  imports Text Calendar
begin

text \<open>
  \<open>app/accounts/paddle.py\<close>: the wire to Paddle. A webhook's signature, the notification in its
  body, and the calls of its API. The digest (\<open>hmac\<close>), the parsing of JSON (\<open>json.loads\<close>) and of
  an ISO timestamp (\<open>datetime.fromisoformat\<close>), and what Paddle answers to a request are
  parameters; bodies and headers are Latin-1 text, as the server decodes a header.
\<close>

section \<open>The signature\<close>

type_synonym digest = "string \<Rightarrow> string \<Rightarrow> string"

datatype signature_error =
    No_header
  | Ts_not_a_number
  | Needs_ts_and_h1
  | Signed_too_long_ago int
  | No_h1_matches

text \<open>What \<open>verify_signature\<close> may raise: its own error, or the \<open>TypeError\<close> of \<open>hmac.compare_digest\<close>,
  which compares texts only when both are ASCII.\<close>

datatype verify_failure = Signature_refused signature_error | Compare_type_error

text \<open>The rest of a text after the first occurrence of another, \<open>text.partition(sep)[2]\<close>.\<close>

fun after_text :: "string \<Rightarrow> string \<Rightarrow> string" where
  "after_text sep [] = []"
| "after_text sep (c # cs) =
     (if take (length sep) (c # cs) = sep then drop (length sep) (c # cs) else after_text sep cs)"

definition sign :: "digest \<Rightarrow> string \<Rightarrow> string \<Rightarrow> int \<Rightarrow> string" where
  "sign hexdigest body secret ts =
     ''ts='' @ show_int ts @ '';h1='' @ hexdigest secret (show_int ts @ '':'' @ body)"

fun read_parts :: "string list \<Rightarrow> int option \<Rightarrow> string list \<Rightarrow> verify_failure + int option \<times> string list" where
  "read_parts [] ts sigs = Inr (ts, sigs)"
| "read_parts (p # ps) ts sigs =
     (case partition_at CHR ''='' (py_strip p) of
        (name, v) \<Rightarrow>
          if name = ''ts'' then
            (case py_int v of
               None \<Rightarrow> Inl (Signature_refused Ts_not_a_number)
             | Some n \<Rightarrow> read_parts ps (Some n) sigs)
          else if name = ''h1'' \<and> v \<noteq> [] then read_parts ps ts (sigs @ [v])
          else read_parts ps ts sigs)"

definition is_ascii :: "string \<Rightarrow> bool" where
  "is_ascii s = list_all (\<lambda>c. code c < 128) s"

fun any_match :: "string \<Rightarrow> string list \<Rightarrow> verify_failure + bool" where
  "any_match wanted [] = Inr False"
| "any_match wanted (c # cs) =
     (if \<not> (is_ascii wanted \<and> is_ascii c) then Inl Compare_type_error
      else if wanted = c then Inr True
      else any_match wanted cs)"

definition verify_signature ::
  "digest \<Rightarrow> string option \<Rightarrow> string \<Rightarrow> string \<Rightarrow> rat \<Rightarrow> int \<Rightarrow> verify_failure + unit" where
  "verify_signature hexdigest header body secret now tolerance =
     (case header of
        None \<Rightarrow> Inl (Signature_refused No_header)
      | Some h \<Rightarrow>
          if h = [] then Inl (Signature_refused No_header)
          else bind_res (read_parts (split_on CHR '';'' h) None []) (\<lambda>(ts, sigs).
            case ts of
              None \<Rightarrow> Inl (Signature_refused Needs_ts_and_h1)
            | Some t \<Rightarrow>
                if sigs = [] then Inl (Signature_refused Needs_ts_and_h1)
                else if now > of_int (t + tolerance)
                then Inl (Signature_refused (Signed_too_long_ago \<lfloor>now - of_int t\<rfloor>))
                else
                  (let wanted = after_text ''h1='' (sign hexdigest body secret t) in
                   bind_res (any_match wanted sigs) (\<lambda>found.
                     if found then Inr () else Inl (Signature_refused No_h1_matches)))))"

section \<open>Notifications\<close>

datatype iso_time = Not_iso | No_timezone | Instant moment

record notification =
  nt_event_id :: string
  nt_event_type :: string
  nt_occurred_at :: moment
  nt_data :: "(string \<times> json) list"

definition entity_id :: "notification \<Rightarrow> string option" where
  "entity_id ev = as_text (dict_get (nt_data ev) ''id'')"

definition parse_time :: "(string \<Rightarrow> iso_time) \<Rightarrow> json \<Rightarrow> json_error + moment option" where
  "parse_time from_iso v =
     (case v of
        JNull \<Rightarrow> Inr None
      | JStr s \<Rightarrow> (case from_iso s of Instant t \<Rightarrow> Inr (Some t) | _ \<Rightarrow> Inl Not_a_timestamp)
      | _ \<Rightarrow> Inl Not_a_timestamp)"

definition subscript :: "json \<Rightarrow> string \<Rightarrow> json_error + json" where
  "subscript j k =
     (case j of
        JObj ms \<Rightarrow> (case map_of ms k of None \<Rightarrow> Inl (No_member k) | Some v \<Rightarrow> Inr v)
      | _ \<Rightarrow> Inl Not_a_mapping)"

text \<open>\<open>None\<close> is the \<open>ValueError\<close> of a body that is not a notification.\<close>

definition parse_notification ::
  "(string \<Rightarrow> json option) \<Rightarrow> (string \<Rightarrow> iso_time) \<Rightarrow> string \<Rightarrow> notification option" where
  "parse_notification loads from_iso body =
     (case loads body of
        None \<Rightarrow> None
      | Some payload \<Rightarrow>
          (case bind_res (subscript payload ''event_id'') (\<lambda>event_id.
                bind_res (subscript payload ''event_type'') (\<lambda>event_type.
                bind_res (subscript payload ''occurred_at'') (\<lambda>occurred.
                bind_res (parse_time from_iso occurred) (\<lambda>occurred_at.
                map_res (\<lambda>data. (event_id, event_type, occurred_at, data)) (subscript payload ''data''))))) of
             Inr (JStr event_id, JStr event_type, Some occurred_at, JObj data) \<Rightarrow>
               Some \<lparr>nt_event_id = event_id, nt_event_type = event_type,
                 nt_occurred_at = occurred_at, nt_data = data\<rparr>
           | _ \<Rightarrow> None))"

section \<open>The API\<close>

text \<open>One request's answer: no response, or a status and the body read as JSON, if it is.\<close>

datatype response = Unreached | Response int "json option"

type_synonym paddle_api = "string \<Rightarrow> string \<Rightarrow> json option \<Rightarrow> response"

text \<open>A \<open>PaddleError\<close>, its status and code, or a reading of an answer in another shape.\<close>

datatype client_error = Paddle_error "int option" json | Client_json_error json_error

definition lift_json :: "json_error + 'a \<Rightarrow> client_error + 'a" where
  "lift_json r = (case r of Inl e \<Rightarrow> Inl (Client_json_error e) | Inr x \<Rightarrow> Inr x)"

definition is_error_status :: "int \<Rightarrow> bool" where
  "is_error_status n \<longleftrightarrow> 400 \<le> n \<and> n \<le> 599"

definition paddle_call :: "paddle_api \<Rightarrow> string \<Rightarrow> string \<Rightarrow> json option \<Rightarrow> client_error + json" where
  "paddle_call api verb path body =
     (case api verb path body of
        Unreached \<Rightarrow> Inl (Paddle_error None JNull)
      | Response status parsed \<Rightarrow>
          (let payload = (case parsed of None \<Rightarrow> JObj [] | Some j \<Rightarrow> j) in
           if is_error_status status then
             bind_res (lift_json (j_get payload ''error'')) (\<lambda>e.
               bind_res (lift_json (j_get (or_empty e) ''code'')) (\<lambda>err_code.
                 Inl (Paddle_error (Some status) err_code)))
           else
             bind_res (lift_json (j_get payload ''data'')) (\<lambda>data.
               case data of JObj ms \<Rightarrow> Inr (JObj ms) | _ \<Rightarrow> Inl (Paddle_error None JNull))))"

definition paddle_post :: "paddle_api \<Rightarrow> string \<Rightarrow> json \<Rightarrow> client_error + json" where
  "paddle_post api path body = paddle_call api ''POST'' path (Some body)"

record checkout =
  ck_transaction_id :: json
  ck_url :: json

definition checkout_body :: "string \<Rightarrow> int \<Rightarrow> string option \<Rightarrow> json" where
  "checkout_body price_id user_id customer_id =
     JObj ([(''items'', JList [JObj [(''price_id'', JStr price_id), (''quantity'', JInt 1)]]),
            (''custom_data'', JObj [(''user_id'', JStr (show_int user_id))]),
            (''collection_mode'', JStr ''automatic'')]
           @ (case customer_id of None \<Rightarrow> [] | Some c \<Rightarrow> if c = [] then [] else [(''customer_id'', JStr c)]))"

definition create_checkout_call ::
  "paddle_api \<Rightarrow> string \<Rightarrow> int \<Rightarrow> string option \<Rightarrow> client_error + checkout" where
  "create_checkout_call api price_id user_id customer_id =
     bind_res (paddle_post api ''/transactions'' (checkout_body price_id user_id customer_id)) (\<lambda>data.
       bind_res (lift_json (j_get data ''checkout'')) (\<lambda>c.
         bind_res (lift_json (j_get (or_empty c) ''url'')) (\<lambda>url.
           if \<not> truthy url then Inl (Paddle_error None JNull)
           else bind_res (lift_json (subscript data ''id'')) (\<lambda>tid.
             Inr \<lparr>ck_transaction_id = tid, ck_url = url\<rparr>))))"

record portal_session =
  ps_url :: json
  ps_cancel_url :: json
  ps_update_payment_method_url :: json

fun deep_links :: "json list \<Rightarrow> json \<Rightarrow> json_error + json" where
  "deep_links [] sid = Inr (JObj [])"
| "deep_links (s # ss) sid =
     bind_res (j_get s ''id'') (\<lambda>i. if i = sid then Inr s else deep_links ss sid)"

definition create_portal_session_call ::
  "paddle_api \<Rightarrow> string \<Rightarrow> string option \<Rightarrow> client_error + portal_session" where
  "create_portal_session_call api customer_id subscription_id =
     bind_res (paddle_post api (''/customers/'' @ customer_id @ ''/portal-sessions'')
         (JObj [(''subscription_ids'',
            JList (case subscription_id of None \<Rightarrow> [] | Some s \<Rightarrow> if s = [] then [] else [JStr s]))])) (\<lambda>data.
       bind_res (lift_json (j_get data ''urls'')) (\<lambda>u.
         let urls = or_empty u in
         bind_res (lift_json (j_get urls ''general'')) (\<lambda>g.
           bind_res (lift_json (j_get (or_empty g) ''overview'')) (\<lambda>overview.
             if \<not> truthy overview then Inl (Paddle_error None JNull)
             else bind_res (lift_json (j_get urls ''subscriptions'')) (\<lambda>ss.
               bind_res (lift_json (items_of ss)) (\<lambda>items.
                 bind_res (lift_json (deep_links items (of_text subscription_id))) (\<lambda>deep.
                   bind_res (lift_json (j_get deep ''cancel_subscription'')) (\<lambda>cancel.
                     bind_res (lift_json (j_get deep ''update_subscription_payment_method'')) (\<lambda>upd.
                       Inr \<lparr>ps_url = overview, ps_cancel_url = cancel,
                         ps_update_payment_method_url = upd\<rparr>)))))))))"

definition cancel_subscription :: "paddle_api \<Rightarrow> string \<Rightarrow> client_error + json" where
  "cancel_subscription api sid =
     (case paddle_post api (''/subscriptions/'' @ sid @ ''/cancel'')
             (JObj [(''effective_from'', JStr ''immediately'')]) of
        Inr entity \<Rightarrow> Inr entity
      | Inl (Client_json_error e) \<Rightarrow> Inl (Client_json_error e)
      | Inl (Paddle_error status err_code) \<Rightarrow>
          if (case status of None \<Rightarrow> True | Some s \<Rightarrow> s \<ge> 500) then Inl (Paddle_error status err_code)
          else bind_res (paddle_call api ''GET'' (''/subscriptions/'' @ sid) None) (\<lambda>now.
            bind_res (lift_json (j_get now ''status'')) (\<lambda>st.
              if st \<noteq> JStr ''canceled'' then Inl (Paddle_error status err_code) else Inr now)))"

section \<open>A signature is what this API would sign\<close>

lemma after_text_here: "sep \<noteq> [] \<Longrightarrow> after_text sep (sep @ r) = r"
  by (cases sep) simp_all

lemma after_text_skip:
  assumes "c \<noteq> CHR ''h''" shows "after_text ''h1='' (c # cs) = after_text ''h1='' cs"
  using assms by simp

lemma digit_not_h: "d < 10 \<Longrightarrow> digit_char d \<noteq> CHR ''h''"
  using digit_val_char[of d] by (auto simp: digit_val_def simp del: digit_val_char)

lemma after_text_skips:
  "\<forall>c \<in> set p. c \<noteq> CHR ''h'' \<Longrightarrow> after_text ''h1='' (p @ r) = after_text ''h1='' r"
  by (induction p) (simp_all add: after_text_skip del: after_text.simps)

lemma show_int_no_h: "c \<in> set (show_int n) \<Longrightarrow> c \<noteq> CHR ''h''"
  using show_int_chars digit_not_h by fastforce

lemma expected_digest:
  "after_text ''h1='' (sign hexdigest body secret ts) = hexdigest secret (show_int ts @ '':'' @ body)"
proof -
  have "sign hexdigest body secret ts =
      (''ts='' @ show_int ts @ '';'') @ ''h1='' @ hexdigest secret (show_int ts @ '':'' @ body)"
    by (simp add: sign_def)
  moreover have "\<forall>c \<in> set (''ts='' @ show_int ts @ '';''). c \<noteq> CHR ''h''"
    using show_int_no_h by auto
  note skip = after_text_skips[OF this, of "''h1='' @ hexdigest secret (show_int ts @ '':'' @ body)"]
  moreover have "after_text ''h1='' (''h1='' @ hexdigest secret (show_int ts @ '':'' @ body)) =
      hexdigest secret (show_int ts @ '':'' @ body)"
    by (rule after_text_here) simp
  ultimately show ?thesis by (simp only:)
qed

lemma any_match_Inr_True: "any_match wanted cs = Inr True \<Longrightarrow> wanted \<in> set cs \<and> is_ascii wanted"
  by (induction cs) (auto split: if_splits)

lemma read_parts_sigs:
  "read_parts ps ts sigs = Inr (ts', sigs') \<Longrightarrow>
     x \<in> set sigs' \<Longrightarrow> x \<in> set sigs \<or> (\<exists>p \<in> set ps. partition_at CHR ''='' (py_strip p) = (''h1'', x))"
  by (induction ps ts sigs rule: read_parts.induct) (auto split: prod.splits if_splits option.splits)

lemma read_parts_ts:
  "read_parts ps ts sigs = Inr (Some t, sigs') \<Longrightarrow>
     ts = Some t \<or> (\<exists>p \<in> set ps. \<exists>v. partition_at CHR ''='' (py_strip p) = (''ts'', v) \<and> py_int v = Some t)"
  by (induction ps ts sigs rule: read_parts.induct) (auto split: prod.splits if_splits option.splits)

lemma read_parts_signed:
  assumes "x \<noteq> []" "\<forall>c \<in> set x. c \<noteq> CHR '';'' \<and> \<not> is_space c"
  shows "read_parts (split_on CHR '';'' (''ts='' @ show_int t @ '';h1='' @ x)) None [] = Inr (Some t, [x])"
proof -
  have s: "split_on CHR '';'' ((''ts='' @ show_int t) @ CHR '';'' # ''h1='' @ x) = [''ts='' @ show_int t, ''h1='' @ x]"
  proof (rule split_on_append[THEN trans])
    show "CHR '';'' \<notin> set (''ts='' @ show_int t)" by (simp add: show_int_free)
    have "CHR '';'' \<notin> set (''h1='' @ x)" using assms(2) by auto
    then have "split_on CHR '';'' (''h1='' @ x) = [''h1='' @ x]" by (rule split_on_free)
    then show "(''ts='' @ show_int t) # split_on CHR '';'' (''h1='' @ x) = [''ts='' @ show_int t, ''h1='' @ x]"
      by (simp only:)
  qed
  have "py_strip (''ts='' @ show_int t) = ''ts='' @ show_int t"
    using show_int_no_space(2)[of "last (show_int t)" t]
    by (intro py_strip_no_space) (auto simp: is_space_def)
  moreover have "py_strip (''h1='' @ x) = ''h1='' @ x"
    using assms by (intro py_strip_no_space) (auto simp: is_space_def)
  moreover have "partition_at CHR ''='' (''ts='' @ show_int t) = (''ts'', show_int t)"
    "partition_at CHR ''='' (''h1='' @ x) = (''h1'', x)" by simp_all
  moreover have "''h1'' \<noteq> ''ts''" by simp
  ultimately have "read_parts [''ts='' @ show_int t, ''h1='' @ x] None [] = Inr (Some t, [x])"
    using assms(1) by (simp only: read_parts.simps prod.case read_show_int option.case if_True if_False append_Nil simp_thms)
  moreover have "''ts='' @ show_int t @ '';h1='' @ x = (''ts='' @ show_int t) @ CHR '';'' # ''h1='' @ x" by simp
  ultimately show ?thesis using s by (simp only:)
qed

text \<open>C8. What this API signs it also accepts, for exactly the tolerance and no longer: a digest being
  printable ASCII with no blank and no semicolon, as a hexadecimal one is.\<close>

theorem signed_verifies:
  assumes "hexdigest secret (show_int ts @ '':'' @ body) = x"
    and "x \<noteq> []" "\<forall>c \<in> set x. c \<noteq> CHR '';'' \<and> \<not> is_space c" "is_ascii x"
  shows "verify_signature hexdigest (Some (sign hexdigest body secret ts)) body secret now tolerance =
    (if now \<le> of_int (ts + tolerance) then Inr ()
     else Inl (Signature_refused (Signed_too_long_ago \<lfloor>now - of_int ts\<rfloor>)))"
proof -
  have h: "sign hexdigest body secret ts = ''ts='' @ show_int ts @ '';h1='' @ x"
    using assms(1) by (simp add: sign_def)
  then have "sign hexdigest body secret ts \<noteq> []" by simp
  moreover have "read_parts (split_on CHR '';'' (sign hexdigest body secret ts)) None [] = Inr (Some ts, [x])"
    unfolding h by (rule read_parts_signed[OF assms(2,3)])
  ultimately show ?thesis
    using assms(1,4) by (simp add: verify_signature_def expected_digest)
qed

lemma signed_verifies_witness:
  "verify_signature (\<lambda>k m. ''c0ffee'') (Some (sign (\<lambda>k m. ''c0ffee'') ''{}'' ''key'' 1700000000)) ''{}'' ''key'' 1700000003 5 = Inr ()"
proof -
  have "verify_signature (\<lambda>k m. ''c0ffee'') (Some (sign (\<lambda>k m. ''c0ffee'') ''{}'' ''key'' 1700000000)) ''{}'' ''key'' 1700000003 5 =
    (if (1700000003 :: rat) \<le> of_int (1700000000 + 5) then Inr ()
     else Inl (Signature_refused (Signed_too_long_ago \<lfloor>(1700000003 :: rat) - of_int 1700000000\<rfloor>)))"
    by (rule signed_verifies[where x = "''c0ffee''"]) (simp_all add: is_space_def is_ascii_def)
  then show ?thesis by simp
qed

text \<open>A webhook is let in only with the digest of its own timestamp and body in one of its parts, and
  with a timestamp no further back than the tolerance: without the secret no body passes, and a captured
  one stops passing.\<close>

lemma accepted_is_signed:
  assumes "verify_signature hexdigest header body secret now tolerance = Inr ()"
  shows "\<exists>h ts v. header = Some h \<and> now \<le> of_int (ts + tolerance)
    \<and> (\<exists>p \<in> set (split_on CHR '';'' h). partition_at CHR ''='' (py_strip p) = (''ts'', v) \<and> py_int v = Some ts)
    \<and> (\<exists>p \<in> set (split_on CHR '';'' h). partition_at CHR ''='' (py_strip p) =
          (''h1'', hexdigest secret (show_int ts @ '':'' @ body)))"
proof -
  obtain h where h: "header = Some h" and r: "h \<noteq> []"
    using assms by (auto simp: verify_signature_def split: option.splits if_splits)
  let ?ps = "split_on CHR '';'' h"
  obtain ts sigs where p: "read_parts ?ps None [] = Inr (Some ts, sigs)"
    and t: "now \<le> of_int (ts + tolerance)"
    and m: "any_match (after_text ''h1='' (sign hexdigest body secret ts)) sigs = Inr True"
    using assms h r
    by (auto simp: verify_signature_def bind_res_Inr_iff Let_def split: option.splits if_splits prod.splits)
  have "hexdigest secret (show_int ts @ '':'' @ body) \<in> set sigs"
    using any_match_Inr_True[OF m] by (simp only: expected_digest)
  then show ?thesis
    using h t read_parts_ts[OF p] read_parts_sigs[OF p] by - (rule exI[of _ h], rule exI[of _ ts], auto)
qed

text \<open>A part that is not ASCII is not refused as a signature: comparing it raises a \<open>TypeError\<close>, which no
  caller of \<open>verify_signature\<close> expects.\<close>

lemma non_ascii_signature_raises:
  "verify_signature (\<lambda>k m. ''ab'') (Some (''ts=7;h1='' @ [char_of (233 :: nat)])) [] [] 9 5 = Inl Compare_type_error"
  by code_simp

section \<open>Cancelling is safe to repeat\<close>

lemma cancel_again:
  assumes "paddle_post api (''/subscriptions/'' @ sid @ ''/cancel'') (JObj [(''effective_from'', JStr ''immediately'')]) =
      Inl (Paddle_error (Some s) c)" "s < 500"
    and "paddle_call api ''GET'' (''/subscriptions/'' @ sid) None = Inr (JObj ms)"
    and "dict_get ms ''status'' = JStr ''canceled''"
  shows "cancel_subscription api sid = Inr (JObj ms)"
  using assms by (simp add: cancel_subscription_def j_get_def lift_json_def)

lemma paddle_call_object: "paddle_call api m path body = Inr e \<Longrightarrow> \<exists>ms. e = JObj ms"
  by (auto simp: paddle_call_def Let_def bind_res_Inr_iff split: response.splits if_splits option.splits)
    (auto split: json.splits)

lemma cancel_object: "cancel_subscription api sid = Inr e \<Longrightarrow> \<exists>ms. e = JObj ms"
  by (auto simp: cancel_subscription_def paddle_post_def bind_res_Inr_iff
      split: sum.splits client_error.splits if_splits dest: paddle_call_object)

end
