(* ===== verification/Billing.thy ===== *)
theory Billing
  imports Paddle Entitlements
begin

text \<open>
  \<open>app/accounts/billing.py\<close> and the routes of \<open>app/api/routers/billing.py\<close>: subscriptions from
  Paddle's webhooks, the dunning of a renewal that failed, and the cancelling of a deleted account's
  subscription. The tables are lists of rows; an operation returns the tables it leaves, or why it
  failed, in which case its transaction is rolled back and nothing changed.
\<close>

section \<open>Tables\<close>

record bill_settings =
  st_prices :: "(string \<times> string) list"
  st_grace_days :: int
  st_reminder_days :: int

record app_user =
  au_id :: int
  au_email :: string
  au_deleted_at :: "moment option"

record plan =
  pl_id :: int
  pl_slug :: string
  pl_name :: string
  pl_snapshot_of :: "int option"

datatype dunning_step = Payment_failed | Grace_ending | Downgraded

datatype event_outcome = Applied | Stale | Unmatched | Ignored

record subscription =
  su_id :: int
  su_user :: int
  su_plan :: int
  su_status :: subscription_status
  su_period_end :: "moment option"
  su_cancel_at :: "moment option"
  su_grandfathered :: "int option"
  su_paddle_id :: "string option"
  su_customer :: "string option"
  su_event_at :: "moment option"
  su_past_due_since :: "moment option"
  su_grace_ends_at :: "moment option"
  su_notified :: "dunning_step option"
  su_created_at :: moment

record paddle_event =
  pe_id :: string
  pe_type :: string
  pe_occurred_at :: moment
  pe_entity :: "string option"
  pe_outcome :: event_outcome

record billing_tables =
  bt_users :: "app_user list"
  bt_plans :: "plan list"
  bt_subs :: "subscription list"
  bt_events :: "paddle_event list"
  bt_next_id :: int

text \<open>An email, by what it says.\<close>

datatype bill_mail =
    Payment_failed_mail string int string moment
  | Grace_ending_mail string int string moment
  | Downgraded_mail string int string
  | Recovered_mail string int string

record handled =
  hd_outcome :: event_outcome
  hd_duplicate :: bool
  hd_users :: "int set"
  hd_mail :: "bill_mail list"

datatype billing_problem =
    No_subscription_named
  | Unknown_status json
  | No_plan_sold_at "json list"
  | No_such_plan string
  | Already_live int

datatype failure = Billing_error billing_problem | Python_error json_error | Database_error

definition lift_py :: "json_error + 'a \<Rightarrow> failure + 'a" where
  "lift_py r = (case r of Inl e \<Rightarrow> Inl (Python_error e) | Inr x \<Rightarrow> Inr x)"

text \<open>A JSON value as the parameter of a query, or a column's value: only a text is one.\<close>

definition text_param :: "json \<Rightarrow> failure + string" where
  "text_param j = (case as_text j of None \<Rightarrow> Inl Database_error | Some s \<Rightarrow> Inr s)"

definition find_user :: "billing_tables \<Rightarrow> int \<Rightarrow> app_user option" where
  "find_user t u = find (\<lambda>x. au_id x = u) (bt_users t)"

text \<open>\<open>session.get(AppUser, n)\<close>: a key no \<open>bigint\<close> holds is an error of the database.\<close>

definition get_user :: "billing_tables \<Rightarrow> int \<Rightarrow> failure + app_user option" where
  "get_user t n = (if - (2 ^ 63) \<le> n \<and> n < 2 ^ 63 then Inr (find_user t n) else Inl Database_error)"

definition find_plan :: "billing_tables \<Rightarrow> int \<Rightarrow> plan option" where
  "find_plan t p = find (\<lambda>x. pl_id x = p) (bt_plans t)"

section \<open>Statuses and events\<close>

fun status_text :: "subscription_status \<Rightarrow> string" where
  "status_text Trialing = ''trialing''"
| "status_text Active = ''active''"
| "status_text Past_due = ''past_due''"
| "status_text Paused = ''paused''"
| "status_text Unpaid = ''unpaid''"
| "status_text Canceled = ''canceled''"
| "status_text Incomplete = ''incomplete''"
| "status_text Incomplete_expired = ''incomplete_expired''"

definition all_statuses :: "subscription_status list" where
  "all_statuses = [Trialing, Active, Past_due, Paused, Unpaid, Canceled, Incomplete, Incomplete_expired]"

text \<open>\<open>SubscriptionStatus(str(value))\<close>: the text of a value of another shape names none.\<close>

definition status_of :: "json \<Rightarrow> subscription_status option" where
  "status_of j = Option.bind (as_text j) (\<lambda>s. find (\<lambda>x. status_text x = s) all_statuses)"

definition billable_statuses :: "subscription_status list" where
  "billable_statuses = live_statuses @ [Paused]"

definition paid_statuses :: "subscription_status list" where
  "paid_statuses = [Active, Trialing]"

definition subscription_events :: "string list" where
  "subscription_events =
     [''subscription.created'', ''subscription.updated'', ''subscription.activated'',
      ''subscription.trialing'', ''subscription.past_due'', ''subscription.paused'',
      ''subscription.resumed'', ''subscription.canceled'', ''subscription.imported'']"

definition payment_failed_event :: string where "payment_failed_event = ''transaction.payment_failed''"

definition renewal_origin :: string where "renewal_origin = ''subscription_recurring''"

abbreviation is_live_row :: "subscription \<Rightarrow> bool" where
  "is_live_row s \<equiv> su_status s \<in> set live_statuses"

definition plan_for_price :: "bill_settings \<Rightarrow> json \<Rightarrow> string option" where
  "plan_for_price st price =
     Option.bind (as_text price) (\<lambda>p. map_option fst (find (\<lambda>(slug, q). q = p) (st_prices st)))"

section \<open>Dunning\<close>

definition mailable :: "app_user option \<Rightarrow> bool" where
  "mailable u = (case u of None \<Rightarrow> False | Some x \<Rightarrow> au_deleted_at x = None)"

definition start_dunning ::
  "bill_settings \<Rightarrow> subscription \<Rightarrow> app_user option \<Rightarrow> plan \<Rightarrow> moment \<Rightarrow> subscription \<times> bill_mail list" where
  "start_dunning st row usr p m =
     (let ends = m + st_grace_days st * day_us;
          row' = row\<lparr>su_past_due_since := Some m, su_grace_ends_at := Some ends\<rparr>
      in (case usr of
            None \<Rightarrow> (row', [])
          | Some u \<Rightarrow>
              if \<not> mailable usr then (row', [])
              else (row'\<lparr>su_notified := Some Payment_failed\<rparr>,
                    [Payment_failed_mail (au_email u) (au_id u) (pl_name p) ends])))"

definition end_dunning :: "subscription \<Rightarrow> subscription" where
  "end_dunning row = row\<lparr>su_past_due_since := None, su_grace_ends_at := None, su_notified := None\<rparr>"

section \<open>Subscription events\<close>

definition locked :: "billing_tables \<Rightarrow> string \<Rightarrow> subscription option" where
  "locked t pid = find (\<lambda>s. su_paddle_id s = Some pid) (bt_subs t)"

text \<open>\<open>int(str(value))\<close>, \<open>None\<close> for \<open>ValueError\<close>.\<close>

definition int_of_text :: "json \<Rightarrow> int option" where
  "int_of_text j = (case j of JStr s \<Rightarrow> py_int s | JInt n \<Rightarrow> Some n | _ \<Rightarrow> None)"

definition paid_before :: "billing_tables \<Rightarrow> string \<Rightarrow> int option" where
  "paid_before t customer =
     map_option su_user (min_by (\<lambda>s. - su_id s) (filter (\<lambda>s. su_customer s = Some customer) (bt_subs t)))"

definition owner_of :: "billing_tables \<Rightarrow> (string \<times> json) list \<Rightarrow> failure + int option" where
  "owner_of t data =
     bind_res (lift_py (j_get (or_empty (dict_get data ''custom_data'')) ''user_id'')) (\<lambda>u.
       bind_res (case int_of_text u of None \<Rightarrow> Inr None | Some n \<Rightarrow> get_user t n) (\<lambda>named.
         case named of
           Some x \<Rightarrow> Inr (Some (au_id x))
         | None \<Rightarrow>
             (let customer = dict_get data ''customer_id'' in
              if \<not> truthy customer then Inr None
              else map_res (paid_before t) (text_param customer))))"

definition price_of_item :: "json \<Rightarrow> json_error + json" where
  "price_of_item item = bind_res (j_get item ''price'') (\<lambda>p. j_get (or_empty p) ''id'')"

definition price_ids :: "(string \<times> json) list \<Rightarrow> json_error + json list" where
  "price_ids data =
     bind_res (items_of (dict_get data ''items''))
       (\<lambda>items. map_res (filter truthy) (mapM_res price_of_item items))"

text \<open>What a subscription event says the subscription's status and plan are.\<close>

definition read_status :: "(string \<times> json) list \<Rightarrow> failure + subscription_status" where
  "read_status data =
     (case status_of (dict_get data ''status'') of
        None \<Rightarrow> Inl (Billing_error (Unknown_status (dict_get data ''status'')))
      | Some s \<Rightarrow> Inr s)"

definition read_plan :: "bill_settings \<Rightarrow> billing_tables \<Rightarrow> (string \<times> json) list \<Rightarrow> failure + plan" where
  "read_plan st t data =
     bind_res (lift_py (price_ids data)) (\<lambda>prices.
       case filter (\<lambda>slug. slug \<noteq> []) (List.map_filter (plan_for_price st) prices) of
         [] \<Rightarrow> Inl (Billing_error (No_plan_sold_at prices))
       | slug # _ \<Rightarrow>
           (case find (\<lambda>p. pl_slug p = slug) (bt_plans t) of
              None \<Rightarrow> Inl (Billing_error (No_such_plan slug))
            | Some p \<Rightarrow> Inr p))"

text \<open>The row an event is about, new or not: \<open>None\<close> where no account can be found for a new one.
  A new row's status and plan are those it is about to be given.\<close>

definition row_for ::
  "billing_tables \<Rightarrow> string \<Rightarrow> (string \<times> json) list \<Rightarrow> subscription_status \<Rightarrow> plan \<Rightarrow> moment
    \<Rightarrow> failure + (bool \<times> subscription) option" where
  "row_for t pid data status p now =
     (case locked t pid of
        Some row \<Rightarrow> Inr (Some (False, row))
      | None \<Rightarrow>
          map_res (map_option (\<lambda>u.
            (True, \<lparr>su_id = bt_next_id t, su_user = u, su_plan = pl_id p, su_status = status,
              su_period_end = None, su_cancel_at = None, su_grandfathered = None,
              su_paddle_id = Some pid, su_customer = None, su_event_at = None,
              su_past_due_since = None, su_grace_ends_at = None, su_notified = None,
              su_created_at = now\<rparr>))) (owner_of t data))"

definition other_live :: "billing_tables \<Rightarrow> int \<Rightarrow> string \<Rightarrow> subscription option" where
  "other_live t u pid =
     find (\<lambda>s. su_user s = u \<and> is_live_row s \<and> su_paddle_id s \<noteq> Some pid) (bt_subs t)"

definition end_snapshot :: "billing_tables \<Rightarrow> plan \<Rightarrow> subscription \<Rightarrow> subscription" where
  "end_snapshot t p row =
     (case Option.bind (Option.bind (su_grandfathered row) (find_plan t)) pl_snapshot_of of
        None \<Rightarrow> row
      | Some source \<Rightarrow> if source \<noteq> pl_id p then row\<lparr>su_grandfathered := None\<rparr> else row)"

definition read_period_end :: "(string \<Rightarrow> iso_time) \<Rightarrow> (string \<times> json) list \<Rightarrow> json_error + moment option" where
  "read_period_end from_iso data =
     bind_res (j_get (or_empty (dict_get data ''current_billing_period'')) ''ends_at'') (parse_time from_iso)"

definition read_cancel_at :: "(string \<Rightarrow> iso_time) \<Rightarrow> (string \<times> json) list \<Rightarrow> json_error + moment option" where
  "read_cancel_at from_iso data =
     (let scheduled = or_empty (dict_get data ''scheduled_change'') in
      bind_res (j_get scheduled ''action'') (\<lambda>action.
        if action = JStr ''cancel''
        then bind_res (j_get scheduled ''effective_at'') (parse_time from_iso)
        else Inr None))"

definition read_started :: "(string \<Rightarrow> iso_time) \<Rightarrow> (string \<times> json) list \<Rightarrow> json_error + moment option" where
  "read_started from_iso data =
     bind_res (parse_time from_iso (dict_get data ''started_at'')) (\<lambda>a.
       case a of Some m \<Rightarrow> Inr (Some m) | None \<Rightarrow> parse_time from_iso (dict_get data ''created_at''))"

definition read_customer :: "(string \<times> json) list \<Rightarrow> subscription \<Rightarrow> failure + string option" where
  "read_customer data row =
     (let c = dict_get data ''customer_id'' in
      if truthy c then map_res Some (text_param c) else Inr (su_customer row))"

text \<open>The row with the subscription the event carries written over it.\<close>

definition mirror ::
  "(string \<Rightarrow> iso_time) \<Rightarrow> billing_tables \<Rightarrow> notification \<Rightarrow> subscription_status \<Rightarrow> plan \<Rightarrow> bool \<Rightarrow> subscription
    \<Rightarrow> failure + subscription" where
  "mirror from_iso t ev status p new row =
     bind_res (read_customer (nt_data ev) row) (\<lambda>customer.
     bind_res (lift_py (read_period_end from_iso (nt_data ev))) (\<lambda>ends.
     bind_res (lift_py (read_cancel_at from_iso (nt_data ev))) (\<lambda>cancel.
     bind_res (if new then lift_py (read_started from_iso (nt_data ev)) else Inr None) (\<lambda>started.
       let kept = (if su_grandfathered row \<noteq> None \<and> su_plan row \<noteq> pl_id p then end_snapshot t p row else row)
       in Inr (kept\<lparr>su_plan := pl_id p, su_status := status, su_customer := customer,
            su_period_end := ends, su_cancel_at := cancel, su_event_at := Some (nt_occurred_at ev),
            su_created_at := (case started of None \<Rightarrow> su_created_at kept | Some m \<Rightarrow> m)\<rparr>)))))"

text \<open>What an applied event does to the dunning; \<open>previous\<close> is the status before it.\<close>

definition dunning_after ::
  "bill_settings \<Rightarrow> app_user option \<Rightarrow> plan \<Rightarrow> moment \<Rightarrow> subscription_status option \<Rightarrow> subscription
    \<Rightarrow> subscription \<times> bill_mail list" where
  "dunning_after st usr p m previous row =
     (if su_status row = Past_due then
        (if su_past_due_since row = None then start_dunning st row usr p m else (row, []))
      else if su_status row \<in> set paid_statuses then
        (if su_past_due_since row \<noteq> None \<and> previous = Some Past_due then
           (end_dunning row,
            if su_notified row \<noteq> None then
              (case usr of
                 None \<Rightarrow> []
               | Some u \<Rightarrow> if mailable usr then [Recovered_mail (au_email u) (au_id u) (pl_name p)] else [])
            else [])
         else (row, []))
      else (end_dunning row, []))"

definition put_row :: "billing_tables \<Rightarrow> bool \<Rightarrow> subscription \<Rightarrow> billing_tables" where
  "put_row t new row =
     (if new then t\<lparr>bt_subs := bt_subs t @ [row], bt_next_id := bt_next_id t + 1\<rparr>
      else t\<lparr>bt_subs := map (\<lambda>s. if su_id s = su_id row then row else s) (bt_subs t)\<rparr>)"

abbreviation nothing_done :: "event_outcome \<Rightarrow> handled" where
  "nothing_done out \<equiv> \<lparr>hd_outcome = out, hd_duplicate = False, hd_users = {}, hd_mail = []\<rparr>"

definition is_stale :: "notification \<Rightarrow> subscription \<Rightarrow> bool" where
  "is_stale ev row = (case su_event_at row of None \<Rightarrow> False | Some m \<Rightarrow> nt_occurred_at ev < m)"

definition apply_row ::
  "bill_settings \<Rightarrow> (string \<Rightarrow> iso_time) \<Rightarrow> billing_tables \<Rightarrow> notification \<Rightarrow> string \<Rightarrow> subscription_status \<Rightarrow> plan
    \<Rightarrow> bool \<times> subscription \<Rightarrow> failure + billing_tables \<times> handled" where
  "apply_row st from_iso t ev pid status p r =
     (case r of (new, row) \<Rightarrow>
        (case (if status \<in> set live_statuses then other_live t (su_user row) pid else None) of
           Some other \<Rightarrow> Inl (Billing_error (Already_live (su_id other)))
         | None \<Rightarrow>
             bind_res (mirror from_iso t ev status p new row) (\<lambda>row'.
               case dunning_after st (find_user t (su_user row)) p (nt_occurred_at ev)
                      (if new then None else Some (su_status row)) row' of
                 (row'', mails) \<Rightarrow>
                   Inr (put_row t new row'',
                        \<lparr>hd_outcome = Applied, hd_duplicate = False, hd_users = {su_user row},
                          hd_mail = mails\<rparr>))))"

definition apply_subscription ::
  "bill_settings \<Rightarrow> (string \<Rightarrow> iso_time) \<Rightarrow> moment \<Rightarrow> billing_tables \<Rightarrow> notification
    \<Rightarrow> failure + billing_tables \<times> handled" where
  "apply_subscription st from_iso now t ev =
     (case entity_id ev of
        None \<Rightarrow> Inl (Billing_error No_subscription_named)
      | Some pid \<Rightarrow>
          if (case locked t pid of None \<Rightarrow> False | Some row \<Rightarrow> is_stale ev row)
          then Inr (t, nothing_done Stale)
          else
            bind_res (read_status (nt_data ev)) (\<lambda>status.
            bind_res (read_plan st t (nt_data ev)) (\<lambda>p.
            bind_res (row_for t pid (nt_data ev) status p now) (\<lambda>found.
              case found of
                None \<Rightarrow> Inr (t, nothing_done Unmatched)
              | Some r \<Rightarrow> apply_row st from_iso t ev pid status p r))))"

section \<open>Failed payments\<close>

definition apply_payment_failed ::
  "bill_settings \<Rightarrow> billing_tables \<Rightarrow> notification \<Rightarrow> failure + billing_tables \<times> handled" where
  "apply_payment_failed st t ev =
     (let pid = dict_get (nt_data ev) ''subscription_id'' in
      if \<not> truthy pid \<or> dict_get (nt_data ev) ''origin'' \<noteq> JStr renewal_origin
      then Inr (t, nothing_done Ignored)
      else bind_res (text_param pid) (\<lambda>sid.
        case locked t sid of
          None \<Rightarrow> Inr (t, nothing_done Unmatched)
        | Some row \<Rightarrow>
            if is_stale ev row then Inr (t, nothing_done Stale)
            else
              (let applied = (\<lambda>mails. \<lparr>hd_outcome = Applied, hd_duplicate = False,
                     hd_users = {su_user row}, hd_mail = mails\<rparr>)
               in if su_past_due_since row = None \<and> is_live_row row then
                    (case find_plan t (su_plan row) of
                       None \<Rightarrow> Inl Database_error
                     | Some p \<Rightarrow>
                         (case start_dunning st row (find_user t (su_user row)) p (nt_occurred_at ev) of
                            (row', mails) \<Rightarrow> Inr (put_row t False row', applied mails)))
                  else Inr (t, applied []))))"

section \<open>An event\<close>

definition claim_event :: "billing_tables \<Rightarrow> notification \<Rightarrow> billing_tables option" where
  "claim_event t ev =
     (if nt_event_id ev \<in> pe_id ` set (bt_events t) then None
      else Some (t\<lparr>bt_events := bt_events t @
             [\<lparr>pe_id = nt_event_id ev, pe_type = nt_event_type ev, pe_occurred_at = nt_occurred_at ev,
               pe_entity = entity_id ev, pe_outcome = Ignored\<rparr>]\<rparr>))"

definition set_outcome :: "string \<Rightarrow> event_outcome \<Rightarrow> billing_tables \<Rightarrow> billing_tables" where
  "set_outcome eid out t =
     t\<lparr>bt_events := map (\<lambda>e. if pe_id e = eid then e\<lparr>pe_outcome := out\<rparr> else e) (bt_events t)\<rparr>"

definition handle_event ::
  "bill_settings \<Rightarrow> (string \<Rightarrow> iso_time) \<Rightarrow> moment \<Rightarrow> billing_tables \<Rightarrow> notification
    \<Rightarrow> failure + billing_tables \<times> handled" where
  "handle_event st from_iso now t ev =
     (case claim_event t ev of
        None \<Rightarrow> Inr (t, \<lparr>hd_outcome = Ignored, hd_duplicate = True, hd_users = {}, hd_mail = []\<rparr>)
      | Some t1 \<Rightarrow>
          map_res (\<lambda>(t2, h). (set_outcome (nt_event_id ev) (hd_outcome h) t2, h))
            (if nt_event_type ev \<in> set subscription_events then apply_subscription st from_iso now t1 ev
             else if nt_event_type ev = payment_failed_event then apply_payment_failed st t1 ev
             else Inr (t1, nothing_done Ignored)))"

section \<open>The dunning job\<close>

definition in_dunning :: "subscription \<Rightarrow> bool" where
  "in_dunning s \<longleftrightarrow> su_grace_ends_at s \<noteq> None \<and> is_live_row s"

definition remind_due :: "bill_settings \<Rightarrow> moment \<Rightarrow> subscription \<Rightarrow> bool" where
  "remind_due st now s \<longleftrightarrow>
     in_dunning s \<and> the (su_grace_ends_at s) > now
     \<and> the (su_grace_ends_at s) \<le> now + st_reminder_days st * day_us
     \<and> (su_notified s = None \<or> su_notified s = Some Payment_failed)"

definition downgrade_due :: "moment \<Rightarrow> subscription \<Rightarrow> bool" where
  "downgrade_due now s \<longleftrightarrow>
     in_dunning s \<and> the (su_grace_ends_at s) \<le> now \<and> su_notified s \<noteq> Some Downgraded"

definition claim_step :: "(subscription \<Rightarrow> bool) \<Rightarrow> dunning_step \<Rightarrow> subscription list \<Rightarrow> subscription list \<times> subscription list" where
  "claim_step due s subs =
     (map (\<lambda>r. if due r then r\<lparr>su_notified := Some s\<rparr> else r) subs, filter due subs)"

definition recipients :: "billing_tables \<Rightarrow> subscription list \<Rightarrow> (app_user \<times> plan \<times> moment) list" where
  "recipients t rows =
     List.map_filter (\<lambda>r.
       case (find_user t (su_user r), find_plan t (su_plan r), su_grace_ends_at r) of
         (Some u, Some p, Some e) \<Rightarrow> if mailable (Some u) then Some (u, p, e) else None
       | _ \<Rightarrow> None) rows"

record dunning_run =
  dr_reminded :: nat
  dr_downgraded :: nat
  dr_mail :: "bill_mail list"

definition run_dunning :: "bill_settings \<Rightarrow> moment \<Rightarrow> billing_tables \<Rightarrow> billing_tables \<times> dunning_run" where
  "run_dunning st now t =
     (case claim_step (remind_due st now) Grace_ending (bt_subs t) of
        (subs1, reminded) \<Rightarrow>
          (case claim_step (downgrade_due now) Downgraded subs1 of
             (subs2, downgraded) \<Rightarrow>
               (let t' = t\<lparr>bt_subs := subs2\<rparr> in
                (t', \<lparr>dr_reminded = length reminded, dr_downgraded = length downgraded,
                  dr_mail =
                    map (\<lambda>(u, p, e). Grace_ending_mail (au_email u) (au_id u) (pl_name p) e) (recipients t' reminded)
                    @ map (\<lambda>(u, p, e). Downgraded_mail (au_email u) (au_id u) (pl_name p)) (recipients t' downgraded)\<rparr>))))"

section \<open>Deleted accounts\<close>

record cancelled =
  ca_plans :: "string list"
  ca_failed :: nat

definition is_deleted :: "billing_tables \<Rightarrow> int \<Rightarrow> bool" where
  "is_deleted t u = (case find_user t u of None \<Rightarrow> False | Some x \<Rightarrow> au_deleted_at x \<noteq> None)"

definition billable :: "subscription \<Rightarrow> bool" where
  "billable s \<longleftrightarrow> su_paddle_id s \<noteq> None \<and> su_status s \<in> set billable_statuses"

text \<open>The rows to cancel, in order; \<open>held\<close> are those another transaction has locked.\<close>

definition to_cancel :: "billing_tables \<Rightarrow> (int \<Rightarrow> bool) \<Rightarrow> int option \<Rightarrow> subscription list" where
  "to_cancel t held only =
     sort_key su_id (filter (\<lambda>s. is_deleted t (su_user s) \<and> billable s \<and> \<not> held (su_id s)
       \<and> (case only of None \<Rightarrow> True | Some u \<Rightarrow> su_user s = u)) (bt_subs t))"

text \<open>\<open>str(entity.get("status") or CANCELED)\<close>; one the table's CHECK refuses fails the flush.\<close>

definition answered_status :: "json \<Rightarrow> failure + subscription_status" where
  "answered_status entity =
     bind_res (lift_py (j_get entity ''status'')) (\<lambda>j.
       if \<not> truthy j then Inr Canceled
       else (case status_of j of None \<Rightarrow> Inl Database_error | Some s \<Rightarrow> Inr s))"

fun cancel_rows :: "paddle_api \<Rightarrow> billing_tables \<Rightarrow> subscription list \<Rightarrow> cancelled \<Rightarrow> failure + billing_tables \<times> cancelled" where
  "cancel_rows api t [] c = Inr (t, c)"
| "cancel_rows api t (row # rows) c =
     (case cancel_subscription api (the (su_paddle_id row)) of
        Inl (Paddle_error status err_code) \<Rightarrow> cancel_rows api t rows (c\<lparr>ca_failed := ca_failed c + 1\<rparr>)
      | Inl (Client_json_error e) \<Rightarrow> Inl (Python_error e)
      | Inr entity \<Rightarrow>
          bind_res (answered_status entity) (\<lambda>status.
            cancel_rows api (put_row t False (end_dunning (row\<lparr>su_status := status, su_cancel_at := None\<rparr>))) rows
              (c\<lparr>ca_plans := ca_plans c @ [case find_plan t (su_plan row) of None \<Rightarrow> [] | Some p \<Rightarrow> pl_name p]\<rparr>)))"

text \<open>The unique index of the table: one live subscription per user.\<close>

definition one_live :: "subscription list \<Rightarrow> bool" where
  "one_live subs = distinct (map su_user (filter is_live_row subs))"

definition cancel_for_deleted ::
  "paddle_api \<Rightarrow> (int \<Rightarrow> bool) \<Rightarrow> int option \<Rightarrow> billing_tables \<Rightarrow> failure + billing_tables \<times> cancelled" where
  "cancel_for_deleted api held only t =
     bind_res (cancel_rows api t (to_cancel t held only) \<lparr>ca_plans = [], ca_failed = 0\<rparr>) (\<lambda>(t', c).
       if one_live (bt_subs t') then Inr (t', c) else Inl Database_error)"

definition still_billing :: "billing_tables \<Rightarrow> int \<Rightarrow> bool" where
  "still_billing t u = list_ex (\<lambda>s. su_user s = u \<and> billable s) (bt_subs t)"

section \<open>What an account page shows\<close>

definition latest_row :: "subscription list \<Rightarrow> subscription option" where
  "latest_row rows = min_by (\<lambda>s. (if is_live_row s then 0 else 1 :: int, - su_id s)) rows"

definition subscription_of :: "billing_tables \<Rightarrow> int \<Rightarrow> subscription option" where
  "subscription_of t u = latest_row (filter (\<lambda>s. su_user s = u) (bt_subs t))"

definition customer_of :: "billing_tables \<Rightarrow> int \<Rightarrow> subscription option" where
  "customer_of t u = latest_row (filter (\<lambda>s. su_user s = u \<and> su_customer s \<noteq> None) (bt_subs t))"

section \<open>What the tables always satisfy\<close>

text \<open>A row is in dunning, with a start and an end, only while its status grants a plan.\<close>

definition dunning_wf :: "subscription \<Rightarrow> bool" where
  "dunning_wf s \<longleftrightarrow>
     (su_past_due_since s = None \<longleftrightarrow> su_grace_ends_at s = None)
     \<and> (su_past_due_since s = None \<longrightarrow> su_notified s = None)
     \<and> (su_past_due_since s \<noteq> None \<longrightarrow> is_live_row s)"

definition unique_by :: "('a \<Rightarrow> 'b option) \<Rightarrow> 'a set \<Rightarrow> bool" where
  "unique_by f A \<longleftrightarrow> (\<forall>x \<in> A. \<forall>y \<in> A. f x \<noteq> None \<and> f x = f y \<longrightarrow> x = y)"

definition live_user :: "subscription \<Rightarrow> int option" where
  "live_user s = (if is_live_row s then Some (su_user s) else None)"

definition billing_ok :: "billing_tables \<Rightarrow> bool" where
  "billing_ok t \<longleftrightarrow>
     distinct (map su_id (bt_subs t)) \<and> (\<forall>s \<in> set (bt_subs t). su_id s < bt_next_id t)
     \<and> unique_by su_paddle_id (set (bt_subs t)) \<and> unique_by live_user (set (bt_subs t))
     \<and> (\<forall>s \<in> set (bt_subs t). dunning_wf s)
     \<and> distinct (map pe_id (bt_events t))"

lemma billing_okD:
  assumes "billing_ok t"
  shows "distinct (map su_id (bt_subs t))" "s \<in> set (bt_subs t) \<Longrightarrow> su_id s < bt_next_id t"
    "unique_by su_paddle_id (set (bt_subs t))" "unique_by live_user (set (bt_subs t))"
    "s \<in> set (bt_subs t) \<Longrightarrow> dunning_wf s" "distinct (map pe_id (bt_events t))"
  using assms by (auto simp: billing_ok_def)

lemma unique_by_insert:
  "unique_by f A \<Longrightarrow> (\<And>y. y \<in> A \<Longrightarrow> f x \<noteq> None \<Longrightarrow> f y \<noteq> f x) \<Longrightarrow> unique_by f (insert x A)"
  unfolding unique_by_def by (metis insert_iff)

lemma unique_by_mono: "unique_by f A \<Longrightarrow> B \<subseteq> A \<Longrightarrow> unique_by f B"
  by (auto simp: unique_by_def)

lemma one_live_unique:
  assumes "distinct (map su_id subs)" shows "one_live subs \<longleftrightarrow> unique_by live_user (set subs)"
proof -
  have "distinct subs" using assms by (simp add: distinct_map)
  then show ?thesis
    by (auto simp: one_live_def distinct_map inj_on_def unique_by_def live_user_def)
qed

lemma put_row_old:
  assumes "distinct (map su_id (bt_subs t))" "\<exists>s \<in> set (bt_subs t). su_id s = su_id r"
  shows "set (bt_subs (put_row t False r)) = insert r {s \<in> set (bt_subs t). su_id s \<noteq> su_id r}"
  using assms by (auto simp: put_row_def)

lemma put_row_new: "set (bt_subs (put_row t True r)) = insert r (set (bt_subs t))"
  by (auto simp: put_row_def)

lemma put_row_other [simp]:
  "bt_events (put_row t new r) = bt_events t" "bt_users (put_row t new r) = bt_users t"
  "bt_plans (put_row t new r) = bt_plans t"
  "find_user (put_row t new r) = find_user t" "find_plan (put_row t new r) = find_plan t"
  by (auto simp: put_row_def find_user_def find_plan_def)

text \<open>A row that may be written: a new one, or a new value of one that is there.\<close>

definition may_put :: "billing_tables \<Rightarrow> bool \<Rightarrow> subscription \<Rightarrow> bool" where
  "may_put t new r \<longleftrightarrow>
     dunning_wf r
     \<and> (if new then su_id r = bt_next_id t \<and> (\<forall>s \<in> set (bt_subs t). su_paddle_id r \<noteq> None \<longrightarrow> su_paddle_id s \<noteq> su_paddle_id r)
        else (\<exists>s \<in> set (bt_subs t). su_id s = su_id r \<and> su_paddle_id s = su_paddle_id r))
     \<and> (is_live_row r \<longrightarrow> (\<forall>s \<in> set (bt_subs t). su_id s \<noteq> su_id r \<and> is_live_row s \<longrightarrow> su_user s \<noteq> su_user r))"

lemma put_row_ok:
  assumes "billing_ok t" "may_put t new r" shows "billing_ok (put_row t new r)"
proof (cases new)
  case True
  then have r: "su_id r = bt_next_id t" "dunning_wf r"
    "\<And>s. s \<in> set (bt_subs t) \<Longrightarrow> su_paddle_id r \<noteq> None \<Longrightarrow> su_paddle_id s \<noteq> su_paddle_id r"
    "\<And>s. s \<in> set (bt_subs t) \<Longrightarrow> is_live_row r \<Longrightarrow> is_live_row s \<Longrightarrow> su_id s \<noteq> su_id r \<Longrightarrow> su_user s \<noteq> su_user r"
    using assms(2) by (auto simp: may_put_def)
  have lt: "su_id s \<noteq> su_id r" if "s \<in> set (bt_subs t)" for s
    using billing_okD(2)[OF assms(1) that] r(1) by simp
  have "distinct (map su_id (bt_subs t @ [r]))"
    using billing_okD(1)[OF assms(1)] lt[symmetric] by auto
  moreover have "unique_by su_paddle_id (set (bt_subs t @ [r]))" "unique_by live_user (set (bt_subs t @ [r]))"
    using billing_okD(3,4)[OF assms(1)] r(3,4) lt
    by (auto simp: live_user_def intro!: unique_by_insert split: if_splits)
  moreover have "\<forall>s \<in> set (bt_subs t @ [r]). su_id s < bt_next_id t + 1 \<and> dunning_wf s"
    using billing_okD(2,5)[OF assms(1)] r(1,2) by force
  ultimately show ?thesis
    using True billing_okD(6)[OF assms(1)] by (simp add: billing_ok_def put_row_def)
next
  case False
  then obtain s0 where s0: "s0 \<in> set (bt_subs t)" "su_id s0 = su_id r" "su_paddle_id s0 = su_paddle_id r"
    and r: "dunning_wf r"
    "\<And>s. s \<in> set (bt_subs t) \<Longrightarrow> is_live_row r \<Longrightarrow> is_live_row s \<Longrightarrow> su_id s \<noteq> su_id r \<Longrightarrow> su_user s \<noteq> su_user r"
    using assms(2) by (auto simp: may_put_def)
  let ?A = "{s \<in> set (bt_subs t). su_id s \<noteq> su_id r}"
  have S: "set (bt_subs (put_row t False r)) = insert r ?A"
    using put_row_old[OF billing_okD(1)[OF assms(1)]] s0 by blast
  have "map su_id (bt_subs (put_row t False r)) = map su_id (bt_subs t)"
    by (auto simp: put_row_def)
  moreover have "unique_by su_paddle_id (insert r ?A)"
  proof (rule unique_by_insert)
    show "unique_by su_paddle_id ?A" by (rule unique_by_mono[OF billing_okD(3)[OF assms(1)]]) auto
    show "su_paddle_id y \<noteq> su_paddle_id r" if "y \<in> ?A" "su_paddle_id r \<noteq> None" for y
      using that s0 billing_okD(3)[OF assms(1)] unfolding unique_by_def by (metis (mono_tags, lifting) mem_Collect_eq)
  qed
  moreover have "unique_by live_user (insert r ?A)"
  proof (rule unique_by_insert)
    show "unique_by live_user ?A" by (rule unique_by_mono[OF billing_okD(4)[OF assms(1)]]) auto
    show "live_user y \<noteq> live_user r" if "y \<in> ?A" "live_user r \<noteq> None" for y
      using that r(2)[of y] by (auto simp: live_user_def split: if_splits)
  qed
  moreover have "\<forall>s \<in> insert r ?A. su_id s < bt_next_id t \<and> dunning_wf s"
    using billing_okD(2,5)[OF assms(1)] s0 r(1) by force
  moreover have "bt_next_id (put_row t False r) = bt_next_id t" by (simp add: put_row_def)
  ultimately show ?thesis
    using False billing_okD(1,6)[OF assms(1)] by (simp add: billing_ok_def S)
qed

section \<open>Every operation keeps it\<close>

lemma find_SomeD: "find P xs = Some x \<Longrightarrow> x \<in> set xs \<and> P x"
  by (auto simp: find_Some_iff)

lemma end_snapshot_fields [simp]:
  "su_id (end_snapshot t p r) = su_id r" "su_user (end_snapshot t p r) = su_user r"
  "su_paddle_id (end_snapshot t p r) = su_paddle_id r"
  "su_past_due_since (end_snapshot t p r) = su_past_due_since r"
  "su_grace_ends_at (end_snapshot t p r) = su_grace_ends_at r"
  "su_notified (end_snapshot t p r) = su_notified r"
  by (simp_all add: end_snapshot_def split: option.split)

lemma lift_py_Inr_iff: "lift_py m = Inr x \<longleftrightarrow> m = Inr x"
  by (cases m) (simp_all add: lift_py_def)

lemma mirror_cases:
  assumes "mirror from_iso t ev status p new row = Inr r"
  obtains kept customer ends cancel created where
    "kept = row \<or> kept = end_snapshot t p row"
    "read_period_end from_iso (nt_data ev) = Inr ends" "read_cancel_at from_iso (nt_data ev) = Inr cancel"
    "r = kept\<lparr>su_plan := pl_id p, su_status := status, su_customer := customer, su_period_end := ends,
       su_cancel_at := cancel, su_event_at := Some (nt_occurred_at ev), su_created_at := created\<rparr>"
proof -
  let ?kept = "if su_grandfathered row \<noteq> None \<and> su_plan row \<noteq> pl_id p then end_snapshot t p row else row"
  obtain x e c m where "read_period_end from_iso (nt_data ev) = Inr e"
    "read_cancel_at from_iso (nt_data ev) = Inr c"
    "r = ?kept\<lparr>su_plan := pl_id p, su_status := status, su_customer := x, su_period_end := e,
       su_cancel_at := c, su_event_at := Some (nt_occurred_at ev),
       su_created_at := (case m of None \<Rightarrow> su_created_at ?kept | Some d \<Rightarrow> d)\<rparr>"
    using assms unfolding mirror_def Let_def bind_res_Inr_iff lift_py_Inr_iff sum.inject by metis
  then show thesis by (intro that[of ?kept e c _ x]) simp_all
qed

lemma mirror_fields:
  assumes "mirror from_iso t ev status p new row = Inr r"
  shows "su_id r = su_id row" "su_user r = su_user row" "su_paddle_id r = su_paddle_id row"
    "su_past_due_since r = su_past_due_since row" "su_grace_ends_at r = su_grace_ends_at row"
    "su_notified r = su_notified row" "su_status r = status" "su_plan r = pl_id p"
    "su_event_at r = Some (nt_occurred_at ev)"
    "read_period_end from_iso (nt_data ev) = Inr (su_period_end r)"
    "read_cancel_at from_iso (nt_data ev) = Inr (su_cancel_at r)"
  using assms by (rule mirror_cases, elim disjE; simp)+

lemma start_dunning_fields:
  assumes "start_dunning st row usr p m = (r, mails)"
  shows "su_id r = su_id row" "su_user r = su_user row" "su_paddle_id r = su_paddle_id row"
    "su_status r = su_status row" "su_past_due_since r = Some m"
    "su_grace_ends_at r = Some (m + st_grace_days st * day_us)"
    "su_plan r = su_plan row" "su_event_at r = su_event_at row" "su_period_end r = su_period_end row"
    "su_cancel_at r = su_cancel_at row"
    "mailable usr \<Longrightarrow> su_notified r = Some Payment_failed"
    "\<not> mailable usr \<Longrightarrow> su_notified r = su_notified row \<and> mails = []"
  using assms by (auto simp: start_dunning_def Let_def mailable_def split: option.splits if_splits)

lemma end_dunning_fields [simp]:
  "su_id (end_dunning r) = su_id r" "su_user (end_dunning r) = su_user r"
  "su_paddle_id (end_dunning r) = su_paddle_id r" "su_status (end_dunning r) = su_status r"
  "su_plan (end_dunning r) = su_plan r" "su_event_at (end_dunning r) = su_event_at r"
  "su_period_end (end_dunning r) = su_period_end r" "su_cancel_at (end_dunning r) = su_cancel_at r"
  "su_past_due_since (end_dunning r) = None" "su_grace_ends_at (end_dunning r) = None"
  "su_notified (end_dunning r) = None"
  by (simp_all add: end_dunning_def)

lemma live_cases: "x \<in> set live_statuses \<longleftrightarrow> x = Trialing \<or> x = Active \<or> x = Past_due"
  by (auto simp: live_statuses_def)

lemma dunning_after_fields:
  assumes "dunning_after st usr p m previous row = (r, mails)"
  shows "su_id r = su_id row" "su_user r = su_user row" "su_paddle_id r = su_paddle_id row"
    "su_status r = su_status row" "su_plan r = su_plan row" "su_event_at r = su_event_at row"
    "su_period_end r = su_period_end row" "su_cancel_at r = su_cancel_at row"
  using assms
  by (auto simp: dunning_after_def start_dunning_def Let_def split: if_splits option.splits)

lemma dunning_after_wf:
  assumes "dunning_after st usr p m previous row = (r, mails)"
    and "su_past_due_since row = None \<longleftrightarrow> su_grace_ends_at row = None"
    and "su_past_due_since row = None \<Longrightarrow> su_notified row = None"
  shows "dunning_wf r"
proof (cases "su_status row = Past_due \<and> su_past_due_since row = None")
  case True
  then have "start_dunning st row usr p m = (r, mails)" using assms(1) by (simp add: dunning_after_def)
  from start_dunning_fields[OF this] show ?thesis
    using True by (simp add: dunning_wf_def live_cases)
next
  case False
  then have "r = row \<and> (su_past_due_since row \<noteq> None \<longrightarrow> su_status row \<in> set live_statuses) \<or> r = end_dunning row"
    using assms(1) by (auto simp: dunning_after_def paid_statuses_def live_cases split: if_splits)
  then show ?thesis using assms(2,3) by (auto simp: dunning_wf_def)
qed

lemma some_of_map_option: "Some y = map_option f x \<longleftrightarrow> (\<exists>z. x = Some z \<and> y = f z)"
  by (cases x) auto

lemma row_for_cases:
  assumes "row_for t pid data status p now = Inr (Some (new, row))"
  shows "su_paddle_id row = Some pid"
    and "if new then locked t pid = None \<and> su_id row = bt_next_id t \<and> su_past_due_since row = None
           \<and> su_grace_ends_at row = None \<and> su_notified row = None
         else row \<in> set (bt_subs t) \<and> locked t pid = Some row"
  using assms find_SomeD[of "\<lambda>s. su_paddle_id s = Some pid" "bt_subs t"]
  by (auto simp: row_for_def locked_def map_res_Inr_iff some_of_map_option split: option.splits)

lemma apply_row_cases:
  assumes "apply_row st from_iso t ev pid status p (new, row) = Inr (t', h)"
  obtains r r' mails where
    "status \<in> set live_statuses \<Longrightarrow> other_live t (su_user row) pid = None"
    "mirror from_iso t ev status p new row = Inr r"
    "dunning_after st (find_user t (su_user row)) p (nt_occurred_at ev)
       (if new then None else Some (su_status row)) r = (r', mails)"
    "t' = put_row t new r'"
    "h = \<lparr>hd_outcome = Applied, hd_duplicate = False, hd_users = {su_user row}, hd_mail = mails\<rparr>"
proof -
  have none: "(if status \<in> set live_statuses then other_live t (su_user row) pid else None) = None"
    using assms unfolding apply_row_def prod.case
    by (cases "if status \<in> set live_statuses then other_live t (su_user row) pid else None")
      (simp_all only: option.case sum.distinct)
  then have noother: "status \<in> set live_statuses \<Longrightarrow> other_live t (su_user row) pid = None" by simp
  have body: "bind_res (mirror from_iso t ev status p new row) (\<lambda>row'.
      case dunning_after st (find_user t (su_user row)) p (nt_occurred_at ev)
             (if new then None else Some (su_status row)) row' of
        (row'', mails) \<Rightarrow>
          Inr (put_row t new row'', \<lparr>hd_outcome = Applied, hd_duplicate = False,
            hd_users = {su_user row}, hd_mail = mails\<rparr>)) = Inr (t', h)"
    using assms unfolding apply_row_def prod.case none option.case .
  then obtain r where m: "mirror from_iso t ev status p new row = Inr r"
    by (auto simp: bind_res_Inr_iff)
  obtain r' mails where d: "dunning_after st (find_user t (su_user row)) p (nt_occurred_at ev)
      (if new then None else Some (su_status row)) r = (r', mails)"
    by (rule prod.exhaust)
  show thesis using that[OF noother m d] body m d by simp
qed

lemma apply_row_ok:
  assumes "billing_ok t" "row_for t pid data status p now = Inr (Some (new, row))"
    and "apply_row st from_iso t ev pid status p (new, row) = Inr (t', h)"
  shows "billing_ok t'"
  using assms(3)
proof (rule apply_row_cases)
  fix r r' mails
  assume noother: "status \<in> set live_statuses \<Longrightarrow> other_live t (su_user row) pid = None"
    and m: "mirror from_iso t ev status p new row = Inr r"
    and d: "dunning_after st (find_user t (su_user row)) p (nt_occurred_at ev)
      (if new then None else Some (su_status row)) r = (r', mails)"
    and t': "t' = put_row t new r'"
  note found = row_for_cases[OF assms(2)]
  note F = mirror_fields[OF m] dunning_after_fields[OF d]
  have "dunning_wf r'"
  proof (rule dunning_after_wf[OF d])
    have "new \<or> dunning_wf row" using found(2) billing_okD(5)[OF assms(1), of row] by (cases new) auto
    then show "su_past_due_since r = None \<longleftrightarrow> su_grace_ends_at r = None"
      and "su_past_due_since r = None \<Longrightarrow> su_notified r = None"
      using found(2) F by (auto simp: dunning_wf_def split: if_splits)
  qed
  moreover have "su_user s \<noteq> su_user row"
    if "is_live_row r'" "s \<in> set (bt_subs t)" "su_id s \<noteq> su_id row" "is_live_row s" for s
  proof -
    have "su_paddle_id s \<noteq> Some pid"
    proof (cases new)
      case True
      then show ?thesis using found(2) that(2) by (auto simp: locked_def find_None_iff)
    next
      case False
      then show ?thesis
        using found billing_okD(3)[OF assms(1)] that(2,3) unfolding unique_by_def by (metis option.distinct(1))
    qed
    then show ?thesis
      using noother that F by (auto simp: other_live_def find_None_iff)
  qed
  moreover have "if new then su_id r' = bt_next_id t
        \<and> (\<forall>s \<in> set (bt_subs t). su_paddle_id r' \<noteq> None \<longrightarrow> su_paddle_id s \<noteq> su_paddle_id r')
      else \<exists>s \<in> set (bt_subs t). su_id s = su_id r' \<and> su_paddle_id s = su_paddle_id r'"
    using found F by (auto simp: locked_def find_None_iff split: if_splits)
  ultimately have "may_put t new r'"
    using F by (simp add: may_put_def)
  then show ?thesis unfolding t' by (rule put_row_ok[OF assms(1)])
qed

lemma apply_subscription_cases:
  assumes "apply_subscription st from_iso now t ev = Inr (t', h)"
  obtains
    (stale) pid row where "entity_id ev = Some pid" "locked t pid = Some row" "is_stale ev row"
      "t' = t" "h = nothing_done Stale"
  | (unmatched) pid where "entity_id ev = Some pid" "locked t pid = None"
      "t' = t" "h = nothing_done Unmatched"
  | (applied) pid status p new row where "entity_id ev = Some pid"
      "read_status (nt_data ev) = Inr status" "read_plan st t (nt_data ev) = Inr p"
      "row_for t pid (nt_data ev) status p now = Inr (Some (new, row))"
      "apply_row st from_iso t ev pid status p (new, row) = Inr (t', h)"
proof -
  obtain pid where e: "entity_id ev = Some pid"
    using assms by (auto simp: apply_subscription_def split: option.splits)
  show thesis
  proof (cases "case locked t pid of None \<Rightarrow> False | Some row \<Rightarrow> is_stale ev row")
    case True
    then obtain row where "locked t pid = Some row" "is_stale ev row" by (cases "locked t pid") auto
    moreover have "t' = t" "h = nothing_done Stale"
      using assms True unfolding apply_subscription_def e option.case if_P[OF True] by simp_all
    ultimately show thesis by (rule stale[OF e])
  next
    case False
    then obtain status p found where r: "read_status (nt_data ev) = Inr status"
        "read_plan st t (nt_data ev) = Inr p" "row_for t pid (nt_data ev) status p now = Inr found"
      and body: "(case found of None \<Rightarrow> Inr (t, nothing_done Unmatched)
        | Some r \<Rightarrow> apply_row st from_iso t ev pid status p r) = Inr (t', h)"
      using assms unfolding apply_subscription_def e option.case if_not_P[OF False] bind_res_Inr_iff
      by (elim exE conjE) (rule that)
    show thesis
    proof (cases found)
      case None
      then have l: "locked t pid = None" using r(3) by (cases "locked t pid") (simp_all add: row_for_def)
      have "t' = t" "h = nothing_done Unmatched" using body unfolding None option.case by simp_all
      then show thesis by (rule unmatched[OF e l])
    next
      case (Some x)
      obtain new row where "x = (new, row)" by (rule prod.exhaust)
      then show thesis using r(3) body unfolding Some option.case by (intro applied[OF e r(1,2)]) simp_all
    qed
  qed
qed

lemma apply_subscription_ok:
  assumes "billing_ok t" "apply_subscription st from_iso now t ev = Inr (t', h)"
  shows "billing_ok t'"
  using assms(2) by (rule apply_subscription_cases) (use assms(1) apply_row_ok in auto)

lemma apply_subscription_frame:
  assumes "apply_subscription st from_iso now t ev = Inr (t', h)"
  shows "bt_events t' = bt_events t \<and> bt_users t' = bt_users t \<and> bt_plans t' = bt_plans t"
  using assms
proof (rule apply_subscription_cases)
  fix pid status p new row
  assume "apply_row st from_iso t ev pid status p (new, row) = Inr (t', h)"
  then show ?thesis by (rule apply_row_cases) simp
qed simp_all

lemma set_outcome_ids: "map pe_id (bt_events (set_outcome eid out t)) = map pe_id (bt_events t)"
  by (simp add: set_outcome_def comp_def if_distrib cong: if_cong)

lemma apply_payment_failed_cases:
  assumes "apply_payment_failed st t ev = Inr (t', h)"
  shows "t' = t \<and> hd_mail h = [] \<or>
    (\<exists>sid row p row' mails. locked t sid = Some row \<and> su_past_due_since row = None \<and> is_live_row row
      \<and> \<not> is_stale ev row \<and> find_plan t (su_plan row) = Some p
      \<and> start_dunning st row (find_user t (su_user row)) p (nt_occurred_at ev) = (row', mails)
      \<and> t' = put_row t False row' \<and> hd_mail h = mails)"
proof (cases "t' = t \<and> hd_mail h = []")
  case no: False
  then obtain sid where s: "text_param (dict_get (nt_data ev) ''subscription_id'') = Inr sid"
    using assms by (auto simp: apply_payment_failed_def Let_def bind_res_Inr_iff split: if_splits)
  with assms no obtain row where l: "locked t sid = Some row" "\<not> is_stale ev row"
    by (auto simp: apply_payment_failed_def Let_def split: if_splits option.splits)
  with assms no s obtain p where p: "su_past_due_since row = None" "is_live_row row" "find_plan t (su_plan row) = Some p"
    by (auto simp: apply_payment_failed_def Let_def split: if_splits option.splits)
  obtain row' mails where d: "start_dunning st row (find_user t (su_user row)) p (nt_occurred_at ev) = (row', mails)"
    by (rule prod.exhaust)
  have "t' = put_row t False row' \<and> hd_mail h = mails"
    using assms no s l p d by (auto simp: apply_payment_failed_def Let_def split: if_splits)
  then show ?thesis using l p d by blast
qed simp

lemma apply_payment_failed_ok:
  assumes "billing_ok t" "apply_payment_failed st t ev = Inr (t', h)"
  shows "billing_ok t'"
  using apply_payment_failed_cases[OF assms(2)]
proof (elim disjE exE conjE)
  fix sid row p row' mails
  assume l: "locked t sid = Some row" and live: "is_live_row row" and t': "t' = put_row t False row'"
    and "start_dunning st row (find_user t (su_user row)) p (nt_occurred_at ev) = (row', mails)"
  note F = start_dunning_fields[OF this(4)]
  have row: "row \<in> set (bt_subs t)" using l find_SomeD by (fastforce simp: locked_def)
  have "su_user s \<noteq> su_user row" if "s \<in> set (bt_subs t)" "su_id s \<noteq> su_id row" "is_live_row s" for s
    using billing_okD(4)[OF assms(1)] row that live by (fastforce simp: unique_by_def live_user_def)
  then have "may_put t False row'"
    using F row live by (auto simp: may_put_def dunning_wf_def)
  then show ?thesis unfolding t' by (rule put_row_ok[OF assms(1)])
qed (use assms(1) in simp)

end
