(* ===== verification/Subscriptions.thy ===== *)
theory Subscriptions
  imports Billing
begin

text \<open>
  Histories of the billing tables: webhooks in whatever order Paddle delivers them, the dunning job,
  the cancelling of deleted accounts' subscriptions, and accounts deleted and restored in between.
  What holds of every history, and how each subscription ends up.
\<close>

section \<open>Steps\<close>

text \<open>A step that failed was rolled back: it changed nothing.\<close>

datatype billing_op =
    Webhook moment notification
  | Dunning_job moment
  | Cancel_job paddle_api "int \<Rightarrow> bool" "int option"
  | Mark_user int "moment option"

definition webhook_step :: "bill_settings \<Rightarrow> (string \<Rightarrow> iso_time) \<Rightarrow> moment \<Rightarrow> billing_tables \<Rightarrow> notification \<Rightarrow> billing_tables \<times> bill_mail list" where
  "webhook_step st from_iso now t ev =
     (case handle_event st from_iso now t ev of Inl _ \<Rightarrow> (t, []) | Inr (t', h) \<Rightarrow> (t', hd_mail h))"

definition mark_user :: "int \<Rightarrow> moment option \<Rightarrow> billing_tables \<Rightarrow> billing_tables" where
  "mark_user u d t = t\<lparr>bt_users := map (\<lambda>x. if au_id x = u then x\<lparr>au_deleted_at := d\<rparr> else x) (bt_users t)\<rparr>"

fun billing_step :: "bill_settings \<Rightarrow> (string \<Rightarrow> iso_time) \<Rightarrow> billing_tables \<Rightarrow> billing_op \<Rightarrow> billing_tables \<times> bill_mail list" where
  "billing_step st from_iso t (Webhook now ev) = webhook_step st from_iso now t ev"
| "billing_step st from_iso t (Dunning_job now) = (case run_dunning st now t of (t', r) \<Rightarrow> (t', dr_mail r))"
| "billing_step st from_iso t (Cancel_job api held only) =
     (case cancel_for_deleted api held only t of Inl _ \<Rightarrow> (t, []) | Inr (t', _) \<Rightarrow> (t', []))"
| "billing_step st from_iso t (Mark_user u d) = (mark_user u d t, [])"

abbreviation next_tables :: "bill_settings \<Rightarrow> (string \<Rightarrow> iso_time) \<Rightarrow> billing_tables \<Rightarrow> billing_op \<Rightarrow> billing_tables" where
  "next_tables st from_iso t e \<equiv> fst (billing_step st from_iso t e)"

section \<open>Rewriting rows in place\<close>

text \<open>Tables that differ only in the values of their subscriptions, not in which those are.\<close>

definition shape :: "billing_tables \<Rightarrow> (int \<times> int \<times> string option) list" where
  "shape t = map (\<lambda>s. (su_id s, su_user s, su_paddle_id s)) (bt_subs t)"

lemma shape_ids: "shape t' = shape t \<Longrightarrow> map su_id (bt_subs t') = map su_id (bt_subs t)"
  unfolding shape_def by (metis (mono_tags, lifting) comp_apply fst_conv map_eq_conv map_map)

lemma shape_row:
  assumes "shape t' = shape t" "s' \<in> set (bt_subs t')"
  shows "\<exists>s \<in> set (bt_subs t). su_id s = su_id s' \<and> su_user s = su_user s' \<and> su_paddle_id s = su_paddle_id s'"
proof -
  have "(su_id s', su_user s', su_paddle_id s') \<in> set (shape t')"
    using assms(2) by (simp add: shape_def)
  then have "(su_id s', su_user s', su_paddle_id s') \<in> set (shape t)" by (simp only: assms(1))
  then show ?thesis by (auto simp: shape_def)
qed

lemma same_shape_ok:
  assumes "billing_ok t" "shape t' = shape t" "bt_next_id t' = bt_next_id t" "bt_events t' = bt_events t"
    and "\<And>s. s \<in> set (bt_subs t') \<Longrightarrow> dunning_wf s" "one_live (bt_subs t')"
  shows "billing_ok t'"
proof -
  have d: "distinct (map su_id (bt_subs t'))"
    using billing_okD(1)[OF assms(1)] shape_ids[OF assms(2)] by simp
  have "x = y" if xy: "x \<in> set (bt_subs t')" "y \<in> set (bt_subs t')" "su_paddle_id x \<noteq> None" "su_paddle_id x = su_paddle_id y" for x y
  proof -
    obtain a b where "a \<in> set (bt_subs t)" "b \<in> set (bt_subs t)" "su_id a = su_id x" "su_id b = su_id y"
      "su_paddle_id a = su_paddle_id x" "su_paddle_id b = su_paddle_id y"
      using shape_row[OF assms(2) xy(1)] shape_row[OF assms(2) xy(2)] by blast
    then have "su_id x = su_id y"
      using billing_okD(3)[OF assms(1)] xy(3,4) unfolding unique_by_def by metis
    then show ?thesis using d xy(1,2) by (simp add: distinct_map inj_on_def)
  qed
  then have "unique_by su_paddle_id (set (bt_subs t'))" unfolding unique_by_def by blast
  moreover have "su_id s < bt_next_id t'" if "s \<in> set (bt_subs t')" for s
    using shape_row[OF assms(2) that] billing_okD(2)[OF assms(1)] assms(3) by metis
  ultimately show ?thesis
    using d assms(4-6) billing_okD(6)[OF assms(1)] one_live_unique[OF d] by (simp add: billing_ok_def)
qed

section \<open>The invariant, step by step\<close>

lemma handle_event_ok:
  assumes "billing_ok t" "handle_event st from_iso now t ev = Inr (t', h)"
  shows "billing_ok t'"
proof (cases "claim_event t ev")
  case None
  then show ?thesis using assms by (simp add: handle_event_def)
next
  case (Some t1)
  then have ok1: "billing_ok t1"
    using assms(1) by (auto simp: claim_event_def billing_ok_def split: if_splits)
  obtain t2 where t2: "t' = set_outcome (nt_event_id ev) (hd_outcome h) t2"
    and "t2 = t1 \<or> apply_subscription st from_iso now t1 ev = Inr (t2, h) \<or> apply_payment_failed st t1 ev = Inr (t2, h)"
    using assms(2) Some by (auto simp: handle_event_def map_res_Inr_iff split: if_splits)
  then have "billing_ok t2" using ok1 apply_subscription_ok apply_payment_failed_ok by blast
  moreover have "map pe_id (bt_events t') = map pe_id (bt_events t2)"
    unfolding t2 by (rule set_outcome_ids)
  ultimately show ?thesis
    by (simp add: billing_ok_def t2 set_outcome_def comp_def if_distrib cong: if_cong)
qed

definition after_job :: "bill_settings \<Rightarrow> moment \<Rightarrow> subscription \<Rightarrow> subscription" where
  "after_job st now s =
     (if remind_due st now s then s\<lparr>su_notified := Some Grace_ending\<rparr>
      else if downgrade_due now s then s\<lparr>su_notified := Some Downgraded\<rparr> else s)"

lemma due_apart: "remind_due st now s \<Longrightarrow> \<not> downgrade_due now s"
  by (auto simp: remind_due_def downgrade_due_def)

lemma run_dunning_subs:
  "bt_subs (fst (run_dunning st now t)) = map (after_job st now) (bt_subs t)"
proof -
  have "downgrade_due now (s\<lparr>su_notified := Some Grace_ending\<rparr>) \<longleftrightarrow> False" if "remind_due st now s" for s
    using that by (auto simp: remind_due_def downgrade_due_def in_dunning_def)
  then show ?thesis
    by (auto simp: run_dunning_def claim_step_def after_job_def Let_def)
qed

lemma run_dunning_tables [simp]:
  "bt_users (fst (run_dunning st now t)) = bt_users t" "bt_plans (fst (run_dunning st now t)) = bt_plans t"
  "bt_events (fst (run_dunning st now t)) = bt_events t" "bt_next_id (fst (run_dunning st now t)) = bt_next_id t"
  by (simp_all add: run_dunning_def claim_step_def Let_def)

lemma after_job_fields [simp]:
  "su_id (after_job st now s) = su_id s" "su_user (after_job st now s) = su_user s"
  "su_paddle_id (after_job st now s) = su_paddle_id s" "su_status (after_job st now s) = su_status s"
  "su_past_due_since (after_job st now s) = su_past_due_since s"
  "su_grace_ends_at (after_job st now s) = su_grace_ends_at s"
  by (simp_all add: after_job_def)

lemma after_job_wf: "dunning_wf s \<Longrightarrow> dunning_wf (after_job st now s)"
  by (auto simp: dunning_wf_def after_job_def remind_due_def downgrade_due_def in_dunning_def)

lemma run_dunning_ok: "billing_ok t \<Longrightarrow> billing_ok (fst (run_dunning st now t))"
proof (rule same_shape_ok)
  assume ok: "billing_ok t"
  have "map su_user (filter is_live_row (map (after_job st now) xs)) = map su_user (filter is_live_row xs)" for xs
    by (induction xs) auto
  then have "one_live (bt_subs (fst (run_dunning st now t))) = one_live (bt_subs t)"
    by (simp add: one_live_def run_dunning_subs)
  then show "one_live (bt_subs (fst (run_dunning st now t)))"
    using one_live_unique billing_okD(1,4)[OF ok] by blast
  show "dunning_wf s" if "s \<in> set (bt_subs (fst (run_dunning st now t)))" for s
    using that billing_okD(5)[OF ok] after_job_wf by (auto simp: run_dunning_subs)
qed (simp_all add: shape_def run_dunning_subs comp_def)

section \<open>What a cancelling run leaves\<close>

text \<open>A row after its turn: as Paddle answered, or as it was when Paddle could not cancel it.\<close>

definition cancel_one :: "paddle_api \<Rightarrow> subscription \<Rightarrow> subscription" where
  "cancel_one api s =
     (case cancel_subscription api (the (su_paddle_id s)) of
        Inl _ \<Rightarrow> s
      | Inr entity \<Rightarrow>
          (case answered_status entity of
             Inl _ \<Rightarrow> s
           | Inr status \<Rightarrow> end_dunning (s\<lparr>su_status := status, su_cancel_at := None\<rparr>)))"

lemma cancel_one_fields [simp]:
  "su_id (cancel_one api s) = su_id s" "su_user (cancel_one api s) = su_user s"
  "su_paddle_id (cancel_one api s) = su_paddle_id s"
  by (auto simp: cancel_one_def split: sum.split)

lemma cancel_one_wf: "dunning_wf s \<Longrightarrow> dunning_wf (cancel_one api s)"
  by (auto simp: cancel_one_def dunning_wf_def split: sum.split)

lemma put_row_at:
  assumes "row \<in> set (bt_subs t)" "distinct (map su_id (bt_subs t))" "su_id r = su_id row"
  shows "bt_subs (put_row t False r) = map (\<lambda>s. if s = row then r else s) (bt_subs t)"
proof -
  have "su_id s = su_id row \<longleftrightarrow> s = row" if "s \<in> set (bt_subs t)" for s
    using that assms(1,2) by (auto simp: distinct_map inj_on_def)
  then show ?thesis using assms(3) by (simp add: put_row_def)
qed

lemma put_row_ids:
  "su_id r = su_id row \<Longrightarrow> map su_id (bt_subs (put_row t False r)) = map su_id (bt_subs t)"
  by (simp add: put_row_def comp_def if_distrib cong: if_cong)

lemma map_distinct_step:
  assumes "row \<notin> set rows" "f row = r" "\<And>s. s \<in> set rows \<Longrightarrow> s \<noteq> r"
  shows "map (\<lambda>s. if s \<in> set rows then f s else s) (map (\<lambda>s. if s = row then r else s) xs) =
    map (\<lambda>s. if s \<in> set (row # rows) then f s else s) xs"
  using assms by (auto simp: comp_def)

lemma cancel_rows_subs:
  assumes "cancel_rows api t rows c = Inr (t', c')" "set rows \<subseteq> set (bt_subs t)"
    and "distinct (map su_id (bt_subs t))" "distinct rows"
  shows "bt_subs t' = map (\<lambda>s. if s \<in> set rows then cancel_one api s else s) (bt_subs t)
    \<and> bt_users t' = bt_users t \<and> bt_plans t' = bt_plans t \<and> bt_events t' = bt_events t \<and> bt_next_id t' = bt_next_id t"
  using assms
proof (induction api t rows c rule: cancel_rows.induct)
  case (1 api t c)
  then show ?case by simp
next
  case (2 api t row rows c)
  show ?case
  proof (cases "cancel_subscription api (the (su_paddle_id row))")
    case (Inl e)
    then obtain a b where e: "e = Paddle_error a b" using "2.prems"(1) by (cases e) auto
    have "cancel_one api row = row" using Inl by (simp add: cancel_one_def)
    then have "(if s \<in> set rows then cancel_one api s else s) = (if s \<in> set (row # rows) then cancel_one api s else s)" for s
      by auto
    then show ?thesis using "2.IH"(1)[OF Inl e] "2.prems" Inl e by simp
  next
    case (Inr entity)
    then obtain status where st: "answered_status entity = Inr status"
      using "2.prems"(1) by (auto simp: bind_res_Inr_iff)
    let ?r = "end_dunning (row\<lparr>su_status := status, su_cancel_at := None\<rparr>)"
    have r: "cancel_one api row = ?r" using Inr st by (simp add: cancel_one_def)
    have row: "row \<in> set (bt_subs t)" using "2.prems"(2) by simp
    have put: "bt_subs (put_row t False ?r) = map (\<lambda>s. if s = row then ?r else s) (bt_subs t)"
      by (rule put_row_at[OF row "2.prems"(3)]) simp
    have apart: "su_id s \<noteq> su_id row" if "s \<in> set rows" for s
      using that "2.prems"(2-4) row by (auto simp: distinct_map inj_on_def)
    have sub: "set rows \<subseteq> set (bt_subs (put_row t False ?r))"
      using "2.prems"(2,4) unfolding put by auto
    have "distinct (map su_id (bt_subs (put_row t False ?r)))"
      using "2.prems"(3) put_row_ids[of ?r row t] by simp
    note ih = "2.IH"(2)[OF Inr, of status, OF _ sub this]
    have next_id: "bt_next_id (put_row t False ?r) = bt_next_id t" by (simp add: put_row_def)
    have "map (\<lambda>s. if s \<in> set rows then cancel_one api s else s) (bt_subs (put_row t False ?r)) =
      map (\<lambda>s. if s \<in> set (row # rows) then cancel_one api s else s) (bt_subs t)"
      unfolding put using "2.prems"(4) r apart by (intro map_distinct_step) fastforce+
    then show ?thesis using ih "2.prems"(1,4) Inr st next_id by simp
  qed
qed

lemma to_cancel_facts:
  assumes "distinct (map su_id (bt_subs t))"
  shows "set (to_cancel t held only) \<subseteq> set (bt_subs t)" "distinct (to_cancel t held only)"
  using assms by (auto simp: to_cancel_def distinct_map)

lemma cancel_for_deleted_subs:
  assumes "billing_ok t" "cancel_for_deleted api held only t = Inr (t', c)"
  shows "bt_subs t' = map (\<lambda>s. if s \<in> set (to_cancel t held only) then cancel_one api s else s) (bt_subs t)"
    "bt_users t' = bt_users t" "bt_plans t' = bt_plans t" "bt_events t' = bt_events t" "bt_next_id t' = bt_next_id t"
    "one_live (bt_subs t')"
proof -
  have run: "cancel_rows api t (to_cancel t held only) \<lparr>ca_plans = [], ca_failed = 0\<rparr> = Inr (t', c)"
    and live: "one_live (bt_subs t')"
    using assms(2) by (auto simp: cancel_for_deleted_def bind_res_Inr_iff split: if_splits)
  note d = billing_okD(1)[OF assms(1)]
  from cancel_rows_subs[OF run to_cancel_facts(1)[OF d] d to_cancel_facts(2)[OF d]] live
  show "bt_subs t' = map (\<lambda>s. if s \<in> set (to_cancel t held only) then cancel_one api s else s) (bt_subs t)"
    "bt_users t' = bt_users t" "bt_plans t' = bt_plans t" "bt_events t' = bt_events t" "bt_next_id t' = bt_next_id t"
    "one_live (bt_subs t')" by simp_all
qed

lemma cancel_for_deleted_ok:
  assumes "billing_ok t" "cancel_for_deleted api held only t = Inr (t', c)"
  shows "billing_ok t'"
proof (rule same_shape_ok[OF assms(1)])
  note C = cancel_for_deleted_subs[OF assms]
  show "shape t' = shape t" by (simp add: shape_def C(1) comp_def if_distrib cong: if_cong)
  show "dunning_wf s" if "s \<in> set (bt_subs t')" for s
    using that billing_okD(5)[OF assms(1)] cancel_one_wf by (auto simp: C(1) split: if_splits)
qed (use cancel_for_deleted_subs[OF assms] in simp_all)

lemma mark_user_ok: "billing_ok t \<Longrightarrow> billing_ok (mark_user u d t)"
  by (simp add: billing_ok_def mark_user_def)

lemma billing_step_ok: "billing_ok t \<Longrightarrow> billing_ok (next_tables st from_iso t e)"
proof (cases e)
  case (Webhook now ev)
  then show "billing_ok t \<Longrightarrow> ?thesis"
    using handle_event_ok by (auto simp: webhook_step_def split: sum.split)
next
  case (Dunning_job now)
  then show "billing_ok t \<Longrightarrow> ?thesis" using run_dunning_ok[of t st now] by (cases "run_dunning st now t") simp
next
  case (Cancel_job api held only)
  then show "billing_ok t \<Longrightarrow> ?thesis" using cancel_for_deleted_ok by (auto split: sum.split)
next
  case (Mark_user u d)
  then show "billing_ok t \<Longrightarrow> ?thesis" by (simp add: mark_user_ok)
qed

interpretation billing: total_machine "next_tables st from_iso" billing_ok
  by unfold_locales (rule billing_step_ok)

text \<open>C2. Whatever is delivered, run and deleted, in whatever order: no user has two live subscriptions, no two
  rows mirror one Paddle subscription, no event is recorded twice, and a row has a failed payment's start,
  its end and its emails together, and only while its status grants a plan.\<close>

theorem billing_stays_ok:
  assumes "billing_ok t"
  shows "billing_ok (foldl (next_tables st from_iso) t es)"
  by (rule billing.foldl_inv) (rule assms)

definition sample_plans :: "plan list" where
  "sample_plans = [\<lparr>pl_id = 1, pl_slug = ''free'', pl_name = ''Free'', pl_snapshot_of = None\<rparr>,
     \<lparr>pl_id = 2, pl_slug = ''pro'', pl_name = ''Pro'', pl_snapshot_of = None\<rparr>]"

definition sample_tables :: billing_tables where
  "sample_tables = \<lparr>bt_users = [\<lparr>au_id = 7, au_email = ''a@b.c'', au_deleted_at = None\<rparr>],
     bt_plans = sample_plans, bt_subs = [], bt_events = [], bt_next_id = 1\<rparr>"

lemma sample_tables_ok: "billing_ok sample_tables"
  by (simp add: billing_ok_def sample_tables_def unique_by_def)

section \<open>Once\<close>

lemma handle_event_ids:
  assumes "handle_event st from_iso now t ev = Inr (t', h)"
  shows "pe_id ` set (bt_events t') = insert (nt_event_id ev) (pe_id ` set (bt_events t))"
proof (cases "claim_event t ev")
  case None
  then show ?thesis using assms by (auto simp: handle_event_def claim_event_def split: if_splits)
next
  case (Some t1)
  then have e1: "pe_id ` set (bt_events t1) = insert (nt_event_id ev) (pe_id ` set (bt_events t))"
    by (auto simp: claim_event_def split: if_splits)
  obtain t2 where t2: "t' = set_outcome (nt_event_id ev) (hd_outcome h) t2"
    and c: "t2 = t1 \<or> apply_subscription st from_iso now t1 ev = Inr (t2, h) \<or> apply_payment_failed st t1 ev = Inr (t2, h)"
    using assms Some by (auto simp: handle_event_def map_res_Inr_iff split: if_splits)
  have "bt_events t2 = bt_events t1"
    using c
  proof (elim disjE)
    assume "apply_subscription st from_iso now t1 ev = Inr (t2, h)"
    then show ?thesis using apply_subscription_frame by blast
  next
    assume "apply_payment_failed st t1 ev = Inr (t2, h)"
    from apply_payment_failed_cases[OF this] show ?thesis by auto
  qed simp
  moreover have "pe_id ` set (bt_events t') = pe_id ` set (bt_events t2)"
    unfolding t2 set_map[symmetric] by (simp only: set_outcome_ids)
  ultimately show ?thesis using e1 by simp
qed

lemma step_keeps_ids:
  assumes "billing_ok t" "x \<in> pe_id ` set (bt_events t)"
  shows "x \<in> pe_id ` set (bt_events (next_tables st from_iso t e))"
proof (cases e)
  case (Webhook now ev)
  then show ?thesis using assms(2) handle_event_ids by (fastforce simp: webhook_step_def split: sum.split)
next
  case (Dunning_job now)
  then show ?thesis using assms(2) run_dunning_tables(3)[of st now t] by (cases "run_dunning st now t") simp
next
  case (Cancel_job api held only)
  then show ?thesis using assms cancel_for_deleted_subs(4) by (auto split: sum.split)
next
  case (Mark_user u d)
  then show ?thesis using assms(2) by (simp add: mark_user_def)
qed

lemma run_keeps_ids:
  "billing_ok t \<Longrightarrow> x \<in> pe_id ` set (bt_events t) \<Longrightarrow>
     x \<in> pe_id ` set (bt_events (foldl (next_tables st from_iso) t es))"
proof (induction es arbitrary: t)
  case (Cons e es)
  then show ?case using billing_step_ok step_keeps_ids by simp
qed simp

text \<open>C4. An event that was handled is never handled again: delivered once more, with whatever it carries then and
  however much has happened since, it changes nothing and sends nothing.\<close>

theorem redelivery_changes_nothing:
  assumes "billing_ok t" "handle_event st from_iso now t ev = Inr (t1, h)"
    and "nt_event_id ev' = nt_event_id ev"
  shows "let t2 = foldl (next_tables st from_iso) t1 es in
    handle_event st from_iso now' t2 ev' = Inr (t2, \<lparr>hd_outcome = Ignored, hd_duplicate = True, hd_users = {}, hd_mail = []\<rparr>)"
proof -
  have "nt_event_id ev \<in> pe_id ` set (bt_events t1)"
    using handle_event_ids[OF assms(2)] by simp
  from run_keeps_ids[OF handle_event_ok[OF assms(1,2)] this, of st from_iso es]
  show ?thesis using assms(3) by (simp add: handle_event_def claim_event_def Let_def)
qed

definition sample_event :: "string \<Rightarrow> string \<Rightarrow> moment \<Rightarrow> notification" where
  "sample_event eid status m =
     \<lparr>nt_event_id = eid, nt_event_type = ''subscription.updated'', nt_occurred_at = m,
       nt_data = [(''id'', JStr ''sub_1''), (''status'', JStr status),
         (''items'', JList [JObj [(''price'', JObj [(''id'', JStr ''pri_1'')])]]),
         (''custom_data'', JObj [(''user_id'', JStr ''7'')]), (''customer_id'', JStr ''ctm_1'')]\<rparr>"

definition sample_settings :: bill_settings where
  "sample_settings = \<lparr>st_prices = [(''pro'', ''pri_1'')], st_grace_days = 7, st_reminder_days = 2\<rparr>"

definition no_iso :: "string \<Rightarrow> iso_time" where "no_iso s = Not_iso"

lemma billing_stays_ok_witness:
  "billing_ok (foldl (next_tables sample_settings no_iso) sample_tables [Dunning_job 5, Mark_user 7 (Some 6)])"
  by (rule billing_stays_ok) (rule sample_tables_ok)

abbreviation sample_deliver :: "billing_tables \<Rightarrow> notification \<Rightarrow> billing_tables" where
  "sample_deliver t ev \<equiv> fst (webhook_step sample_settings no_iso 0 t ev)"

definition one_subscribed :: billing_tables where
  "one_subscribed = sample_deliver sample_tables (sample_event ''evt_1'' ''active'' 10)"

lemma one_subscribed_handled:
  "handle_event sample_settings no_iso 0 sample_tables (sample_event ''evt_1'' ''active'' 10) =
     Inr (one_subscribed, \<lparr>hd_outcome = Applied, hd_duplicate = False, hd_users = {7}, hd_mail = []\<rparr>)"
  by code_simp

lemma one_subscribed_ok: "billing_ok one_subscribed"
  by (rule handle_event_ok[OF sample_tables_ok one_subscribed_handled])

lemma redelivery_changes_nothing_witness:
  "let t2 = foldl (next_tables sample_settings no_iso) one_subscribed [Dunning_job 50] in
    handle_event sample_settings no_iso 90 t2 (sample_event ''evt_1'' ''canceled'' 40) =
      Inr (t2, \<lparr>hd_outcome = Ignored, hd_duplicate = True, hd_users = {}, hd_mail = []\<rparr>)"
  by (rule redelivery_changes_nothing[OF sample_tables_ok one_subscribed_handled]) (simp add: sample_event_def)

section \<open>The newest event is the truth\<close>

text \<open>What a subscription's row copies from Paddle, and that a row copies an event.\<close>

definition copied :: "subscription \<Rightarrow> subscription_status \<times> int \<times> moment option \<times> moment option \<times> moment option" where
  "copied s = (su_status s, su_plan s, su_period_end s, su_cancel_at s, su_event_at s)"

definition copies ::
  "bill_settings \<Rightarrow> (string \<Rightarrow> iso_time) \<Rightarrow> billing_tables \<Rightarrow> notification \<Rightarrow> subscription \<Rightarrow> bool" where
  "copies st from_iso t ev s \<longleftrightarrow>
     read_status (nt_data ev) = Inr (su_status s)
     \<and> map_res pl_id (read_plan st t (nt_data ev)) = Inr (su_plan s)
     \<and> read_period_end from_iso (nt_data ev) = Inr (su_period_end s)
     \<and> read_cancel_at from_iso (nt_data ev) = Inr (su_cancel_at s)
     \<and> su_event_at s = Some (nt_occurred_at ev)"

text \<open>Whether an event carries the subscription \<open>pid\<close>.\<close>

definition carries :: "string \<Rightarrow> notification \<Rightarrow> bool" where
  "carries pid ev \<longleftrightarrow> nt_event_type ev \<in> set subscription_events \<and> entity_id ev = Some pid"

lemma locked_iff:
  assumes "billing_ok t"
  shows "locked t pid = Some row \<longleftrightarrow> row \<in> set (bt_subs t) \<and> su_paddle_id row = Some pid"
proof
  assume "locked t pid = Some row"
  then show "row \<in> set (bt_subs t) \<and> su_paddle_id row = Some pid" unfolding locked_def by (rule find_SomeD)
next
  assume r: "row \<in> set (bt_subs t) \<and> su_paddle_id row = Some pid"
  then obtain x where x: "locked t pid = Some x" by (fastforce simp: locked_def find_None_iff)
  then have "x \<in> set (bt_subs t) \<and> su_paddle_id x = Some pid" unfolding locked_def by (rule find_SomeD)
  then have "x = row" using r billing_okD(3)[OF assms] unfolding unique_by_def by (metis option.distinct(1))
  then show "locked t pid = Some row" using x by simp
qed

lemma locked_congI: "bt_subs t' = bt_subs t \<Longrightarrow> locked t' = locked t"
  by (simp add: locked_def fun_eq_iff)

lemma locked_put:
  assumes "billing_ok t" "billing_ok (put_row t new r)" "locked t pid = Some row"
    and "if new then su_paddle_id r \<noteq> Some pid else \<exists>s \<in> set (bt_subs t). su_id s = su_id r \<and> su_paddle_id s = su_paddle_id r"
  shows "locked (put_row t new r) pid = Some (if su_paddle_id r = Some pid then r else row)"
proof -
  have row: "row \<in> set (bt_subs t)" "su_paddle_id row = Some pid"
    using locked_iff[OF assms(1)] assms(3) by auto
  show ?thesis
  proof (cases new)
    case True
    then show ?thesis unfolding locked_iff[OF assms(2)] using assms(4) row put_row_new by auto
  next
    case False
    then obtain s where s: "s \<in> set (bt_subs t)" "su_id s = su_id r" "su_paddle_id s = su_paddle_id r"
      using assms(4) by auto
    have put: "set (bt_subs (put_row t False r)) = insert r {s \<in> set (bt_subs t). su_id s \<noteq> su_id r}"
      using s by (intro put_row_old[OF billing_okD(1)[OF assms(1)]]) auto
    have "su_id row \<noteq> su_id r" if "su_paddle_id r \<noteq> Some pid"
      using that s row billing_okD(1)[OF assms(1)] by (auto simp: distinct_map inj_on_def)
    then show ?thesis unfolding locked_iff[OF assms(2)] using False row put s by auto
  qed
qed

text \<open>One event applied to tables in which \<open>pid\<close> has its row.\<close>

lemma apply_subscription_row:
  assumes "billing_ok t" "apply_subscription st from_iso now t ev = Inr (t', h)" "locked t pid = Some row"
  shows "if entity_id ev = Some pid \<and> \<not> is_stale ev row
    then \<exists>row'. locked t' pid = Some row' \<and> copies st from_iso t ev row'
    else locked t' pid = Some row"
  using assms(2)
proof (rule apply_subscription_cases)
  fix pid' status p new row0
  assume e: "entity_id ev = Some pid'" and rs: "read_status (nt_data ev) = Inr status"
    and rp: "read_plan st t (nt_data ev) = Inr p"
    and found: "row_for t pid' (nt_data ev) status p now = Inr (Some (new, row0))"
    and app: "apply_row st from_iso t ev pid' status p (new, row0) = Inr (t', h)"
  have ok': "billing_ok t'" by (rule apply_row_ok[OF assms(1) found app])
  note F = row_for_cases[OF found]
  from app show ?thesis
  proof (rule apply_row_cases)
    fix r r' mails
    assume m: "mirror from_iso t ev status p new row0 = Inr r" and t': "t' = put_row t new r'"
      and d: "dunning_after st (find_user t (su_user row0)) p (nt_occurred_at ev)
        (if new then None else Some (su_status row0)) r = (r', mails)"
    note G = mirror_fields[OF m] dunning_after_fields[OF d]
    have "if new then su_paddle_id r' \<noteq> Some pid else \<exists>s \<in> set (bt_subs t). su_id s = su_id r' \<and> su_paddle_id s = su_paddle_id r'"
      using F G assms(3) by (cases new) auto
    note L = locked_put[OF assms(1) ok'[unfolded t'] assms(3) this]
    have "copies st from_iso t ev r'" using G rs rp by (simp add: copies_def)
    moreover have "\<not> is_stale ev row" if "pid' = pid"
      using assms(2,3) that e app by (auto simp: apply_subscription_def t' dest: sym elim: apply_row_cases)
    ultimately show ?thesis using L F(1) G e unfolding t' by auto
  qed
qed (use assms(3) in auto)

lemma apply_payment_failed_row:
  assumes "billing_ok t" "apply_payment_failed st t ev = Inr (t', h)" "locked t pid = Some row"
  shows "\<exists>row'. locked t' pid = Some row' \<and> copied row' = copied row"
  using apply_payment_failed_cases[OF assms(2)]
proof (elim disjE exE conjE)
  fix sid row0 p row' mails
  assume l: "locked t sid = Some row0" and t': "t' = put_row t False row'"
    and "start_dunning st row0 (find_user t (su_user row0)) p (nt_occurred_at ev) = (row', mails)"
  note F = start_dunning_fields[OF this(3)]
  have row0: "row0 \<in> set (bt_subs t)" "su_paddle_id row0 = Some sid" using l locked_iff[OF assms(1)] by auto
  have "locked (put_row t False row') pid = Some (if su_paddle_id row' = Some pid then row' else row)"
    using apply_payment_failed_ok[OF assms(1,2)] F row0 t' by (intro locked_put[OF assms(1) _ assms(3)]) auto
  moreover have "row0 = row" if "su_paddle_id row' = Some pid"
    using that F row0 l assms(3) by simp
  ultimately show ?thesis using F unfolding t' by (auto simp: copied_def)
qed (use assms(3) in auto)

lemma read_plan_cong:
  assumes "bt_plans t' = bt_plans t" shows "read_plan st t' data = read_plan st t data"
  unfolding read_plan_def assms ..

lemma copies_cong:
  assumes "bt_plans t' = bt_plans t" shows "copies st from_iso t' ev s = copies st from_iso t ev s"
  unfolding copies_def read_plan_cong[OF assms] ..

lemma handle_event_new:
  assumes "handle_event st from_iso now t ev = Inr (t', h)" "nt_event_id ev \<notin> pe_id ` set (bt_events t)" "billing_ok t"
  obtains t1 t2 where "billing_ok t1" "bt_subs t1 = bt_subs t" "bt_plans t1 = bt_plans t" "bt_users t1 = bt_users t"
    "t' = set_outcome (nt_event_id ev) (hd_outcome h) t2"
    "if nt_event_type ev \<in> set subscription_events then apply_subscription st from_iso now t1 ev = Inr (t2, h)
     else if nt_event_type ev = payment_failed_event then apply_payment_failed st t1 ev = Inr (t2, h)
     else t2 = t1 \<and> h = nothing_done Ignored"
proof -
  obtain t1 where t1: "claim_event t ev = Some t1" using assms(2) by (auto simp: claim_event_def)
  then have c: "billing_ok t1" "bt_subs t1 = bt_subs t" "bt_plans t1 = bt_plans t" "bt_users t1 = bt_users t"
    using assms(3) by (auto simp: claim_event_def billing_ok_def split: if_splits)
  obtain t2 where t2: "t' = set_outcome (nt_event_id ev) (hd_outcome h) t2"
    and body: "(if nt_event_type ev \<in> set subscription_events then apply_subscription st from_iso now t1 ev
      else if nt_event_type ev = payment_failed_event then apply_payment_failed st t1 ev
      else Inr (t1, nothing_done Ignored)) = Inr (t2, h)"
    using assms(1) t1 by (auto simp: handle_event_def map_res_Inr_iff)
  from body have "if nt_event_type ev \<in> set subscription_events then apply_subscription st from_iso now t1 ev = Inr (t2, h)
     else if nt_event_type ev = payment_failed_event then apply_payment_failed st t1 ev = Inr (t2, h)
     else t2 = t1 \<and> h = nothing_done Ignored"
    by (cases "nt_event_type ev \<in> set subscription_events"; cases "nt_event_type ev = payment_failed_event") simp_all
  with c t2 show thesis by (rule that)
qed

lemma set_outcome_tables [simp]:
  "bt_subs (set_outcome eid out t) = bt_subs t" "bt_plans (set_outcome eid out t) = bt_plans t"
  "bt_users (set_outcome eid out t) = bt_users t"
  by (simp_all add: set_outcome_def)

lemma handle_event_row:
  assumes "billing_ok t" "handle_event st from_iso now t ev = Inr (t', h)" "locked t pid = Some row"
    and "nt_event_id ev \<notin> pe_id ` set (bt_events t)"
  shows "bt_plans t' = bt_plans t \<and>
    (\<exists>row'. locked t' pid = Some row' \<and>
      (if carries pid ev \<and> \<not> is_stale ev row then copies st from_iso t ev row' else copied row' = copied row))"
  using assms(2,4,1)
proof (rule handle_event_new)
  fix t1 t2
  assume ok: "billing_ok t1" and s1: "bt_subs t1 = bt_subs t" and p1: "bt_plans t1 = bt_plans t"
    and t': "t' = set_outcome (nt_event_id ev) (hd_outcome h) t2"
    and step: "if nt_event_type ev \<in> set subscription_events then apply_subscription st from_iso now t1 ev = Inr (t2, h)
     else if nt_event_type ev = payment_failed_event then apply_payment_failed st t1 ev = Inr (t2, h)
     else t2 = t1 \<and> h = nothing_done Ignored"
  have l1: "locked t1 pid = Some row" using assms(3) locked_congI[OF s1] by simp
  have l': "locked t' = locked t2" unfolding t' by (rule locked_congI) simp
  have p': "bt_plans t' = bt_plans t2" unfolding t' by simp
  show ?thesis
  proof (cases "nt_event_type ev \<in> set subscription_events")
    case True
    then have a: "apply_subscription st from_iso now t1 ev = Inr (t2, h)" using step by simp
    have "bt_plans t2 = bt_plans t1" using apply_subscription_frame[OF a] by simp
    then show ?thesis
      using apply_subscription_row[OF ok a l1] True p1 p' l' copies_cong[OF p1] by (auto simp: carries_def split: if_splits)
  next
    case False
    then have nc: "\<not> carries pid ev" by (simp add: carries_def)
    show ?thesis
    proof (cases "nt_event_type ev = payment_failed_event")
      case True
      then have a: "apply_payment_failed st t1 ev = Inr (t2, h)" using step False by simp
      have "bt_plans t2 = bt_plans t1" using apply_payment_failed_cases[OF a] by auto
      then show ?thesis using apply_payment_failed_row[OF ok a l1] nc p1 p' l' by simp
    next
      case other: False
      then show ?thesis using step False nc p1 p' l' l1 by simp
    qed
  qed
qed

text \<open>Events delivered one after another, each at its own time: \<open>None\<close> as soon as one fails, which Paddle
  then delivers again.\<close>

fun deliver_all :: "bill_settings \<Rightarrow> (string \<Rightarrow> iso_time) \<Rightarrow> billing_tables \<Rightarrow> (moment \<times> notification) list \<Rightarrow> billing_tables option" where
  "deliver_all st from_iso t [] = Some t"
| "deliver_all st from_iso t ((now, ev) # evs) =
     (case handle_event st from_iso now t ev of
        Inl _ \<Rightarrow> None
      | Inr (t', _) \<Rightarrow> deliver_all st from_iso t' evs)"

definition carried :: "string \<Rightarrow> (moment \<times> notification) list \<Rightarrow> notification set" where
  "carried pid evs = {ev \<in> snd ` set evs. carries pid ev}"

lemma carried_Cons:
  "carried pid ((now, ev) # evs) = (if carries pid ev then insert ev (carried pid evs) else carried pid evs)"
  by (auto simp: carried_def)

lemma copies_event_at: "copies st from_iso t ev s \<Longrightarrow> su_event_at s = Some (nt_occurred_at ev)"
  by (simp add: copies_def)

lemma copied_copies: "copied a = copied b \<Longrightarrow> copies st from_iso t ev a = copies st from_iso t ev b"
  by (simp add: copied_def copies_def)

lemma copied_event_at: "copied a = copied b \<Longrightarrow> su_event_at a = su_event_at b \<and> is_stale ev a = is_stale ev b"
  by (simp add: copied_def is_stale_def)

text \<open>The newest of some events, none of them older than what the row had.\<close>

definition newest_for :: "subscription \<Rightarrow> notification set \<Rightarrow> notification \<Rightarrow> bool" where
  "newest_for row evs ev \<longleftrightarrow> ev \<in> evs \<and> (\<forall>e \<in> evs. nt_occurred_at e \<le> nt_occurred_at ev) \<and> \<not> is_stale ev row"

lemma deliver_all_row:
  assumes "billing_ok t" "locked t pid = Some row" "deliver_all st from_iso t evs = Some t'"
    and "distinct (map (nt_event_id \<circ> snd) evs)" "\<And>ev. ev \<in> snd ` set evs \<Longrightarrow> nt_event_id ev \<notin> pe_id ` set (bt_events t)"
  shows "\<exists>row'. locked t' pid = Some row' \<and>
    ((\<exists>ev. newest_for row (carried pid evs) ev \<and> copies st from_iso t ev row')
     \<or> ((\<forall>e \<in> carried pid evs. is_stale e row) \<and> copied row' = copied row))"
  using assms
proof (induction evs arbitrary: t row)
  case Nil
  then show ?case by (simp add: carried_def)
next
  case (Cons x evs)
  obtain now ev where x: "x = (now, ev)" by (rule prod.exhaust)
  then obtain t1 h where h: "handle_event st from_iso now t ev = Inr (t1, h)"
    and rest: "deliver_all st from_iso t1 evs = Some t'"
    using Cons.prems(3) by (auto split: sum.splits prod.splits)
  have new: "nt_event_id ev \<notin> pe_id ` set (bt_events t)" using Cons.prems(5) x by simp
  from handle_event_row[OF Cons.prems(1) h Cons.prems(2) new] obtain row1 where
    l1: "locked t1 pid = Some row1" and p1: "bt_plans t1 = bt_plans t"
    and r1: "if carries pid ev \<and> \<not> is_stale ev row then copies st from_iso t ev row1 else copied row1 = copied row"
    by auto
  have ok1: "billing_ok t1" by (rule handle_event_ok[OF Cons.prems(1) h])
  have new1: "nt_event_id e \<notin> pe_id ` set (bt_events t1)" if e: "e \<in> snd ` set evs" for e
  proof -
    have "nt_event_id ev \<notin> (nt_event_id \<circ> snd) ` set evs" using Cons.prems(4) x by simp
    then have "nt_event_id e \<noteq> nt_event_id ev" using e by (metis comp_apply image_comp image_eqI)
    moreover have "nt_event_id e \<notin> pe_id ` set (bt_events t)" using Cons.prems(5)[of e] e by simp
    ultimately show ?thesis unfolding handle_event_ids[OF h] by simp
  qed
  from Cons.IH[OF ok1 l1 rest _ new1] Cons.prems(4) obtain row' where
    l': "locked t' pid = Some row'"
    and r': "(\<exists>e. newest_for row1 (carried pid evs) e \<and> copies st from_iso t e row')
      \<or> ((\<forall>e \<in> carried pid evs. is_stale e row1) \<and> copied row' = copied row1)"
    using copies_cong[OF p1] by auto
  show ?case
  proof (cases "carries pid ev \<and> \<not> is_stale ev row")
    case True
    then have c1: "copies st from_iso t ev row1" using r1 by simp
    have at1: "is_stale e row1 \<longleftrightarrow> nt_occurred_at e < nt_occurred_at ev" for e
      using copies_event_at[OF c1] by (simp add: is_stale_def)
    have E: "carried pid (x # evs) = insert ev (carried pid evs)" using True x by (simp add: carried_Cons)
    have later: "\<not> is_stale e row" if "nt_occurred_at ev \<le> nt_occurred_at e" for e
      using True that by (auto simp: is_stale_def split: option.splits)
    show ?thesis
      using r'
    proof (elim disjE exE conjE)
      fix e assume "newest_for row1 (carried pid evs) e" "copies st from_iso t e row'"
      then show ?thesis
        using l' at1[of e] later[of e] by (intro exI[of _ row'] conjI disjI1 exI[of _ e]) (auto simp: newest_for_def E)
    next
      assume st1: "\<forall>e \<in> carried pid evs. is_stale e row1" and same: "copied row' = copied row1"
      have "copies st from_iso t ev row'" using c1 copied_copies[OF same] by simp
      moreover have "newest_for row (carried pid (x # evs)) ev"
        using True st1 unfolding newest_for_def E at1 by force
      ultimately show ?thesis using l' by blast
    qed
  next
    case False
    then have c1: "copied row1 = copied row" using r1 by simp
    have E: "carried pid (x # evs) = (if carries pid ev then insert ev (carried pid evs) else carried pid evs)"
      using x by (simp add: carried_Cons)
    have st1: "is_stale e row1 = is_stale e row" for e using copied_event_at[OF c1] by simp
    have old: "nt_occurred_at ev \<le> nt_occurred_at e" if "carries pid ev" "\<not> is_stale e row" for e
      using False that by (auto simp: is_stale_def split: option.splits)
    show ?thesis
      using r'
    proof (elim disjE exE conjE)
      fix e assume "newest_for row1 (carried pid evs) e" "copies st from_iso t e row'"
      then show ?thesis
        using l' st1 old[of e] by (intro exI[of _ row'] conjI disjI1 exI[of _ e]) (auto simp: newest_for_def E)
    next
      assume "\<forall>e \<in> carried pid evs. is_stale e row1" "copied row' = copied row1"
      then show ?thesis
        using l' st1 False c1 by (intro exI[of _ row'] conjI disjI2) (auto simp: E)
    qed
  qed
qed

text \<open>C1. However Paddle orders its deliveries, a subscription's row ends up as the newest event about it says:
  its status, plan, period and scheduled cancellation. Events of other subscriptions and failed payments
  in between do not matter, and where every event about it is older than the row, the row is as it was.\<close>

theorem newest_event_wins:
  assumes "billing_ok t" "locked t pid = Some row" "deliver_all st from_iso t evs = Some t'"
    and "distinct (map (nt_event_id \<circ> snd) evs)" "\<forall>ev \<in> snd ` set evs. nt_event_id ev \<notin> pe_id ` set (bt_events t)"
  shows "\<exists>row'. locked t' pid = Some row' \<and>
    (if \<exists>e \<in> carried pid evs. \<not> is_stale e row
     then \<exists>ev \<in> carried pid evs. (\<forall>e \<in> carried pid evs. nt_occurred_at e \<le> nt_occurred_at ev)
       \<and> copies st from_iso t ev row'
     else copied row' = copied row)"
  using deliver_all_row[OF assms(1-4)] assms(5) unfolding newest_for_def by (auto split: if_splits)

definition out_of_order :: "(moment \<times> notification) list" where
  "out_of_order = [(0, sample_event ''evt_3'' ''past_due'' 30), (0, sample_event ''evt_2'' ''active'' 20)]"

definition sub_1_row :: "billing_tables \<Rightarrow> subscription" where
  "sub_1_row t = the (locked t ''sub_1'')"

lemma newest_event_wins_witness:
  "\<exists>row'. locked (the (deliver_all sample_settings no_iso one_subscribed out_of_order)) ''sub_1'' = Some row' \<and>
    (if \<exists>e \<in> carried ''sub_1'' out_of_order. \<not> is_stale e (sub_1_row one_subscribed)
     then \<exists>ev \<in> carried ''sub_1'' out_of_order.
       (\<forall>e \<in> carried ''sub_1'' out_of_order. nt_occurred_at e \<le> nt_occurred_at ev)
       \<and> copies sample_settings no_iso one_subscribed ev row'
     else copied row' = copied (sub_1_row one_subscribed))"
proof (rule newest_event_wins[OF one_subscribed_ok])
  show "locked one_subscribed ''sub_1'' = Some (sub_1_row one_subscribed)" by code_simp
  show "deliver_all sample_settings no_iso one_subscribed out_of_order =
      Some (the (deliver_all sample_settings no_iso one_subscribed out_of_order))" by code_simp
  show "distinct (map (nt_event_id \<circ> snd) out_of_order)" by code_simp
  show "\<forall>ev \<in> snd ` set out_of_order. nt_event_id ev \<notin> pe_id ` set (bt_events one_subscribed)" by code_simp
qed

section \<open>A deleted account stops being charged\<close>

definition cancels :: "paddle_api \<Rightarrow> subscription \<Rightarrow> bool" where
  "cancels api s \<longleftrightarrow>
     (\<exists>entity. cancel_subscription api (the (su_paddle_id s)) = Inr entity \<and> answered_status entity = Inr Canceled)"

text \<open>Paddle's answers across runs: for each run, what it answers and the rows others hold.\<close>

fun cancel_runs :: "(paddle_api \<times> (int \<Rightarrow> bool)) list \<Rightarrow> billing_tables \<Rightarrow> failure + billing_tables" where
  "cancel_runs [] t = Inr t"
| "cancel_runs ((api, held) # rs) t =
     bind_res (cancel_for_deleted api held None t) (\<lambda>(t', c). cancel_runs rs t')"

lemma not_billable_cancelled:
  assumes "cancels api s" shows "\<not> billable (cancel_one api s)"
  using assms
  by (auto simp: cancels_def cancel_one_def billable_def billable_statuses_def live_statuses_def)

lemma cancel_for_deleted_row:
  assumes "billing_ok t" "cancel_for_deleted api held None t = Inr (t', c)" "s \<in> set (bt_subs t)"
    and "is_deleted t (su_user s)" "billable s"
  shows "(if held (su_id s) then s else cancel_one api s) \<in> set (bt_subs t')"
proof -
  have "s \<in> set (to_cancel t held None) \<longleftrightarrow> \<not> held (su_id s)"
    using assms(3-5) by (auto simp: to_cancel_def)
  then show ?thesis
    unfolding cancel_for_deleted_subs(1)[OF assms(1,2)] using assms(3) by force
qed

text \<open>Paddle answers a cancellation with the cancelled subscription, or cannot be reached or refuses.\<close>

definition answers_cancelled :: "paddle_api \<Rightarrow> bool" where
  "answers_cancelled api \<longleftrightarrow>
     (\<forall>sid. case cancel_subscription api sid of
        Inr entity \<Rightarrow> answered_status entity = Inr Canceled
      | Inl (Paddle_error _ _) \<Rightarrow> True
      | Inl (Client_json_error _) \<Rightarrow> False)"

lemma answers_cancelledD:
  "answers_cancelled api \<Longrightarrow> cancel_subscription api sid = Inr entity \<Longrightarrow> answered_status entity = Inr Canceled"
  by (auto simp: answers_cancelled_def split: sum.splits)

lemma cancel_rows_returns:
  "answers_cancelled api \<Longrightarrow> \<exists>t' c'. cancel_rows api t rows c = Inr (t', c')"
proof (induction api t rows c rule: cancel_rows.induct)
  case (2 api t row rows c)
  show ?case
  proof (cases "cancel_subscription api (the (su_paddle_id row))")
    case (Inl e)
    moreover from 2(3) Inl obtain a b where "e = Paddle_error a b"
      by (cases e) (auto simp: answers_cancelled_def split: sum.splits client_error.splits)
    ultimately show ?thesis using 2(1)[of e a b] 2(3) by simp
  next
    case (Inr entity)
    then show ?thesis using 2(2)[OF Inr] 2(3) answers_cancelledD[OF 2(3) Inr] by simp
  qed
qed simp

lemma cancel_one_billable:
  assumes "answers_cancelled api" "billable (cancel_one api s)"
  shows "cancel_one api s = s \<and> \<not> cancels api s"
proof -
  have "\<not> cancels api s" using not_billable_cancelled[of api s] assms(2) by blast
  moreover have "cancel_one api s = s"
    using answers_cancelledD[OF assms(1)] calculation by (auto simp: cancel_one_def cancels_def split: sum.splits)
  ultimately show ?thesis by simp
qed

lemma cancel_runs_rows:
  assumes "billing_ok t" "cancel_runs rs t = Inr t'" "\<forall>(api, held) \<in> set rs. answers_cancelled api"
    and "s' \<in> set (bt_subs t')" "billable s'" "is_deleted t (su_user s')"
  shows "s' \<in> set (bt_subs t) \<and> bt_users t' = bt_users t
    \<and> (\<forall>(api, held) \<in> set rs. held (su_id s') \<or> \<not> cancels api s')"
  using assms
proof (induction rs t rule: cancel_runs.induct)
  case (1 t)
  then show ?case by simp
next
  case (2 api held rs t)
  obtain t1 c where run: "cancel_for_deleted api held None t = Inr (t1, c)" and rest: "cancel_runs rs t1 = Inr t'"
    using "2.prems"(2) by (auto simp: bind_res_Inr_iff)
  note C = cancel_for_deleted_subs[OF "2.prems"(1) run]
  have "is_deleted t1 = is_deleted t" by (simp add: is_deleted_def find_user_def C(2) fun_eq_iff)
  with "2.IH"[OF cancel_for_deleted_ok[OF "2.prems"(1) run] rest] "2.prems"(3-6)
  have s1: "s' \<in> set (bt_subs t1)" and u: "bt_users t' = bt_users t1"
    and others: "\<forall>(api, held) \<in> set rs. held (su_id s') \<or> \<not> cancels api s'" by auto
  from s1 obtain s where s: "s \<in> set (bt_subs t)"
    and s': "s' = (if s \<in> set (to_cancel t held None) then cancel_one api s else s)"
    unfolding C(1) by auto
  have same: "s' = s \<and> (s \<in> set (to_cancel t held None) \<longrightarrow> \<not> cancels api s)"
    using s' cancel_one_billable[of api s] "2.prems"(3,5) by (auto split: if_splits)
  have "is_deleted t (su_user s)" "billable s" using same "2.prems"(5,6) by simp_all
  then have "held (su_id s) \<or> s \<in> set (to_cancel t held None)" using s by (auto simp: to_cancel_def)
  then show ?case using same s u C(2) others by auto
qed

lemma cancel_for_deleted_returns:
  assumes "billing_ok t" "answers_cancelled api"
  shows "\<exists>t' c. cancel_for_deleted api held only t = Inr (t', c)"
proof -
  obtain t' c where r: "cancel_rows api t (to_cancel t held only) \<lparr>ca_plans = [], ca_failed = 0\<rparr> = Inr (t', c)"
    using cancel_rows_returns[OF assms(2)] by blast
  note d = billing_okD(1)[OF assms(1)]
  have S: "bt_subs t' = map (\<lambda>s. if s \<in> set (to_cancel t held only) then cancel_one api s else s) (bt_subs t)"
    using cancel_rows_subs[OF r to_cancel_facts(1)[OF d] d to_cancel_facts(2)[OF d]] by simp
  then have d': "distinct (map su_id (bt_subs t'))" using d by (simp add: comp_def if_distrib cong: if_cong)
  have "s' \<in> set (bt_subs t)" if "s' \<in> set (bt_subs t')" "live_user s' \<noteq> None" for s'
    using that answers_cancelledD[OF assms(2)] unfolding S
    by (auto simp: cancel_one_def live_user_def live_cases split: if_splits sum.splits)
  then have "unique_by live_user (set (bt_subs t'))"
    using billing_okD(4)[OF assms(1)] unfolding unique_by_def by (metis (no_types, lifting))
  then show ?thesis using r one_live_unique[OF d'] by (simp add: cancel_for_deleted_def)
qed

lemma cancel_runs_return:
  "billing_ok t \<Longrightarrow> \<forall>(api, held) \<in> set rs. answers_cancelled api \<Longrightarrow> \<exists>t'. cancel_runs rs t = Inr t'"
proof (induction rs t rule: cancel_runs.induct)
  case (2 api held rs t)
  obtain t1 c where "cancel_for_deleted api held None t = Inr (t1, c)"
    using cancel_for_deleted_returns[of t api held None] 2(2,3) by auto
  then show ?case using 2(1)[of t1] cancel_for_deleted_ok 2(2,3) by simp
qed simp

text \<open>C3. A deleted account stops being charged: the hourly runs always finish and, once each subscription Paddle
  may still charge it for has met one run that found it unlocked and Paddle reachable, none is left, and
  nothing holds the account back from its purge. A run that reached none of them loses nothing.\<close>

theorem deleted_account_stops_paying:
  assumes "billing_ok t" "\<forall>(api, held) \<in> set rs. answers_cancelled api" "is_deleted t u"
    and "\<forall>s \<in> set (bt_subs t). su_user s = u \<and> billable s \<longrightarrow>
      (\<exists>(api, held) \<in> set rs. \<not> held (su_id s) \<and> cancels api s)"
  shows "\<exists>t'. cancel_runs rs t = Inr t' \<and> \<not> still_billing t' u"
proof -
  obtain t' where run: "cancel_runs rs t = Inr t'" using cancel_runs_return[OF assms(1,2)] by blast
  have "\<not> billable s'" if "s' \<in> set (bt_subs t')" "su_user s' = u" for s'
  proof
    assume "billable s'"
    from cancel_runs_rows[OF assms(1) run assms(2) that(1) this] assms(3) that(2)
    have "s' \<in> set (bt_subs t)" "\<forall>(api, held) \<in> set rs. held (su_id s') \<or> \<not> cancels api s'" by auto
    then show False using assms(4) that(2) \<open>billable s'\<close> by fastforce
  qed
  then show ?thesis using run by (auto simp: still_billing_def list_ex_iff)
qed

definition sample_paddle :: paddle_api where
  "sample_paddle verb path body = Response 200 (Some (JObj [(''data'', JObj [(''status'', JStr ''canceled'')])]))"

definition paddle_down :: paddle_api where
  "paddle_down verb path body = Unreached"

lemma sample_paddle_cancels:
  "cancel_subscription sample_paddle sid = Inr (JObj [(''status'', JStr ''canceled'')])"
  "cancel_subscription paddle_down sid = Inl (Paddle_error None JNull)"
  by (simp_all add: cancel_subscription_def paddle_post_def paddle_call_def sample_paddle_def paddle_down_def
      is_error_status_def j_get_def dict_get_def lift_json_def)

lemma sample_answer: "answered_status (JObj [(''status'', JStr ''canceled'')]) = Inr Canceled"
  by code_simp

lemma deleted_account_stops_paying_witness:
  "\<exists>t'. cancel_runs [(paddle_down, \<lambda>i. False), (sample_paddle, \<lambda>i. False)] (mark_user 7 (Some 60) one_subscribed) = Inr t'
    \<and> \<not> still_billing t' 7"
proof (rule deleted_account_stops_paying)
  show "billing_ok (mark_user 7 (Some 60) one_subscribed)" by (rule mark_user_ok[OF one_subscribed_ok])
  show "is_deleted (mark_user 7 (Some 60) one_subscribed) 7" by code_simp
qed (auto simp: answers_cancelled_def cancels_def sample_paddle_cancels sample_answer)

end
