(* ===== verification/Dunning.thy ===== *)
theory Dunning
  imports Subscriptions
begin

text \<open>
  One failed payment, from its first email to the end of its grace: each email goes at most once, the
  plan is kept until the grace ends and not after, and a delivery order in which a paid account stays
  marked unpaid.
\<close>

section \<open>Each email at most once\<close>

fun mail_is :: "int \<Rightarrow> dunning_step \<Rightarrow> bill_mail \<Rightarrow> bool" where
  "mail_is u k (Payment_failed_mail _ v _ _) = (v = u \<and> k = Payment_failed)"
| "mail_is u k (Grace_ending_mail _ v _ _) = (v = u \<and> k = Grace_ending)"
| "mail_is u k (Downgraded_mail _ v _) = (v = u \<and> k = Downgraded)"
| "mail_is u k (Recovered_mail _ v _) = False"

fun step_rank :: "dunning_step \<Rightarrow> nat" where
  "step_rank Payment_failed = 1"
| "step_rank Grace_ending = 2"
| "step_rank Downgraded = 3"

definition rank :: "dunning_step option \<Rightarrow> nat" where
  "rank n = (case n of None \<Rightarrow> 0 | Some k \<Rightarrow> step_rank k)"

fun run_mails :: "bill_settings \<Rightarrow> (string \<Rightarrow> iso_time) \<Rightarrow> billing_tables \<Rightarrow> billing_op list \<Rightarrow> bill_mail list" where
  "run_mails st from_iso t [] = []"
| "run_mails st from_iso t (e # es) =
     snd (billing_step st from_iso t e) @ run_mails st from_iso (next_tables st from_iso t e) es"

text \<open>A row whose payment has failed and is not paid yet.\<close>

definition failing :: "billing_tables \<Rightarrow> int \<Rightarrow> subscription \<Rightarrow> bool" where
  "failing t i s \<longleftrightarrow> s \<in> set (bt_subs t) \<and> su_id s = i \<and> su_past_due_since s \<noteq> None"

fun failing_all_along :: "bill_settings \<Rightarrow> (string \<Rightarrow> iso_time) \<Rightarrow> int \<Rightarrow> billing_tables \<Rightarrow> billing_op list \<Rightarrow> bool" where
  "failing_all_along st from_iso i t [] \<longleftrightarrow> list_ex (failing t i) (bt_subs t)"
| "failing_all_along st from_iso i t (e # es) \<longleftrightarrow>
     list_ex (failing t i) (bt_subs t) \<and> failing_all_along st from_iso i (next_tables st from_iso t e) es"

lemma failing_unique: "billing_ok t \<Longrightarrow> failing t i s \<Longrightarrow> x \<in> set (bt_subs t) \<Longrightarrow> su_id x = i \<Longrightarrow> x = s"
  using billing_okD(1)[of t] by (auto simp: failing_def distinct_map inj_on_def)

lemma failing_live: "billing_ok t \<Longrightarrow> failing t i s \<Longrightarrow> is_live_row s"
  using billing_okD(5)[of t s] by (simp add: failing_def dunning_wf_def)

lemma failing_only_live:
  assumes "billing_ok t" "failing t i s" "x \<in> set (bt_subs t)" "is_live_row x" "su_user x = su_user s"
  shows "x = s"
  using billing_okD(4)[OF assms(1)] failing_live[OF assms(1,2)] assms(2-5)
  by (auto simp: failing_def unique_by_def live_user_def)

text \<open>What one step does to a row that is failing before and after it.\<close>

definition sends_once :: "subscription \<Rightarrow> subscription \<Rightarrow> bill_mail list \<Rightarrow> bool" where
  "sends_once s s' mails \<longleftrightarrow>
     su_user s' = su_user s \<and> rank (su_notified s) \<le> rank (su_notified s')
     \<and> (\<forall>k. length (filter (mail_is (su_user s) k) mails) \<le>
           (if rank (su_notified s) < step_rank k \<and> step_rank k \<le> rank (su_notified s') then 1 else 0))"

lemma sends_once_quiet:
  assumes "su_user s' = su_user s" "su_notified s' = su_notified s" "\<And>k m. m \<in> set mails \<Longrightarrow> \<not> mail_is (su_user s) k m"
  shows "sends_once s s' mails"
proof -
  have "filter (mail_is (su_user s) k) mails = []" for k using assms(3) by (simp add: filter_empty_conv)
  then show ?thesis using assms(1,2) by (simp add: sends_once_def)
qed

lemma start_dunning_mail:
  assumes "start_dunning st row (find_user t (su_user row)) p m = (r, mails)" "x \<in> set mails"
  shows "\<not> mail_is u k x \<or> u = su_user row"
proof -
  have "find_user t (su_user row) = Some y \<Longrightarrow> au_id y = su_user row" for y
    using find_SomeD by (fastforce simp: find_user_def)
  then show ?thesis
    using assms by (auto simp: start_dunning_def Let_def split: option.splits if_splits)
qed

lemma dunning_after_mail:
  assumes "dunning_after st (find_user t (su_user row)) p m previous row = (r, mails)" "x \<in> set mails" "mail_is u k x"
  shows "u = su_user row \<and> su_status row = Past_due \<and> su_past_due_since row = None"
proof (cases "su_status row = Past_due \<and> su_past_due_since row = None")
  case True
  then have "start_dunning st row (find_user t (su_user row)) p m = (r, mails)"
    using assms(1) by (simp add: dunning_after_def)
  from start_dunning_mail[OF this assms(2)] True assms(3) show ?thesis by blast
next
  case False
  then have "\<not> mail_is u k x"
    using assms(1,2) by (auto simp: dunning_after_def paid_statuses_def split: if_splits option.splits)
  then show ?thesis using assms(3) by simp
qed

lemma dunning_after_kept:
  assumes "dunning_after st usr p m previous row = (r, mails)"
    and "su_past_due_since row \<noteq> None" "su_past_due_since r \<noteq> None"
  shows "r = row \<and> mails = []"
  using assms by (auto simp: dunning_after_def split: if_splits)

lemma apply_subscription_sends:
  assumes "billing_ok t" "failing t i s" "apply_subscription st from_iso now t ev = Inr (t', h)" "failing t' i s'"
  shows "sends_once s s' (hd_mail h)"
  using assms(3)
proof (rule apply_subscription_cases)
  fix pid status p new row
  assume found: "row_for t pid (nt_data ev) status p now = Inr (Some (new, row))"
    and app: "apply_row st from_iso t ev pid status p (new, row) = Inr (t', h)"
  have ok': "billing_ok t'" by (rule apply_row_ok[OF assms(1) found app])
  note F = row_for_cases[OF found]
  from app show ?thesis
  proof (rule apply_row_cases)
    fix r r' mails
    assume alone: "status \<in> set live_statuses \<Longrightarrow> other_live t (su_user row) pid = None"
      and m: "mirror from_iso t ev status p new row = Inr r" and t': "t' = put_row t new r'"
      and d: "dunning_after st (find_user t (su_user row)) p (nt_occurred_at ev)
        (if new then None else Some (su_status row)) r = (r', mails)"
      and h: "h = \<lparr>hd_outcome = Applied, hd_duplicate = False, hd_users = {su_user row}, hd_mail = mails\<rparr>"
    note G = mirror_fields[OF m] dunning_after_fields[OF d]
    show ?thesis
    proof (cases "su_id row = i \<and> \<not> new")
      case True
      then have "row = s" using failing_unique[OF assms(1,2)] F(2) by simp
      moreover have "r' \<in> set (bt_subs t')"
        using True F(2) G put_row_old[OF billing_okD(1)[OF assms(1)], of r'] unfolding t' by auto
      then have "s' = r'" using failing_unique[OF ok' assms(4)] True G by simp
      ultimately have "r' = r \<and> mails = []"
        using assms(2,4) G d by (intro dunning_after_kept[OF d]) (auto simp: failing_def)
      then show ?thesis using \<open>row = s\<close> \<open>s' = r'\<close> G h by (intro sends_once_quiet) simp_all
    next
      case False
      have s: "s \<in> set (bt_subs t)" "su_id s = i" using assms(2) by (simp_all add: failing_def)
      have apart: "su_id s \<noteq> su_id r'"
        using False F(2) G s billing_okD(2)[OF assms(1) s(1)] by (cases new) auto
      have "s \<in> set (bt_subs t')"
        using s apart F(2) G put_row_old[OF billing_okD(1)[OF assms(1)], of r'] unfolding t'
        by (cases new) (auto simp: put_row_new)
      then have "s' = s" using failing_unique[OF ok' assms(4)] s(2) by simp
      moreover have "\<not> mail_is (su_user s) k x" if x: "x \<in> set mails" for k x
      proof
        assume k: "mail_is (su_user s) k x"
        have "find_user t (su_user row) = find_user t (su_user r)" using G by simp
        from dunning_after_mail[OF d[unfolded this] x k]
        have u: "su_user s = su_user row" "status = Past_due" using G by simp_all
        have "su_paddle_id s \<noteq> Some pid"
          using F s apart G billing_okD(3)[OF assms(1)]
          by (cases new) (auto simp: locked_def find_None_iff unique_by_def)
        then show False
          using alone u s failing_live[OF assms(1,2)] by (auto simp: live_cases other_live_def find_None_iff)
      qed
      ultimately show ?thesis using h by (intro sends_once_quiet) auto
    qed
  qed
next
  fix pid row assume "t' = t" "h = nothing_done Stale"
  then show ?thesis using failing_unique[OF assms(1,2)] assms(4) by (intro sends_once_quiet) (auto simp: failing_def)
next
  fix pid assume "t' = t" "h = nothing_done Unmatched"
  then show ?thesis using failing_unique[OF assms(1,2)] assms(4) by (intro sends_once_quiet) (auto simp: failing_def)
qed

lemma apply_payment_failed_sends:
  assumes "billing_ok t" "failing t i s" "apply_payment_failed st t ev = Inr (t', h)" "failing t' i s'"
  shows "sends_once s s' (hd_mail h)"
  using apply_payment_failed_cases[OF assms(3)]
proof (elim disjE exE conjE)
  fix sid row p row' mails
  assume l: "locked t sid = Some row" and none: "su_past_due_since row = None" and live: "is_live_row row"
    and t': "t' = put_row t False row'" and mails: "hd_mail h = mails"
    and d: "start_dunning st row (find_user t (su_user row)) p (nt_occurred_at ev) = (row', mails)"
  note F = start_dunning_fields[OF d]
  have row: "row \<in> set (bt_subs t)" using l locked_iff[OF assms(1)] by simp
  have ne: "row \<noteq> s" using none assms(2) by (auto simp: failing_def)
  then have "su_id row \<noteq> i" using failing_unique[OF assms(1,2) row] by blast
  then have "su_id s \<noteq> su_id row'" using assms(2) F(1) by (simp add: failing_def)
  moreover have "set (bt_subs t') = insert row' {x \<in> set (bt_subs t). su_id x \<noteq> su_id row'}"
    unfolding t' using row F(1) by (intro put_row_old[OF billing_okD(1)[OF assms(1)]]) force
  ultimately have "s \<in> set (bt_subs t')" using assms(2) by (simp add: failing_def)
  then have "s' = s"
    using failing_unique[OF apply_payment_failed_ok[OF assms(1,3)] assms(4)] assms(2) by (simp add: failing_def)
  moreover have "su_user row \<noteq> su_user s" using failing_only_live[OF assms(1,2) row live] ne by blast
  ultimately show ?thesis
    using start_dunning_mail[OF d] mails by (intro sends_once_quiet) auto
next
  assume "t' = t" "hd_mail h = []"
  then show ?thesis using failing_unique[OF assms(1,2)] assms(4) by (intro sends_once_quiet) (auto simp: failing_def)
qed

lemma failing_cong: "bt_subs t' = bt_subs t \<Longrightarrow> failing t' i s = failing t i s"
  by (simp add: failing_def)

lemma handle_event_sends:
  assumes "billing_ok t" "failing t i s" "handle_event st from_iso now t ev = Inr (t', h)" "failing t' i s'"
  shows "sends_once s s' (hd_mail h)"
proof (cases "nt_event_id ev \<in> pe_id ` set (bt_events t)")
  case True
  then have "t' = t" "hd_mail h = []" using assms(3) by (auto simp: handle_event_def claim_event_def)
  then show ?thesis using failing_unique[OF assms(1,2)] assms(4) by (intro sends_once_quiet) (auto simp: failing_def)
next
  case False
  from assms(3) False assms(1) show ?thesis
  proof (rule handle_event_new)
    fix t1 t2
    assume ok: "billing_ok t1" and s1: "bt_subs t1 = bt_subs t"
      and t': "t' = set_outcome (nt_event_id ev) (hd_outcome h) t2"
      and step: "if nt_event_type ev \<in> set subscription_events then apply_subscription st from_iso now t1 ev = Inr (t2, h)
       else if nt_event_type ev = payment_failed_event then apply_payment_failed st t1 ev = Inr (t2, h)
       else t2 = t1 \<and> h = nothing_done Ignored"
    have f1: "failing t1 i s" using assms(2) failing_cong[OF s1] by simp
    have f2: "failing t2 i s'" using assms(4) unfolding t' by (simp add: failing_def)
    show ?thesis
    proof (cases "t2 = t1 \<and> h = nothing_done Ignored")
      case True
      then have "s' = s" using failing_unique[OF ok f1] f2 by (simp add: failing_def)
      then show ?thesis using True by (intro sends_once_quiet) simp_all
    next
      case False
      then have "apply_subscription st from_iso now t1 ev = Inr (t2, h) \<or> apply_payment_failed st t1 ev = Inr (t2, h)"
        using step by (simp split: if_split_asm)
      then show ?thesis
        using apply_subscription_sends[OF ok f1 _ f2] apply_payment_failed_sends[OF ok f1 _ f2] by blast
    qed
  qed
qed

text \<open>The dunning job.\<close>

lemma map_filter_au: "x \<in> set (recipients t rows) \<Longrightarrow> fst x \<in> set (bt_users t)"
  by (auto simp: recipients_def List.map_filter_def find_user_def split: option.splits if_splits dest: find_SomeD)

lemma find_user_id: "find_user t u = Some x \<Longrightarrow> au_id x = u"
  unfolding find_user_def by (drule find_SomeD) simp

lemma recipients_Cons:
  "recipients t (r # rows) =
     (case (find_user t (su_user r), find_plan t (su_plan r), su_grace_ends_at r) of
        (Some u, Some p, Some e) \<Rightarrow> if mailable (Some u) then [(u, p, e)] else []
      | _ \<Rightarrow> []) @ recipients t rows"
  by (simp add: recipients_def List.map_filter_simps split: option.split)

lemma recipients_count:
  "length (filter (\<lambda>(x, _). au_id x = u) (recipients t rows)) \<le> length (filter (\<lambda>r. su_user r = u) rows)"
proof (induction rows)
  case (Cons r rows)
  then show ?case by (auto simp: recipients_Cons find_user_id split: option.split)
qed (simp add: recipients_def List.map_filter_simps)

lemma all_same_length: "distinct xs \<Longrightarrow> (\<And>x. x \<in> set xs \<Longrightarrow> x = s) \<Longrightarrow> length xs \<le> (if s \<in> set xs then 1 else 0)"
  by (cases xs; cases "tl xs") auto

lemma due_rows_of_user:
  assumes "billing_ok t" "failing t i s" "\<And>r. due r \<Longrightarrow> is_live_row r"
  shows "length (filter (\<lambda>r. su_user r = su_user s) (filter due (bt_subs t))) \<le> (if due s then 1 else 0)"
proof -
  let ?xs = "filter (\<lambda>r. su_user r = su_user s) (filter due (bt_subs t))"
  have "distinct ?xs" using billing_okD(1)[OF assms(1)] by (simp add: distinct_map)
  moreover have "x = s" if "x \<in> set ?xs" for x
    using failing_only_live[OF assms(1,2)] that assms(3) by simp
  ultimately have "length ?xs \<le> (if s \<in> set ?xs then 1 else 0)" by (rule all_same_length)
  then show ?thesis by (cases "due s") (simp_all split: if_splits)
qed

lemma run_dunning_mail:
  "dr_mail (snd (run_dunning st now t)) =
     map (\<lambda>(u, p, e). Grace_ending_mail (au_email u) (au_id u) (pl_name p) e) (recipients t (filter (remind_due st now) (bt_subs t)))
     @ map (\<lambda>(u, p, e). Downgraded_mail (au_email u) (au_id u) (pl_name p)) (recipients t (filter (downgrade_due now) (bt_subs t)))"
proof -
  have e: "recipients (t\<lparr>bt_subs := x\<rparr>) = recipients t" for x
    by (simp add: fun_eq_iff recipients_def find_user_def find_plan_def)
  have "filter (downgrade_due now) (map (\<lambda>r. if remind_due st now r then r\<lparr>su_notified := Some Grace_ending\<rparr> else r) xs) =
      filter (downgrade_due now) xs" for xs
    by (induction xs) (auto simp: remind_due_def downgrade_due_def in_dunning_def)
  then show ?thesis by (simp add: run_dunning_def claim_step_def Let_def e)
qed

lemma filter_mails:
  "filter (mail_is u k) (map (\<lambda>(x, p, e). Grace_ending_mail (au_email x) (au_id x) (pl_name p) e) rs) =
     (if k = Grace_ending then map (\<lambda>(x, p, e). Grace_ending_mail (au_email x) (au_id x) (pl_name p) e) (filter (\<lambda>(x, _). au_id x = u) rs) else [])"
  "filter (mail_is u k) (map (\<lambda>(x, p, e). Downgraded_mail (au_email x) (au_id x) (pl_name p)) rs) =
     (if k = Downgraded then map (\<lambda>(x, p, e). Downgraded_mail (au_email x) (au_id x) (pl_name p)) (filter (\<lambda>(x, _). au_id x = u) rs) else [])"
  by (induction rs) auto

lemma run_dunning_sends:
  assumes "billing_ok t" "failing t i s" "failing (fst (run_dunning st now t)) i s'"
  shows "sends_once s s' (dr_mail (snd (run_dunning st now t)))"
proof -
  have "after_job st now s \<in> set (bt_subs (fst (run_dunning st now t)))"
    using assms(2) by (simp add: run_dunning_subs failing_def)
  then have s': "s' = after_job st now s"
    using failing_unique[OF run_dunning_ok[OF assms(1)] assms(3)] assms(2) by (simp add: failing_def)
  have c: "length (filter (\<lambda>(x, _). au_id x = su_user s) (recipients t (filter due (bt_subs t)))) \<le> (if due s then 1 else 0)"
    if "\<And>r. due r \<Longrightarrow> is_live_row r" for due
    using recipients_count[of "su_user s" t "filter due (bt_subs t)"] due_rows_of_user[OF assms(1,2), of due, OF that] by (rule order.trans)
  have remind: "rank (su_notified s) < 2" if "remind_due st now s"
    using that by (auto simp: remind_due_def rank_def)
  have downgrade: "rank (su_notified s) < 3" if "downgrade_due now s"
    using that by (cases "su_notified s"; cases "the (su_notified s)") (auto simp: downgrade_due_def rank_def)
  have "is_live_row r" if "remind_due st now r \<or> downgrade_due now r" for r
    using that by (auto simp: remind_due_def downgrade_due_def in_dunning_def)
  then have "length (filter (mail_is (su_user s) k) (dr_mail (snd (run_dunning st now t)))) \<le>
      (if k = Grace_ending \<and> remind_due st now s \<or> k = Downgraded \<and> downgrade_due now s then 1 else 0)" for k
    using c[of "remind_due st now"] c[of "downgrade_due now"]
    by (cases k) (simp_all add: run_dunning_mail filter_mails)
  then have sent: "length (filter (mail_is (su_user s) k) (dr_mail (snd (run_dunning st now t)))) \<le>
      (if k = Grace_ending \<and> remind_due st now s \<or> k = Downgraded \<and> downgrade_due now s then 1 else 0)" for k .
  show ?thesis
  proof (cases "remind_due st now s \<or> downgrade_due now s")
    case True
    then obtain k where k: "su_notified s' = Some k" "rank (su_notified s) < step_rank k"
      "\<And>k'. (k' = Grace_ending \<and> remind_due st now s \<or> k' = Downgraded \<and> downgrade_due now s) = (k' = k)"
      using remind downgrade due_apart[of st now s] unfolding s' after_job_def by (cases "remind_due st now s") auto
    have "length (filter (mail_is (su_user s) k') (dr_mail (snd (run_dunning st now t)))) \<le>
        (if rank (su_notified s) < step_rank k' \<and> step_rank k' \<le> rank (su_notified s') then 1 else 0)" for k'
      using sent[of k'] k(1,2) unfolding k(3) by (auto simp: rank_def split: if_splits)
    then show ?thesis using k(1,2) s' by (auto simp: sends_once_def rank_def)
  next
    case False
    then have "filter (mail_is (su_user s) k) (dr_mail (snd (run_dunning st now t))) = []" for k
      using sent[of k] by simp
    then show ?thesis using False s' by (simp add: sends_once_def after_job_def)
  qed
qed

lemma billing_step_sends:
  assumes "billing_ok t" "failing t i s" "failing (next_tables st from_iso t e) i s'"
  shows "sends_once s s' (snd (billing_step st from_iso t e))"
proof (cases e)
  case (Webhook now ev)
  show ?thesis
  proof (cases "handle_event st from_iso now t ev")
    case (Inl x)
    then have "failing t i s'" using assms(3) Webhook by (simp add: webhook_step_def)
    then have "s' = s" using failing_unique[OF assms(1,2)] by (simp add: failing_def)
    then show ?thesis using Inl Webhook by (intro sends_once_quiet) (simp_all add: webhook_step_def)
  next
    case (Inr y)
    obtain t' h where y: "handle_event st from_iso now t ev = Inr (t', h)" using Inr by (cases y) simp
    then have "failing t' i s'" using assms(3) Webhook by (simp add: webhook_step_def)
    from handle_event_sends[OF assms(1,2) y this] show ?thesis using y Webhook by (simp add: webhook_step_def)
  qed
next
  case (Dunning_job now)
  then show ?thesis
    using assms(3) run_dunning_sends[OF assms(1,2), of st now s'] by (cases "run_dunning st now t") simp
next
  case (Cancel_job api held only)
  show ?thesis
  proof (cases "cancel_for_deleted api held only t")
    case (Inl x)
    then show ?thesis using Cancel_job assms(3) failing_unique[OF assms(1,2)]
      by (intro sends_once_quiet) (auto simp: failing_def)
  next
    case (Inr y)
    obtain t' c where y: "cancel_for_deleted api held only t = Inr (t', c)" using Inr by (cases y) simp
    then have f: "failing t' i s'" using assms(3) Cancel_job by simp
    obtain x where x: "x \<in> set (bt_subs t)"
      and sx: "s' = (if x \<in> set (to_cancel t held only) then cancel_one api x else x)"
      using f unfolding failing_def cancel_for_deleted_subs(1)[OF assms(1) y] by auto
    have "su_id x = i" using f sx by (auto simp: failing_def split: if_splits)
    then have "x = s" using failing_unique[OF assms(1,2) x] by simp
    moreover have "s' = x"
      using f sx by (auto simp: failing_def cancel_one_def split: if_splits sum.splits)
    ultimately show ?thesis using Cancel_job y by (intro sends_once_quiet) simp_all
  qed
next
  case (Mark_user u d)
  then show ?thesis using assms(3) failing_unique[OF assms(1,2)]
    by (intro sends_once_quiet) (auto simp: failing_def mark_user_def)
qed

lemma failing_all_along_now:
  "failing_all_along st from_iso i t es \<Longrightarrow> \<exists>s. failing t i s"
  by (cases es) (auto simp: list_ex_iff)

lemma run_mails_bound:
  assumes "billing_ok t" "failing_all_along st from_iso i t es" "failing t i s"
  shows "length (filter (mail_is (su_user s) k) (run_mails st from_iso t es)) \<le>
    (if rank (su_notified s) < step_rank k then 1 else 0)"
  using assms
proof (induction es arbitrary: t s)
  case (Cons e es)
  let ?t1 = "next_tables st from_iso t e"
  from Cons.prems(2) have rest: "failing_all_along st from_iso i ?t1 es" by simp
  obtain s1 where s1: "failing ?t1 i s1" using failing_all_along_now[OF rest] by blast
  note once = billing_step_sends[OF Cons.prems(1,3) s1]
  then have "su_user s1 = su_user s" by (simp add: sends_once_def)
  with Cons.IH[OF billing_step_ok[OF Cons.prems(1)] rest s1]
  have "length (filter (mail_is (su_user s) k) (run_mails st from_iso ?t1 es)) \<le>
      (if rank (su_notified s1) < step_rank k then 1 else 0)" by simp
  moreover have "length (filter (mail_is (su_user s) k) (snd (billing_step st from_iso t e))) \<le>
      (if rank (su_notified s) < step_rank k \<and> step_rank k \<le> rank (su_notified s1) then 1 else 0)"
    "rank (su_notified s) \<le> rank (su_notified s1)"
    using once by (auto simp: sends_once_def)
  ultimately show ?case by (simp split: if_splits)
qed simp

text \<open>C5. For as long as a payment stays unpaid its owner gets each dunning email at most once, and none of a step
  already passed, whatever runs of the job, deliveries and repeats happen meanwhile.\<close>

theorem dunning_mail_once:
  assumes "billing_ok t" "failing_all_along st from_iso i t es" "failing t i s"
  shows "length (filter (mail_is (su_user s) k) (run_mails st from_iso t es)) \<le> 1
    \<and> (step_rank k \<le> rank (su_notified s) \<longrightarrow> filter (mail_is (su_user s) k) (run_mails st from_iso t es) = [])"
  using run_mails_bound[OF assms, of k] by (auto split: if_splits)

definition sample_failed :: "string \<Rightarrow> moment \<Rightarrow> notification" where
  "sample_failed eid m =
     \<lparr>nt_event_id = eid, nt_event_type = payment_failed_event, nt_occurred_at = m,
       nt_data = [(''id'', JStr ''txn_1''), (''subscription_id'', JStr ''sub_1''), (''origin'', JStr renewal_origin)]\<rparr>"

definition one_failing :: billing_tables where
  "one_failing = sample_deliver one_subscribed (sample_failed ''evt_5'' 40)"

definition sample_ops :: "billing_op list" where
  "sample_ops = [Dunning_job (6 * day_us), Dunning_job (6 * day_us), Webhook 0 (sample_event ''evt_6'' ''past_due'' 50),
     Dunning_job (8 * day_us), Dunning_job (9 * day_us)]"

lemma one_failing_ok: "billing_ok one_failing"
proof -
  have "next_tables sample_settings no_iso one_subscribed (Webhook 0 (sample_failed ''evt_5'' 40)) = one_failing"
    by (simp add: one_failing_def)
  then show ?thesis using billing_step_ok[OF one_subscribed_ok] by metis
qed

lemma dunning_mail_once_witness:
  "length (filter (mail_is 7 Downgraded) (run_mails sample_settings no_iso one_failing sample_ops)) \<le> 1
    \<and> filter (mail_is 7 Payment_failed) (run_mails sample_settings no_iso one_failing sample_ops) = []"
proof -
  have r: "su_user (sub_1_row one_failing) = 7" "su_notified (sub_1_row one_failing) = Some Payment_failed" by code_simp+
  have f: "failing one_failing 1 (sub_1_row one_failing)" by code_simp
  have a: "failing_all_along sample_settings no_iso 1 one_failing sample_ops" by code_simp
  have "step_rank Payment_failed \<le> rank (Some Payment_failed)" by code_simp
  then show ?thesis
    using dunning_mail_once[OF one_failing_ok a f, of Downgraded] dunning_mail_once[OF one_failing_ok a f, of Payment_failed]
    unfolding r by blast
qed

section \<open>The grace, as a user's grant sees it\<close>

text \<open>The row \<open>grant_for\<close> joins, of a subscription and its own entitlements.\<close>

definition as_row :: "(int \<Rightarrow> value_dict) \<Rightarrow> subscription \<Rightarrow> subscription_row" where
  "as_row own s = \<lparr>sb_user = su_user s, sb_plan_id = su_plan s, sb_status = su_status s,
     sb_cancel_at = su_cancel_at s, sb_grace_ends_at = su_grace_ends_at s,
     sb_grandfathered = su_grandfathered s, sb_created_at = su_created_at s, sb_values = own (su_id s)\<rparr>"

lemma filter_single:
  "distinct xs \<Longrightarrow> s \<in> set xs \<Longrightarrow> (\<And>x. x \<in> set xs \<Longrightarrow> P x \<longleftrightarrow> x = s) \<Longrightarrow> filter P xs = [s]"
proof (induction xs)
  case (Cons x xs)
  show ?case
  proof (cases "x = s")
    case True
    then have "filter P xs = []" using Cons.prems by (auto simp: filter_empty_conv)
    then show ?thesis using True Cons.prems(3)[of x] by simp
  next
    case False
    then have "filter P xs = [s]" using Cons by (intro Cons.IH) auto
    then show ?thesis using False Cons.prems(3)[of x] by simp
  qed
qed simp

lemma live_rows_of:
  assumes "billing_ok t" "s \<in> set (bt_subs t)" "is_live_row s"
  shows "filter (\<lambda>r. sb_user r = su_user s \<and> subscription_is_live now r) (map (as_row own) (bt_subs t)) =
    (if subscription_is_live now (as_row own s) then [as_row own s] else [])"
proof -
  have x: "x = s" if "x \<in> set (bt_subs t)" "su_user x = su_user s" "subscription_is_live now (as_row own x)" for x
    using billing_okD(4)[OF assms(1)] assms(2,3) that
    by (auto simp: unique_by_def live_user_def subscription_is_live_def as_row_def)
  let ?P = "\<lambda>r. sb_user (as_row own r) = su_user s \<and> subscription_is_live now (as_row own r)"
  have "filter ?P (bt_subs t) = (if subscription_is_live now (as_row own s) then [s] else [])"
  proof (cases "subscription_is_live now (as_row own s)")
    case True
    then have "filter ?P (bt_subs t) = [s]"
      using x assms(2) billing_okD(1)[OF assms(1)] by (intro filter_single) (auto simp: distinct_map as_row_def)
    then show ?thesis using True by simp
  next
    case False
    then have "filter ?P (bt_subs t) = []" using x by (auto simp: filter_empty_conv as_row_def)
    then show ?thesis using False by simp
  qed
  then show ?thesis by (simp add: filter_map comp_def)
qed

text \<open>C6. An unpaid renewal keeps its plan until its grace ends and not a moment longer, with no job needed: before
  the end the user's grant is the plan with the end as its own, from the end on there is no grant and every
  key resolves as for the free plan. The join never finds two live subscriptions.\<close>

theorem grace_keeps_then_ends_plan:
  assumes "billing_ok t" "failing t i s" "su_grace_ends_at s = Some e" "su_cancel_at s = None"
    and "users (su_user s) = Some created" "slug_of (su_plan s) = Some slug"
    and "\<forall>v \<in> set ovs. ov_user v \<noteq> su_user s"
  shows "\<exists>g. grant_for slug_of users (map (as_row own) (bt_subs t)) ovs (su_user s) now = Inr g
    \<and> (if now < e then \<exists>gr. g = Some gr \<and> gr_plan gr = Some slug \<and> gr_ends_at gr = Some e
       else g = None \<and> (\<forall>c key. resolve c g key now = free_value c key))"
proof -
  have live: "is_live_row s" by (rule failing_live[OF assms(1,2)])
  have "s \<in> set (bt_subs t)" using assms(2) by (simp add: failing_def)
  note rows = live_rows_of[OF assms(1) this live, of now own]
  have no_ov: "filter (\<lambda>v. ov_user v = su_user s \<and> override_is_live now v) ovs = []"
    using assms(7) by (auto simp: filter_empty_conv)
  have "subscription_is_live now (as_row own s) \<longleftrightarrow> now < e"
    using live assms(3,4) by (auto simp: subscription_is_live_def as_row_def)
  then show ?thesis
    using assms(3-6) by (cases "now < e")
      (simp_all add: grant_for_def rows no_ov Let_def as_row_def sql_least_def resolve_def)
qed

lemma grace_keeps_then_ends_plan_witness:
  "\<exists>g. grant_for (\<lambda>p. Some ''pro'') (\<lambda>u. Some 3) (map (as_row (\<lambda>i. [])) (bt_subs one_failing)) [] 7 (7 * day_us + 40) = Inr g
    \<and> (if 7 * day_us + 40 < 7 * day_us + (40 :: int)
       then \<exists>gr. g = Some gr \<and> gr_plan gr = Some ''pro'' \<and> gr_ends_at gr = Some (7 * day_us + 40)
       else g = None \<and> (\<forall>c key. resolve c g key (7 * day_us + 40) = free_value c key))"
proof -
  have r: "su_user (sub_1_row one_failing) = 7" "su_grace_ends_at (sub_1_row one_failing) = Some (7 * day_us + 40)"
    "su_cancel_at (sub_1_row one_failing) = None" "failing one_failing 1 (sub_1_row one_failing)" by code_simp+
  show ?thesis
    using grace_keeps_then_ends_plan[OF one_failing_ok r(4,2,3), where users = "\<lambda>u. Some 3" and slug_of = "\<lambda>p. Some ''pro''"
      and own = "\<lambda>i. []" and ovs = "[]" and now = "7 * day_us + 40" and created = 3 and slug = "''pro''"]
    unfolding r(1) by simp
qed

section \<open>A delivery order that leaves a paid account unpaid\<close>

text \<open>
  A renewal fails, turns past due and is paid. Delivered in that order, paying ends the dunning. But where the
  event that turned it past due arrives last, it is older than the row and changes nothing: the row was never
  \<open>past_due\<close>, so paying did not end the dunning the failed payment began, and no later event of the active
  subscription does. When the grace ends the account that paid is on the free plan.
\<close>

definition in_order :: "notification list" where
  "in_order = [sample_failed ''evt_5'' 40, sample_event ''evt_6'' ''past_due'' 50, sample_event ''evt_7'' ''active'' 60]"

definition past_due_last :: "notification list" where
  "past_due_last = [sample_failed ''evt_5'' 40, sample_event ''evt_7'' ''active'' 60, sample_event ''evt_6'' ''past_due'' 50,
     sample_event ''evt_8'' ''active'' 90]"

lemma paid_in_order_is_granted:
  "su_past_due_since (sub_1_row (foldl sample_deliver one_subscribed in_order)) = None"
  by code_simp

lemma late_past_due_downgrades_paid_account:
  "su_status (sub_1_row (foldl sample_deliver one_subscribed past_due_last)) = Active
    \<and> su_grace_ends_at (sub_1_row (foldl sample_deliver one_subscribed past_due_last)) = Some (7 * day_us + 40)
    \<and> \<not> subscription_is_live (8 * day_us) (as_row (\<lambda>i. []) (sub_1_row (foldl sample_deliver one_subscribed past_due_last)))"
  by code_simp

end
