(* ===== verification/BillingRoutes.thy ===== *)
theory BillingRoutes
  imports Dunning
begin

text \<open>
  The routes of \<open>app/api/routers/billing.py\<close>: what an account page reads, a checkout and a portal
  session, and Paddle's webhook, from its signature to what it answers. The viewer is a user's id; a
  route that needs a verified email is reached only with one. The sessions whose grants are read again
  (\<open>_forget_grants\<close>) are those of \<open>hd_users\<close>, and the mail sent after the response is \<open>hd_mail\<close>.
\<close>

datatype route_error =
    Billing_unavailable
  | Not_for_sale string
  | Already_subscribed
  | Never_paid
  | Invalid_signature
  | Not_a_notification
  | Internal_error
  | Entitlements_failed ent_error

fun http_status :: "route_error \<Rightarrow> int" where
  "http_status Billing_unavailable = 503"
| "http_status (Not_for_sale _) = 422"
| "http_status Already_subscribed = 409"
| "http_status Never_paid = 404"
| "http_status Invalid_signature = 400"
| "http_status Not_a_notification = 400"
| "http_status Internal_error = 500"
| "http_status (Entitlements_failed _) = 503"

section \<open>The account's side\<close>

record billing_view =
  bv_plan_slug :: string
  bv_plan_name :: string
  bv_status :: subscription_status
  bv_period_end :: "moment option"
  bv_cancel_at :: "moment option"
  bv_grace_ends_at :: "moment option"
  bv_grants_plan :: bool
  bv_manageable :: bool

definition view_of :: "subscription \<Rightarrow> plan \<Rightarrow> moment \<Rightarrow> billing_view" where
  "view_of row p now =
     \<lparr>bv_plan_slug = pl_slug p, bv_plan_name = pl_name p, bv_status = su_status row,
       bv_period_end = su_period_end row, bv_cancel_at = su_cancel_at row,
       bv_grace_ends_at = su_grace_ends_at row,
       bv_grants_plan =
         (is_live_row row
          \<and> (case su_cancel_at row of None \<Rightarrow> True | Some m \<Rightarrow> m > now)
          \<and> (case su_grace_ends_at row of None \<Rightarrow> True | Some m \<Rightarrow> m > now)),
       bv_manageable = (su_customer row \<noteq> None)\<rparr>"

definition read_billing :: "bool \<Rightarrow> billing_tables \<Rightarrow> int \<Rightarrow> moment \<Rightarrow> route_error + bool \<times> billing_view option" where
  "read_billing enabled t u now =
     (case subscription_of t u of
        None \<Rightarrow> Inr (enabled, None)
      | Some row \<Rightarrow>
          (case find_plan t (su_plan row) of
             None \<Rightarrow> Inl Internal_error
           | Some p \<Rightarrow> Inr (enabled, Some (view_of row p now))))"

text \<open>A call of Paddle's that failed: a \<open>PaddleError\<close> is a 503, anything else a 500.\<close>

definition called :: "client_error + 'a \<Rightarrow> route_error + 'a" where
  "called r =
     (case r of
        Inr x \<Rightarrow> Inr x
      | Inl (Paddle_error _ _) \<Rightarrow> Inl Billing_unavailable
      | Inl (Client_json_error _) \<Rightarrow> Inl Internal_error)"

definition create_checkout ::
  "in_force \<Rightarrow> bill_settings \<Rightarrow> paddle_api option \<Rightarrow> billing_tables \<Rightarrow> int \<Rightarrow> string \<Rightarrow> route_error + checkout" where
  "create_checkout cat st paddle t u slug =
     (case paddle of
        None \<Rightarrow> Inl Billing_unavailable
      | Some api \<Rightarrow>
          (case current cat of
             Inl e \<Rightarrow> Inl (Entitlements_failed e)
           | Inr c \<Rightarrow>
               (case (map_of c slug, map_of (st_prices st) slug) of
                  (Some terms, Some price_id) \<Rightarrow>
                    if \<not> pt_is_public terms \<or> pt_price_cents terms = 0 then Inl (Not_for_sale slug)
                    else if list_ex (\<lambda>s. su_user s = u \<and> is_live_row s) (bt_subs t) then Inl Already_subscribed
                    else called (create_checkout_call api price_id u (Option.bind (customer_of t u) su_customer))
                | _ \<Rightarrow> Inl (Not_for_sale slug))))"

definition create_portal_session ::
  "paddle_api option \<Rightarrow> billing_tables \<Rightarrow> int \<Rightarrow> route_error + portal_session" where
  "create_portal_session paddle t u =
     (case paddle of
        None \<Rightarrow> Inl Billing_unavailable
      | Some api \<Rightarrow>
          (case customer_of t u of
             None \<Rightarrow> Inl Never_paid
           | Some row \<Rightarrow>
               (case su_customer row of
                  None \<Rightarrow> Inl Never_paid
                | Some customer \<Rightarrow>
                    called (create_portal_session_call api customer
                      (if is_live_row row then su_paddle_id row else None)))))"

section \<open>Paddle's side\<close>

record webhook_config =
  wc_enabled :: bool
  wc_secret :: string
  wc_tolerance :: int

definition verified_notification ::
  "webhook_config \<Rightarrow> digest \<Rightarrow> (string \<Rightarrow> json option) \<Rightarrow> (string \<Rightarrow> iso_time) \<Rightarrow> string option \<Rightarrow> string \<Rightarrow> rat
    \<Rightarrow> route_error + notification" where
  "verified_notification wc hexdigest loads from_iso header body clock =
     (if \<not> wc_enabled wc then Inl Billing_unavailable
      else (case verify_signature hexdigest header body (wc_secret wc) clock (wc_tolerance wc) of
          Inl (Signature_refused _) \<Rightarrow> Inl Invalid_signature
        | Inl Compare_type_error \<Rightarrow> Inl Internal_error
        | Inr _ \<Rightarrow>
            (case parse_notification loads from_iso body of
               None \<Rightarrow> Inl Not_a_notification
             | Some ev \<Rightarrow> Inr ev)))"

definition paddle_webhook ::
  "webhook_config \<Rightarrow> digest \<Rightarrow> (string \<Rightarrow> json option) \<Rightarrow> (string \<Rightarrow> iso_time) \<Rightarrow> bill_settings
    \<Rightarrow> string option \<Rightarrow> string \<Rightarrow> rat \<Rightarrow> moment \<Rightarrow> billing_tables \<Rightarrow> billing_tables \<times> (route_error + handled)" where
  "paddle_webhook wc hexdigest loads from_iso st header body clock now t =
     (case verified_notification wc hexdigest loads from_iso header body clock of
        Inl e \<Rightarrow> (t, Inl e)
      | Inr ev \<Rightarrow>
          (case handle_event st from_iso now t ev of
             Inl _ \<Rightarrow> (t, Inl Internal_error)
           | Inr (t', h) \<Rightarrow> (t', Inr h)))"

section \<open>What the routes keep to\<close>

text \<open>What the account page says a subscription grants is what the entitlements grant: the two
  copies of the rule agree at every moment, of every row.\<close>

theorem page_agrees_with_grant:
  "bv_grants_plan (view_of row p now) = subscription_is_live now (as_row own row)"
  by (simp add: view_of_def subscription_is_live_def as_row_def)

text \<open>C7. Only what Paddle signed reaches the billing tables: a request that changes them, or is answered as
  handled, carries the digest of its own body under the secret, with a timestamp within the tolerance.\<close>

theorem unsigned_webhook_changes_nothing:
  assumes "paddle_webhook wc hexdigest loads from_iso st header body clock now t = (t', r)"
    and "t' \<noteq> t \<or> (\<exists>h. r = Inr h)"
  shows "wc_enabled wc \<and> (\<exists>h ts. header = Some h \<and> clock \<le> of_int (ts + wc_tolerance wc)
    \<and> (\<exists>p \<in> set (split_on CHR '';'' h). partition_at CHR ''='' (py_strip p) =
          (''h1'', hexdigest (wc_secret wc) (show_int ts @ '':'' @ body))))"
proof -
  obtain ev where ev: "verified_notification wc hexdigest loads from_iso header body clock = Inr ev"
    using assms by (auto simp: paddle_webhook_def split: sum.splits)
  then have "wc_enabled wc" "verify_signature hexdigest header body (wc_secret wc) clock (wc_tolerance wc) = Inr ()"
    by (auto simp: verified_notification_def split: if_splits sum.splits verify_failure.splits)
  with accepted_is_signed[OF this(2)] show ?thesis by blast
qed

lemma unsigned_webhook_changes_nothing_witness:
  "wc_enabled \<lparr>wc_enabled = True, wc_secret = ''k'', wc_tolerance = 5\<rparr>
    \<and> (\<exists>h ts. Some ''ts=7;h1=ab'' = Some h \<and> (9 :: rat) \<le> of_int (ts + 5)
      \<and> (\<exists>p \<in> set (split_on CHR '';'' h). partition_at CHR ''='' (py_strip p) = (''h1'', ''ab'')))"
proof -
  let ?loads = "\<lambda>s. Some (JObj [(''event_id'', JStr ''evt_1''), (''event_type'', JStr ''x''), (''occurred_at'', JStr ''now''), (''data'', JObj [])])"
  let ?wc = "\<lparr>wc_enabled = True, wc_secret = ''k'', wc_tolerance = 5\<rparr>"
  have "fst (paddle_webhook ?wc (\<lambda>k m. ''ab'') ?loads (\<lambda>s. Instant 3) sample_settings (Some ''ts=7;h1=ab'') [] 9 0 sample_tables) \<noteq> sample_tables"
    by code_simp
  then show ?thesis
    using unsigned_webhook_changes_nothing[where wc = ?wc and hexdigest = "\<lambda>k m. ''ab''" and loads = ?loads
      and from_iso = "\<lambda>s. Instant 3" and st = sample_settings and header = "Some ''ts=7;h1=ab''" and body = "[]"
      and clock = 9 and now = 0 and t = sample_tables, OF surjective_pairing] by simp
qed

text \<open>A customer of a plan for sale with no live subscription is sent to Paddle; anyone with one is not.\<close>

lemma checkout_refused_when_live:
  assumes "s \<in> set (bt_subs t)" "su_user s = u" "is_live_row s"
  shows "\<exists>e. create_checkout cat st paddle t u slug = Inl e"
  using assms by (auto simp: create_checkout_def list_ex_iff split: option.split sum.split)

end
