(* ===== verification/Pagination.thy ===== *)
theory Pagination
  imports Text Calendar
begin

text \<open>
  \<open>app/api/pagination.py\<close> and the page parameters of \<open>app/api/deps.py\<close>: keyset pages, the cursor that
  carries a page's position, and a client's walk from the first page to the last over a table that
  changes meanwhile. The texts of JSON, of a \<open>Decimal\<close> and of days and times are the standard library's:
  a \<open>codec\<close> is what it reads and writes. Text columns are compared by code point.
\<close>

section \<open>Base64, as the cursor uses it\<close>

definition b64_char :: "nat \<Rightarrow> char" where
  "b64_char n =
     (if n < 26 then char_of (65 + n)
      else if n < 52 then char_of (71 + n)
      else if n < 62 then char_of (n - 4)
      else if n = 62 then CHR ''-'' else CHR ''_'')"

text \<open>The value of a character, after \<open>-\<close> and \<open>_\<close> are translated: of both alphabets.\<close>

definition b64_val :: "char \<Rightarrow> nat option" where
  "b64_val c =
     (let k = code c in
      if 65 \<le> k \<and> k \<le> 90 then Some (k - 65)
      else if 97 \<le> k \<and> k \<le> 122 then Some (k - 71)
      else if 48 \<le> k \<and> k \<le> 57 then Some (k + 4)
      else if k = 45 \<or> k = 43 then Some 62
      else if k = 95 \<or> k = 47 then Some 63
      else None)"

text \<open>\<open>base64.urlsafe_b64encode\<close>; a byte is a character.\<close>

fun b64_encode :: "string \<Rightarrow> string" where
  "b64_encode [] = []"
| "b64_encode [a] = [b64_char (code a div 4), b64_char ((code a mod 4) * 16), CHR ''='', CHR ''='']"
| "b64_encode [a, b] =
     [b64_char (code a div 4), b64_char ((code a mod 4) * 16 + code b div 16),
      b64_char ((code b mod 16) * 4), CHR ''='']"
| "b64_encode (a # b # c # r) =
     [b64_char (code a div 4), b64_char ((code a mod 4) * 16 + code b div 16),
      b64_char ((code b mod 16) * 4 + code c div 64), b64_char (code c mod 64)] @ b64_encode r"

text \<open>
  \<open>base64.urlsafe_b64decode\<close>, which skips what is in no alphabet: the characters of a group so far, the
  bits left of the last, and the pads seen. \<open>None\<close> is \<open>binascii.Error\<close>.
\<close>

fun b64_read :: "nat \<Rightarrow> nat \<Rightarrow> nat \<Rightarrow> string \<Rightarrow> string option" where
  "b64_read quad left pads [] = (if quad = 0 then Some [] else None)"
| "b64_read quad left pads (c # cs) =
     (if c = CHR ''='' then
        (if quad \<ge> 2 then (if quad + (pads + 1) \<ge> 4 then Some [] else b64_read quad left (pads + 1) cs)
         else b64_read quad left pads cs)
      else (case b64_val c of
          None \<Rightarrow> b64_read quad left pads cs
        | Some v \<Rightarrow>
            if quad = 0 then b64_read 1 v 0 cs
            else if quad = 1 then map_option ((#) (char_of (left * 4 + v div 16))) (b64_read 2 (v mod 16) 0 cs)
            else if quad = 2 then map_option ((#) (char_of (left * 16 + v div 4))) (b64_read 3 (v mod 4) 0 cs)
            else map_option ((#) (char_of (left * 64 + v))) (b64_read 0 0 0 cs)))"

text \<open>A text that is not ASCII is a \<open>ValueError\<close> before any of it is read.\<close>

definition b64_decode :: "string \<Rightarrow> string option" where
  "b64_decode s = (if list_all (\<lambda>c. code c < 128) s then b64_read 0 0 0 s else None)"

definition strip_pads :: "string \<Rightarrow> string" where
  "strip_pads s = rev (dropWhile (\<lambda>c. c = CHR ''='') (rev s))"

definition add_pads :: "string \<Rightarrow> string" where
  "add_pads s = s @ replicate (nat ((- int (length s)) mod 4)) CHR ''=''"

section \<open>Values and keysets\<close>

datatype cell = VDec rat | VInt int | VStr string | VDate date | VTime moment

datatype key_type = KDec | KInt | KStr | KDate | KTime

fun is_a :: "cell \<Rightarrow> key_type \<Rightarrow> bool" where
  "is_a (VDec _) k = (k = KDec)"
| "is_a (VInt _) k = (k = KInt)"
| "is_a (VStr _) k = (k = KStr)"
| "is_a (VDate _) k = (k = KDate)"
| "is_a (VTime _) k = (k = KTime)"

fun cell_rank :: "cell \<Rightarrow> nat" where
  "cell_rank (VDec _) = 0"
| "cell_rank (VInt _) = 1"
| "cell_rank (VStr _) = 2"
| "cell_rank (VDate _) = 3"
| "cell_rank (VTime _) = 4"

fun cell_le :: "cell \<Rightarrow> cell \<Rightarrow> bool" where
  "cell_le (VDec a) (VDec b) = (a \<le> b)"
| "cell_le (VInt a) (VInt b) = (a \<le> b)"
| "cell_le (VStr a) (VStr b) = (a \<le> b)"
| "cell_le (VDate a) (VDate b) = (a \<le> b)"
| "cell_le (VTime a) (VTime b) = (a \<le> b)"
| "cell_le a b = (cell_rank a \<le> cell_rank b)"

instantiation cell :: linorder
begin

definition less_eq_cell :: "cell \<Rightarrow> cell \<Rightarrow> bool" where
  "less_eq_cell = cell_le"

definition less_cell :: "cell \<Rightarrow> cell \<Rightarrow> bool" where
  "less_cell a b \<longleftrightarrow> cell_le a b \<and> \<not> cell_le b a"

instance
proof
  fix a b c :: cell
  show "a < b \<longleftrightarrow> a \<le> b \<and> \<not> b \<le> a" by (simp add: less_eq_cell_def less_cell_def)
  show "a \<le> a" by (cases a) (simp_all add: less_eq_cell_def)
  show "a \<le> b \<Longrightarrow> b \<le> c \<Longrightarrow> a \<le> c" by (cases a; cases b; cases c) (auto simp: less_eq_cell_def)
  show "a \<le> b \<Longrightarrow> b \<le> a \<Longrightarrow> a = b" by (cases a; cases b) (auto simp: less_eq_cell_def)
  show "a \<le> b \<or> b \<le> a" by (cases a; cases b) (auto simp: less_eq_cell_def)
qed

end

text \<open>A value in the direction its key runs.\<close>

datatype directed = Asc cell | Desc cell

fun directed_le :: "directed \<Rightarrow> directed \<Rightarrow> bool" where
  "directed_le (Asc a) (Asc b) = (a \<le> b)"
| "directed_le (Desc a) (Desc b) = (b \<le> a)"
| "directed_le (Asc _) (Desc _) = True"
| "directed_le (Desc _) (Asc _) = False"

instantiation directed :: linorder
begin

definition less_eq_directed :: "directed \<Rightarrow> directed \<Rightarrow> bool" where
  "less_eq_directed = directed_le"

definition less_directed :: "directed \<Rightarrow> directed \<Rightarrow> bool" where
  "less_directed a b \<longleftrightarrow> directed_le a b \<and> \<not> directed_le b a"

instance
proof
  fix a b c :: directed
  show "a < b \<longleftrightarrow> a \<le> b \<and> \<not> b \<le> a" by (simp add: less_eq_directed_def less_directed_def)
  show "a \<le> a" by (cases a) (simp_all add: less_eq_directed_def)
  show "a \<le> b \<Longrightarrow> b \<le> c \<Longrightarrow> a \<le> c" by (cases a; cases b; cases c) (auto simp: less_eq_directed_def)
  show "a \<le> b \<Longrightarrow> b \<le> a \<Longrightarrow> a = b" by (cases a; cases b) (auto simp: less_eq_directed_def)
  show "a \<le> b \<or> b \<le> a" by (cases a; cases b) (auto simp: less_eq_directed_def)
qed

end

record sort_key =
  sk_name :: string
  sk_type :: key_type
  sk_descending :: bool

record keyset =
  ks_name :: string
  ks_keys :: "sort_key list"

text \<open>A row of a statement: its columns by name, each a value or null.\<close>

type_synonym page_row = "(string \<times> cell option) list"

definition key_cell :: "page_row \<Rightarrow> sort_key \<Rightarrow> cell option" where
  "key_cell row k = Option.bind (map_of row (sk_name k)) id"

definition direct :: "sort_key \<Rightarrow> cell \<Rightarrow> directed" where
  "direct k c = (if sk_descending k then Desc c else Asc c)"

text \<open>\<open>ORDER BY\<close>: rows by their keys, each in its direction; no key is null.\<close>

definition row_order :: "keyset \<Rightarrow> page_row \<Rightarrow> directed list" where
  "row_order ks row = map (\<lambda>k. direct k (the (key_cell row k))) (ks_keys ks)"

definition order_rows :: "keyset \<Rightarrow> page_row list \<Rightarrow> page_row list" where
  "order_rows ks rows = sort_key (row_order ks) rows"

text \<open>\<open>(a, b) < (:a, :b)\<close> or \<open>>\<close>: decided by the first pair that differs, and not true past a null.\<close>

fun row_beyond :: "bool \<Rightarrow> cell option list \<Rightarrow> cell list \<Rightarrow> bool" where
  "row_beyond descending (Some c # cs) (v # vs) =
     (if c = v then row_beyond descending cs vs else if descending then c < v else c > v)"
| "row_beyond descending _ _ = False"

definition after_row :: "keyset \<Rightarrow> cell list \<Rightarrow> page_row \<Rightarrow> bool" where
  "after_row ks vs row =
     (let ks' = ks_keys ks; cells = map (key_cell row) ks' in
      if list_all (\<lambda>k. sk_descending k = sk_descending (hd ks')) ks'
      then row_beyond (sk_descending (hd ks')) cells vs
      else list_ex (\<lambda>i.
        list_all (\<lambda>j. cells ! j = Some (vs ! j)) [0..<i]
        \<and> (case cells ! i of
             None \<Rightarrow> False
           | Some c \<Rightarrow> if sk_descending (ks' ! i) then c < vs ! i else c > vs ! i)) [0..<length ks'])"

datatype page_error =
    Cursor_too_long
  | Cursor_not_ours
  | Cursor_other_version
  | Cursor_other_listing
  | Key_not_selected string
  | Key_is_null string
  | Key_of_wrong_type string

fun cells_of :: "page_row \<Rightarrow> sort_key list \<Rightarrow> page_error + cell list" where
  "cells_of row [] = Inr []"
| "cells_of row (k # ks) =
     (case map_of row (sk_name k) of
        None \<Rightarrow> Inl (Key_not_selected (sk_name k))
      | Some None \<Rightarrow> Inl (Key_is_null (sk_name k))
      | Some (Some c) \<Rightarrow>
          if \<not> is_a c (sk_type k) then Inl (Key_of_wrong_type (sk_name k))
          else map_res ((#) c) (cells_of row ks))"

definition position_of :: "keyset \<Rightarrow> page_row \<Rightarrow> page_error + cell list" where
  "position_of ks row = cells_of row (ks_keys ks)"

section \<open>The cursor\<close>

datatype decimal_read = Not_a_decimal | Not_finite | Finite rat

record codec =
  cd_dumps :: "json \<Rightarrow> string"
  cd_loads :: "string \<Rightarrow> json option"
  cd_decimal :: "rat \<Rightarrow> string"
  cd_read_decimal :: "string \<Rightarrow> decimal_read"
  cd_read_date :: "string \<Rightarrow> date option"
  cd_time :: "moment \<Rightarrow> string"
  cd_read_time :: "string \<Rightarrow> moment option"

definition cursor_version :: int where "cursor_version = 1"
definition max_cursor_length :: nat where "max_cursor_length = 1024"

fun to_json :: "codec \<Rightarrow> cell \<Rightarrow> json" where
  "to_json cd (VDec x) = JStr (cd_decimal cd x)"
| "to_json cd (VDate d) = JStr (isoformat d)"
| "to_json cd (VTime m) = JStr (cd_time cd m)"
| "to_json cd (VInt n) = JInt n"
| "to_json cd (VStr s) = JStr s"

definition from_json :: "codec \<Rightarrow> json \<Rightarrow> sort_key \<Rightarrow> page_error + cell" where
  "from_json cd raw k =
     (case (sk_type k, raw) of
        (KDec, JStr s) \<Rightarrow> (case cd_read_decimal cd s of Finite x \<Rightarrow> Inr (VDec x) | _ \<Rightarrow> Inl Cursor_not_ours)
      | (KInt, JInt n) \<Rightarrow> Inr (VInt n)
      | (KStr, JStr s) \<Rightarrow> Inr (VStr s)
      | (KDate, JStr s) \<Rightarrow> (case cd_read_date cd s of Some d \<Rightarrow> Inr (VDate d) | None \<Rightarrow> Inl Cursor_not_ours)
      | (KTime, JStr s) \<Rightarrow> (case cd_read_time cd s of Some m \<Rightarrow> Inr (VTime m) | None \<Rightarrow> Inl Cursor_not_ours)
      | _ \<Rightarrow> Inl Cursor_not_ours)"

definition encode_cursor :: "codec \<Rightarrow> keyset \<Rightarrow> cell list \<Rightarrow> string" where
  "encode_cursor cd ks vs =
     strip_pads (b64_encode (cd_dumps cd
       (JObj [(''v'', JInt cursor_version), (''k'', JStr (ks_name ks)), (''a'', JList (map (to_json cd) vs))])))"

record cursor =
  cu_keyset :: string
  cu_values :: "json list"

text \<open>\<open>payload["v"] == 1\<close>, which in Python a float and \<open>True\<close> can equal too.\<close>

definition is_version :: "json \<Rightarrow> bool" where
  "is_version j = (j = JInt cursor_version \<or> j = JFloat (of_int cursor_version) \<or> j = JBool True)"

definition decode_cursor :: "codec \<Rightarrow> string \<Rightarrow> page_error + cursor" where
  "decode_cursor cd token =
     (if length token > max_cursor_length then Inl Cursor_too_long
      else (case Option.bind (b64_decode (add_pads token)) (cd_loads cd) of
          Some (JObj ms) \<Rightarrow>
            if fst ` set ms \<noteq> {''v'', ''k'', ''a''} then Inl Cursor_not_ours
            else if \<not> is_version (dict_get ms ''v'') then Inl Cursor_other_version
            else (case (dict_get ms ''k'', dict_get ms ''a'') of
                (JStr k, JList a) \<Rightarrow> Inr \<lparr>cu_keyset = k, cu_values = a\<rparr>
              | _ \<Rightarrow> Inl Cursor_not_ours)
        | _ \<Rightarrow> Inl Cursor_not_ours))"

definition cursor_position :: "codec \<Rightarrow> cursor \<Rightarrow> keyset \<Rightarrow> page_error + cell list" where
  "cursor_position cd c ks =
     (if cu_keyset c \<noteq> ks_name ks then Inl Cursor_other_listing
      else if length (cu_values c) \<noteq> length (ks_keys ks) then Inl Cursor_not_ours
      else mapM_res (\<lambda>(raw, k). from_json cd raw k) (zip (cu_values c) (ks_keys ks)))"

section \<open>Pages\<close>

record page_params =
  pp_limit :: nat
  pp_cursor :: "cursor option"

definition get_page_params :: "codec \<Rightarrow> nat \<Rightarrow> string option \<Rightarrow> page_error + page_params" where
  "get_page_params cd l token =
     (case token of
        None \<Rightarrow> Inr \<lparr>pp_limit = l, pp_cursor = None\<rparr>
      | Some s \<Rightarrow>
          if s = [] then Inr \<lparr>pp_limit = l, pp_cursor = None\<rparr>
          else map_res (\<lambda>c. \<lparr>pp_limit = l, pp_cursor = Some c\<rparr>) (decode_cursor cd s))"

definition page_statement :: "codec \<Rightarrow> page_row list \<Rightarrow> keyset \<Rightarrow> page_params option \<Rightarrow> page_error + page_row list" where
  "page_statement cd rows ks params =
     (case params of
        None \<Rightarrow> Inr (order_rows ks rows)
      | Some p \<Rightarrow>
          map_res (\<lambda>kept. take (pp_limit p + 1) (order_rows ks kept))
            (case pp_cursor p of
               None \<Rightarrow> Inr rows
             | Some c \<Rightarrow> map_res (\<lambda>vs. filter (after_row ks vs) rows) (cursor_position cd c ks)))"

definition page_of :: "codec \<Rightarrow> page_row list \<Rightarrow> keyset \<Rightarrow> page_params \<Rightarrow> page_error + page_row list \<times> string option" where
  "page_of cd rows ks p =
     (let page = take (pp_limit p) rows in
      if length rows > pp_limit p
      then map_res (\<lambda>vs. (page, Some (encode_cursor cd ks vs))) (position_of ks (last page))
      else Inr (page, None))"

definition paginate :: "codec \<Rightarrow> page_row list \<Rightarrow> keyset \<Rightarrow> page_params \<Rightarrow> page_error + page_row list \<times> string option" where
  "paginate cd rows ks p = bind_res (page_statement cd rows ks (Some p)) (\<lambda>found. page_of cd found ks p)"

text \<open>
  A client that asks for page after page, giving back each page's cursor, while the table it reads from
  is one thing at one page and another at the next: all the rows it saw, and whether it reached the end.
\<close>

fun walk :: "codec \<Rightarrow> keyset \<Rightarrow> nat \<Rightarrow> string option \<Rightarrow> page_row list list \<Rightarrow> page_error + page_row list \<times> bool" where
  "walk cd ks l token [] = Inr ([], False)"
| "walk cd ks l token (rows # later) =
     bind_res (get_page_params cd l token) (\<lambda>p.
       bind_res (paginate cd rows ks p) (\<lambda>(page, next_cursor).
         case next_cursor of
           None \<Rightarrow> Inr (page, True)
         | Some s \<Rightarrow> map_res (\<lambda>(rest, fin). (page @ rest, fin)) (walk cd ks l (Some s) later)))"

section \<open>Base64 reads back what it wrote\<close>

lemma b64_val_char: "n < 64 \<Longrightarrow> b64_val (b64_char n) = Some n"
  by (auto simp: b64_val_def b64_char_def Let_def)

lemma b64_char_plain: "n < 64 \<Longrightarrow> b64_char n \<noteq> CHR ''='' \<and> code (b64_char n) < 128"
proof -
  assume n: "n < 64"
  have "b64_val CHR ''='' = None" by (simp add: b64_val_def)
  then have "b64_char n \<noteq> CHR ''=''" using b64_val_char[OF n] by auto
  then show ?thesis using n by (auto simp: b64_char_def)
qed

text \<open>The encoding without its pads.\<close>

fun b64_bare :: "string \<Rightarrow> string" where
  "b64_bare [] = []"
| "b64_bare [a] = [b64_char (code a div 4), b64_char ((code a mod 4) * 16)]"
| "b64_bare [a, b] =
     [b64_char (code a div 4), b64_char ((code a mod 4) * 16 + code b div 16), b64_char ((code b mod 16) * 4)]"
| "b64_bare (a # b # c # r) =
     [b64_char (code a div 4), b64_char ((code a mod 4) * 16 + code b div 16),
      b64_char ((code b mod 16) * 4 + code c div 64), b64_char (code c mod 64)] @ b64_bare r"

lemma code_bounds: "code a < 256" "code a div 4 < 64" "(code a mod 4) * 16 < 64" "code b div 16 < 16"
  "(code a mod 4) * 16 + code b div 16 < 64" "(code b mod 16) * 4 < 64" "(code b mod 16) * 4 + code c div 64 < 64"
  "code c mod 64 < 64" for a b c :: char
proof -
  have l: "code x < 256" for x :: char by (rule nat_of_char_less_256)
  show "code a < 256" by (rule l)
  show "code a div 4 < 64" by (rule less_mult_imp_div_less) (use l[of a] in simp)
  show "code b div 16 < 16" by (rule less_mult_imp_div_less) (use l[of b] in simp)
  show "code c mod 64 < 64" by simp
  have "code a mod 4 < 4" "code b mod 16 < 16" "code b div 16 < 16" "code c div 64 < 4"
    by (simp, simp) (rule less_mult_imp_div_less, use l[of b] l[of c] in simp)+
  then show "(code a mod 4) * 16 < 64" "(code a mod 4) * 16 + code b div 16 < 64" "(code b mod 16) * 4 < 64"
    "(code b mod 16) * 4 + code c div 64 < 64" by linarith+
qed

lemma b64_bare_plain: "c \<in> set (b64_bare s) \<Longrightarrow> c \<noteq> CHR ''='' \<and> code c < 128"
  by (induction s rule: b64_bare.induct) (use b64_char_plain code_bounds in auto)

lemma b64_encode_pads: "\<exists>n. b64_encode s = b64_bare s @ replicate n CHR ''=''"
proof (induction s rule: b64_bare.induct)
  case (2 a)
  show ?case by (rule exI[of _ 2]) (simp add: numeral_2_eq_2)
next
  case (3 a b)
  show ?case by (rule exI[of _ 1]) simp
next
  case (4 a b c r)
  then obtain n where "b64_encode r = b64_bare r @ replicate n CHR ''=''" ..
  then show ?case by (intro exI[of _ n]) simp
qed (rule exI[of _ 0], simp)

lemma strip_pads_encode: "strip_pads (b64_encode s) = b64_bare s"
proof -
  obtain n where n: "b64_encode s = b64_bare s @ replicate n CHR ''=''" using b64_encode_pads by blast
  have "dropWhile (\<lambda>c. c = CHR ''='') (replicate n CHR ''='' @ xs) = dropWhile (\<lambda>c. c = CHR ''='') xs" for xs
    by (induction n) simp_all
  moreover have "dropWhile (\<lambda>c. c = CHR ''='') (rev (b64_bare s)) = rev (b64_bare s)"
    using b64_bare_plain[of "last (b64_bare s)" s] by (cases "b64_bare s = []") (auto simp: dropWhile_eq_self_iff hd_rev)
  ultimately show ?thesis by (simp add: strip_pads_def n)
qed

lemma b64_step: "b64_val c = Some v \<Longrightarrow> c \<noteq> CHR ''=''"
  by (auto simp: b64_val_def)

lemma b64_read_bare:
  "b64_read 0 0 0 (b64_bare s @ replicate (nat ((- int (length (b64_bare s))) mod 4)) CHR ''='') = Some s"
proof (induction s rule: b64_bare.induct)
  case 1
  then show ?case by simp
next
  case (2 a)
  have v: "b64_val (b64_char (code a div 4)) = Some (code a div 4)"
    "b64_val (b64_char (code a mod 4 * 16)) = Some (code a mod 4 * 16)"
    using code_bounds by (simp_all add: b64_val_char)
  then show ?case using b64_step[OF v(1)] b64_step[OF v(2)] by (simp add: numeral_2_eq_2)
next
  case (3 a b)
  have v: "b64_val (b64_char (code a div 4)) = Some (code a div 4)"
    "b64_val (b64_char (code a mod 4 * 16 + code b div 16)) = Some (code a mod 4 * 16 + code b div 16)"
    "b64_val (b64_char (code b mod 16 * 4)) = Some (code b mod 16 * 4)"
    using code_bounds by (simp_all add: b64_val_char)
  have "(code a mod 4 * 16 + code b div 16) div 16 = code a mod 4" "(code a mod 4 * 16 + code b div 16) mod 16 = code b div 16"
    using code_bounds(4)[of b] by simp_all
  then show ?case using v b64_step[OF v(1)] b64_step[OF v(2)] b64_step[OF v(3)] by simp
next
  case (4 a b c r)
  have v: "b64_val (b64_char (code a div 4)) = Some (code a div 4)"
    "b64_val (b64_char (code a mod 4 * 16 + code b div 16)) = Some (code a mod 4 * 16 + code b div 16)"
    "b64_val (b64_char (code b mod 16 * 4 + code c div 64)) = Some (code b mod 16 * 4 + code c div 64)"
    "b64_val (b64_char (code c mod 64)) = Some (code c mod 64)"
    using code_bounds by (simp_all add: b64_val_char)
  have "code c div 64 < 4" using nat_of_char_less_256[of c] by linarith
  then have d: "(code a mod 4 * 16 + code b div 16) div 16 = code a mod 4" "(code a mod 4 * 16 + code b div 16) mod 16 = code b div 16"
    "(code b mod 16 * 4 + code c div 64) div 4 = code b mod 16" "(code b mod 16 * 4 + code c div 64) mod 4 = code c div 64"
    using code_bounds(4)[of b] by simp_all
  have "(- int (length (b64_bare (a # b # c # r)))) mod 4 = (- int (length (b64_bare r))) mod 4"
    by (simp add: mod_simps) presburger
  then show ?case
    using 4 v d b64_step[OF v(1)] b64_step[OF v(2)] b64_step[OF v(3)] b64_step[OF v(4)] by simp
qed

lemma b64_roundtrip: "b64_decode (add_pads (strip_pads (b64_encode s))) = Some s"
proof -
  have "\<forall>c \<in> set (add_pads (b64_bare s)). code c < 128"
    using b64_bare_plain by (auto simp: add_pads_def)
  then show ?thesis
    using b64_read_bare[of s] by (simp add: b64_decode_def strip_pads_encode add_pads_def list_all_iff)
qed

section \<open>The cursor reads back the position\<close>

definition cursor_payload :: "codec \<Rightarrow> keyset \<Rightarrow> cell list \<Rightarrow> json" where
  "cursor_payload cd ks vs =
     JObj [(''v'', JInt cursor_version), (''k'', JStr (ks_name ks)), (''a'', JList (map (to_json cd) vs))]"

text \<open>
  What the code relies on of the standard library's texts, for one value of a position: \<open>Decimal\<close> reads what
  \<open>str\<close> writes of a finite one, and \<open>datetime.fromisoformat\<close> what \<open>isoformat\<close> writes; \<open>date.fromisoformat\<close>
  reads at least the days of the shape \<open>isoformat\<close> writes.
\<close>

fun texts_read :: "codec \<Rightarrow> cell \<Rightarrow> bool" where
  "texts_read cd (VDec x) = (cd_read_decimal cd (cd_decimal cd x) = Finite x)"
| "texts_read cd (VDate d) = (valid_date d \<and> cd_read_date cd (isoformat d) = date_fromisoformat (isoformat d))"
| "texts_read cd (VTime m) = (cd_read_time cd (cd_time cd m) = Some m)"
| "texts_read cd (VInt n) = True"
| "texts_read cd (VStr s) = True"

text \<open>
  A row whose position can be sent: it has one, JSON reads the payload as it was written, the library reads
  the text of each value, and the token is not longer than a cursor may be.
\<close>

definition travels :: "codec \<Rightarrow> keyset \<Rightarrow> page_row \<Rightarrow> bool" where
  "travels cd ks row \<longleftrightarrow>
     (\<exists>vs. position_of ks row = Inr vs
       \<and> cd_loads cd (cd_dumps cd (cursor_payload cd ks vs)) = Some (cursor_payload cd ks vs)
       \<and> list_all (texts_read cd) vs
       \<and> length (encode_cursor cd ks vs) \<le> max_cursor_length)"

lemma cells_of_facts:
  "cells_of row ks = Inr vs \<Longrightarrow> map (key_cell row) ks = map Some vs \<and> length vs = length ks"
  by (induction ks arbitrary: vs)
    (auto simp: key_cell_def map_res_Inr_iff split: option.splits if_splits)

lemma position_of_facts:
  assumes "position_of ks row = Inr vs"
  shows "map (key_cell row) (ks_keys ks) = map Some vs" "length vs = length (ks_keys ks)"
  using cells_of_facts[of row "ks_keys ks" vs] assms by (simp_all add: position_of_def)

text \<open>A value of its key's type is read back as itself, whatever the type.\<close>

lemma from_to_json:
  assumes "is_a c (sk_type k)" "texts_read cd c"
  shows "from_json cd (to_json cd c) k = Inr c"
  using assms by (cases c) (auto simp: from_json_def iso_roundtrip)

lemma position_reads:
  assumes "position_of ks row = Inr vs" "list_all (texts_read cd) vs"
  shows "list_all2 (\<lambda>k c. from_json cd (to_json cd c) k = Inr c) (ks_keys ks) vs"
proof -
  have "list_all2 (\<lambda>k c. is_a c (sk_type k)) keys vs" if "cells_of row keys = Inr vs" for keys
    using that by (induction keys arbitrary: vs) (auto simp: map_res_Inr_iff split: option.splits if_splits)
  then have "list_all2 (\<lambda>k c. is_a c (sk_type k)) (ks_keys ks) vs" using assms(1) by (simp add: position_of_def)
  then show ?thesis using assms(2) by (induction rule: list_all2_induct) (simp_all add: from_to_json)
qed

lemma decode_encode:
  assumes "cd_loads cd (cd_dumps cd (cursor_payload cd ks vs)) = Some (cursor_payload cd ks vs)"
    and "length (encode_cursor cd ks vs) \<le> max_cursor_length"
  shows "decode_cursor cd (encode_cursor cd ks vs) = Inr \<lparr>cu_keyset = ks_name ks, cu_values = map (to_json cd) vs\<rparr>"
proof -
  have e: "encode_cursor cd ks vs = strip_pads (b64_encode (cd_dumps cd (cursor_payload cd ks vs)))"
    by (simp add: encode_cursor_def cursor_payload_def)
  have "b64_decode (add_pads (encode_cursor cd ks vs)) = Some (cd_dumps cd (cursor_payload cd ks vs))"
    unfolding e by (rule b64_roundtrip)
  then have "Option.bind (b64_decode (add_pads (encode_cursor cd ks vs))) (cd_loads cd) = Some (cursor_payload cd ks vs)"
    using assms(1) by simp
  then show ?thesis
    using assms(2) unfolding decode_cursor_def
    by (simp add: cursor_payload_def is_version_def dict_get_def insert_commute)
qed

lemma position_encode:
  assumes "list_all2 (\<lambda>k c. from_json cd (to_json cd c) k = Inr c) (ks_keys ks) vs"
  shows "cursor_position cd \<lparr>cu_keyset = ks_name ks, cu_values = map (to_json cd) vs\<rparr> ks = Inr vs"
proof -
  have "mapM_res (\<lambda>(raw, k). from_json cd raw k) (zip (map (to_json cd) vs) keys) = Inr vs"
    if "list_all2 (\<lambda>k c. from_json cd (to_json cd c) k = Inr c) keys vs" for keys
    using that by (induction rule: list_all2_induct) simp_all
  from this[OF assms] show ?thesis
    using list_all2_lengthD[OF assms] by (simp add: cursor_position_def)
qed

text \<open>C23. A page's cursor gives back exactly the position it was made of: a row of the keys' types whose token is not too
  long, whatever the keys and their directions, comes back through JSON and base64 as the same values.\<close>

theorem cursor_roundtrip:
  assumes "travels cd ks row"
  shows "\<exists>vs c. position_of ks row = Inr vs
    \<and> decode_cursor cd (encode_cursor cd ks vs) = Inr c \<and> cursor_position cd c ks = Inr vs"
  using assms decode_encode position_encode position_reads unfolding travels_def by blast

section \<open>Pages are consecutive\<close>

abbreviation directed_list :: "keyset \<Rightarrow> cell list \<Rightarrow> directed list" where
  "directed_list ks vs \<equiv> map2 direct (ks_keys ks) vs"

lemma direct_less [simp]: "direct k a < direct k b \<longleftrightarrow> (if sk_descending k then b < a else a < b)"
  by (auto simp: direct_def less_directed_def less_le_not_le)

lemma direct_eq [simp]: "direct k a = direct k b \<longleftrightarrow> a = b"
  by (simp add: direct_def)

lemma row_order_position:
  assumes "position_of ks row = Inr vs" shows "row_order ks row = directed_list ks vs"
proof -
  have "map (\<lambda>k. direct k (the (key_cell row k))) keys = map2 direct keys vs"
    if "map (key_cell row) keys = map Some vs" for keys vs
    using that by (induction keys arbitrary: vs) auto
  from this[OF position_of_facts(1)[OF assms]] show ?thesis by (simp add: row_order_def)
qed

lemma row_beyond_less:
  assumes "length vs = length keys" "length cs = length keys" "\<forall>k \<in> set keys. sk_descending k = d"
  shows "row_beyond d (map Some cs) vs \<longleftrightarrow> map2 direct keys vs < map2 direct keys cs"
  using assms
proof (induction keys arbitrary: vs cs)
  case (Cons k keys)
  obtain v vs' c cs' where "vs = v # vs'" "cs = c # cs'" using Cons.prems(1,2) by (auto simp: length_Suc_conv)
  then show ?case using Cons by auto
qed simp

lemma list_less_nth:
  fixes xs ys :: "'a::linorder list"
  assumes "length xs = length ys"
  shows "xs < ys \<longleftrightarrow> (\<exists>i < length xs. (\<forall>j < i. xs ! j = ys ! j) \<and> xs ! i < ys ! i)"
  using assms
proof (induction xs ys rule: list_induct2)
  case (Cons x xs y ys)
  show ?case
  proof (cases "x = y")
    case True
    have "(\<exists>i < Suc (length xs). (\<forall>j < i. (x # xs) ! j = (y # ys) ! j) \<and> (x # xs) ! i < (y # ys) ! i) \<longleftrightarrow>
      (\<exists>i < length xs. (\<forall>j < i. xs ! j = ys ! j) \<and> xs ! i < ys ! i)"
      using True by (auto simp: Ex_less_Suc2 All_less_Suc2)
    then show ?thesis using True Cons.IH by simp
  next
    case False
    then show ?thesis by (auto simp: Ex_less_Suc2 All_less_Suc2)
  qed
qed simp

lemma upt_iff: "list_ex P [0..<n] \<longleftrightarrow> (\<exists>i < n. P i)" "list_all P [0..<n] \<longleftrightarrow> (\<forall>i < n. P i)"
  by (auto simp: list_ex_iff list_all_iff)

lemma after_row_less:
  assumes "position_of ks row = Inr cs" "length vs = length (ks_keys ks)"
  shows "after_row ks vs row \<longleftrightarrow> directed_list ks vs < row_order ks row"
proof (cases "list_all (\<lambda>k. sk_descending k = sk_descending (hd (ks_keys ks))) (ks_keys ks)")
  case True
  then show ?thesis
    using row_beyond_less[of vs "ks_keys ks" cs "sk_descending (hd (ks_keys ks))"] assms position_of_facts[OF assms(1)]
    by (simp add: after_row_def Let_def list_all_iff row_order_position[OF assms(1)])
next
  case False
  note F = position_of_facts[OF assms(1)]
  have "after_row ks vs row \<longleftrightarrow> (\<exists>i < length (ks_keys ks). (\<forall>j < i. cs ! j = vs ! j)
      \<and> (if sk_descending (ks_keys ks ! i) then cs ! i < vs ! i else cs ! i > vs ! i))"
  proof -
    have "map (key_cell row) (ks_keys ks) ! i = Some (cs ! i)" if "i < length (ks_keys ks)" for i
      using that F by simp
    then have c: "key_cell row (ks_keys ks ! i) = Some (cs ! i)" if "i < length (ks_keys ks)" for i
      using that by simp
    have e: "(\<forall>j < i. map (key_cell row) (ks_keys ks) ! j = Some (vs ! j)) \<and>
        (case map (key_cell row) (ks_keys ks) ! i of None \<Rightarrow> False
         | Some x \<Rightarrow> if sk_descending (ks_keys ks ! i) then x < vs ! i else x > vs ! i) \<longleftrightarrow>
      (\<forall>j < i. cs ! j = vs ! j) \<and> (if sk_descending (ks_keys ks ! i) then cs ! i < vs ! i else cs ! i > vs ! i)"
      if i: "i < length (ks_keys ks)" for i
    proof (rule conj_cong)
      show "(\<forall>j < i. map (key_cell row) (ks_keys ks) ! j = Some (vs ! j)) \<longleftrightarrow> (\<forall>j < i. cs ! j = vs ! j)"
        using i by (intro all_cong) (simp add: c)
    qed (use i c in simp)
    show ?thesis
      unfolding after_row_def Let_def if_not_P[OF False] upt_iff by (rule ex_cong1, rule conj_cong[OF refl], rule e)
  qed
  also have "\<dots> \<longleftrightarrow> directed_list ks vs < directed_list ks cs"
    using F(2) assms(2) by (subst list_less_nth) (auto simp: eq_commute)
  finally show ?thesis by (simp add: row_order_position[OF assms(1)])
qed

section \<open>A walk sees every row once\<close>

text \<open>What a listing promises of its rows: a position that travels, and an order that is total.\<close>

definition pageable :: "codec \<Rightarrow> keyset \<Rightarrow> page_row list \<Rightarrow> bool" where
  "pageable cd ks rows \<longleftrightarrow> (\<forall>r \<in> set rows. travels cd ks r) \<and> distinct (map (row_order ks) rows)"

text \<open>The position a walk is at: before every row, or at a row's keys.\<close>

definition beyond :: "directed list option \<Rightarrow> directed list \<Rightarrow> bool" where
  "beyond at_key d = (case at_key of None \<Rightarrow> True | Some p \<Rightarrow> p < d)"

definition token_at :: "codec \<Rightarrow> keyset \<Rightarrow> string option \<Rightarrow> directed list option \<Rightarrow> bool" where
  "token_at cd ks token at_key \<longleftrightarrow>
     (token = None \<and> at_key = None
      \<or> (\<exists>row vs. travels cd ks row \<and> position_of ks row = Inr vs
           \<and> token = Some (encode_cursor cd ks vs) \<and> at_key = Some (row_order ks row)))"

lemma page_found:
  assumes "pageable cd ks rows" "token_at cd ks token at_key" "cd_loads cd [] = None"
  shows "bind_res (get_page_params cd l token) (\<lambda>p. paginate cd rows ks p) =
    page_of cd (take (l + 1) (order_rows ks (filter (\<lambda>r. beyond at_key (row_order ks r)) rows))) ks \<lparr>pp_limit = l, pp_cursor = None\<rparr>"
proof (cases "token = None")
  case True
  then have "at_key = None" using assms(2) by (auto simp: token_at_def)
  then show ?thesis
    using True by (simp add: get_page_params_def paginate_def page_statement_def beyond_def)
next
  case False
  then obtain row vs where t: "travels cd ks row" "position_of ks row = Inr vs"
    "token = Some (encode_cursor cd ks vs)" "at_key = Some (row_order ks row)"
    using assms(2) by (auto simp: token_at_def)
  then have codec: "cd_loads cd (cd_dumps cd (cursor_payload cd ks vs)) = Some (cursor_payload cd ks vs)"
    "list_all2 (\<lambda>k c. from_json cd (to_json cd c) k = Inr c) (ks_keys ks) vs"
    "length (encode_cursor cd ks vs) \<le> max_cursor_length"
    using position_reads[OF t(2)] t(1,2) unfolding travels_def by auto
  let ?c = "\<lparr>cu_keyset = ks_name ks, cu_values = map (to_json cd) vs\<rparr>"
  have d: "decode_cursor cd (encode_cursor cd ks vs) = Inr ?c" by (rule decode_encode[OF codec(1,3)])
  have "encode_cursor cd ks vs \<noteq> []"
  proof
    assume e: "encode_cursor cd ks vs = []"
    have "b64_decode (add_pads (encode_cursor cd ks vs)) = Some (cd_dumps cd (cursor_payload cd ks vs))"
      using b64_roundtrip by (simp add: encode_cursor_def cursor_payload_def)
    then have "cd_dumps cd (cursor_payload cd ks vs) = []" using e by (simp add: b64_decode_def add_pads_def)
    then show False using codec(1) assms(3) by simp
  qed
  then have p: "get_page_params cd l token = Inr \<lparr>pp_limit = l, pp_cursor = Some ?c\<rparr>"
    using t(3) d by (simp add: get_page_params_def)
  have "filter (after_row ks vs) rows = filter (\<lambda>r. beyond at_key (row_order ks r)) rows"
  proof (rule filter_cong[OF refl])
    fix r assume "r \<in> set rows"
    then obtain cs where "position_of ks r = Inr cs" using assms(1) by (auto simp: pageable_def travels_def)
    from after_row_less[OF this position_of_facts(2)[OF t(2)]]
    show "after_row ks vs r = beyond at_key (row_order ks r)"
      using t(4) row_order_position[OF t(2)] by (simp add: beyond_def)
  qed
  then show ?thesis
    unfolding p using position_encode[OF codec(2)] by (simp add: paginate_def page_statement_def page_of_def Let_def)
qed

lemma order_rows_strict:
  assumes "distinct (map (row_order ks) rows)"
  shows "sorted_wrt (<) (map (row_order ks) (order_rows ks rows))"
proof -
  have "distinct (map (row_order ks) (order_rows ks rows))"
    using assms by (simp add: order_rows_def distinct_map distinct_sort)
  moreover have "sorted (map (row_order ks) (order_rows ks rows))" by (simp add: order_rows_def)
  ultimately show ?thesis by (simp add: strict_sorted_iff)
qed

text \<open>One page: what it shows, and the position it leaves the walk at.\<close>

lemma page_cut:
  fixes f :: "'a \<Rightarrow> 'b::linorder"
  assumes "sorted_wrt (<) (map f xs)" "0 < l" "l < length xs"
  shows "\<forall>x \<in> set (take l xs). f x \<le> f (last (take l xs))"
    "\<forall>x \<in> set xs. x \<notin> set (take l xs) \<longrightarrow> f (last (take l xs)) < f x"
    "last (take l xs) \<in> set (take l xs)"
proof -
  let ?m = "xs ! (l - 1)"
  have "xs \<noteq> []" using assms(3) by auto
  then have last: "last (take l xs) = ?m" using assms(2,3) by (simp add: last_conv_nth)
  have lt: "f (xs ! i) < f (xs ! j)" if "i < j" "j < length xs" for i j
    using sorted_wrt_nth_less[OF assms(1), of i j] that by simp
  show "last (take l xs) \<in> set (take l xs)" using assms(2,3) by (intro last_in_set) auto
  show "\<forall>x \<in> set (take l xs). f x \<le> f (last (take l xs))"
  proof
    fix x assume "x \<in> set (take l xs)"
    then obtain i where "i < l" "x = xs ! i" using assms(3) by (auto simp: in_set_conv_nth)
    then show "f x \<le> f (last (take l xs))"
      unfolding last using lt[of i "l - 1"] assms(2,3) by (cases "i = l - 1") (auto intro: less_imp_le)
  qed
  show "\<forall>x \<in> set xs. x \<notin> set (take l xs) \<longrightarrow> f (last (take l xs)) < f x"
  proof (intro ballI impI)
    fix x assume "x \<in> set xs" "x \<notin> set (take l xs)"
    then obtain i where i: "i < length xs" "x = xs ! i" by (auto simp: in_set_conv_nth)
    have "\<not> i < l" using \<open>x \<notin> set (take l xs)\<close> i by (auto simp: in_set_conv_nth)
    then show "f (last (take l xs)) < f x" unfolding last using i lt[of "l - 1" i] assms(2) by simp
  qed
qed

lemma page_step:
  assumes "pageable cd ks rows" "token_at cd ks token at_key" "cd_loads cd [] = None" "0 < l"
    and xs_def: "xs = order_rows ks (filter (\<lambda>r. beyond at_key (row_order ks r)) rows)"
  shows "\<exists>next_token. bind_res (get_page_params cd l token) (\<lambda>p. paginate cd rows ks p) = Inr (take l xs, next_token)
    \<and> (if length xs \<le> l then next_token = None
       else token_at cd ks next_token (Some (row_order ks (last (take l xs)))) \<and> next_token \<noteq> None)"
proof (cases "length xs \<le> l")
  case True
  then show ?thesis
    using page_found[OF assms(1-3), of l] by (simp add: page_of_def Let_def xs_def[symmetric])
next
  case False
  have set_xs: "set xs \<subseteq> set rows" by (auto simp: xs_def order_rows_def)
  have "last (take l xs) \<in> set (take l xs)" using False assms(4) by (intro last_in_set) auto
  then have "last (take l xs) \<in> set rows" using set_xs set_take_subset[of l xs] by blast
  then have t: "travels cd ks (last (take l xs))" using assms(1) by (simp add: pageable_def)
  then obtain vs where "position_of ks (last (take l xs)) = Inr vs" by (auto simp: travels_def)
  then show ?thesis
    using page_found[OF assms(1-3), of l] False t
    by (auto simp: page_of_def Let_def xs_def[symmetric] token_at_def min_absorb2)
qed

lemma walk_Cons:
  assumes "bind_res (get_page_params cd l token) (\<lambda>p. paginate cd rows ks p) = Inr (page, next_token)"
  shows "walk cd ks l token (rows # later) =
    (case next_token of None \<Rightarrow> Inr (page, True)
     | Some s \<Rightarrow> map_res (\<lambda>(rest, fin). (page @ rest, fin)) (walk cd ks l (Some s) later))"
  using assms by (auto simp: bind_res_Inr_iff)

lemma walk_from:
  assumes "\<forall>rows \<in> set tables. pageable cd ks rows" "token_at cd ks token at_key" "cd_loads cd [] = None" "0 < l"
  shows "\<exists>seen fin. walk cd ks l token tables = Inr (seen, fin)
    \<and> sorted_wrt (<) (map (row_order ks) seen)
    \<and> (\<forall>r \<in> set seen. beyond at_key (row_order ks r) \<and> (\<exists>rows \<in> set tables. r \<in> set rows))
    \<and> (fin \<longrightarrow> (\<forall>r. (\<forall>rows \<in> set tables. r \<in> set rows) \<and> beyond at_key (row_order ks r) \<longrightarrow> r \<in> set seen))"
  using assms(1,2)
proof (induction tables arbitrary: token at_key)
  case Nil
  then show ?case by (intro exI[of _ "[]"] exI[of _ False]) simp
next
  case (Cons rows later)
  obtain xs where xs_def: "xs = order_rows ks (filter (\<lambda>r. beyond at_key (row_order ks r)) rows)" by blast
  have ok: "pageable cd ks rows" using Cons.prems(1) by simp
  obtain next_token where page: "bind_res (get_page_params cd l token) (\<lambda>p. paginate cd rows ks p) = Inr (take l xs, next_token)"
    and nxt: "if length xs \<le> l then next_token = None
       else token_at cd ks next_token (Some (row_order ks (last (take l xs)))) \<and> next_token \<noteq> None"
    using page_step[OF ok Cons.prems(2) assms(3,4) xs_def] by blast
  have "distinct (map (row_order ks) (filter (\<lambda>r. beyond at_key (row_order ks r)) rows))"
    using ok by (auto simp: pageable_def distinct_map intro: inj_on_subset)
  then have sorted: "sorted_wrt (<) (map (row_order ks) xs)" unfolding xs_def by (rule order_rows_strict)
  have set_xs: "set xs = {r \<in> set rows. beyond at_key (row_order ks r)}" by (auto simp: xs_def order_rows_def)
  have walk: "walk cd ks l token (rows # later) =
      (case next_token of None \<Rightarrow> Inr (take l xs, True)
       | Some s \<Rightarrow> map_res (\<lambda>(rest, fin). (take l xs @ rest, fin)) (walk cd ks l (Some s) later))"
    by (rule walk_Cons[OF page])
  show ?case
  proof (cases "length xs \<le> l")
    case True
    then show ?thesis
      using nxt walk sorted set_xs by auto
  next
    case False
    let ?q = "row_order ks (last (take l xs))"
    from nxt False obtain s where s: "next_token = Some s" and tok: "token_at cd ks (Some s) (Some ?q)" by auto
    from Cons.IH[OF _ tok] Cons.prems(1) obtain rest fin where
      rest: "walk cd ks l (Some s) later = Inr (rest, fin)" "sorted_wrt (<) (map (row_order ks) rest)"
      "\<And>r. r \<in> set rest \<Longrightarrow> ?q < row_order ks r \<and> (\<exists>rows \<in> set later. r \<in> set rows)"
      "fin \<Longrightarrow> (\<forall>rows \<in> set later. r \<in> set rows) \<Longrightarrow> ?q < row_order ks r \<Longrightarrow> r \<in> set rest" for r
      by (auto simp: beyond_def)
    have "l < length xs" using False by simp
    note cut = page_cut[OF sorted assms(4) this]
    have "sorted_wrt (<) (map (row_order ks) (take l xs))"
      using sorted by (simp add: sorted_wrt_take flip: take_map)
    moreover have "x < y" if "x \<in> set (map (row_order ks) (take l xs))" "y \<in> set (map (row_order ks) rest)" for x y
      using that cut(1) rest(3) by (auto intro: order.strict_trans1)
    ultimately have "sorted_wrt (<) (map (row_order ks) (take l xs @ rest))"
      using rest(2) by (simp add: sorted_wrt_append)
    moreover have "beyond at_key (row_order ks r)" if "r \<in> set rest" for r
      using rest(3)[OF that] cut(3) set_xs set_take_subset[of l xs]
      by (auto simp: beyond_def split: option.splits intro: order.strict_trans)
    moreover have "r \<in> set (take l xs @ rest)"
      if "fin" "\<forall>rows \<in> set (rows # later). r \<in> set rows" "beyond at_key (row_order ks r)" for r
      using that rest(4)[of r] cut(2) set_xs by auto
    moreover have "walk cd ks l token (rows # later) = Inr (take l xs @ rest, fin)"
      using walk s rest(1) by simp
    moreover have "\<forall>r \<in> set (take l xs). beyond at_key (row_order ks r) \<and> r \<in> set rows"
      using set_xs set_take_subset[of l xs] by auto
    ultimately show ?thesis using rest(3) by (intro exI[of _ "take l xs @ rest"] exI[of _ "fin"]) auto
  qed
qed

text \<open>C21. A client that walks from the first page never sees a row twice nor rows out of order, however the table
  changes between its pages, and a row that was there all along is seen once by the time the last page
  is. The page limit, the directions of the keys and their types do not matter.\<close>

theorem walk_sees_every_row_once:
  assumes "\<forall>rows \<in> set tables. pageable cd ks rows" "cd_loads cd [] = None" "0 < l"
  shows "\<exists>seen fin. walk cd ks l None tables = Inr (seen, fin)
    \<and> sorted_wrt (<) (map (row_order ks) seen)
    \<and> set seen \<subseteq> (\<Union>rows \<in> set tables. set rows)
    \<and> (fin \<longrightarrow> (\<forall>r. (\<forall>rows \<in> set tables. r \<in> set rows) \<longrightarrow> r \<in> set seen))"
proof -
  have "token_at cd ks None None" by (simp add: token_at_def)
  from walk_from[OF assms(1) this assms(2,3)] show ?thesis by (fastforce simp: beyond_def)
qed

text \<open>Over a table that stays the same the walk ends, within a page more than its rows fill.\<close>

lemma rest_after_page:
  assumes "pageable cd ks rows" "0 < l"
    and xs: "xs = order_rows ks (filter (\<lambda>r. beyond at_key (row_order ks r)) rows)" and more: "l < length xs"
  shows "length (filter (\<lambda>r. beyond (Some (row_order ks (last (take l xs)))) (row_order ks r)) rows) = length xs - l"
proof -
  let ?q = "row_order ks (last (take l xs))"
  have d: "distinct (map (row_order ks) rows)" using assms(1) by (simp add: pageable_def)
  then have "distinct (map (row_order ks) (filter (\<lambda>r. beyond at_key (row_order ks r)) rows))"
    by (auto simp: distinct_map intro: inj_on_subset)
  from order_rows_strict[OF this] have sorted: "sorted_wrt (<) (map (row_order ks) xs)" unfolding xs .
  have dx: "distinct xs" using d by (simp add: xs order_rows_def distinct_map)
  have set_xs: "set xs = {r \<in> set rows. beyond at_key (row_order ks r)}" by (auto simp: xs order_rows_def)
  note cut = page_cut[OF sorted assms(2) more]
  have "beyond at_key ?q" using cut(3) set_xs set_take_subset[of l xs] by auto
  then have "beyond at_key (row_order ks r)" if "?q < row_order ks r" for r
    using that by (auto simp: beyond_def split: option.splits)
  then have "set (filter (\<lambda>r. beyond (Some ?q) (row_order ks r)) rows) = set xs - set (take l xs)"
    using cut(1,2) set_xs by (fastforce simp: beyond_def)
  then have "card (set (filter (\<lambda>r. beyond (Some ?q) (row_order ks r)) rows)) = length xs - l"
    using dx more by (simp add: card_Diff_subset set_take_subset distinct_card)
  moreover have "distinct (filter (\<lambda>r. beyond (Some ?q) (row_order ks r)) rows)" using d by (simp add: distinct_map)
  ultimately show ?thesis by (simp only: distinct_card)
qed

lemma walk_finishes:
  assumes "pageable cd ks rows" "token_at cd ks token at_key" "cd_loads cd [] = None" "0 < l"
    and "length (filter (\<lambda>r. beyond at_key (row_order ks r)) rows) \<le> l * Suc n"
  shows "\<exists>seen. walk cd ks l token (replicate (Suc n) rows) = Inr (seen, True)"
  using assms(2,5)
proof (induction n arbitrary: token at_key)
  case 0
  from page_step[OF assms(1) 0(1) assms(3,4) refl] 0(2) show ?case
    by (auto simp: bind_res_Inr_iff order_rows_def)
next
  case (Suc n)
  obtain xs where xs: "xs = order_rows ks (filter (\<lambda>r. beyond at_key (row_order ks r)) rows)" by blast
  obtain next_token where page: "bind_res (get_page_params cd l token) (\<lambda>p. paginate cd rows ks p) = Inr (take l xs, next_token)"
    and nxt: "if length xs \<le> l then next_token = None
       else token_at cd ks next_token (Some (row_order ks (last (take l xs)))) \<and> next_token \<noteq> None"
    using page_step[OF assms(1) Suc.prems(1) assms(3,4) xs] by blast
  have walk: "walk cd ks l token (replicate (Suc (Suc n)) rows) =
      (case next_token of None \<Rightarrow> Inr (take l xs, True)
       | Some s \<Rightarrow> map_res (\<lambda>(rest, fin). (take l xs @ rest, fin)) (walk cd ks l (Some s) (replicate (Suc n) rows)))"
    unfolding replicate_Suc[of "Suc n"] by (rule walk_Cons[OF page])
  show ?case
  proof (cases "length xs \<le> l")
    case True
    then show ?thesis using walk nxt by simp
  next
    case False
    then obtain s where s: "next_token = Some s" and tok: "token_at cd ks (Some s) (Some (row_order ks (last (take l xs))))"
      using nxt by auto
    have "length xs \<le> l * Suc (Suc n)" using Suc.prems(2) by (simp add: xs order_rows_def)
    then have "length (filter (\<lambda>r. beyond (Some (row_order ks (last (take l xs)))) (row_order ks r)) rows) \<le> l * Suc n"
      using rest_after_page[OF assms(1,4) xs] False by simp
    from Suc.IH[OF tok this] obtain rest where "walk cd ks l (Some s) (replicate (Suc n) rows) = Inr (rest, True)" ..
    then show ?thesis using walk s by simp
  qed
qed

text \<open>C22. Over a table that stays the same a client reaches the end in as many pages as the rows fill, and has then
  seen exactly the table, in its order: what the unpaged listing exports.\<close>

theorem walk_is_listing:
  assumes "pageable cd ks rows" "cd_loads cd [] = None" "0 < l" "length rows \<le> l * Suc n"
  shows "walk cd ks l None (replicate (Suc n) rows) = Inr (order_rows ks rows, True)
    \<and> page_statement cd rows ks None = Inr (order_rows ks rows)"
proof -
  have tok: "token_at cd ks None None" by (simp add: token_at_def)
  have "length (filter (\<lambda>r. beyond None (row_order ks r)) rows) \<le> l * Suc n"
    using assms(4) by (simp add: beyond_def)
  from walk_finishes[OF assms(1) tok assms(2,3) this]
  obtain seen where w: "walk cd ks l None (replicate (Suc n) rows) = Inr (seen, True)" ..
  have "\<forall>t \<in> set (replicate (Suc n) rows). pageable cd ks t" using assms(1) by simp
  from walk_from[OF this tok assms(2,3)] w
  have s: "sorted_wrt (<) (map (row_order ks) seen)" "set seen = set rows"
    by (auto simp: beyond_def simp del: replicate.simps)
  have d: "distinct (map (row_order ks) rows)" using assms(1) by (simp add: pageable_def)
  have "map (row_order ks) seen = map (row_order ks) (order_rows ks rows)"
    using s order_rows_strict[OF d]
    by (intro strict_sorted_equal) (simp_all add: order_rows_def)
  moreover have "inj_on (row_order ks) (set seen \<union> set (order_rows ks rows))"
    using d s(2) by (simp add: distinct_map order_rows_def)
  ultimately have "seen = order_rows ks rows" by (rule map_inj_on)
  then show ?thesis using w by (simp add: page_statement_def)
qed

section \<open>Witnesses\<close>

definition sample_keyset :: keyset where
  "sample_keyset = \<lparr>ks_name = ''t.value'', ks_keys =
     [\<lparr>sk_name = ''value'', sk_type = KInt, sk_descending = True\<rparr>, \<lparr>sk_name = ''id'', sk_type = KInt, sk_descending = False\<rparr>]\<rparr>"

definition sample_row :: "int \<Rightarrow> int \<Rightarrow> page_row" where
  "sample_row v i = [(''value'', Some (VInt v)), (''id'', Some (VInt i))]"

text \<open>A codec for two rows: each payload as a letter.\<close>

definition sample_codec :: codec where
  "sample_codec = \<lparr>
     cd_dumps = (\<lambda>j. if dict_get (case j of JObj ms \<Rightarrow> ms | _ \<Rightarrow> []) ''a'' = JList [JInt 9, JInt 1] then ''x'' else ''y''),
     cd_loads = (\<lambda>s. if s = ''x'' then Some (JObj [(''v'', JInt 1), (''k'', JStr ''t.value''), (''a'', JList [JInt 9, JInt 1])])
       else if s = ''y'' then Some (JObj [(''v'', JInt 1), (''k'', JStr ''t.value''), (''a'', JList [JInt 9, JInt 2])])
       else None),
     cd_decimal = (\<lambda>x. []), cd_read_decimal = (\<lambda>s. Not_a_decimal), cd_read_date = (\<lambda>s. None),
     cd_time = (\<lambda>m. []), cd_read_time = (\<lambda>s. None)\<rparr>"

lemma sample_travels:
  assumes "r = sample_row 9 1 \<or> r = sample_row 9 2" shows "travels sample_codec sample_keyset r"
proof -
  have p: "position_of sample_keyset (sample_row 9 1) = Inr [VInt 9, VInt 1]"
    "position_of sample_keyset (sample_row 9 2) = Inr [VInt 9, VInt 2]" by code_simp+
  have a: "list_all (texts_read sample_codec) [VInt 9, VInt i]" for i by simp
  have l: "cd_loads sample_codec (cd_dumps sample_codec (cursor_payload sample_codec sample_keyset [VInt 9, VInt 1])) =
      Some (cursor_payload sample_codec sample_keyset [VInt 9, VInt 1])"
    "cd_loads sample_codec (cd_dumps sample_codec (cursor_payload sample_codec sample_keyset [VInt 9, VInt 2])) =
      Some (cursor_payload sample_codec sample_keyset [VInt 9, VInt 2])"
    by (simp_all add: sample_codec_def cursor_payload_def sample_keyset_def dict_get_def cursor_version_def)
  have "length (encode_cursor sample_codec sample_keyset [VInt 9, VInt 1]) \<le> max_cursor_length"
    "length (encode_cursor sample_codec sample_keyset [VInt 9, VInt 2]) \<le> max_cursor_length" by code_simp+
  then show ?thesis using assms p a l unfolding travels_def by blast
qed

definition sample_table :: "page_row list" where
  "sample_table = [sample_row 9 2, sample_row 9 1]"

lemma sample_pageable: "pageable sample_codec sample_keyset sample_table" "pageable sample_codec sample_keyset [sample_row 9 2]"
proof -
  have "distinct (map (row_order sample_keyset) sample_table)" by code_simp
  then show "pageable sample_codec sample_keyset sample_table"
    using sample_travels by (auto simp: pageable_def sample_table_def)
  show "pageable sample_codec sample_keyset [sample_row 9 2]" using sample_travels by (simp add: pageable_def)
qed

lemma sample_loads_nothing: "cd_loads sample_codec [] = None"
  by (simp add: sample_codec_def)

text \<open>A position with a key of every type, and a codec of its texts; days are read as Python reads them.\<close>

definition mixed_keyset :: keyset where
  "mixed_keyset = \<lparr>ks_name = ''mixed'', ks_keys =
     [\<lparr>sk_name = ''weight'', sk_type = KDec, sk_descending = True\<rparr>, \<lparr>sk_name = ''period'', sk_type = KDate, sk_descending = True\<rparr>,
      \<lparr>sk_name = ''filed_at'', sk_type = KTime, sk_descending = False\<rparr>, \<lparr>sk_name = ''name'', sk_type = KStr, sk_descending = False\<rparr>,
      \<lparr>sk_name = ''id'', sk_type = KInt, sk_descending = False\<rparr>]\<rparr>"

definition mixed_values :: "cell list" where
  "mixed_values = [VDec (- 5 / 2), VDate (Date 2024 3 31), VTime 1711843200000000, VStr ''Apple Inc'', VInt (- 7)]"

definition mixed_row :: page_row where
  "mixed_row = zip (map sk_name (ks_keys mixed_keyset)) (map Some mixed_values)"

definition mixed_payload :: json where
  "mixed_payload = JObj [(''v'', JInt 1), (''k'', JStr ''mixed''),
     (''a'', JList [JStr ''-2.5'', JStr ''2024-03-31'', JStr ''2024-03-31T00:00:00+00:00'', JStr ''Apple Inc'', JInt (- 7)])]"

definition mixed_text :: string where
  "mixed_text = ''{v:1,k:mixed,a:[-2.5,2024-03-31,2024-03-31T00:00:00+00:00,Apple Inc,-7]}''"

definition mixed_codec :: codec where
  "mixed_codec = \<lparr>
     cd_dumps = (\<lambda>j. if j = mixed_payload then mixed_text else []), cd_loads = (\<lambda>s. if s = mixed_text then Some mixed_payload else None),
     cd_decimal = (\<lambda>x. if x = - 5 / 2 then ''-2.5'' else ''0''),
     cd_read_decimal = (\<lambda>s. if s = ''-2.5'' then Finite (- 5 / 2) else if s = ''NaN'' then Not_finite else Not_a_decimal),
     cd_read_date = date_fromisoformat,
     cd_time = (\<lambda>m. if m = 1711843200000000 then ''2024-03-31T00:00:00+00:00'' else []),
     cd_read_time = (\<lambda>s. if s = ''2024-03-31T00:00:00+00:00'' then Some 1711843200000000 else None)\<rparr>"

lemma mixed_position: "position_of mixed_keyset mixed_row = Inr mixed_values"
  by (simp add: position_of_def mixed_keyset_def mixed_row_def mixed_values_def)

lemma mixed_travels: "travels mixed_codec mixed_keyset mixed_row"
proof -
  have iso: "isoformat (Date 2024 3 31) = ''2024-03-31''" by code_simp
  have p: "cursor_payload mixed_codec mixed_keyset mixed_values = mixed_payload"
    by (simp add: cursor_payload_def mixed_keyset_def mixed_values_def mixed_payload_def cursor_version_def mixed_codec_def iso)
  have "list_all (texts_read mixed_codec) mixed_values"
    by (simp add: mixed_values_def mixed_codec_def valid_date_def month_days_def)
  moreover have "cd_loads mixed_codec (cd_dumps mixed_codec mixed_payload) = Some mixed_payload" by (simp add: mixed_codec_def)
  moreover have "encode_cursor mixed_codec mixed_keyset mixed_values = strip_pads (b64_encode mixed_text)"
    using p by (simp add: encode_cursor_def cursor_payload_def) (simp add: mixed_codec_def)
  moreover have "length (strip_pads (b64_encode mixed_text)) \<le> max_cursor_length" by code_simp
  ultimately show ?thesis using mixed_position p unfolding travels_def by auto
qed

lemma cursor_roundtrip_witness:
  "\<exists>c. decode_cursor mixed_codec (encode_cursor mixed_codec mixed_keyset mixed_values) = Inr c
    \<and> cursor_position mixed_codec c mixed_keyset
        = Inr [VDec (- 5 / 2), VDate (Date 2024 3 31), VTime 1711843200000000, VStr ''Apple Inc'', VInt (- 7)]"
  using cursor_roundtrip[OF mixed_travels] by (auto simp: mixed_position) (simp add: mixed_values_def)

lemma walk_sees_every_row_once_witness:
  "\<exists>seen fin. walk sample_codec sample_keyset 1 None [sample_table, [sample_row 9 2]] = Inr (seen, fin)
    \<and> sorted_wrt (<) (map (row_order sample_keyset) seen)
    \<and> set seen \<subseteq> (\<Union>rows \<in> set [sample_table, [sample_row 9 2]]. set rows)
    \<and> (fin \<longrightarrow> (\<forall>r. (\<forall>rows \<in> set [sample_table, [sample_row 9 2]]. r \<in> set rows) \<longrightarrow> r \<in> set seen))"
  by (rule walk_sees_every_row_once) (use sample_pageable sample_loads_nothing in auto)

lemma walk_is_listing_witness:
  "walk sample_codec sample_keyset 1 None [sample_table, sample_table] = Inr ([sample_row 9 1, sample_row 9 2], True)"
proof -
  have "order_rows sample_keyset sample_table = [sample_row 9 1, sample_row 9 2]" by code_simp
  moreover have "replicate (Suc 1) sample_table = [sample_table, sample_table]" "length sample_table \<le> 1 * Suc 1"
    by (simp_all add: sample_table_def)
  ultimately show ?thesis
    using walk_is_listing[OF sample_pageable(1) sample_loads_nothing, of 1 1] by simp
qed

text \<open>A cursor may carry a whole number no column holds: it is of the type its key declares, so it is a position,
  and reaches the database.\<close>

lemma oversized_integer_is_a_position:
  "cursor_position cd \<lparr>cu_keyset = ''t.value'', cu_values = [JInt (10 ^ 30), JInt 1]\<rparr> sample_keyset =
     Inr [VInt (10 ^ 30), VInt 1]"
  by (simp add: cursor_position_def sample_keyset_def from_json_def)

end
