(* ===== verification/Clusters.thy ===== *)
theory Clusters
  imports Calendar Complex_Main
begin

text \<open>
  \<open>app/derived/insider_cluster.py\<close>: the purchases that count, the windows that hold enough insiders, the
  episodes they make and the rebuild of \<open>insider_cluster\<close>. The tables are lists of rows; the regular
  expression that finds a plan's purchase in the footnotes is a parameter, and a sum of no value is null.
\<close>

section \<open>Tables\<close>

record insider_line =
  il_id :: int
  il_date :: date
  il_filing :: int
  il_insider :: int
  il_issuer :: string
  il_issuer_name :: string
  il_security :: "int option"
  il_code :: char
  il_derivative :: bool
  il_shares :: "rat option"
  il_value :: "rat option"
  il_10b5_1 :: bool
  il_footnotes :: "string option"

record owner_row =
  ow_filing :: int
  ow_insider :: int
  ow_director :: bool
  ow_officer :: bool

record filed_row =
  fl_id :: int
  fl_filed_at :: moment

record insider_tables =
  in_lines :: "insider_line list"
  in_owners :: "owner_row list"
  in_filings :: "filed_row list"

definition windows :: "int list" where "windows = [14, 30, 60, 90]"
definition min_insiders_grid :: "nat list" where "min_insiders_grid = [2, 3, 4, 5]"
definition default_window :: int where "default_window = 30"
definition default_min_insiders :: nat where "default_min_insiders = 3"

section \<open>The lines that count\<close>

datatype exclusion = Derivative | Role | Plan_10b5_1 | Plan_purchase

record classified_line =
  cl_line :: insider_line
  cl_filed_at :: moment
  cl_excluded :: "exclusion option"

definition exclusion_of :: "(string \<Rightarrow> bool) \<Rightarrow> insider_line \<Rightarrow> owner_row \<Rightarrow> exclusion option" where
  "exclusion_of plan_pattern t o_row =
     (if il_derivative t then Some Derivative
      else if \<not> (ow_director o_row \<or> ow_officer o_row) then Some Role
      else if il_10b5_1 t then Some Plan_10b5_1
      else if plan_pattern (case il_footnotes t of None \<Rightarrow> [] | Some s \<Rightarrow> s) then Some Plan_purchase
      else None)"

definition classified :: "(string \<Rightarrow> bool) \<Rightarrow> insider_tables \<Rightarrow> classified_line list" where
  "classified plan_pattern tb =
     [\<lparr>cl_line = t, cl_filed_at = fl_filed_at f, cl_excluded = exclusion_of plan_pattern t w\<rparr>.
        t \<leftarrow> in_lines tb, w \<leftarrow> in_owners tb, f \<leftarrow> in_filings tb,
        il_code t = CHR ''P'' \<and> ow_filing w = il_filing t \<and> ow_insider w = il_insider t \<and> fl_id f = il_filing t]"

definition counted_purchases :: "(string \<Rightarrow> bool) \<Rightarrow> insider_tables \<Rightarrow> classified_line list" where
  "counted_purchases plan_pattern tb = filter (\<lambda>c. cl_excluded c = None) (classified plan_pattern tb)"

abbreviation cl_day :: "classified_line \<Rightarrow> date" where "cl_day c \<equiv> il_date (cl_line c)"

section \<open>Windows\<close>

text \<open>The lines of one issuer, and those of the window that ends on a day.\<close>

definition lines_at :: "classified_line list \<Rightarrow> string \<Rightarrow> classified_line list" where
  "lines_at ls cik = filter (\<lambda>c. il_issuer (cl_line c) = cik) ls"

definition in_window :: "int \<Rightarrow> date \<Rightarrow> classified_line \<Rightarrow> bool" where
  "in_window w d c \<longleftrightarrow> cl_day c \<le> d \<and> toordinal (cl_day c) \<ge> toordinal d - w"

definition window_lines :: "int \<Rightarrow> classified_line list \<Rightarrow> date \<Rightarrow> classified_line list" where
  "window_lines w ls d = filter (in_window w d) ls"

definition window_start :: "int \<Rightarrow> classified_line list \<Rightarrow> date \<Rightarrow> date" where
  "window_start w ls d = Min (set (map cl_day (window_lines w ls d)))"

definition window_insiders :: "int \<Rightarrow> classified_line list \<Rightarrow> date \<Rightarrow> nat" where
  "window_insiders w ls d = card (set (map (\<lambda>c. il_insider (cl_line c)) (window_lines w ls d)))"

definition anchor_days :: "classified_line list \<Rightarrow> date list" where
  "anchor_days ls = sort (remdups (map cl_day ls))"

definition qualifying :: "int \<Rightarrow> nat \<Rightarrow> classified_line list \<Rightarrow> (date \<times> date) list" where
  "qualifying w m ls =
     map (\<lambda>d. (window_start w ls d, d)) (filter (\<lambda>d. window_insiders w ls d \<ge> m) (anchor_days ls))"

section \<open>Episodes\<close>

text \<open>Gaps and islands: each window, in the order of its anchor, with the running count of the windows that start
  after the anchor before.\<close>

fun number_windows :: "'d::linorder option \<Rightarrow> nat \<Rightarrow> ('d \<times> 'd) list \<Rightarrow> (nat \<times> 'd \<times> 'd) list" where
  "number_windows lag n [] = []"
| "number_windows lag n ((s, e) # ws) =
     (let n' = (case lag of None \<Rightarrow> n + 1 | Some p \<Rightarrow> if s \<le> p then n else n + 1)
      in (n', s, e) # number_windows (Some e) n' ws)"

definition island :: "('d::linorder \<times> 'd) list \<Rightarrow> nat \<Rightarrow> ('d \<times> 'd) list" where
  "island ws k = map snd (filter (\<lambda>x. fst x = k) (number_windows None 0 ws))"

definition episode_of :: "('d::linorder \<times> 'd) list \<Rightarrow> nat \<Rightarrow> 'd \<times> 'd" where
  "episode_of ws k = (Min (set (map fst (island ws k))), Max (set (map snd (island ws k))))"

definition episodes :: "('d::linorder \<times> 'd) list \<Rightarrow> ('d \<times> 'd) list" where
  "episodes ws = map (episode_of ws) (remdups (map fst (number_windows None 0 ws)))"

section \<open>Rows\<close>

record cluster_row =
  cr_window_days :: int
  cr_min_insiders :: nat
  cr_issuer :: string
  cr_start :: date
  cr_end :: date
  cr_issuer_name :: string
  cr_security :: "int option"
  cr_insider_count :: nat
  cr_transaction_count :: nat
  cr_total_shares :: "rat option"
  cr_total_value :: "rat option"
  cr_transaction_ids :: "int list"

definition episode_lines :: "classified_line list \<Rightarrow> date \<times> date \<Rightarrow> classified_line list" where
  "episode_lines ls e = filter (\<lambda>c. fst e \<le> cl_day c \<and> cl_day c \<le> snd e) ls"

text \<open>\<open>SUM\<close>, which skips nulls and is null of no value.\<close>

definition sql_sum :: "rat option list \<Rightarrow> rat option" where
  "sql_sum xs = (case List.map_filter id xs of [] \<Rightarrow> None | ys \<Rightarrow> Some (sum_list ys))"

text \<open>The security every line is linked to, if it is one.\<close>

definition only_security :: "classified_line list \<Rightarrow> int option" where
  "only_security ls =
     (let ss = map (\<lambda>c. il_security (cl_line c)) ls in
      if list_all (\<lambda>s. s \<noteq> None) ss \<and> card (set ss) = 1 then hd ss else None)"

definition latest_name :: "classified_line list \<Rightarrow> string" where
  "latest_name ls =
     (case min_by (\<lambda>c. (- cl_filed_at c, - il_id (cl_line c))) ls of
        None \<Rightarrow> [] | Some c \<Rightarrow> il_issuer_name (cl_line c))"

definition cluster_of :: "int \<Rightarrow> nat \<Rightarrow> string \<Rightarrow> classified_line list \<Rightarrow> date \<times> date \<Rightarrow> cluster_row" where
  "cluster_of w m cik ls e =
     (let els = episode_lines ls e in
      \<lparr>cr_window_days = w, cr_min_insiders = m, cr_issuer = cik, cr_start = fst e, cr_end = snd e,
        cr_issuer_name = latest_name els,
        cr_security = only_security els,
        cr_insider_count = card (set (map (\<lambda>c. il_insider (cl_line c)) els)),
        cr_transaction_count = length els,
        cr_total_shares = sql_sum (map (\<lambda>c. il_shares (cl_line c)) els),
        cr_total_value = sql_sum (map (\<lambda>c. il_value (cl_line c)) els),
        cr_transaction_ids = map (\<lambda>c. il_id (cl_line c)) (sort_key (\<lambda>c. (cl_day c, il_id (cl_line c))) els)\<rparr>)"

definition issuers :: "classified_line list \<Rightarrow> string list" where
  "issuers ls = remdups (map (\<lambda>c. il_issuer (cl_line c)) ls)"

definition clusters :: "int \<Rightarrow> nat \<Rightarrow> classified_line list \<Rightarrow> cluster_row list" where
  "clusters w m ls =
     [cluster_of w m cik (lines_at ls cik) e. cik \<leftarrow> issuers ls, e \<leftarrow> episodes (qualifying w m (lines_at ls cik))]"

section \<open>The rebuild\<close>

record episode_report =
  er_issuer :: string
  er_issuer_name :: string
  er_start :: date
  er_end :: date
  er_insider_count :: nat

type_synonym cluster_key = "string \<times> date"

record cluster_rebuild =
  rb_written :: "((int \<times> nat) \<times> nat) list"
  rb_lines :: "(exclusion option \<times> nat) list"
  rb_added :: "episode_report list"
  rb_removed :: "cluster_key list"

definition rb_episodes :: "cluster_rebuild \<Rightarrow> nat option" where
  "rb_episodes r = map_of (rb_written r) (default_window, default_min_insiders)"

definition default_episodes :: "cluster_row list \<Rightarrow> (cluster_key \<times> episode_report) list" where
  "default_episodes rows =
     map (\<lambda>r. ((cr_issuer r, cr_start r),
         \<lparr>er_issuer = cr_issuer r, er_issuer_name = cr_issuer_name r, er_start = cr_start r,
           er_end = cr_end r, er_insider_count = cr_insider_count r\<rparr>))
       (sort_key (\<lambda>r. (cr_end r, cr_issuer r))
         (filter (\<lambda>r. cr_window_days r = default_window \<and> cr_min_insiders r = default_min_insiders) rows))"

definition parameter_grid :: "(int \<times> nat) list" where
  "parameter_grid = [(w, m). w \<leftarrow> windows, m \<leftarrow> min_insiders_grid]"

definition detect_clusters ::
  "(string \<Rightarrow> bool) \<Rightarrow> insider_tables \<Rightarrow> cluster_row list \<Rightarrow> cluster_row list \<times> cluster_rebuild" where
  "detect_clusters plan_pattern tb table =
     (let before = default_episodes table;
          cs = classified plan_pattern tb;
          ls = counted_purchases plan_pattern tb;
          table' = concat (map (\<lambda>(w, m). clusters w m ls) parameter_grid);
          later = default_episodes table'
      in (table',
          \<lparr>rb_written = map (\<lambda>(w, m). ((w, m), length (clusters w m ls))) parameter_grid,
            rb_lines = map (\<lambda>x. (x, length (filter (\<lambda>c. cl_excluded c = x) cs))) (remdups (map cl_excluded cs)),
            rb_added = map snd (filter (\<lambda>(k, e). map_of before k \<noteq> Some e) later),
            rb_removed = filter (\<lambda>k. map_of later k = None) (map fst before)\<rparr>))"

section \<open>Islands are the connected components of overlap\<close>

definition overlaps :: "('d::linorder \<times> 'd) \<Rightarrow> ('d \<times> 'd) \<Rightarrow> bool" where
  "overlaps a b \<longleftrightarrow> fst a \<le> snd b \<and> fst b \<le> snd a"

definition chained :: "('d::linorder \<times> 'd) set \<Rightarrow> ('d \<times> 'd) \<Rightarrow> ('d \<times> 'd) \<Rightarrow> bool" where
  "chained W a b \<longleftrightarrow> (a, b) \<in> {(x, y). x \<in> W \<and> y \<in> W \<and> overlaps x y}\<^sup>*"

text \<open>Windows in the order of their anchors, a later one never starting earlier.\<close>

definition rolling :: "('d::linorder \<times> 'd) list \<Rightarrow> bool" where
  "rolling ws \<longleftrightarrow> sorted_wrt (\<lambda>a b. snd a < snd b \<and> fst a \<le> fst b) ws \<and> (\<forall>x \<in> set ws. fst x \<le> snd x)"

lemma rolling_Cons: "rolling (x # ws) \<longleftrightarrow>
    fst x \<le> snd x \<and> (\<forall>y \<in> set ws. snd x < snd y \<and> fst x \<le> fst y) \<and> rolling ws"
  by (auto simp: rolling_def)

lemma number_windows_ge: "(k, x) \<in> set (number_windows (Some p) n ws) \<Longrightarrow> n \<le> k"
proof (induction ws arbitrary: p n)
  case (Cons w ws)
  then show ?case by (cases w) (auto simp: Let_def split: if_splits dest: Suc_leD)
qed simp

lemma number_windows_snd: "map snd (number_windows lag n ws) = ws"
  by (induction ws arbitrary: lag n) (auto simp: Let_def)

lemma number_windows_mem: "(k, x) \<in> set (number_windows lag n ws) \<Longrightarrow> x \<in> set ws"
  using number_windows_snd[of lag n ws] by (metis in_set_zipE snd_conv zip_map_fst_snd)

lemma number_windows_joined:
  "fst v \<le> p \<Longrightarrow> number_windows (Some p) n (v # ws) = (n, v) # number_windows (Some (snd v)) n ws"
  by (cases v) simp

lemma number_windows_parted:
  "\<not> fst v \<le> p \<Longrightarrow> number_windows (Some p) n (v # ws) = (n + 1, v) # number_windows (Some (snd v)) (n + 1) ws"
  by (cases v) simp

lemma later_number_apart:
  assumes "rolling (w # ws)" "(k, x) \<in> set (number_windows (Some (snd w)) n ws)" "n < k"
  shows "snd w < fst x"
  using assms
proof (induction ws arbitrary: w n)
  case (Cons v ws)
  have r: "rolling (v # ws)" "snd w < snd v" "\<forall>y \<in> set ws. fst v \<le> fst y" using Cons.prems(1) by (auto simp: rolling_Cons)
  show ?case
  proof (cases "fst v \<le> snd w")
    case True
    then have "(k, x) \<in> set (number_windows (Some (snd v)) n ws)"
      using Cons.prems(2,3) number_windows_joined[OF True] by auto
    from Cons.IH[OF r(1) this Cons.prems(3)] r(2) show ?thesis by simp
  next
    case False
    have "x = v \<or> x \<in> set ws"
      using number_windows_mem[OF Cons.prems(2)] by simp
    then show ?thesis
    proof
      assume "x \<in> set ws"
      then have "fst v \<le> fst x" using r(3) by blast
      then show ?thesis using False by simp
    qed (use False in simp)
  qed
qed simp

lemma numbers_apart:
  assumes "rolling ws" "(i, a) \<in> set (number_windows lag n ws)" "(j, b) \<in> set (number_windows lag n ws)" "i < j"
  shows "snd a < fst b"
  using assms
proof (induction ws arbitrary: lag n)
  case (Cons w ws)
  obtain s e where w: "w = (s, e)" by (rule prod.exhaust)
  obtain n' where n: "number_windows lag n (w # ws) = (n', w) # number_windows (Some (snd w)) n' ws"
    using w by (simp add: Let_def)
  have r: "rolling ws" using Cons.prems(1) by (simp add: rolling_Cons)
  consider "(i, a) = (n', w)" "(j, b) \<in> set (number_windows (Some (snd w)) n' ws)"
    | "(i, a) \<in> set (number_windows (Some (snd w)) n' ws)" "(j, b) = (n', w)"
    | "(i, a) \<in> set (number_windows (Some (snd w)) n' ws)" "(j, b) \<in> set (number_windows (Some (snd w)) n' ws)"
    using Cons.prems(2-4) n by auto
  then show ?case
  proof cases
    case 1
    then show ?thesis using later_number_apart[OF Cons.prems(1)] Cons.prems(4) by auto
  next
    case 2
    then show ?thesis using number_windows_ge Cons.prems(4) by fastforce
  next
    case 3
    then show ?thesis using Cons.IH[OF r] Cons.prems(4) by blast
  qed
qed simp

lemma chained_trans: "chained W a b \<Longrightarrow> chained W b c \<Longrightarrow> chained W a c"
  unfolding chained_def by (rule rtrancl_trans)

lemma chained_refl: "chained W a a"
  by (simp add: chained_def)

lemma chained_step: "a \<in> W \<Longrightarrow> b \<in> W \<Longrightarrow> overlaps a b \<Longrightarrow> chained W a b"
  unfolding chained_def by (rule r_into_rtrancl) simp

lemma chained_sym: "chained W a b \<Longrightarrow> chained W b a"
  unfolding chained_def
  by (erule rtrancl_induct) (auto simp: overlaps_def intro: converse_rtrancl_into_rtrancl)

lemma chained_mono: "chained W a b \<Longrightarrow> W \<subseteq> V \<Longrightarrow> chained V a b"
  unfolding chained_def by (erule rtrancl_mono[THEN subsetD, rotated]) auto

lemma same_number_from:
  assumes "rolling (w # ws)" "(n, x) \<in> set (number_windows (Some (snd w)) n ws)"
  shows "chained (set (w # ws)) w x"
  using assms
proof (induction ws arbitrary: w)
  case (Cons v ws)
  have r: "rolling (v # ws)" "snd w < snd v" "fst w \<le> fst v" "fst v \<le> snd v"
    using Cons.prems(1) by (auto simp: rolling_Cons)
  have joined: "fst v \<le> snd w"
  proof (rule ccontr)
    assume m: "\<not> fst v \<le> snd w"
    then have "(n, x) \<in> set (number_windows (Some (snd v)) (n + 1) ws)"
      using Cons.prems(2) number_windows_parted[OF m] by simp
    from number_windows_ge[OF this] show False by simp
  qed
  have "chained (set (w # v # ws)) w v"
    by (rule chained_step) (use r joined in \<open>auto simp: overlaps_def\<close>)
  moreover have "chained (set (w # v # ws)) v x"
  proof (cases "x = v")
    case False
    then have "(n, x) \<in> set (number_windows (Some (snd v)) n ws)"
      using Cons.prems(2) number_windows_joined[OF joined] by simp
    from Cons.IH[OF r(1) this] show ?thesis by (rule chained_mono) auto
  qed (simp add: chained_refl)
  ultimately show ?case by (rule chained_trans)
qed simp

lemma same_number_chained:
  assumes "rolling ws" "(k, a) \<in> set (number_windows lag n ws)" "(k, b) \<in> set (number_windows lag n ws)"
  shows "chained (set ws) a b"
  using assms
proof (induction ws arbitrary: lag n)
  case (Cons w ws)
  obtain s e where w: "w = (s, e)" by (rule prod.exhaust)
  obtain n' where n: "number_windows lag n (w # ws) = (n', w) # number_windows (Some (snd w)) n' ws"
    using w by (simp add: Let_def)
  have r: "rolling ws" using Cons.prems(1) by (simp add: rolling_Cons)
  have ab: "(k, a) = (n', w) \<or> (k, a) \<in> set (number_windows (Some (snd w)) n' ws)"
    "(k, b) = (n', w) \<or> (k, b) \<in> set (number_windows (Some (snd w)) n' ws)"
    using Cons.prems(2,3) unfolding n by simp_all
  then consider "(k, a) = (n', w)" "(k, b) = (n', w)"
    | "(k, a) = (n', w)" "(n', b) \<in> set (number_windows (Some (snd w)) n' ws)"
    | "(n', a) \<in> set (number_windows (Some (snd w)) n' ws)" "(k, b) = (n', w)"
    | "(k, a) \<in> set (number_windows (Some (snd w)) n' ws)" "(k, b) \<in> set (number_windows (Some (snd w)) n' ws)"
    by blast
  then show ?case
  proof cases
    case 1
    then show ?thesis by (simp add: chained_refl)
  next
    case 2
    then show ?thesis using same_number_from[OF Cons.prems(1)] by blast
  next
    case 3
    then show ?thesis using same_number_from[OF Cons.prems(1)] chained_sym by blast
  next
    case 4
    from Cons.IH[OF r 4] show ?thesis by (rule chained_mono) auto
  qed
qed simp

lemma chained_same_number:
  assumes "rolling ws" "chained (set ws) a b" "(i, a) \<in> set (number_windows lag n ws)"
  shows "(i, b) \<in> set (number_windows lag n ws)"
  using assms(2,3) unfolding chained_def
proof (induction rule: rtrancl_induct)
  case (step b c)
  then have bc: "overlaps b c" "c \<in> set ws" "(i, b) \<in> set (number_windows lag n ws)" by auto
  then obtain j where j: "(j, c) \<in> set (number_windows lag n ws)"
    using number_windows_snd[of lag n ws] by (metis imageE list.set_map prod.collapse)
  have "\<not> i < j" "\<not> j < i"
    using numbers_apart[OF assms(1) bc(3) j] numbers_apart[OF assms(1) j bc(3)] bc(1) by (auto simp: overlaps_def)
  then show ?case using j by simp
qed simp

lemma number_windows_covers:
  "x \<in> set ws \<Longrightarrow> \<exists>k. (k, x) \<in> set (number_windows lag n ws)"
  using number_windows_snd[of lag n ws] by (metis imageE list.set_map prod.collapse)

lemma island_mem: "x \<in> set (island ws k) \<longleftrightarrow> (k, x) \<in> set (number_windows None 0 ws)"
  by (force simp: island_def)

lemma episodes_mem: "e \<in> set (episodes ws) \<longleftrightarrow> (\<exists>k x. x \<in> set (island ws k) \<and> e = episode_of ws k)"
  by (force simp: episodes_def island_mem)

lemma episode_of_bounds:
  "x \<in> set (island ws k) \<Longrightarrow> fst (episode_of ws k) \<le> fst x \<and> snd x \<le> snd (episode_of ws k)"
  by (simp add: episode_of_def)

lemma episode_of_reached:
  assumes "x \<in> set (island ws k)"
  obtains a b where "a \<in> set (island ws k)" "fst (episode_of ws k) = fst a"
    "b \<in> set (island ws k)" "snd (episode_of ws k) = snd b"
proof -
  have n: "set (map fst (island ws k)) \<noteq> {}" "set (map snd (island ws k)) \<noteq> {}" using assms by auto
  from Min_in[OF finite_set n(1)] Max_in[OF finite_set n(2)] that show ?thesis
    unfolding episode_of_def fst_conv snd_conv set_map by blast
qed

lemma inside_island:
  assumes r: "rolling ws" and x: "x \<in> set ws"
    and bounds: "fst (episode_of ws k) \<le> fst x" "snd x \<le> snd (episode_of ws k)" and y: "y \<in> set (island ws k)"
  shows "x \<in> set (island ws k)"
proof -
  obtain j where j: "(j, x) \<in> set (number_windows None 0 ws)" using number_windows_covers[OF x] by blast
  obtain a b where a: "a \<in> set (island ws k)" "fst (episode_of ws k) = fst a"
    and b: "b \<in> set (island ws k)" "snd (episode_of ws k) = snd b"
    using episode_of_reached[OF y] by blast
  have "fst x \<le> snd x" using r x by (simp add: rolling_def)
  then have "\<not> j < k" "\<not> k < j"
    using numbers_apart[OF r j a(1)[unfolded island_mem]] numbers_apart[OF r b(1)[unfolded island_mem] j]
      a(2) b(2) bounds by auto
  then show ?thesis using j by (simp add: island_mem)
qed

abbreviation inside :: "'d::linorder \<times> 'd \<Rightarrow> 'd \<times> 'd \<Rightarrow> bool" where
  "inside x e \<equiv> fst e \<le> fst x \<and> snd x \<le> snd e"

lemma islands_are_components:
  assumes r: "rolling ws" and a: "a \<in> set ws" and b: "b \<in> set ws"
  shows "(\<exists>e \<in> set (episodes ws). inside a e \<and> inside b e) \<longleftrightarrow> chained (set ws) a b"
proof
  assume "\<exists>e \<in> set (episodes ws). inside a e \<and> inside b e"
  then obtain e where e: "e \<in> set (episodes ws)" "inside a e" "inside b e" by blast
  from e(1) obtain k x where k: "x \<in> set (island ws k)" "e = episode_of ws k" unfolding episodes_mem by blast
  have "a \<in> set (island ws k)" by (rule inside_island[OF r a _ _ k(1)]) (use e(2) k(2) in simp_all)
  moreover have "b \<in> set (island ws k)" by (rule inside_island[OF r b _ _ k(1)]) (use e(3) k(2) in simp_all)
  ultimately show "chained (set ws) a b" unfolding island_mem by (rule same_number_chained[OF r])
next
  assume c: "chained (set ws) a b"
  obtain i where i: "(i, a) \<in> set (number_windows None 0 ws)" using number_windows_covers[OF a] by blast
  from chained_same_number[OF r c i] i have "a \<in> set (island ws i)" "b \<in> set (island ws i)"
    by (simp_all add: island_mem)
  then have "episode_of ws i \<in> set (episodes ws)" unfolding episodes_mem by blast
  moreover have "inside a (episode_of ws i)" "inside b (episode_of ws i)"
    using \<open>a \<in> set (island ws i)\<close> \<open>b \<in> set (island ws i)\<close> by (simp_all add: episode_of_bounds)
  ultimately show "\<exists>e \<in> set (episodes ws). inside a e \<and> inside b e" by blast
qed

lemma episode_numbers_apart:
  assumes r: "rolling ws" and i: "x \<in> set (island ws i)" and j: "y \<in> set (island ws j)" and "i < j"
  shows "snd (episode_of ws i) < fst (episode_of ws j)"
proof -
  obtain b where b: "b \<in> set (island ws i)" "snd (episode_of ws i) = snd b" using episode_of_reached[OF i] by blast
  obtain c where c: "c \<in> set (island ws j)" "fst (episode_of ws j) = fst c" using episode_of_reached[OF j] by blast
  from numbers_apart[OF r b(1)[unfolded island_mem] c(1)[unfolded island_mem] \<open>i < j\<close>] b(2) c(2) show ?thesis by simp
qed

lemma episode_ordered:
  assumes r: "rolling ws" and x: "x \<in> set (island ws k)"
  shows "fst (episode_of ws k) \<le> snd (episode_of ws k)"
proof -
  have "fst x \<le> snd x" using r number_windows_mem[OF x[unfolded island_mem]] by (simp add: rolling_def)
  then show ?thesis using episode_of_bounds[OF x] by (metis order_trans)
qed

lemma distinct_episode_starts:
  assumes r: "rolling ws"
  shows "distinct (map fst (episodes ws))"
proof -
  let ?ks = "remdups (map fst (number_windows None 0 ws))"
  have "inj_on (\<lambda>k. fst (episode_of ws k)) (set ?ks)"
  proof (rule linorder_inj_onI)
    fix i j assume ij: "i < j" "i \<in> set ?ks" "j \<in> set ?ks"
    then obtain x y where xy: "x \<in> set (island ws i)" "y \<in> set (island ws j)" by (auto simp: island_mem)
    from episode_numbers_apart[OF r xy ij(1)] episode_ordered[OF r xy(1)]
    show "fst (episode_of ws i) \<noteq> fst (episode_of ws j)" by simp
  qed auto
  then show ?thesis by (simp add: episodes_def distinct_map comp_def inj_on_def)
qed

section \<open>The windows of an issuer\<close>

lemma anchor_days_sorted: "sorted_wrt (<) (anchor_days ls)"
  by (simp add: anchor_days_def strict_sorted_iff)

lemma anchor_days_set [simp]: "set (anchor_days ls) = cl_day ` set ls"
  by (simp add: anchor_days_def)

lemma qualifying_mem:
  "x \<in> set (qualifying w m ls) \<longleftrightarrow>
     snd x \<in> cl_day ` set ls \<and> m \<le> window_insiders w ls (snd x) \<and> fst x = window_start w ls (snd x)"
  by (cases x) (auto simp: qualifying_def)

lemma window_start_le:
  "c \<in> set ls \<Longrightarrow> in_window w d c \<Longrightarrow> window_start w ls d \<le> cl_day c"
  by (simp add: window_start_def window_lines_def)

lemma window_start_reached:
  assumes "c \<in> set ls" "in_window w d c"
  obtains c' where "c' \<in> set ls" "in_window w d c'" "window_start w ls d = cl_day c'"
proof -
  have "set (map cl_day (window_lines w ls d)) \<noteq> {}" using assms by (auto simp: window_lines_def)
  from Min_in[OF finite_set this] that show ?thesis unfolding window_start_def by (auto simp: window_lines_def)
qed

lemma anchor_in_window: "0 \<le> w \<Longrightarrow> in_window w (cl_day c) c"
  by (simp add: in_window_def)

lemma window_start_le_anchor:
  "0 \<le> w \<Longrightarrow> d \<in> cl_day ` set ls \<Longrightarrow> window_start w ls d \<le> d"
  using window_start_le anchor_in_window by blast

lemma window_start_mono:
  assumes w: "0 \<le> w" and v: "\<forall>c \<in> set ls. valid_date (cl_day c)"
    and d: "d \<in> cl_day ` set ls" "d' \<in> cl_day ` set ls" "d < d'"
  shows "window_start w ls d \<le> window_start w ls d'"
proof -
  obtain c' where c': "c' \<in> set ls" "cl_day c' = d'" using d(2) by blast
  obtain c where c: "c \<in> set ls" "in_window w d' c" "window_start w ls d' = cl_day c"
    using window_start_reached[OF c'(1)] anchor_in_window[OF w] c'(2) by blast
  show ?thesis
  proof (cases "cl_day c \<le> d")
    case True
    have "toordinal d < toordinal d'" using toordinal_less[OF _ _ d(3)] d(1,2) v by blast
    then have "in_window w d c" using True c(2) by (simp add: in_window_def)
    from window_start_le[OF c(1) this] c(3) show ?thesis by simp
  next
    case False
    then show ?thesis using window_start_le_anchor[OF w d(1)] c(3) by simp
  qed
qed

lemma rolling_qualifying:
  assumes w: "0 \<le> w" and v: "\<forall>c \<in> set ls. valid_date (cl_day c)"
  shows "rolling (qualifying w m ls)"
proof -
  let ?ds = "filter (\<lambda>d. window_insiders w ls d \<ge> m) (anchor_days ls)"
  have "sorted_wrt (<) ?ds" by (rule sorted_wrt_filter) (rule anchor_days_sorted)
  then have "sorted_wrt (\<lambda>d d'. d < d' \<and> window_start w ls d \<le> window_start w ls d') ?ds"
    by (rule sorted_wrt_mono_rel[rotated]) (use window_start_mono[OF w v] in auto)
  moreover have "\<forall>x \<in> set (qualifying w m ls). fst x \<le> snd x"
    using window_start_le_anchor[OF w] by (auto simp: qualifying_mem)
  ultimately show ?thesis by (simp add: rolling_def qualifying_def sorted_wrt_map)
qed

section \<open>Episodes of an issuer\<close>

text \<open>C20. Two qualifying windows of an issuer lie in a common episode exactly when a chain of qualifying windows,
  each overlapping the next, leads from one to the other: the gaps-and-islands query, which compares a window
  with the one before it only, computes the connected components of overlap.
\<close>

theorem episodes_are_components:
  assumes "0 \<le> w" "\<forall>c \<in> set ls. valid_date (cl_day c)"
    and "a \<in> set (qualifying w m ls)" "b \<in> set (qualifying w m ls)"
  shows "(\<exists>e \<in> set (episodes (qualifying w m ls)). inside a e \<and> inside b e) \<longleftrightarrow>
    chained (set (qualifying w m ls)) a b"
  using islands_are_components[OF rolling_qualifying[OF assms(1,2)] assms(3,4)] .

lemma lines_at_valid: "\<forall>c \<in> set ls. valid_date (cl_day c) \<Longrightarrow> \<forall>c \<in> set (lines_at ls cik). valid_date (cl_day c)"
  by (simp add: lines_at_def)

lemma clusters_mem:
  "r \<in> set (clusters w m ls) \<longleftrightarrow> (\<exists>cik \<in> set (issuers ls). \<exists>e \<in> set (episodes (qualifying w m (lines_at ls cik))).
     r = cluster_of w m cik (lines_at ls cik) e)"
  by (auto simp: clusters_def)

lemma cluster_of_key [simp]:
  "cr_issuer (cluster_of w m cik ls e) = cik" "cr_start (cluster_of w m cik ls e) = fst e"
  "cr_end (cluster_of w m cik ls e) = snd e"
  by (simp_all add: cluster_of_def Let_def)

lemma cluster_of_counts:
  "cr_insider_count (cluster_of w m cik ls e) = card ((\<lambda>c. il_insider (cl_line c)) ` set (episode_lines ls e))"
  "cr_transaction_count (cluster_of w m cik ls e) = length (episode_lines ls e)"
  "length (cr_transaction_ids (cluster_of w m cik ls e)) = length (episode_lines ls e)"
  "set (cr_transaction_ids (cluster_of w m cik ls e)) = (\<lambda>c. il_id (cl_line c)) ` set (episode_lines ls e)"
  by (simp_all add: cluster_of_def Let_def)

lemma window_in_episode:
  assumes "inside x e" "fst x = window_start w ls (snd x)"
  shows "set (window_lines w ls (snd x)) \<subseteq> set (episode_lines ls e)"
proof
  fix c assume "c \<in> set (window_lines w ls (snd x))"
  then have c: "c \<in> set ls" "in_window w (snd x) c" by (simp_all add: window_lines_def)
  then have "fst x \<le> cl_day c" "cl_day c \<le> snd x"
    using window_start_le assms(2) by (auto simp: in_window_def)
  then show "c \<in> set (episode_lines ls e)" using assms(1) c(1) by (auto simp: episode_lines_def)
qed

text \<open>The checks \<open>insider_cluster\<close> puts on a row.\<close>

definition cluster_checks :: "cluster_row \<Rightarrow> bool" where
  "cluster_checks r \<longleftrightarrow> cr_window_days r > 0 \<and> cr_min_insiders r \<ge> 2 \<and> cr_end r \<ge> cr_start r \<and>
     cr_insider_count r \<ge> cr_min_insiders r \<and> cr_transaction_count r \<ge> cr_insider_count r \<and>
     length (cr_transaction_ids r) = cr_transaction_count r"

lemma episode_window:
  assumes "e \<in> set (episodes ws)"
  obtains x where "x \<in> set ws" "inside x e"
proof -
  from assms obtain k x where k: "x \<in> set (island ws k)" "e = episode_of ws k" unfolding episodes_mem by blast
  show ?thesis using that[of x] number_windows_mem[OF k(1)[unfolded island_mem]] episode_of_bounds[OF k(1)] k(2) by simp
qed

lemma cluster_of_checks:
  assumes w: "0 < w" and m: "2 \<le> m" and v: "\<forall>c \<in> set ls. valid_date (cl_day c)"
    and e: "e \<in> set (episodes (qualifying w m ls))"
  shows "cluster_checks (cluster_of w m cik ls e)"
proof -
  obtain x where x: "x \<in> set (qualifying w m ls)" "inside x e" using episode_window[OF e] .
  have q: "snd x \<in> cl_day ` set ls" "m \<le> window_insiders w ls (snd x)" "fst x = window_start w ls (snd x)"
    using x(1) unfolding qualifying_mem by blast+
  have "fst x \<le> snd x" using window_start_le_anchor[OF _ q(1)] w q(3) by simp
  then have o_e: "fst e \<le> snd e" using x(2) by auto
  have "window_insiders w ls (snd x) \<le> card ((\<lambda>c. il_insider (cl_line c)) ` set (episode_lines ls e))"
    unfolding window_insiders_def set_map
    by (rule card_mono) (use window_in_episode[OF x(2) q(3)] in auto)
  moreover have "card ((\<lambda>c. il_insider (cl_line c)) ` set (episode_lines ls e)) \<le> length (episode_lines ls e)"
    by (rule order_trans[OF card_image_le card_length]) simp
  ultimately show ?thesis
    using w m q(2) o_e by (simp add: cluster_checks_def cluster_of_counts cluster_of_def[of w m cik ls e] Let_def)
qed

lemma distinct_concat_keys:
  assumes "distinct xs" "\<And>x. x \<in> set xs \<Longrightarrow> distinct (map k (f x))" "\<And>x y. y \<in> set (f x) \<Longrightarrow> fst (k y) = x"
  shows "distinct (map k (concat (map f xs)))"
  using assms
proof (induction xs)
  case (Cons x xs)
  have "distinct (map k (concat (map f xs)))" by (rule Cons.IH) (use Cons.prems in auto)
  moreover have "k y \<noteq> k z" if m: "y \<in> set (f x)" "x' \<in> set xs" "z \<in> set (f x')" for y x' z
    using Cons.prems(3)[OF m(1)] Cons.prems(3)[OF m(3)] Cons.prems(1) m(2) by auto
  ultimately show ?case using Cons.prems(2)[of x] by fastforce
qed simp

text \<open>Every row of a rebuild passes the table's checks - its window runs forward, it counts at least as many
  insiders as the threshold and at least one line for each, and lists the line ids it counts - and no two rows
  share a primary key.
\<close>

theorem clusters_pass_checks:
  assumes "0 < w" "2 \<le> m" "\<forall>c \<in> set ls. valid_date (cl_day c)"
  shows "list_all cluster_checks (clusters w m ls) \<and>
    distinct (map (\<lambda>r. (cr_issuer r, cr_start r)) (clusters w m ls))"
proof
  show "list_all cluster_checks (clusters w m ls)"
    unfolding list_all_iff
    using cluster_of_checks[OF assms(1,2) lines_at_valid[OF assms(3)]] by (auto simp: clusters_mem)
  have r: "rolling (qualifying w m (lines_at ls cik))" for cik
    using rolling_qualifying[OF _ lines_at_valid[OF assms(3)]] assms(1) by simp
  have d: "distinct (map (\<lambda>e. (cik, fst e)) (episodes (qualifying w m (lines_at ls cik))))" for cik
    using distinct_episode_starts[OF r[of cik]] by (auto simp: distinct_map inj_on_def)
  show "distinct (map (\<lambda>r. (cr_issuer r, cr_start r)) (clusters w m ls))"
    unfolding clusters_def
    by (rule distinct_concat_keys) (use d in \<open>auto simp: issuers_def comp_def\<close>)
qed

section \<open>A wider window and a lower threshold\<close>

lemma wider_window:
  assumes "0 \<le> w" "w \<le> w'" "m' \<le> m" "x \<in> set (qualifying w m ls)"
  shows "(window_start w' ls (snd x), snd x) \<in> set (qualifying w' m' ls)" "window_start w' ls (snd x) \<le> fst x"
proof -
  have q: "snd x \<in> cl_day ` set ls" "m \<le> window_insiders w ls (snd x)" "fst x = window_start w ls (snd x)"
    using assms(4) unfolding qualifying_mem by blast+
  have sub: "set (window_lines w ls (snd x)) \<subseteq> set (window_lines w' ls (snd x))"
    using assms(2) by (auto simp: window_lines_def in_window_def)
  then have "window_insiders w ls (snd x) \<le> window_insiders w' ls (snd x)"
    unfolding window_insiders_def set_map by (intro card_mono) auto
  then show "(window_start w' ls (snd x), snd x) \<in> set (qualifying w' m' ls)"
    using q(1,2) assms(3) by (simp add: qualifying_mem)
  obtain c where c: "c \<in> set ls" "cl_day c = snd x" using q(1) by auto
  then have "c \<in> set (window_lines w ls (snd x))"
    using anchor_in_window[OF assms(1), of c] by (simp add: window_lines_def)
  then show "window_start w' ls (snd x) \<le> fst x"
    unfolding q(3) window_start_def using sub by (intro Min_antimono) auto
qed

lemma chained_image:
  assumes "\<And>x. x \<in> W \<Longrightarrow> g x \<in> V \<and> inside x (g x)" "chained W a b"
  shows "chained V (g a) (g b)"
  using assms(2) unfolding chained_def
proof (induction rule: rtrancl_induct)
  case (step b c)
  then have bc: "b \<in> W" "c \<in> W" "overlaps b c" by auto
  then have "overlaps (g b) (g c)"
    using assms(1)[OF bc(1)] assms(1)[OF bc(2)] by (auto simp: overlaps_def intro: order_trans)
  then show ?case using step.IH assms(1)[OF bc(1)] assms(1)[OF bc(2)] by (auto intro: rtrancl_into_rtrancl)
qed simp

lemma episodes_nest:
  assumes w: "0 \<le> w" "w \<le> w'" "m' \<le> m" and v: "\<forall>c \<in> set ls. valid_date (cl_day c)"
    and e: "e \<in> set (episodes (qualifying w m ls))"
  obtains e' where "e' \<in> set (episodes (qualifying w' m' ls))" "inside e e'"
proof -
  let ?W = "qualifying w m ls" and ?V = "qualifying w' m' ls"
  let ?g = "\<lambda>x. (window_start w' ls (snd x), snd x)"
  have r: "rolling ?W" "rolling ?V" using rolling_qualifying[OF _ v] w by simp_all
  obtain k x where k: "x \<in> set (island ?W k)" "e = episode_of ?W k" using e unfolding episodes_mem by blast
  obtain a b where ab: "a \<in> set (island ?W k)" "fst e = fst a" "b \<in> set (island ?W k)" "snd e = snd b"
    using episode_of_reached[OF k(1)] k(2) by blast
  have mem: "a \<in> set ?W" "b \<in> set ?W" using ab(1,3) number_windows_mem unfolding island_mem by blast+
  have "chained (set ?W) a b" using same_number_chained[OF r(1)] ab(1,3) unfolding island_mem by blast
  then have "chained (set ?V) (?g a) (?g b)"
    by (rule chained_image[rotated]) (use wider_window[OF w] in simp)
  then obtain e' where e': "e' \<in> set (episodes ?V)" "inside (?g a) e'" "inside (?g b) e'"
    using islands_are_components[OF r(2) wider_window(1)[OF w mem(1)] wider_window(1)[OF w mem(2)]] by blast
  have "fst e' \<le> fst e" using e'(2) wider_window(2)[OF w mem(1)] ab(2) by (auto intro: order_trans)
  moreover have "snd e \<le> snd e'" using e'(3) ab(4) by simp
  ultimately show ?thesis using that e'(1) by blast
qed

lemma episode_lines_mono: "inside e e' \<Longrightarrow> set (episode_lines ls e) \<subseteq> set (episode_lines ls e')"
  by (auto simp: episode_lines_def)

text \<open>Clusters nest: one found with a narrower window or a higher threshold lies inside one of the same issuer
  found with a wider window and a lower threshold, which counts every line it counts.
\<close>

theorem clusters_nest:
  assumes "0 \<le> w" "w \<le> w'" "m' \<le> m" "\<forall>c \<in> set ls. valid_date (cl_day c)"
    and "r \<in> set (clusters w m ls)"
  shows "\<exists>r' \<in> set (clusters w' m' ls). cr_issuer r' = cr_issuer r \<and>
    cr_start r' \<le> cr_start r \<and> cr_end r \<le> cr_end r' \<and> set (cr_transaction_ids r) \<subseteq> set (cr_transaction_ids r')"
proof -
  obtain cik e where c: "cik \<in> set (issuers ls)" "e \<in> set (episodes (qualifying w m (lines_at ls cik)))"
    "r = cluster_of w m cik (lines_at ls cik) e"
    using assms(5) unfolding clusters_mem by blast
  obtain e' where e': "e' \<in> set (episodes (qualifying w' m' (lines_at ls cik)))" "inside e e'"
    using episodes_nest[OF assms(1-3) lines_at_valid[OF assms(4)] c(2)] .
  have "cluster_of w' m' cik (lines_at ls cik) e' \<in> set (clusters w' m' ls)"
    using c(1) e'(1) unfolding clusters_mem by blast
  moreover have "set (cr_transaction_ids r) \<subseteq> set (cr_transaction_ids (cluster_of w' m' cik (lines_at ls cik) e'))"
    unfolding c(3) cluster_of_counts using episode_lines_mono[OF e'(2)] by (rule image_mono)
  ultimately show ?thesis using e'(2) c(3) by (intro bexI[of _ "cluster_of w' m' cik (lines_at ls cik) e'"]) simp_all
qed

section \<open>A month of buying\<close>

definition buy_line :: "int \<Rightarrow> date \<Rightarrow> int \<Rightarrow> classified_line" where
  "buy_line i d who =
     \<lparr>cl_line = \<lparr>il_id = i, il_date = d, il_filing = i, il_insider = who, il_issuer = ''0000000001'',
         il_issuer_name = ''ACME'', il_security = Some 7, il_code = CHR ''P'', il_derivative = False,
         il_shares = Some 100, il_value = None, il_10b5_1 = False, il_footnotes = None\<rparr>,
       cl_filed_at = i, cl_excluded = None\<rparr>"

text \<open>Five directors; the first and the last trade too far apart for one window.\<close>

definition busy_month :: "classified_line list" where
  "busy_month =
     [buy_line 1 (Date 2024 1 2) 1, buy_line 2 (Date 2024 1 20) 2, buy_line 3 (Date 2024 1 30) 3,
      buy_line 4 (Date 2024 2 15) 4, buy_line 5 (Date 2024 6 1) 5]"

lemma busy_month_valid: "\<forall>c \<in> set busy_month. valid_date (cl_day c)"
  by code_simp

lemma busy_month_windows:
  "qualifying 30 3 busy_month = [(Date 2024 1 2, Date 2024 1 30), (Date 2024 1 20, Date 2024 2 15)]"
  by code_simp

lemma episodes_are_components_witness:
  "chained (set (qualifying 30 3 busy_month)) (Date 2024 1 2, Date 2024 1 30) (Date 2024 1 20, Date 2024 2 15)"
proof -
  have "\<exists>e \<in> set (episodes (qualifying 30 3 busy_month)).
      inside (Date 2024 1 2, Date 2024 1 30) e \<and> inside (Date 2024 1 20, Date 2024 2 15) e"
    by code_simp
  then show ?thesis
    using episodes_are_components[OF _ busy_month_valid, of 30 "(Date 2024 1 2, Date 2024 1 30)" 3
        "(Date 2024 1 20, Date 2024 2 15)"]
    unfolding busy_month_windows by simp
qed

lemma clusters_pass_checks_witness:
  "list_all cluster_checks (clusters 30 3 busy_month) \<and> map cr_insider_count (clusters 30 3 busy_month) = [4]"
proof
  show "list_all cluster_checks (clusters 30 3 busy_month)"
    using clusters_pass_checks[OF _ _ busy_month_valid, of 30 3] by simp
qed code_simp

lemma clusters_nest_witness:
  "\<exists>r' \<in> set (clusters 90 2 busy_month). cr_start r' \<le> Date 2024 1 2 \<and> Date 2024 2 15 \<le> cr_end r'"
proof -
  have "map (\<lambda>r. (cr_start r, cr_end r)) (clusters 30 3 busy_month) = [(Date 2024 1 2, Date 2024 2 15)]"
    by code_simp
  then obtain r where r: "r \<in> set (clusters 30 3 busy_month)" "cr_start r = Date 2024 1 2" "cr_end r = Date 2024 2 15"
    by (auto simp: map_eq_Cons_conv)
  from clusters_nest[OF _ _ _ busy_month_valid r(1), of 90 2] r(2,3) show ?thesis by auto
qed

end
