(* ===== verification/Spec2Isabelle.thy ===== *)
theory Spec2Isabelle
  imports Periods RateLimit Entitlements Sessions Gates Usage AlertRules Outbox Recompute Normalisation Loader Reconcile BillingRoutes Pagination Clusters
begin

text \<open>
  A model of whalewatch-api, the service that publishes what investment managers hold (SEC form 13F), what
  insiders buy, and what an account may see of it. Paths are under \<open>src/\<close>. Each theory models one module of
  the service and holds its properties; this one imports them all.

  \<^bold>\<open>The parts and how they meet.\<close> The data side is a pipeline. A document is parsed, normalised and loaded;
  the filings that count for a filer and period are chosen; from these the derived tables are rebuilt, one from
  another, and reconciled against their sources:

    \<^item> \<open>ThirteenF\<close> (\<open>app/ingestion/parsers/thirteen_f.py\<close>) reads the cover page (\<open>parse_primary_doc\<close>) and the
      information table (\<open>parse_information_table\<close>) of a filing, every error and warning a value.
    \<^item> \<open>Normalisation\<close> (\<open>app/ingestion/normalisation.py\<close>) puts the rows in dollars and runs the guards
      (\<open>normalise_filing\<close>); \<open>Decimals\<close> is the arithmetic of \<open>decimal.Decimal\<close> it is done in.
    \<^item> \<open>Loader\<close> (\<open>app/ingestion/loaders/filing.py\<close>) writes it to the tables (\<open>load_filing\<close>): state \<open>load_store\<close>,
      the tables of filings, securities and holdings with their sequences.
    \<^item> \<open>Effective\<close> (the \<open>effective_filing\<close> views) chooses the filings that count, after amendments.
    \<^item> \<open>Scopes\<close>, \<open>Snapshots\<close>, \<open>Prices\<close>, \<open>Splits\<close>, \<open>Changes\<close> (\<open>app/derived/scope.py\<close>, \<open>position_snapshot.py\<close>,
      \<open>implied_price.py\<close>, \<open>security_split.py\<close>, \<open>position_change.py\<close>): the derived tables, each a query over
      sets of rows and a rebuild of a scope of its keys. \<open>Recompute\<close> (\<open>recompute.py\<close>) is the rebuild of all of
      them in order, for what an ingest changed, and \<open>Reconcile\<close> (\<open>reconcile.py\<close>) the thirteen invariants.
    \<^item> \<open>Clusters\<close> (\<open>app/derived/insider_cluster.py\<close>): episodes of insiders buying together.

  The account side decides what a viewer gets and what is sent to them:

    \<^item> \<open>Entitlements\<close> (\<open>app/accounts/entitlements.py\<close>, \<open>app/db/models/plan.py\<close>) resolves a key for a viewer, \<open>Gates\<close>
      (\<open>app/api/entitlements.py\<close>) refuses what is past it, \<open>Usage\<close> (\<open>app/accounts/usage.py\<close>) meters calls.
    \<^item> \<open>Paddle\<close> (\<open>app/accounts/paddle.py\<close>) is the wire to the payment provider; \<open>Billing\<close>, \<open>Subscriptions\<close> and \<open>Dunning\<close>
      (\<open>app/accounts/billing.py\<close>) the tables it keeps up to date, over any order of deliveries and jobs; \<open>BillingRoutes\<close>
      (\<open>app/api/routers/billing.py\<close>) the routes. A grant read from these tables is what \<open>Entitlements\<close> resolves.
    \<^item> \<open>Sessions\<close> (\<open>app/accounts/sessions.py\<close>, \<open>activity.py\<close>): who a request is from. State \<open>session_store\<close>, the keys of Redis with
      their expiries, and \<open>account_token\<close> rows; \<open>session_step\<close> is any request's next call to Redis.
    \<^item> \<open>AlertRules\<close> (\<open>app/accounts/alert_rules.py\<close>) and \<open>Outbox\<close> (\<open>app/alerts/outbox.py\<close>): what a follow turns on, and
      what of the waiting alerts is emailed now.
    \<^item> \<open>Periods\<close>, \<open>RateLimit\<close> (\<open>app/core\<close>) and \<open>Pagination\<close> (\<open>app/api/pagination.py\<close>) serve them all; \<open>Prelude\<close>, \<open>Calendar\<close>
      and \<open>Text\<close> hold the parts of Python's strings, dates and JSON the code uses.

  \<^bold>\<open>How code becomes definitions.\<close> A dataclass or a row of a table is a \<open>record\<close>, an enum a \<open>datatype\<close>; names are
  the code's where HOL leaves them free, with a prefix of two letters on the fields of a record. A query is a function
  of the tables it reads, which are lists in insertion order where the order or an id matters (accounts, loader) and sets of
  rows where a primary key makes them so (derived tables). What raises returns a sum type. A transaction that fails leaves
  its tables as they were. Code that locks a row is one step; code that does not is given both composed and as the steps
  between which others run (\<open>usage_step\<close>, \<open>session_step\<close>). Integers of Python are \<open>int\<close>; \<open>numeric\<close> and \<open>float\<close> are exact rationals, rounded
  where a column or the decimal context rounds; strings are Latin-1. A loop without a structural measure carries its
  own termination proof (\<open>num_digits\<close>), takes the readings of the clock it is given (\<open>acquire\<close>), or, where its
  end depends on a table that may change, takes that table as it is at each turn: a client's \<open>walk\<close> of \<open>Pagination\<close> goes
  over a list of tables, one a page, and \<open>walk_is_listing\<close> shows that as many pages as the rows fill are enough.

  \<^bold>\<open>Interfaces.\<close> \<open>machine\<close> and \<open>total_machine\<close> (\<open>Prelude\<close>) are the contract of a component with state; billing,
  the rate limits, the catalog, the sessions and the loader interpret them on their own step functions, and the metering
  of usage, where any processes interleave, is the inductive relation \<open>usage_step\<close> with its invariant over runs. What the outbox
  sends is a function of a history of events (\<open>mailed\<close>, \<open>recorded\<close>), so a row forgotten later still counts. \<open>derived_table\<close> (\<open>Scopes\<close>) is
  the contract of a derived table, that rebuilding some keys leaves what a full rebuild would; each of the four interprets
  it on its query, and \<open>Recompute\<close> composes them.

  \<^bold>\<open>What is shown.\<close> Billing: the rows follow the newest event however events arrive, redelivery is harmless, the table's
  rules hold over all histories, a dunning email goes once, a deleted account stops paying. Webhooks: only what is signed
  changes a table. Derived data: an incremental rebuild equals a full one; a rebuild passes every invariant of
  reconciliation on its tables, leaving only views not refreshed to find, and passing them pins the changes, all but what
  no invariant compares; positions, changes and splits add up and have their evidence; suspect
  periods are withheld. Ingestion: no element is lost, the verdict of the guards is exactly what they found, loading again
  leaves the same rows, each as often. Clusters are the connected components of overlapping windows. Pagination: no row twice, none missed,
  cursors of every type of key round-trip. Accounts: the precedence of grants, a kept grant resolving as its rows would, the windows of a plan, quotas under any interleaving, never more emails in
  a day than the cap, one digest an evening, no item in two emails, sessions that end for good and links that work once. Names ending in \<open>_witness\<close> apply a property at a concrete input. Several lemmas exhibit inputs on which the code
  does not do what it says: \<open>Dunning.late_past_due_downgrades_paid_account\<close>, \<open>Splits.exact_can_exceed_agreeing\<close>,
  \<open>Usage.slow_flush_loses_count\<close>, \<open>Gates.require_day_zero_window\<close>, \<open>Recompute.split_keys_miss_odd_period\<close>, \<open>Paddle.non_ascii_signature_raises\<close>, \<open>Normalisation.absurd_value_raises\<close>,
  \<open>ThirteenF.negative_number_is_a_cik\<close>, \<open>Reconcile.null_previous_value_unseen\<close>, \<open>Pagination.oversized_integer_is_a_position\<close>,
  \<open>Sessions.grant_read_before_change_survives\<close>, \<open>Sessions.overlapping_issues_leave_two\<close>.

  \<^bold>\<open>Parameters.\<close> What is not under \<open>src/\<close> is an argument: the digest of \<open>hashlib\<close> and \<open>hmac\<close>, \<open>json.loads\<close>,
  \<open>datetime.fromisoformat\<close>, a JSON codec, Paddle's answers, the tree or the events lxml gives of a document, the wall clock
  of a time zone, a regular expression over footnotes, and the rows of the materialised views. Hypotheses on them are stated
  where they are used and met by a concrete function in the witness. Row locks and advisory locks are the order of the steps;
  \<open>exp(sum(ln(x)))\<close> rounded is the product; the theorems on rebuilds assume reports dated at quarter ends where they say so.

  \<^bold>\<open>Not modelled.\<close> The command line, wiring, configuration, logging and headers; the read routes and exports, which put one query
  into a schema; the screener and its SQL; the admin console; the wording and delivery of mail; the queries that raise alerts; the EDGAR
  client, discovery, enrichment and the House and Senate sources, which are I/O and heuristics over third-party formats; Form 4's parser
  and loader, of the shape of the 13F's; job declarations; the SQL of the views; storage and migrations. \<open>PROJECT.json\<close> lists them.
\<close>

end
